(* ===== verification/Prelude.thy ===== *)
theory Prelude
  imports Main "HOL-Library.Word"
begin

unbundle bit_operations_syntax

text \<open>
  Shared material of the xv6 development: the machine types, the monad in which kernel
  code is written, little-endian encodings of integers as bytes, and the generic lemmas
  the component theories use.

  Kernel code runs in \<open>('s, 'a) M\<close>: a function of the state and of a schedule.  The
  schedule is the list of interferences the running thread will meet.  Each element is
  what the rest of the system does to the state while the thread is not running: one
  element is consumed whenever the thread gives up the processor (\<open>swtch\<close>) and whenever
  it spins on a lock that someone else holds.  A run ends in one of three ways: it
  returns (\<open>Done\<close>, with the unused part of the schedule), it calls \<open>panic()\<close>
  (\<open>Panic\<close>, with the message), or the schedule ends while the thread is still waiting
  (\<open>Stuck\<close>).  A null pointer dereferenced by the kernel faults and \<open>kerneltrap()\<close>
  panics, so it is a \<open>Panic\<close> too.
\<close>

type_synonym byte = "8 word"
type_synonym addr = "64 word"
type_synonym memory = "addr \<Rightarrow> byte"

section \<open>The kernel monad\<close>

datatype ('s, 'a) res =
    Done 'a 's "('s \<Rightarrow> 's) list"
  | Panic string
  | Stuck 's

type_synonym ('s, 'a) M = "'s \<Rightarrow> ('s \<Rightarrow> 's) list \<Rightarrow> ('s, 'a) res"

definition returnM :: "'a \<Rightarrow> ('s, 'a) M" where
  "returnM x = (\<lambda>s es. Done x s es)"

definition doM :: "('s, 'a) M \<Rightarrow> ('a \<Rightarrow> ('s, 'b) M) \<Rightarrow> ('s, 'b) M" where
  "doM m k = (\<lambda>s es. case m s es of
      Done x s' es' \<Rightarrow> k x s' es'
    | Panic e \<Rightarrow> Panic e
    | Stuck s' \<Rightarrow> Stuck s')"

definition panic :: "string \<Rightarrow> ('s, 'a) M" where
  "panic msg = (\<lambda>s es. Panic msg)"

definition getsM :: "('s \<Rightarrow> 'a) \<Rightarrow> ('s, 'a) M" where
  "getsM f = (\<lambda>s es. Done (f s) s es)"

definition modifyM :: "('s \<Rightarrow> 's) \<Rightarrow> ('s, unit) M" where
  "modifyM f = (\<lambda>s es. Done () (f s) es)"

definition whenM :: "bool \<Rightarrow> ('s, unit) M \<Rightarrow> ('s, unit) M" where
  "whenM b m = (if b then m else returnM ())"

text \<open>A block of statements, run in order.\<close>

fun seqM :: "('s, unit) M list \<Rightarrow> ('s, unit) M" where
  "seqM [] = returnM ()"
| "seqM (m # ms) = doM m (\<lambda>_. seqM ms)"

text \<open>A \<open>for\<close> loop over given index values, without an early exit.\<close>

fun forM :: "'i list \<Rightarrow> ('i \<Rightarrow> ('s, unit) M) \<Rightarrow> ('s, unit) M" where
  "forM [] f = returnM ()"
| "forM (i # is) f = doM (f i) (\<lambda>_. forM is f)"

text \<open>A \<open>for\<close> loop that may be left early with a result.\<close>

fun exitM :: "'i list \<Rightarrow> ('i \<Rightarrow> ('s, 'a option) M) \<Rightarrow> ('s, 'a option) M" where
  "exitM [] f = returnM None"
| "exitM (i # is) f = doM (f i) (\<lambda>r. case r of None \<Rightarrow> exitM is f | Some x \<Rightarrow> returnM (Some x))"

lemma returnM_apply [simp]: "returnM x s es = Done x s es"
  by (simp add: returnM_def)

lemma doM_apply [simp]:
  "doM m k s es = (case m s es of Done x s' es' \<Rightarrow> k x s' es' | Panic e \<Rightarrow> Panic e | Stuck s' \<Rightarrow> Stuck s')"
  by (simp add: doM_def)

lemma panic_apply [simp]: "panic msg s es = Panic msg"
  by (simp add: panic_def)

lemma getsM_apply [simp]: "getsM f s es = Done (f s) s es"
  by (simp add: getsM_def)

lemma modifyM_apply [simp]: "modifyM f s es = Done () (f s) es"
  by (simp add: modifyM_def)

lemma whenM_apply [simp]: "whenM b m s es = (if b then m s es else Done () s es)"
  by (simp add: whenM_def)

lemma case_res_Done:
  "(case r of Done x s es \<Rightarrow> f x s es | Panic e \<Rightarrow> Panic e | Stuck t \<Rightarrow> Stuck t) = Done y u fs \<longleftrightarrow>
     (\<exists>x s es. r = Done x s es \<and> f x s es = Done y u fs)"
  by (cases r) auto

lemma doM_DoneE:
  assumes "doM m k s es = Done y s' es'"
  obtains x s1 es1 where "m s es = Done x s1 es1" "k x s1 es1 = Done y s' es'"
  using assms by (auto simp: case_res_Done)

lemma seqM_append: "seqM (ms @ ns) s es = doM (seqM ms) (\<lambda>_. seqM ns) s es"
proof (induction ms arbitrary: s es)
  case (Cons m ms)
  then show ?case by (cases "m s es") auto
qed simp

text \<open>
  A general loop.  The body gets the loop variables and either continues with new ones
  (\<open>Inl\<close>) or leaves the loop with a result (\<open>Inr\<close>).  The first argument bounds the number
  of iterations; running out of it is \<open>Stuck\<close>.  \<open>waitM\<close> supplies the bound for loops that
  give up the processor: \<open>k\<close> iterations that do not block, plus one per interference.
\<close>

fun iterM :: "nat \<Rightarrow> ('v \<Rightarrow> ('s, 'v + 'a) M) \<Rightarrow> 'v \<Rightarrow> ('s, 'a) M" where
  "iterM 0 f x = (\<lambda>s es. Stuck s)"
| "iterM (Suc n) f x = doM (f x) (\<lambda>r. case r of Inl y \<Rightarrow> iterM n f y | Inr z \<Rightarrow> returnM z)"

definition waitM :: "nat \<Rightarrow> ('v \<Rightarrow> ('s, 'v + 'a) M) \<Rightarrow> 'v \<Rightarrow> ('s, 'a) M" where
  "waitM k f x = (\<lambda>s es. iterM (Suc (k + length es)) f x s es)"

section \<open>Weakest preconditions\<close>

text \<open>
  \<open>wp m s es Q\<close>: \<open>m\<close>, run from \<open>s\<close> with schedule \<open>es\<close>, returns, and its result, final
  state and remaining schedule satisfy \<open>Q\<close> (total correctness: neither \<open>Panic\<close> nor
  \<open>Stuck\<close>).  Each component proves rules for its operations in this form; a caller's
  proof is then symbolic execution by the rules.
\<close>

definition wp :: "('s, 'a) M \<Rightarrow> 's \<Rightarrow> ('s \<Rightarrow> 's) list \<Rightarrow> ('a \<Rightarrow> 's \<Rightarrow> ('s \<Rightarrow> 's) list \<Rightarrow> bool) \<Rightarrow> bool" where
  "wp m s es Q \<longleftrightarrow> (case m s es of Done x t fs \<Rightarrow> Q x t fs | Panic e \<Rightarrow> False | Stuck t \<Rightarrow> False)"

lemma wp_iff: "wp m s es Q \<longleftrightarrow> (\<exists>x t fs. m s es = Done x t fs \<and> Q x t fs)"
  by (cases "m s es") (auto simp: wp_def)

lemma wp_unitD: "wp m s es (\<lambda>_. Q) \<Longrightarrow> \<exists>t fs. m s es = Done () t fs \<and> Q t fs"
  by (auto simp: wp_iff)

lemma wp_DoneI: "m s es = Done x t fs \<Longrightarrow> Q x t fs \<Longrightarrow> wp m s es Q"
  by (simp add: wp_def)

lemma wp_mono: "wp m s es Q \<Longrightarrow> (\<And>x t fs. Q x t fs \<Longrightarrow> R x t fs) \<Longrightarrow> wp m s es R"
  by (auto simp: wp_iff)

lemma wp_simps [simp]:
  "wp (returnM x) s es Q = Q x s es"
  "wp (doM m k) s es Q = wp m s es (\<lambda>x t fs. wp (k x) t fs Q)"
  "wp (panic e) s es Q = False"
  "wp (getsM f) s es Q = Q (f s) s es"
  "wp (modifyM g) s es R = R () (g s) es"
  "wp (whenM b n) s es R = (if b then wp n s es R else R () s es)"
  "wp (seqM []) s es R = R () s es"
  "wp (seqM (n # ns)) s es R = wp n s es (\<lambda>_ t fs. wp (seqM ns) t fs R)"
  "wp (forM [] f') s es R = R () s es"
  "wp (forM (i # is) f') s es R = wp (f' i) s es (\<lambda>_ t fs. wp (forM is f') t fs R)"
  by (auto simp: wp_iff case_res_Done)

lemma wp_Done [simp]: "wp (Done x) s es Q = Q x s es"
  by (simp add: wp_def)

lemma wp_if [simp]: "wp (if b then m else n) s es Q = (if b then wp m s es Q else wp n s es Q)"
  by simp

lemma wp_iterM_Suc:
  "wp (iterM (Suc k) f x) s es Q = wp (f x) s es (\<lambda>r t fs. case r of Inl y \<Rightarrow> wp (iterM k f y) t fs Q | Inr z \<Rightarrow> Q z t fs)"
proof -
  have "wp (case r of Inl y \<Rightarrow> iterM k f y | Inr z \<Rightarrow> returnM z) t fs Q
      = (case r of Inl y \<Rightarrow> wp (iterM k f y) t fs Q | Inr z \<Rightarrow> Q z t fs)" for r t fs
    by (cases r) auto
  then show ?thesis unfolding iterM.simps wp_simps by presburger
qed

lemma wp_exitM_Cons:
  "wp (exitM (i # is) f) s es Q = wp (f i) s es (\<lambda>r t fs. case r of None \<Rightarrow> wp (exitM is f) t fs Q | Some x \<Rightarrow> Q (Some x) t fs)"
proof -
  have "wp (case r of None \<Rightarrow> exitM is f | Some x \<Rightarrow> returnM (Some x)) t fs Q
      = (case r of None \<Rightarrow> wp (exitM is f) t fs Q | Some x \<Rightarrow> Q (Some x) t fs)" for r t fs
    by (cases r) auto
  then show ?thesis unfolding exitM.simps wp_simps by presburger
qed

text \<open>A loop whose body keeps a family of assertions indexed by the work already done.\<close>

lemma wp_forM_inv:
  assumes "I [] s es"
    and "\<And>ds i rest t fs. is = ds @ i # rest \<Longrightarrow> I ds t fs \<Longrightarrow> wp (f i) t fs (\<lambda>_ u gs. I (ds @ [i]) u gs)"
    and "\<And>t fs. I is t fs \<Longrightarrow> Q () t fs"
  shows "wp (forM is f) s es Q"
proof -
  have "wp (forM rest f) t fs Q" if "is = ds @ rest" "I ds t fs" for ds rest t fs
    using that
  proof (induction rest arbitrary: ds t fs)
    case (Cons i rest)
    have "wp (f i) t fs (\<lambda>_ u gs. wp (forM rest f) u gs Q)"
      by (rule wp_mono [OF assms(2) [OF Cons.prems]]) (use Cons in simp)
    then show ?case by (rule wp_simps(10) [THEN iffD2])
  qed (simp add: assms(3))
  from this [of "[]" "is"] assms(1) show ?thesis by simp
qed

text \<open>The same for a loop with an early exit.\<close>

lemma wp_exitM_inv:
  assumes "I [] s es"
    and "\<And>ds i rest t fs. is = ds @ i # rest \<Longrightarrow> I ds t fs \<Longrightarrow>
      wp (f i) t fs (\<lambda>r u gs. case r of None \<Rightarrow> I (ds @ [i]) u gs | Some x \<Rightarrow> Q (Some x) u gs)"
    and "\<And>t fs. I is t fs \<Longrightarrow> Q None t fs"
  shows "wp (exitM is f) s es Q"
proof -
  have "wp (exitM rest f) t fs Q" if "is = ds @ rest" "I ds t fs" for ds rest t fs
    using that
  proof (induction rest arbitrary: ds t fs)
    case (Cons i rest)
    have "wp (f i) t fs (\<lambda>r u gs. wp (case r of None \<Rightarrow> exitM rest f | Some x \<Rightarrow> returnM (Some x)) u gs Q)"
      by (rule wp_mono [OF assms(2) [OF Cons.prems]]) (use Cons in \<open>auto split: option.splits\<close>)
    then show ?case unfolding exitM.simps by (rule wp_simps(2) [THEN iffD2])
  qed (simp add: assms(3))
  from this [of "[]" "is"] assms(1) show ?thesis by simp
qed

text \<open>A loop with an invariant and a measure that every continuing iteration decreases.\<close>

lemma wp_iterM:
  assumes "I x s es" "\<mu> x s es < n"
    and "\<And>x s es. I x s es \<Longrightarrow> wp (f x) s es (\<lambda>r t fs. case r of
        Inl y \<Rightarrow> I y t fs \<and> \<mu> y t fs < \<mu> x s es | Inr z \<Rightarrow> Q z t fs)"
  shows "wp (iterM n f x) s es Q"
  using assms(1,2)
proof (induction n arbitrary: x s es)
  case (Suc n)
  have "wp (f x) s es (\<lambda>r t fs. wp (case r of Inl y \<Rightarrow> iterM n f y | Inr z \<Rightarrow> returnM z) t fs Q)"
  proof (rule wp_mono [OF assms(3) [OF Suc.prems(1)]])
    fix r t fs
    assume "case r of Inl y \<Rightarrow> I y t fs \<and> \<mu> y t fs < \<mu> x s es | Inr z \<Rightarrow> Q z t fs"
    then show "wp (case r of Inl y \<Rightarrow> iterM n f y | Inr z \<Rightarrow> returnM z) t fs Q"
      using Suc by (cases r) auto
  qed
  then show ?case unfolding iterM.simps by (rule wp_simps(2) [THEN iffD2])
qed simp

lemma wp_waitM_iff: "wp (waitM k f x) s es Q = wp (iterM (Suc (k + length es)) f x) s es Q"
  by (simp only: waitM_def wp_def)

lemma wp_waitM:
  assumes "I x s es" "\<mu> x s es \<le> k + length es"
    and "\<And>x s es. I x s es \<Longrightarrow> wp (f x) s es (\<lambda>r t fs. case r of
        Inl y \<Rightarrow> I y t fs \<and> \<mu> y t fs < \<mu> x s es | Inr z \<Rightarrow> Q z t fs)"
  shows "wp (waitM k f x) s es Q"
proof -
  have "wp (iterM (Suc (k + length es)) f x) s es Q"
    by (rule wp_iterM [where I = I and \<mu> = \<mu>, OF assms(1) _ assms(3)]) (use assms(2) in simp)
  then show ?thesis by (simp only: wp_waitM_iff)
qed

text \<open>The two other outcomes: waiting for ever in a state with \<open>R\<close>, and a given panic.\<close>

definition stuck :: "('s, 'a) M \<Rightarrow> 's \<Rightarrow> ('s \<Rightarrow> 's) list \<Rightarrow> ('s \<Rightarrow> bool) \<Rightarrow> bool" where
  "stuck m s es R \<longleftrightarrow> (\<exists>t. m s es = Stuck t \<and> R t)"

definition fails :: "('s, 'a) M \<Rightarrow> 's \<Rightarrow> ('s \<Rightarrow> 's) list \<Rightarrow> string \<Rightarrow> bool" where
  "fails m s es e \<longleftrightarrow> m s es = Panic e"

lemma stuck_doM:
  "stuck m s es R \<Longrightarrow> stuck (doM m k) s es R"
  "wp m s es (\<lambda>x t fs. stuck (k x) t fs R) \<Longrightarrow> stuck (doM m k) s es R"
  "stuck n s es R \<Longrightarrow> stuck (seqM (n # ns)) s es R"
  "wp n s es (\<lambda>x t fs. stuck (seqM ns) t fs R) \<Longrightarrow> stuck (seqM (n # ns)) s es R"
  by (auto simp: stuck_def wp_iff)

lemma fails_doM:
  "fails m s es e \<Longrightarrow> fails (doM m k) s es e"
  "wp m s es (\<lambda>x t fs. fails (k x) t fs e) \<Longrightarrow> fails (doM m k) s es e"
  "fails n s es e \<Longrightarrow> fails (seqM (n # ns)) s es e"
  "wp n s es (\<lambda>x t fs. fails (seqM ns) t fs e) \<Longrightarrow> fails (seqM (n # ns)) s es e"
  by (auto simp: fails_def wp_iff)

lemma fails_simps [simp]:
  "fails (panic e) s es e' \<longleftrightarrow> e' = e"
  "fails (whenM b n) s es e' \<longleftrightarrow> b \<and> fails n s es e'"
  "fails (returnM x) s es e' \<longleftrightarrow> False"
  by (auto simp: fails_def)

section \<open>Bytes and little-endian integers\<close>

fun le_bytes :: "nat \<Rightarrow> 'a::len word \<Rightarrow> byte list" where
  "le_bytes 0 v = []"
| "le_bytes (Suc n) v = ucast v # le_bytes n (drop_bit 8 v)"

fun le_word :: "byte list \<Rightarrow> 'a::len word" where
  "le_word [] = 0"
| "le_word (b # bs) = ucast b OR push_bit 8 (le_word bs)"

lemma length_le_bytes [simp]: "length (le_bytes n v) = n"
  by (induction n v rule: le_bytes.induct) auto

lemma le_word_le_bytes_take: "le_word (le_bytes n v) = take_bit (8 * n) v"
proof (induction n arbitrary: v)
  case 0
  then show ?case by simp
next
  case (Suc n)
  show ?case
    by (rule bit_word_eqI)
       (auto simp: Suc.IH bit_or_iff bit_push_bit_iff bit_take_bit_iff bit_drop_bit_eq bit_ucast_iff)
qed

lemma le_word_le_bytes [simp]:
  fixes v :: "'a::len word"
  assumes "LENGTH('a) \<le> 8 * n"
  shows "le_word (le_bytes n v) = v"
  using assms by (simp add: le_word_le_bytes_take take_bit_word_eq_self)

end
