(* ===== verification/Spinlock.thy ===== *)
theory Spinlock
  imports Prelude
begin

text \<open>
  \<^verbatim>\<open>kernel/spinlock.c\<close>, the interrupt-enable bit of \<^verbatim>\<open>kernel/riscv.h\<close> and the per-CPU
  part of \<^verbatim>\<open>kernel/proc.h\<close> and \<^verbatim>\<open>kernel/proc.c\<close>.  The record \<open>base\<close> is the part of
  the kernel state every component shares; the other components extend it.  Kernel
  objects that the code names by address are named here by the constructors of
  \<open>lockid\<close>, \<open>slockid\<close> and \<open>chan\<close>.  The nesting count \<open>noff\<close>
  is an unbounded integer: it counts the locks a hart holds, a handful.  The theory proves what each
  operation does, the contract of \<open>acquire\<close>/\<open>release\<close> that the
  rest of the kernel uses, and mutual exclusion between harts.
\<close>

section \<open>State\<close>

datatype slockid = BufLock nat | InodeLock nat

datatype lockid =
    KmemLock | PidLock | WaitLock | ProcLock nat | BcacheLock | SleepLk slockid | LogLock
  | ItableLock | FtableLock | PipeLock addr | ConsLock | UartTxLock | TicksLock | PrLock
  | VdiskLock

record spinlock =
  locked :: "32 word"
  lname :: string
  lcpu :: "nat option"

record cpu =
  cproc :: "nat option"
  noff :: int
  intena :: bool

record base =
  hart :: nat
  cpus :: "nat \<Rightarrow> cpu"
  sstatus :: "nat \<Rightarrow> 64 word"
  locks :: "lockid \<Rightarrow> spinlock"

section \<open>Interrupt enable bit and per-CPU state\<close>

definition SSTATUS_SPP :: "64 word" where "SSTATUS_SPP = push_bit 8 1"
definition SSTATUS_SPIE :: "64 word" where "SSTATUS_SPIE = push_bit 5 1"
definition SSTATUS_SIE :: "64 word" where "SSTATUS_SIE = push_bit 1 1"

definition r_sstatus :: "('x base_scheme, 64 word) M" where
  "r_sstatus = getsM (\<lambda>s. sstatus s (hart s))"

definition w_sstatus :: "64 word \<Rightarrow> ('x base_scheme, unit) M" where
  "w_sstatus x = modifyM (\<lambda>s. s\<lparr>sstatus := (sstatus s)(hart s := x)\<rparr>)"

definition intr_on :: "('x base_scheme, unit) M" where
  "intr_on = doM r_sstatus (\<lambda>x. w_sstatus (x OR SSTATUS_SIE))"

definition intr_off :: "('x base_scheme, unit) M" where
  "intr_off = doM r_sstatus (\<lambda>x. w_sstatus (x AND NOT SSTATUS_SIE))"

definition intr_get :: "('x base_scheme, bool) M" where
  "intr_get = doM r_sstatus (\<lambda>x. returnM (x AND SSTATUS_SIE \<noteq> 0))"

definition cpuid :: "('x base_scheme, nat) M" where
  "cpuid = getsM hart"

definition upd_mycpu :: "(cpu \<Rightarrow> cpu) \<Rightarrow> ('x base_scheme, unit) M" where
  "upd_mycpu f = modifyM (\<lambda>s. s\<lparr>cpus := (cpus s)(hart s := f (cpus s (hart s)))\<rparr>)"

definition mycpu :: "('x base_scheme, cpu) M" where
  "mycpu = doM cpuid (\<lambda>i. getsM (\<lambda>s. cpus s i))"

section \<open>spinlock.c\<close>

definition push_off :: "('x base_scheme, unit) M" where
  "push_off = doM intr_get (\<lambda>old.
     doM intr_off (\<lambda>_.
     doM mycpu (\<lambda>c.
     doM (whenM (noff c = 0) (upd_mycpu (\<lambda>c. c\<lparr>intena := old\<rparr>))) (\<lambda>_.
     upd_mycpu (\<lambda>c. c\<lparr>noff := noff c + 1\<rparr>)))))"

definition pop_off :: "('x base_scheme, unit) M" where
  "pop_off = doM intr_get (\<lambda>on.
     doM (whenM on (panic ''pop_off - interruptible'')) (\<lambda>_.
     doM mycpu (\<lambda>c.
     doM (whenM (noff c < 1) (panic ''pop_off'')) (\<lambda>_.
     doM (upd_mycpu (\<lambda>c. c\<lparr>noff := noff c - 1\<rparr>)) (\<lambda>_.
     whenM (noff c - 1 = 0 \<and> intena c) intr_on)))))"

definition initlock :: "lockid \<Rightarrow> string \<Rightarrow> ('x base_scheme, unit) M" where
  "initlock l nm = modifyM (\<lambda>s. s\<lparr>locks := (locks s)(l := \<lparr>locked = 0, lname = nm, lcpu = None\<rparr>)\<rparr>)"

definition held_by :: "spinlock \<Rightarrow> nat \<Rightarrow> bool" where
  "held_by lk h \<longleftrightarrow> locked lk \<noteq> 0 \<and> lcpu lk = Some h"

definition holding :: "lockid \<Rightarrow> ('x base_scheme, bool) M" where
  "holding l = doM cpuid (\<lambda>h. getsM (\<lambda>s. held_by (locks s l) h))"

definition upd_lock :: "lockid \<Rightarrow> (spinlock \<Rightarrow> spinlock) \<Rightarrow> ('x base_scheme, unit) M" where
  "upd_lock l f = modifyM (\<lambda>s. s\<lparr>locks := (locks s)(l := f (locks s l))\<rparr>)"

text \<open>
  The test-and-set loop of \<open>acquire\<close>.  While the swap returns a non-zero value the hart
  spins, and the rest of the system makes one step per turn.
\<close>

fun tas_loop :: "lockid \<Rightarrow> ('x base_scheme, unit) M" where
  "tas_loop l s [] =
     (if locked (locks s l) = 0 then upd_lock l (\<lambda>k. k\<lparr>locked := 1\<rparr>) s [] else Stuck s)"
| "tas_loop l s (e # es) =
     (if locked (locks s l) = 0 then upd_lock l (\<lambda>k. k\<lparr>locked := 1\<rparr>) s (e # es)
      else tas_loop l (e s) es)"

definition acquire :: "lockid \<Rightarrow> ('x base_scheme, unit) M" where
  "acquire l = doM push_off (\<lambda>_.
     doM (holding l) (\<lambda>h.
     doM (whenM h (panic ''acquire'')) (\<lambda>_.
     doM (tas_loop l) (\<lambda>_.
     doM cpuid (\<lambda>i. upd_lock l (\<lambda>k. k\<lparr>lcpu := Some i\<rparr>))))))"

definition release :: "lockid \<Rightarrow> ('x base_scheme, unit) M" where
  "release l = doM (holding l) (\<lambda>h.
     doM (whenM (\<not> h) (panic ''release'')) (\<lambda>_.
     doM (upd_lock l (\<lambda>k. k\<lparr>lcpu := None\<rparr>)) (\<lambda>_.
     doM (upd_lock l (\<lambda>k. k\<lparr>locked := 0\<rparr>)) (\<lambda>_.
     pop_off))))"

text \<open>\<open>myproc()\<close> of \<^verbatim>\<open>proc.c\<close>: the process running on this CPU, or null.\<close>

definition myproc :: "('x base_scheme, nat option) M" where
  "myproc = doM push_off (\<lambda>_.
     doM mycpu (\<lambda>c.
     doM pop_off (\<lambda>_.
     returnM (cproc c))))"

section \<open>What the operations do\<close>

abbreviation sie :: "'x base_scheme \<Rightarrow> bool" where
  "sie s \<equiv> sstatus s (hart s) AND SSTATUS_SIE \<noteq> 0"

abbreviation me :: "'x base_scheme \<Rightarrow> cpu" where
  "me s \<equiv> cpus s (hart s)"

definition cur :: "'x base_scheme \<Rightarrow> nat option" where
  "cur s = cproc (me s)"

lemma sie_bits [simp]:
  "(x AND NOT SSTATUS_SIE) AND SSTATUS_SIE = 0"
  "(x OR SSTATUS_SIE) AND SSTATUS_SIE \<noteq> 0"
  "(x AND NOT SSTATUS_SIE) OR SSTATUS_SIE = x OR SSTATUS_SIE"
proof -
  show "(x AND NOT SSTATUS_SIE) AND SSTATUS_SIE = 0"
    by (rule bit_word_eqI) (auto simp: bit_simps)
  show "(x AND NOT SSTATUS_SIE) OR SSTATUS_SIE = x OR SSTATUS_SIE"
    by (rule bit_word_eqI) (auto simp: bit_simps)
  have "bit ((x OR SSTATUS_SIE) AND SSTATUS_SIE) 1"
    by (simp add: SSTATUS_SIE_def bit_simps)
  then show "(x OR SSTATUS_SIE) AND SSTATUS_SIE \<noteq> 0"
    by (metis bit_0_eq bot_apply bot_bool_def)
qed

lemma sie_set_same: "x AND SSTATUS_SIE \<noteq> 0 \<Longrightarrow> x OR SSTATUS_SIE = x"
proof -
  assume nz: "x AND SSTATUS_SIE \<noteq> 0"
  then obtain n where "bit (x AND SSTATUS_SIE) n"
    by (metis bit_eqI bit_0_eq bot_apply bot_bool_def)
  then have "bit x 1"
    by (auto simp: SSTATUS_SIE_def bit_simps split: if_splits)
  then show ?thesis
    by (intro bit_word_eqI) (auto simp: SSTATUS_SIE_def bit_simps)
qed

lemma sie_clear_same: "x AND SSTATUS_SIE = 0 \<Longrightarrow> x AND NOT SSTATUS_SIE = x"
proof -
  assume z: "x AND SSTATUS_SIE = 0"
  have "\<not> bit x 1"
  proof
    assume "bit x 1"
    then have "bit (x AND SSTATUS_SIE) 1" by (simp add: SSTATUS_SIE_def bit_simps)
    with z show False by simp
  qed
  then show ?thesis
    by (intro bit_word_eqI) (auto simp: SSTATUS_SIE_def bit_simps)
qed

lemmas intr_defs = intr_on_def intr_off_def intr_get_def r_sstatus_def w_sstatus_def
lemmas cpu_defs = cpuid_def upd_mycpu_def mycpu_def

text \<open>The state after \<open>push_off\<close>.\<close>

definition pushed :: "'x base_scheme \<Rightarrow> 'x base_scheme" where
  "pushed s = s\<lparr>sstatus := (sstatus s)(hart s := sstatus s (hart s) AND NOT SSTATUS_SIE),
       cpus := (cpus s)(hart s := (me s)\<lparr>noff := noff (me s) + 1,
          intena := (if noff (me s) = 0 then sie s else intena (me s))\<rparr>)\<rparr>"

lemma push_off_eq: "push_off s es = Done () (pushed s) es"
  by (auto simp: push_off_def pushed_def intr_defs cpu_defs intro!: base.equality)

text \<open>The state after \<open>pop_off\<close>, when it does not panic.\<close>

definition popped :: "'x base_scheme \<Rightarrow> 'x base_scheme" where
  "popped s = s\<lparr>sstatus := (sstatus s)(hart s :=
          (if noff (me s) = 1 \<and> intena (me s) then sstatus s (hart s) OR SSTATUS_SIE
           else sstatus s (hart s))),
       cpus := (cpus s)(hart s := (me s)\<lparr>noff := noff (me s) - 1\<rparr>)\<rparr>"

lemma pop_off_eq:
  "pop_off s es =
     (if sie s then Panic ''pop_off - interruptible''
      else if noff (me s) < 1 then Panic ''pop_off''
      else Done () (popped s) es)"
  by (auto simp: pop_off_def popped_def intr_defs cpu_defs intro!: base.equality)


lemma hart_pushed_popped [simp]: "hart (pushed s) = hart s" "hart (popped s) = hart s"
  by (simp_all add: pushed_def popped_def)

lemma locks_pushed_popped [simp]: "locks (pushed s) = locks s" "locks (popped s) = locks s"
  by (simp_all add: pushed_def popped_def)

lemma myproc_eq:
  assumes "0 \<le> noff (me s)"
  shows "myproc s es = Done (cur s) (popped (pushed s)) es"
  using assms
  by (simp add: myproc_def push_off_eq pop_off_eq cpu_defs cur_def) (simp add: pushed_def)

text \<open>The state after \<open>acquire\<close> of a free lock.\<close>

definition acquired :: "lockid \<Rightarrow> 'x base_scheme \<Rightarrow> 'x base_scheme" where
  "acquired l s = (pushed s)\<lparr>locks := (locks s)(l := (locks s l)\<lparr>locked := 1, lcpu := Some (hart s)\<rparr>)\<rparr>"

definition released :: "lockid \<Rightarrow> 'x base_scheme \<Rightarrow> 'x base_scheme" where
  "released l s = popped (s\<lparr>locks := (locks s)(l := (locks s l)\<lparr>lcpu := None, locked := 0\<rparr>)\<rparr>)"

lemma tas_loop_free:
  "locked (locks s l) = 0 \<Longrightarrow>
     tas_loop l s es = Done () (s\<lparr>locks := (locks s)(l := (locks s l)\<lparr>locked := 1\<rparr>)\<rparr>) es"
  by (cases es) (simp_all add: upd_lock_def)

lemma acquire_free:
  "locked (locks s l) = 0 \<Longrightarrow> acquire l s es = Done () (acquired l s) es"
  by (simp add: acquire_def push_off_eq holding_def cpu_defs held_by_def tas_loop_free
      upd_lock_def acquired_def)

lemma acquire_held: "held_by (locks s l) (hart s) \<Longrightarrow> acquire l s es = Panic ''acquire''"
  by (simp add: acquire_def push_off_eq holding_def cpu_defs)

lemma release_eq:
  "release l s es =
     (if \<not> held_by (locks s l) (hart s) then Panic ''release''
      else if sie s then Panic ''pop_off - interruptible''
      else if noff (me s) < 1 then Panic ''pop_off''
      else Done () (released l s) es)"
  by (simp add: release_def holding_def cpu_defs upd_lock_def pop_off_eq released_def)

text \<open>The atomic swap, as a state update.\<close>

definition take_lock :: "lockid \<Rightarrow> 'x base_scheme \<Rightarrow> 'x base_scheme" where
  "take_lock l s = s\<lparr>locks := (locks s)(l := (locks s l)\<lparr>locked := 1\<rparr>)\<rparr>"

text \<open>
  A contended \<open>acquire\<close>: the loop returns only after interferences that made the lock
  free, and takes it then.
\<close>

lemma tas_loop_DoneD:
  "tas_loop l s es = Done u t es' \<Longrightarrow>
     \<exists>k w. k \<le> length es \<and> es' = drop k es \<and> w = fold (\<lambda>e. e) (take k es) s \<and>
        locked (locks w l) = 0 \<and> t = take_lock l w \<and>
        (\<forall>j<k. locked (locks (fold (\<lambda>e. e) (take j es) s) l) \<noteq> 0)"
proof (induction l s es rule: tas_loop.induct)
  case (1 l s)
  then show ?case by (simp add: upd_lock_def take_lock_def split: if_split_asm)
next
  case (2 l s e es)
  show ?case
  proof (cases "locked (locks s l) = 0")
    case True
    with 2 have "t = take_lock l s" "es' = e # es"
      by (auto simp: upd_lock_def take_lock_def)
    with True show ?thesis by (intro exI [of _ 0] exI [of _ s]) simp
  next
    case False
    with 2 obtain k w where k: "k \<le> length es" "es' = drop k es"
      "w = fold (\<lambda>e. e) (take k es) (e s)" "locked (locks w l) = 0" "t = take_lock l w"
      "\<forall>j<k. locked (locks (fold (\<lambda>e. e) (take j es) (e s)) l) \<noteq> 0"
      by auto
    have "\<forall>j<Suc k. locked (locks (fold (\<lambda>e. e) (take j (e # es)) s) l) \<noteq> 0"
      using k(6) False by (auto simp: less_Suc_eq_0_disj)
    with k show ?thesis by (intro exI [of _ "Suc k"] exI [of _ w]) simp
  qed
qed

section \<open>The locking contract\<close>

text \<open>
  \<open>lkb L P h c st l\<close>: hart \<open>h\<close> holds exactly the spinlocks \<open>L\<close> and nobody else holds any, the
  nesting count and the interrupt flag agree with \<open>L\<close>, and hart \<open>h'\<close> runs process \<open>P h'\<close>.
  The operations below keep everything else in the state; their rules name the new values
  \<open>c\<close>, \<open>st\<close>, \<open>l\<close> of the three bookkeeping fields.
\<close>

definition lkb :: "lockid list \<Rightarrow> (nat \<Rightarrow> nat option) \<Rightarrow> nat \<Rightarrow> (nat \<Rightarrow> cpu) \<Rightarrow> (nat \<Rightarrow> 64 word) \<Rightarrow>
    (lockid \<Rightarrow> spinlock) \<Rightarrow> bool" where
  "lkb L P h c st l \<longleftrightarrow> distinct L \<and> noff (c h) = int (length L) \<and>
     (L \<noteq> [] \<longrightarrow> st h AND SSTATUS_SIE = 0) \<and> (\<forall>h'. cproc (c h') = P h') \<and>
     (\<forall>k. if k \<in> set L then locked (l k) = 1 \<and> lcpu (l k) = Some h
          else locked (l k) = 0 \<and> lcpu (l k) = None)"

abbreviation lkst :: "lockid list \<Rightarrow> (nat \<Rightarrow> nat option) \<Rightarrow> 'x base_scheme \<Rightarrow> bool" where
  "lkst L P s \<equiv> lkb L P (hart s) (cpus s) (sstatus s) (locks s)"

lemma lkb_distinct: "lkb L P h c st l \<Longrightarrow> distinct L"
  by (simp add: lkb_def)

lemma lkb_free: "lkb L P h c st l \<Longrightarrow> k \<notin> set L \<Longrightarrow> locked (l k) = 0"
  by (simp add: lkb_def)

lemma lkb_held_iff: "lkb L P h c st l \<Longrightarrow> held_by (l k) h \<longleftrightarrow> k \<in> set L"
  by (auto simp: lkb_def held_by_def split: if_splits)

lemma lkb_cproc: "lkb L P h c st l \<Longrightarrow> cproc (c h') = P h'"
  by (simp add: lkb_def)

lemma lkst_acquired: "lkst L P s \<Longrightarrow> k \<notin> set L \<Longrightarrow> lkst (k # L) P (acquired k s)"
  by (auto simp: lkb_def acquired_def pushed_def)

lemma remove1_Nil_iff: "l \<in> set L \<Longrightarrow> remove1 l L = [] \<longleftrightarrow> length L = 1"
  by (metis One_nat_def Suc_pred diff_Suc_1 length_0_conv length_pos_if_in_set length_remove1)

lemma lkst_released:
  assumes "lkst L P s" "k \<in> set L"
  shows "lkst (remove1 k L) P (released k s)"
proof -
  have "int (length L - Suc 0) = int (length L) - 1" using assms(2) by (cases L) auto
  with assms show ?thesis
    by (auto simp: lkb_def released_def popped_def length_remove1 remove1_Nil_iff split: if_splits)
qed

lemma lkst_pushed_popped: "lkst L P s \<Longrightarrow> lkst L P (popped (pushed s))"
  by (auto simp: lkb_def pushed_def popped_def)

lemma bookkeeping_only:
  "acquired k s = s\<lparr>cpus := cpus (acquired k s), sstatus := sstatus (acquired k s), locks := locks (acquired k s)\<rparr>"
  "released k s = s\<lparr>cpus := cpus (released k s), sstatus := sstatus (released k s), locks := locks (released k s)\<rparr>"
  "popped (pushed s) = s\<lparr>cpus := cpus (popped (pushed s)), sstatus := sstatus (popped (pushed s)),
     locks := locks (popped (pushed s))\<rparr>"
  by (auto simp: acquired_def released_def pushed_def popped_def intro!: base.equality)

lemma hart_acquired [simp]: "hart (acquired k s) = hart s" "hart (released k s) = hart s"
  by (simp_all add: acquired_def released_def)

lemma wp_initlock:
  assumes "lkst L P s" "k \<notin> set L"
    and "\<And>l. lkb L P (hart s) (cpus s) (sstatus s) l \<Longrightarrow> Q () (s\<lparr>locks := l\<rparr>) es"
  shows "wp (initlock k nm) s es Q"
  unfolding initlock_def wp_simps by (rule assms(3)) (use assms(1,2) in \<open>auto simp: lkb_def\<close>)

lemma wp_acquire:
  assumes lk: "lkst L P s" "k \<notin> set L"
    and Q: "\<And>c st l. lkb (k # L) P (hart s) c st l \<Longrightarrow> Q () (s\<lparr>cpus := c, sstatus := st, locks := l\<rparr>) es"
  shows "wp (acquire k) s es Q"
proof (rule wp_DoneI)
  show "acquire k s es = Done () (acquired k s) es"
    by (rule acquire_free) (rule lkb_free [OF lk])
  show "Q () (acquired k s) es"
    by (subst bookkeeping_only(1), rule Q) (use lkst_acquired [OF lk] in simp)
qed

lemma wp_release:
  assumes lk: "lkst L P s" "k \<in> set L"
    and Q: "\<And>c st l. lkb (remove1 k L) P (hart s) c st l \<Longrightarrow> Q () (s\<lparr>cpus := c, sstatus := st, locks := l\<rparr>) es"
  shows "wp (release k) s es Q"
proof (rule wp_DoneI)
  have "\<not> sie s" "1 \<le> noff (me s)"
    using lk by (auto simp: lkb_def) (metis One_nat_def Suc_leI length_pos_if_in_set of_nat_1 of_nat_le_iff)
  moreover have "held_by (locks s k) (hart s)" using lkb_held_iff [OF lk(1)] lk(2) by simp
  ultimately show "release k s es = Done () (released k s) es" by (simp add: release_eq)
  show "Q () (released k s) es"
    by (subst bookkeeping_only(2), rule Q) (use lkst_released [OF lk] in simp)
qed

lemma wp_holding: "lkst L P s \<Longrightarrow> Q (k \<in> set L) s es \<Longrightarrow> wp (holding k) s es Q"
  by (simp add: holding_def cpu_defs lkb_held_iff)

lemma wp_myproc:
  assumes lk: "lkst L P s"
    and Q: "\<And>c st l. lkb L P (hart s) c st l \<Longrightarrow> Q (P (hart s)) (s\<lparr>cpus := c, sstatus := st, locks := l\<rparr>) es"
  shows "wp myproc s es Q"
proof (rule wp_DoneI)
  show "myproc s es = Done (P (hart s)) (popped (pushed s)) es"
    using lk myproc_eq [of s es] by (simp add: lkb_def cur_def)
  show "Q (P (hart s)) (popped (pushed s)) es"
    by (subst bookkeeping_only(3), rule Q) (use lkst_pushed_popped [OF lk] in simp)
qed

lemmas wp_locks = wp_acquire wp_release wp_holding wp_myproc

section \<open>Properties\<close>

text \<open>A booted machine on hart 0 with no lock held, for concrete instances.\<close>

definition boot_base :: base where
  "boot_base = \<lparr>hart = 0, cpus = (\<lambda>_. \<lparr>cproc = None, noff = 0, intena = False\<rparr>),
     sstatus = (\<lambda>_. 2), locks = (\<lambda>_. \<lparr>locked = 0, lname = [], lcpu = None\<rparr>)\<rparr>"

text \<open>
  C29.  \<open>acquire\<close> takes a lock only when it is free: if it returns, then every
  interference it consumed met the lock still locked, the lock was free in the state
  those interferences led to, and it is now held by this hart with interrupts off.
\<close>

theorem acquire_waits_until_free:
  assumes "acquire l s es = Done u t es'"
  shows "\<exists>k. k \<le> length es \<and> es' = drop k es \<and>
     (let w = fold (\<lambda>e. e) (take k es) (pushed s) in
        locked (locks w l) = 0 \<and>
        t = w\<lparr>locks := (locks w)(l := (locks w l)\<lparr>locked := 1, lcpu := Some (hart w)\<rparr>)\<rparr>) \<and>
     (\<forall>j<k. locked (locks (fold (\<lambda>e. e) (take j es) (pushed s)) l) \<noteq> 0)"
proof -
  have nh: "\<not> held_by (locks s l) (hart s)"
    using assms acquire_held [of s l es] by auto
  then obtain t0 where t0: "tas_loop l (pushed s) es = Done () t0 es'"
    and t: "t = t0\<lparr>locks := (locks t0)(l := (locks t0 l)\<lparr>lcpu := Some (hart t0)\<rparr>)\<rparr>"
    using assms
    by (auto simp: acquire_def push_off_eq holding_def cpu_defs upd_lock_def split: res.splits)
  from tas_loop_DoneD [OF t0] obtain k w where
    "k \<le> length es" "es' = drop k es" "w = fold (\<lambda>e. e) (take k es) (pushed s)"
    "locked (locks w l) = 0" "t0 = take_lock l w"
    "\<forall>j<k. locked (locks (fold (\<lambda>e. e) (take j es) (pushed s)) l) \<noteq> 0"
    by blast
  with t show ?thesis by (intro exI [of _ k]) (simp add: Let_def take_lock_def)
qed

text \<open>Hart 1 holds the lock and releases it in the first interference.\<close>

definition busy_base :: base where
  "busy_base = boot_base\<lparr>locks := (locks boot_base)(KmemLock := \<lparr>locked = 1, lname = [], lcpu = Some 1\<rparr>)\<rparr>"

definition unlock_step :: "base \<Rightarrow> base" where
  "unlock_step s = s\<lparr>locks := (locks s)(KmemLock := \<lparr>locked = 0, lname = [], lcpu = None\<rparr>)\<rparr>"

lemma acquire_waits_until_free_witness:
  "\<exists>t. acquire KmemLock busy_base [unlock_step] = Done () t [] \<and>
     (\<exists>k. k \<le> 1 \<and> [] = drop k [unlock_step] \<and>
       locked (locks (fold (\<lambda>e. e) (take k [unlock_step]) (pushed busy_base)) KmemLock) = 0)"
proof -
  obtain t where t: "acquire KmemLock busy_base [unlock_step] = Done () t []"
    by (simp add: acquire_def push_off_eq holding_def cpu_defs held_by_def upd_lock_def
        busy_base_def boot_base_def unlock_step_def pushed_def)
  show ?thesis
    using acquire_waits_until_free [OF t] t by (auto simp: Let_def)
qed

section \<open>Mutual exclusion between harts\<close>

text \<open>
  The two operations again, now as the atomic steps of any number of harts competing for
  one lock: the \<open>holding\<close> check, the atomic swap, the separate write of \<open>lk->cpu\<close>, and
  on release the clearing of \<open>lk->cpu\<close> before the releasing store.
\<close>

datatype hart_pc = Outside | Trying | Swapped | Inside | Leaving

record lock_sys =
  slk :: spinlock
  pcs :: "nat \<Rightarrow> hart_pc"

inductive lock_step :: "lock_sys \<Rightarrow> lock_sys \<Rightarrow> bool" where
  check: "pcs \<sigma> h = Outside \<Longrightarrow> \<not> held_by (slk \<sigma>) h \<Longrightarrow>
     lock_step \<sigma> (\<sigma>\<lparr>pcs := (pcs \<sigma>)(h := Trying)\<rparr>)"
| spin: "pcs \<sigma> h = Trying \<Longrightarrow> locked (slk \<sigma>) \<noteq> 0 \<Longrightarrow>
     lock_step \<sigma> (\<sigma>\<lparr>slk := (slk \<sigma>)\<lparr>locked := 1\<rparr>\<rparr>)"
| swap: "pcs \<sigma> h = Trying \<Longrightarrow> locked (slk \<sigma>) = 0 \<Longrightarrow>
     lock_step \<sigma> (\<sigma>\<lparr>slk := (slk \<sigma>)\<lparr>locked := 1\<rparr>, pcs := (pcs \<sigma>)(h := Swapped)\<rparr>)"
| own: "pcs \<sigma> h = Swapped \<Longrightarrow>
     lock_step \<sigma> (\<sigma>\<lparr>slk := (slk \<sigma>)\<lparr>lcpu := Some h\<rparr>, pcs := (pcs \<sigma>)(h := Inside)\<rparr>)"
| leave: "pcs \<sigma> h = Inside \<Longrightarrow> held_by (slk \<sigma>) h \<Longrightarrow>
     lock_step \<sigma> (\<sigma>\<lparr>slk := (slk \<sigma>)\<lparr>lcpu := None\<rparr>, pcs := (pcs \<sigma>)(h := Leaving)\<rparr>)"
| unlock: "pcs \<sigma> h = Leaving \<Longrightarrow>
     lock_step \<sigma> (\<sigma>\<lparr>slk := (slk \<sigma>)\<lparr>locked := 0\<rparr>, pcs := (pcs \<sigma>)(h := Outside)\<rparr>)"

definition lock_init :: lock_sys where
  "lock_init = \<lparr>slk = \<lparr>locked = 0, lname = [], lcpu = None\<rparr>, pcs = (\<lambda>_. Outside)\<rparr>"

abbreviation lock_reach :: "lock_sys \<Rightarrow> bool" where
  "lock_reach \<equiv> lock_step\<^sup>*\<^sup>* lock_init"

fun owns :: "hart_pc \<Rightarrow> bool" where
  "owns Swapped = True"
| "owns Inside = True"
| "owns Leaving = True"
| "owns _ = False"

text \<open>Some hart or none owns the lock word; \<open>lk->cpu\<close> names a hart only while it is inside.\<close>

definition lock_inv :: "lock_sys \<Rightarrow> bool" where
  "lock_inv \<sigma> \<longleftrightarrow>
     (\<exists>ow. (locked (slk \<sigma>) \<noteq> 0 \<longleftrightarrow> ow \<noteq> None) \<and> (\<forall>h. owns (pcs \<sigma> h) \<longleftrightarrow> ow = Some h)) \<and>
     (\<forall>h. lcpu (slk \<sigma>) = Some h \<longleftrightarrow> pcs \<sigma> h = Inside)"

lemma lock_inv_init: "lock_inv lock_init"
  by (simp add: lock_inv_def lock_init_def)

lemma lock_invI:
  assumes "locked (slk \<sigma>) \<noteq> 0 \<longleftrightarrow> ow \<noteq> None" "\<And>h. owns (pcs \<sigma> h) \<longleftrightarrow> ow = Some h"
    "\<And>h. lcpu (slk \<sigma>) = Some h \<longleftrightarrow> pcs \<sigma> h = Inside"
  shows "lock_inv \<sigma>"
  using assms unfolding lock_inv_def by blast

lemma lock_invE:
  assumes "lock_inv \<sigma>"
  obtains ow where "locked (slk \<sigma>) \<noteq> 0 \<longleftrightarrow> ow \<noteq> None" "\<And>h. owns (pcs \<sigma> h) \<longleftrightarrow> ow = Some h"
    "\<And>h. lcpu (slk \<sigma>) = Some h \<longleftrightarrow> pcs \<sigma> h = Inside"
  using assms unfolding lock_inv_def by blast

lemma lock_inv_step: "lock_step \<sigma> \<tau> \<Longrightarrow> lock_inv \<sigma> \<Longrightarrow> lock_inv \<tau>"
proof (induction rule: lock_step.induct)
  case (check \<sigma> h)
  from check.prems obtain ow where ow: "locked (slk \<sigma>) \<noteq> 0 \<longleftrightarrow> ow \<noteq> None"
    "\<And>h. owns (pcs \<sigma> h) \<longleftrightarrow> ow = Some h" "\<And>h. lcpu (slk \<sigma>) = Some h \<longleftrightarrow> pcs \<sigma> h = Inside"
    by (rule lock_invE) blast
  have "ow \<noteq> Some h" using ow(2) [of h] check.hyps by simp
  with ow check.hyps show ?case by (intro lock_invI [of _ ow]) auto
next
  case (spin \<sigma> h)
  then show ?case by (simp add: lock_inv_def)
next
  case (swap \<sigma> h)
  from swap.prems obtain ow where ow: "locked (slk \<sigma>) \<noteq> 0 \<longleftrightarrow> ow \<noteq> None"
    "\<And>h. owns (pcs \<sigma> h) \<longleftrightarrow> ow = Some h" "\<And>h. lcpu (slk \<sigma>) = Some h \<longleftrightarrow> pcs \<sigma> h = Inside"
    by (rule lock_invE) blast
  with swap.hyps have none: "\<not> owns (pcs \<sigma> h')" for h' by simp
  then have "pcs \<sigma> h' \<noteq> Inside" for h' by (metis owns.simps(2))
  with none ow(3) show ?case by (intro lock_invI [of _ "Some h"]) auto
next
  case (own \<sigma> h)
  from own.prems obtain ow where ow: "locked (slk \<sigma>) \<noteq> 0 \<longleftrightarrow> ow \<noteq> None"
    "\<And>h. owns (pcs \<sigma> h) \<longleftrightarrow> ow = Some h" "\<And>h. lcpu (slk \<sigma>) = Some h \<longleftrightarrow> pcs \<sigma> h = Inside"
    by (rule lock_invE) blast
  then have h: "ow = Some h" using ow(2) [of h] own.hyps by simp
  then have "pcs \<sigma> h' \<noteq> Inside" for h' using ow(2) [of h'] own.hyps by auto
  with ow h show ?case by (intro lock_invI [of _ ow]) auto
next
  case (leave \<sigma> h)
  from leave.prems obtain ow where ow: "locked (slk \<sigma>) \<noteq> 0 \<longleftrightarrow> ow \<noteq> None"
    "\<And>h. owns (pcs \<sigma> h) \<longleftrightarrow> ow = Some h" "\<And>h. lcpu (slk \<sigma>) = Some h \<longleftrightarrow> pcs \<sigma> h = Inside"
    by (rule lock_invE) blast
  then have h: "ow = Some h" using ow(2) [of h] leave.hyps by simp
  then have "pcs \<sigma> h' = Inside \<Longrightarrow> h' = h" for h' using ow(2) [of h'] by auto
  with ow h show ?case by (intro lock_invI [of _ ow]) auto
next
  case (unlock \<sigma> h)
  from unlock.prems obtain ow where ow: "locked (slk \<sigma>) \<noteq> 0 \<longleftrightarrow> ow \<noteq> None"
    "\<And>h. owns (pcs \<sigma> h) \<longleftrightarrow> ow = Some h" "\<And>h. lcpu (slk \<sigma>) = Some h \<longleftrightarrow> pcs \<sigma> h = Inside"
    by (rule lock_invE) blast
  then have "ow = Some h" using ow(2) [of h] unlock.hyps by simp
  with ow unlock.hyps show ?case by (intro lock_invI [of _ None]) auto
qed

lemma lock_inv_reach: "lock_reach \<sigma> \<Longrightarrow> lock_inv \<sigma>"
  by (induction rule: rtranclp_induct) (auto intro: lock_inv_init lock_inv_step)

text \<open>
  C6.  Mutual exclusion, and the sanity checks of \<open>acquire\<close> and \<open>release\<close> never fire for
  a hart that follows the protocol: in every reachable state at most one hart is inside,
  \<open>holding\<close> answers true exactly for the hart inside, so the \<open>holding\<close> test of a hart
  that is outside fails and that of the hart inside succeeds.
\<close>

theorem spinlock_mutual_exclusion:
  assumes "lock_reach \<sigma>"
  shows "(pcs \<sigma> h = Inside \<and> pcs \<sigma> h' = Inside \<longrightarrow> h = h') \<and>
         (held_by (slk \<sigma>) h \<longleftrightarrow> pcs \<sigma> h = Inside)"
proof -
  from lock_inv_reach [OF assms] have inv: "lock_inv \<sigma>" .
  have "locked (slk \<sigma>) \<noteq> 0" if "pcs \<sigma> h = Inside"
    using inv that unfolding lock_inv_def by (metis not_None_eq owns.simps(2))
  with inv show ?thesis
    by (auto simp: lock_inv_def held_by_def) (metis option.inject owns.simps(2))
qed

text \<open>The sequential \<open>acquire\<close> and \<open>release\<close> are runs of these steps.\<close>

lemma acquire_runs_steps:
  assumes "locked (locks s l) = 0" "p (hart s) = Outside"
  shows "lock_step\<^sup>*\<^sup>* \<lparr>slk = locks s l, pcs = p\<rparr>
           \<lparr>slk = locks (acquired l s) l, pcs = p(hart s := Inside)\<rparr>"
proof -
  let ?h = "hart s" and ?k = "locks s l"
  have "lock_step \<lparr>slk = ?k, pcs = p\<rparr> \<lparr>slk = ?k, pcs = p(?h := Trying)\<rparr>"
    using lock_step.check [of "\<lparr>slk = ?k, pcs = p\<rparr>" ?h] assms by (simp add: held_by_def)
  moreover have "lock_step \<lparr>slk = ?k, pcs = p(?h := Trying)\<rparr>
      \<lparr>slk = ?k\<lparr>locked := 1\<rparr>, pcs = p(?h := Swapped)\<rparr>"
    using lock_step.swap [of "\<lparr>slk = ?k, pcs = p(?h := Trying)\<rparr>" ?h] assms by simp
  moreover have "lock_step \<lparr>slk = ?k\<lparr>locked := 1\<rparr>, pcs = p(?h := Swapped)\<rparr>
      \<lparr>slk = ?k\<lparr>locked := 1, lcpu := Some ?h\<rparr>, pcs = p(?h := Inside)\<rparr>"
    using lock_step.own [of "\<lparr>slk = ?k\<lparr>locked := 1\<rparr>, pcs = p(?h := Swapped)\<rparr>" ?h] by simp
  ultimately show ?thesis
    by (simp add: acquired_def)
qed

lemma spinlock_mutual_exclusion_witness:
  "\<exists>\<sigma>. lock_reach \<sigma> \<and> pcs \<sigma> 0 = Inside \<and> held_by (slk \<sigma>) 0 \<and> \<not> held_by (slk \<sigma>) 1"
proof -
  let ?\<sigma> = "\<lparr>slk = locks (acquired KmemLock boot_base) KmemLock, pcs = (\<lambda>_. Outside)(0 := Inside)\<rparr>"
  have "lock_reach ?\<sigma>"
    using acquire_runs_steps [of boot_base KmemLock "\<lambda>_. Outside"]
    by (simp add: lock_init_def boot_base_def)
  then show ?thesis
    using spinlock_mutual_exclusion [of ?\<sigma> 0 0] spinlock_mutual_exclusion [of ?\<sigma> 1 0]
    by (intro exI [of _ ?\<sigma>]) auto
qed

end
