(* ===== verification/Sched.thy ===== *)
theory Sched
  imports Spinlock
begin

text \<open>
  The part of \<^verbatim>\<open>kernel/proc.c\<close> that moves processes between states: \<open>sched\<close>, \<open>yield\<close>,
  \<open>sleep\<close>, \<open>wakeup\<close>, \<open>kill\<close>, \<open>reparent\<close> and one round of \<open>scheduler\<close>, with the fields
  of \<open>struct proc\<close> they use (those protected by \<open>p->lock\<close> or \<open>wait_lock\<close>).  A process
  is named by its index in \<open>proc[]\<close>.  Context switches are the points where the schedule
  is consumed.
\<close>

section \<open>State\<close>

datatype procstate = UNUSED | USED | SLEEPING | RUNNABLE | RUNNING | ZOMBIE

datatype chan =
    ChanProc nat | ChanSleep slockid | ChanLog | ChanPipeRead addr | ChanPipeWrite addr
  | ChanCons | ChanUart | ChanTicks | ChanDiskFree | ChanBuf nat

record sproc =
  pstate :: procstate
  pchan :: "chan option"
  killed :: bool
  xstate :: "32 word"
  pid :: int
  parent :: "nat option"

record sched = base +
  procs :: "nat \<Rightarrow> sproc"
  initproc :: "nat option"

text \<open>Updates are kept in a fixed order: data first, then the lock bookkeeping.\<close>

lemma sched_upd_order [simp]:
  fixes s :: "'x sched_scheme"
  shows
  "procs_update u_procs (locks_update u_locks s) = locks_update u_locks (procs_update u_procs s)"
  "procs_update u_procs (sstatus_update u_sstatus s) = sstatus_update u_sstatus (procs_update u_procs s)"
  "procs_update u_procs (cpus_update u_cpus s) = cpus_update u_cpus (procs_update u_procs s)"
  "initproc_update u_initproc (locks_update u_locks s) = locks_update u_locks (initproc_update u_initproc s)"
  "initproc_update u_initproc (sstatus_update u_sstatus s) = sstatus_update u_sstatus (initproc_update u_initproc s)"
  "initproc_update u_initproc (cpus_update u_cpus s) = cpus_update u_cpus (initproc_update u_initproc s)"
  by simp_all

definition NPROC :: nat where "NPROC = 64"

definition upd_proc :: "nat \<Rightarrow> (sproc \<Rightarrow> sproc) \<Rightarrow> ('x sched_scheme, unit) M" where
  "upd_proc p f = modifyM (\<lambda>s. s\<lparr>procs := (procs s)(p := f (procs s p))\<rparr>)"

definition get_proc :: "nat \<Rightarrow> ('x sched_scheme, sproc) M" where
  "get_proc p = getsM (\<lambda>s. procs s p)"

text \<open>\<open>myproc()\<close> used where the code dereferences the result at once.\<close>

definition curproc :: "('x base_scheme, nat) M" where
  "curproc = doM myproc (\<lambda>po. case po of None \<Rightarrow> panic ''kerneltrap'' | Some p \<Rightarrow> returnM p)"

section \<open>Operations\<close>

text \<open>The context switch: the rest of the system runs until this thread is resumed.\<close>

fun swtch :: "('s, unit) M" where
  "swtch s [] = Stuck s"
| "swtch s (e # es) = Done () (e s) es"

definition sched :: "('x sched_scheme, unit) M" where
  "sched = doM curproc (\<lambda>p.
     doM (holding (ProcLock p)) (\<lambda>h.
     doM (whenM (\<not> h) (panic ''sched p->lock'')) (\<lambda>_.
     doM mycpu (\<lambda>c.
     doM (whenM (noff c \<noteq> 1) (panic ''sched locks'')) (\<lambda>_.
     doM (get_proc p) (\<lambda>q.
     doM (whenM (pstate q = RUNNING) (panic ''sched running'')) (\<lambda>_.
     doM intr_get (\<lambda>on.
     doM (whenM on (panic ''sched interruptible'')) (\<lambda>_.
     doM mycpu (\<lambda>c'.
     doM swtch (\<lambda>_.
     upd_mycpu (\<lambda>c. c\<lparr>intena := intena c'\<rparr>))))))))))))"

definition yield :: "('x sched_scheme, unit) M" where
  "yield = doM curproc (\<lambda>p. seqM [
     acquire (ProcLock p),
     upd_proc p (\<lambda>q. q\<lparr>pstate := RUNNABLE\<rparr>),
     sched,
     release (ProcLock p)])"

definition sleep :: "chan \<Rightarrow> lockid \<Rightarrow> ('x sched_scheme, unit) M" where
  "sleep ch lk = doM curproc (\<lambda>p. seqM [
     acquire (ProcLock p),
     release lk,
     upd_proc p (\<lambda>q. q\<lparr>pchan := Some ch\<rparr>),
     upd_proc p (\<lambda>q. q\<lparr>pstate := SLEEPING\<rparr>),
     sched,
     upd_proc p (\<lambda>q. q\<lparr>pchan := None\<rparr>),
     release (ProcLock p),
     acquire lk])"

definition wakeup_one :: "chan \<Rightarrow> nat \<Rightarrow> ('x sched_scheme, unit) M" where
  "wakeup_one ch p = doM myproc (\<lambda>mp. whenM (Some p \<noteq> mp) (seqM [
     acquire (ProcLock p),
     doM (get_proc p) (\<lambda>q. whenM (pstate q = SLEEPING \<and> pchan q = Some ch)
       (upd_proc p (\<lambda>q. q\<lparr>pstate := RUNNABLE\<rparr>))),
     release (ProcLock p)]))"

definition wakeup :: "chan \<Rightarrow> ('x sched_scheme, unit) M" where
  "wakeup ch = forM [0..<NPROC] (wakeup_one ch)"

fun kill_loop :: "int \<Rightarrow> nat list \<Rightarrow> ('x sched_scheme, int) M" where
  "kill_loop i [] = returnM (- 1)"
| "kill_loop i (p # ps) =
     doM (acquire (ProcLock p)) (\<lambda>_.
     doM (get_proc p) (\<lambda>q.
     if pid q = i then
       doM (upd_proc p (\<lambda>q. q\<lparr>killed := True\<rparr>)) (\<lambda>_.
       doM (whenM (pstate q = SLEEPING) (upd_proc p (\<lambda>q. q\<lparr>pstate := RUNNABLE\<rparr>))) (\<lambda>_.
       doM (release (ProcLock p)) (\<lambda>_.
       returnM 0)))
     else doM (release (ProcLock p)) (\<lambda>_. kill_loop i ps)))"

definition kill :: "int \<Rightarrow> ('x sched_scheme, int) M" where
  "kill i = kill_loop i [0..<NPROC]"

definition reparent :: "nat \<Rightarrow> ('x sched_scheme, unit) M" where
  "reparent p = forM [0..<NPROC] (\<lambda>pp.
     doM (get_proc pp) (\<lambda>q. whenM (parent q = Some p)
       (doM (getsM initproc) (\<lambda>ip.
        doM (upd_proc pp (\<lambda>q. q\<lparr>parent := ip\<rparr>)) (\<lambda>_.
        case ip of Some i \<Rightarrow> wakeup (ChanProc i) | None \<Rightarrow> returnM ())))))"

text \<open>
  One turn of the scheduler's inner loop, one sweep over the table, and \<open>n\<close> sweeps of
  the endless outer loop.
\<close>

definition sched_visit :: "nat \<Rightarrow> ('x sched_scheme, unit) M" where
  "sched_visit p = seqM [
     acquire (ProcLock p),
     doM (get_proc p) (\<lambda>q. whenM (pstate q = RUNNABLE) (seqM [
       upd_proc p (\<lambda>q. q\<lparr>pstate := RUNNING\<rparr>),
       upd_mycpu (\<lambda>c. c\<lparr>cproc := Some p\<rparr>),
       swtch,
       upd_mycpu (\<lambda>c. c\<lparr>cproc := None\<rparr>)])),
     release (ProcLock p)]"

definition scheduler_round :: "('x sched_scheme, unit) M" where
  "scheduler_round = doM intr_on (\<lambda>_. forM [0..<NPROC] sched_visit)"

definition scheduler :: "nat \<Rightarrow> ('x sched_scheme, unit) M" where
  "scheduler n = doM (upd_mycpu (\<lambda>c. c\<lparr>cproc := None\<rparr>)) (\<lambda>_. forM [0..<n] (\<lambda>_. scheduler_round))"

section \<open>Rules\<close>

text \<open>
  \<open>wake ch A mp ps\<close> is the process table \<open>ps\<close> after the sleepers on \<open>ch\<close> in \<open>A\<close>, other
  than \<open>mp\<close>, have been made runnable.  \<open>woken\<close> is the weaker fact callers need: some
  sleepers may have become runnable, nothing else has changed.
\<close>

definition wake :: "chan \<Rightarrow> nat set \<Rightarrow> nat option \<Rightarrow> (nat \<Rightarrow> sproc) \<Rightarrow> nat \<Rightarrow> sproc" where
  "wake ch A mp ps = (\<lambda>q.
     if q \<in> A \<and> Some q \<noteq> mp \<and> pstate (ps q) = SLEEPING \<and> pchan (ps q) = Some ch
     then (ps q)\<lparr>pstate := RUNNABLE\<rparr> else ps q)"

definition woken :: "(nat \<Rightarrow> sproc) \<Rightarrow> (nat \<Rightarrow> sproc) \<Rightarrow> bool" where
  "woken ps qs \<longleftrightarrow> (\<forall>p. qs p = ps p \<or> pstate (ps p) = SLEEPING \<and> qs p = (ps p)\<lparr>pstate := RUNNABLE\<rparr>)"

lemma woken_refl [simp]: "woken ps ps"
  by (simp add: woken_def)

lemma woken_trans:
  assumes "woken ps qs" "woken qs rs" shows "woken ps rs"
  unfolding woken_def
proof
  fix p
  show "rs p = ps p \<or> pstate (ps p) = SLEEPING \<and> rs p = (ps p)\<lparr>pstate := RUNNABLE\<rparr>"
    using assms [unfolded woken_def, rule_format, of p] by auto
qed

lemma woken_wake: "woken ps (wake ch A mp ps)"
  by (simp add: woken_def wake_def)

lemma woken_fields:
  assumes "woken ps qs"
  shows "pid (qs p) = pid (ps p)" "pchan (qs p) = pchan (ps p)" "killed (qs p) = killed (ps p)"
    "xstate (qs p) = xstate (ps p)" "parent (qs p) = parent (ps p)"
  using assms [unfolded woken_def, rule_format, of p] by auto

lemma wake_empty [simp]: "wake ch {} mp ps = ps"
  by (simp add: wake_def)

lemma wake_singleton:
  "wake ch {p} mp ps = (if Some p \<noteq> mp \<and> pstate (ps p) = SLEEPING \<and> pchan (ps p) = Some ch
     then ps(p := (ps p)\<lparr>pstate := RUNNABLE\<rparr>) else ps)"
  by (auto simp: wake_def)

lemma wake_insert: "wake ch A mp (wake ch {p} mp ps) = wake ch (insert p A) mp ps"
  by (auto simp: wake_def)

lemma wp_curproc:
  assumes "lkst L P s" "P (hart s) = Some p"
    and "\<And>c st l. lkb L P (hart s) c st l \<Longrightarrow> Q p (s\<lparr>cpus := c, sstatus := st, locks := l\<rparr>) es"
  shows "wp curproc s es Q"
  unfolding curproc_def wp_simps
  by (rule wp_myproc [OF assms(1)]) (simp add: assms)

lemma wp_procs [simp]:
  "wp (upd_proc p f) s es Q = Q () (s\<lparr>procs := (procs s)(p := f (procs s p))\<rparr>) es"
  "wp (get_proc p) s es R = R (procs s p) s es"
  by (simp_all add: upd_proc_def get_proc_def)

lemma wp_wakeup_one:
  assumes "lkst L P s" "ProcLock p \<notin> set L"
    and "\<And>c st l. lkb L P (hart s) c st l \<Longrightarrow>
      Q () (s\<lparr>procs := wake ch {p} (P (hart s)) (procs s), cpus := c, sstatus := st, locks := l\<rparr>) es"
  shows "wp (wakeup_one ch p) s es Q"
proof (cases "Some p \<noteq> P (hart s) \<and> pstate (procs s p) = SLEEPING \<and> pchan (procs s p) = Some ch")
  case True
  then have w: "wake ch {p} (P (hart s)) (procs s) = (procs s)(p := (procs s p)\<lparr>pstate := RUNNABLE\<rparr>)"
    by (simp add: wake_singleton)
  show ?thesis
    unfolding wakeup_one_def wp_simps
    apply (rule wp_myproc [OF assms(1)], simp add: True)
    apply (rule wp_acquire, simp, simp add: assms(2), simp add: True)
    apply (rule wp_release, simp, simp, use assms(3) [unfolded w] in simp)
    done
next
  case False
  then have w: "wake ch {p} (P (hart s)) (procs s) = procs s"
    unfolding wake_singleton by (rule if_not_P)
  show ?thesis
    unfolding wakeup_one_def wp_simps
    apply (rule wp_myproc [OF assms(1)])
    apply (cases "Some p = P (hart s)")
     apply (use assms(3) [unfolded w] in simp)
    apply simp
    apply (rule wp_acquire, simp, simp add: assms(2), use False in simp)
    apply (intro conjI impI, simp)
    apply (rule wp_release, simp, simp, use assms(3) [unfolded w] in simp)
    done
qed

lemma wp_wakeup_list:
  assumes "lkst L P s" "\<And>p. p \<in> set ps \<Longrightarrow> ProcLock p \<notin> set L"
    and "\<And>c st l. lkb L P (hart s) c st l \<Longrightarrow>
      Q () (s\<lparr>procs := wake ch (set ps) (P (hart s)) (procs s), cpus := c, sstatus := st, locks := l\<rparr>) es"
  shows "wp (forM ps (wakeup_one ch)) s es Q"
  using assms
proof (induction ps arbitrary: s)
  case (Cons p ps)
  have "wp (wakeup_one ch p) s es (\<lambda>_ t fs. wp (forM ps (wakeup_one ch)) t fs Q)"
    by (rule wp_wakeup_one [OF Cons.prems(1)], simp add: Cons.prems(2))
       (rule Cons.IH, auto simp: wake_insert Cons.prems(2) intro: Cons.prems(3) [simplified])
  then show ?case by (rule wp_simps(10) [THEN iffD2])
next
  case Nil
  show ?case using Nil(1) Nil(3) [of "cpus s" "sstatus s" "locks s"] by (intro wp_simps(9) [THEN iffD2]) simp
qed

lemma wp_wakeup:
  assumes "lkst L P s" "\<And>p. ProcLock p \<notin> set L"
    and "\<And>c st l. lkb L P (hart s) c st l \<Longrightarrow>
      Q () (s\<lparr>procs := wake ch {p. p < NPROC} (P (hart s)) (procs s), cpus := c, sstatus := st, locks := l\<rparr>) es"
  shows "wp (wakeup ch) s es Q"
proof -
  have "set [0..<NPROC] = {p. p < NPROC}" by auto
  with assms show ?thesis unfolding wakeup_def by (intro wp_wakeup_list) auto
qed

section \<open>sched and sleep\<close>




lemma wp_cpu [simp]:
  "wp mycpu s es Q = Q (cpus s (hart s)) s es"
  "wp (upd_mycpu f) s es R = R () (s\<lparr>cpus := (cpus s)(hart s := f (cpus s (hart s)))\<rparr>) es"
  "wp intr_get s es B = B (sstatus s (hart s) AND SSTATUS_SIE \<noteq> 0) s es"
  by (simp_all add: cpu_defs intr_defs)

lemma wp_swtch: "wp swtch s es Q \<longleftrightarrow> (\<exists>e fs. es = e # fs \<and> Q () (e s) fs)"
  by (cases es) (auto simp: wp_def)

lemma lkb_intena: "lkb L P h c st l \<Longrightarrow> lkb L P h (c(h := (c h)\<lparr>intena := b\<rparr>)) st l"
  by (auto simp: lkb_def)

text \<open>
  \<open>sched\<close> hands the processor over in a state that differs from the caller's in the
  bookkeeping only, and returns in the state it is resumed in.
\<close>

lemma wp_sched:
  assumes lk: "lkst [ProcLock p] P s" "P (hart s) = Some p" and run: "pstate (procs s p) \<noteq> RUNNING"
    and Q: "\<And>c st l t. lkb [ProcLock p] P (hart s) c st l \<Longrightarrow> t = s\<lparr>cpus := c, sstatus := st, locks := l\<rparr> \<Longrightarrow>
      \<exists>e fs P'. es = e # fs \<and> lkst [ProcLock p] P' (e t) \<and>
        (\<forall>d. lkb [ProcLock p] P' (hart (e t)) d (sstatus (e t)) (locks (e t)) \<longrightarrow> Q () ((e t)\<lparr>cpus := d\<rparr>) fs)"
  shows "wp sched s es Q"
  unfolding sched_def wp_simps
proof (rule wp_curproc [OF lk], rule wp_holding, simp, goal_cases)
  case (1 c st l)
  define t where "t = s\<lparr>cpus := c, sstatus := st, locks := l\<rparr>"
  have *: "noff (cpus t (hart t)) = 1" "sstatus t (hart t) AND SSTATUS_SIE = 0" "procs t = procs s"
    using 1 by (simp_all add: lkb_def t_def)
  obtain e fs P' where e: "es = e # fs" "lkst [ProcLock p] P' (e t)"
    and Q': "\<And>d. lkb [ProcLock p] P' (hart (e t)) d (sstatus (e t)) (locks (e t)) \<Longrightarrow> Q () ((e t)\<lparr>cpus := d\<rparr>) fs"
    using Q [OF 1 t_def] by (elim exE conjE) (rule that, assumption+, simp)
  have "wp swtch t es (\<lambda>_ t' fs. wp (upd_mycpu (\<lambda>c. c\<lparr>intena := b\<rparr>)) t' fs Q)" for b
    unfolding e(1) wp_swtch wp_cpu
    by (intro exI conjI, rule refl, rule Q', rule lkb_intena [OF e(2)])
  with * run show ?case unfolding t_def [symmetric] by simp
qed

text \<open>
  \<open>sleep(ch, lk)\<close>: the state \<open>t\<close> handed over has \<open>lk\<close> released, the process asleep on \<open>ch\<close>
  and only its own lock held; \<open>sleep\<close> returns with \<open>lk\<close> held again.
\<close>

definition asleep :: "nat \<Rightarrow> chan \<Rightarrow> (nat \<Rightarrow> sproc) \<Rightarrow> nat \<Rightarrow> sproc" where
  "asleep p ch ps = ps(p := (ps p)\<lparr>pchan := Some ch, pstate := SLEEPING\<rparr>)"

lemma wp_sleep:
  assumes lk: "lkst [lk] P s" "P (hart s) = Some p" "lk \<noteq> ProcLock p"
    and Q: "\<And>c st l t. lkb [ProcLock p] P (hart s) c st l \<Longrightarrow>
      t = s\<lparr>procs := asleep p ch (procs s), cpus := c, sstatus := st, locks := l\<rparr> \<Longrightarrow>
      \<exists>e fs P'. es = e # fs \<and> lkst [ProcLock p] P' (e t) \<and>
        (\<forall>c st l. lkb [lk] P' (hart (e t)) c st l \<longrightarrow>
           Q () ((e t)\<lparr>procs := (procs (e t))(p := (procs (e t) p)\<lparr>pchan := None\<rparr>),
                       cpus := c, sstatus := st, locks := l\<rparr>) fs)"
  shows "wp (sleep ch lk) s es Q"
  unfolding sleep_def wp_simps
  apply (rule wp_curproc [OF lk(1,2)])
  apply (rule wp_acquire, simp, simp add: lk(3) [symmetric])
  apply (rule wp_release, simp, simp)
  apply (simp add: lk(3) lk(3) [symmetric])
  apply (rule wp_sched, simp, simp add: lk(2), simp)
  subgoal premises prems for c st l c' st' l' c2 st2 l2 c3 st3 l3 t
  proof -
    have t: "t = s\<lparr>procs := asleep p ch (procs s), cpus := c3, sstatus := st3, locks := l3\<rparr>"
      using prems(5) by (simp add: asleep_def)
    have "lkb [ProcLock p] P (hart s) c3 st3 l3" using prems(4) by simp
    from Q [OF this t] obtain e fs P' where e: "es = e # fs" "lkst [ProcLock p] P' (e t)"
      "\<And>c st l. lkb [lk] P' (hart (e t)) c st l \<Longrightarrow>
        Q () ((e t)\<lparr>procs := (procs (e t))(p := (procs (e t) p)\<lparr>pchan := None\<rparr>),
                    cpus := c, sstatus := st, locks := l\<rparr>) fs"
      by (elim exE conjE) (rule that, assumption+, simp)
    show ?thesis
      apply (intro exI conjI, rule e(1), rule e(2), intro allI impI)
      apply (rule wp_release, simp, simp)
      apply (rule wp_acquire, simp, simp, simp add: e(3))
      done
  qed
  done

lemma stuck_sched:
  assumes lk: "lkst [ProcLock p] P s" "P (hart s) = Some p" and run: "pstate (procs s p) \<noteq> RUNNING"
    and R: "\<And>c st l. lkb [ProcLock p] P (hart s) c st l \<Longrightarrow> R (s\<lparr>cpus := c, sstatus := st, locks := l\<rparr>)"
  shows "stuck sched s [] R"
  unfolding sched_def
proof (rule stuck_doM(2), rule wp_curproc [OF lk], rule stuck_doM(2), rule wp_holding, simp, goal_cases)
  case (1 c st l)
  then have "noff (c (hart s)) = 1" "st (hart s) AND SSTATUS_SIE = 0" by (simp_all add: lkb_def)
  with run R [OF 1] show ?case by (simp add: stuck_def cpu_defs intr_defs get_proc_def)
qed

lemma stuck_sleep:
  assumes lk: "lkst [lk] P s" "P (hart s) = Some p" "lk \<noteq> ProcLock p"
    and R: "\<And>c st l. lkb [ProcLock p] P (hart s) c st l \<Longrightarrow>
      R (s\<lparr>procs := asleep p ch (procs s), cpus := c, sstatus := st, locks := l\<rparr>)"
  shows "stuck (sleep ch lk) s [] R"
  unfolding sleep_def
  apply (rule stuck_doM(2), rule wp_curproc [OF lk(1,2)])
  apply (rule stuck_doM(4), rule wp_acquire, simp, simp add: lk(3) [symmetric])
  apply (rule stuck_doM(4), rule wp_release, simp, simp)
  apply (rule stuck_doM(4), simp only: wp_procs)
  apply (rule stuck_doM(4), simp only: wp_procs)
  apply (rule stuck_doM(3), rule stuck_sched, simp add: lk(3) lk(3) [symmetric], simp add: lk(2), simp)
  using R by (simp add: asleep_def)

lemma fails_sched_locks:
  assumes lk: "lkst L P s" "P (hart s) = Some p" "ProcLock p \<in> set L" "length L \<noteq> 1"
  shows "fails sched s es ''sched locks''"
  unfolding sched_def
proof (rule fails_doM(2), rule wp_curproc [OF lk(1,2)], rule fails_doM(2), rule wp_holding, simp, goal_cases)
  case (1 c st l)
  then have "noff (c (hart s)) \<noteq> 1" using lk(4) by (simp add: lkb_def)
  with lk(3) show ?case by (simp add: fails_def cpu_defs)
qed

section \<open>kill\<close>

definition mark_killed :: "sproc \<Rightarrow> sproc" where
  "mark_killed q = q\<lparr>killed := True, pstate := if pstate q = SLEEPING then RUNNABLE else pstate q\<rparr>"

lemma wp_kill_loop:
  assumes "lkst L P s" "\<And>p. p \<in> set ps \<Longrightarrow> ProcLock p \<notin> set L"
    and "\<And>c st l. lkb L P (hart s) c st l \<Longrightarrow>
      (case List.find (\<lambda>p. pid (procs s p) = i) ps of
         None \<Rightarrow> Q (- 1) (s\<lparr>cpus := c, sstatus := st, locks := l\<rparr>) es
       | Some p \<Rightarrow> Q 0 (s\<lparr>procs := (procs s)(p := mark_killed (procs s p)), cpus := c, sstatus := st, locks := l\<rparr>) es)"
  shows "wp (kill_loop i ps) s es Q"
  using assms
proof (induction ps arbitrary: s)
  case (Cons p ps)
  have p: "ProcLock p \<notin> set L" using Cons.prems(2) by simp
  show ?case
  proof (cases "pid (procs s p) = i")
    case True
    let ?q = "procs s p"
    have m: "mark_killed ?q = (if pstate ?q = SLEEPING then ?q\<lparr>killed := True, pstate := RUNNABLE\<rparr> else ?q\<lparr>killed := True\<rparr>)"
      by (simp add: mark_killed_def)
    show ?thesis
      unfolding kill_loop.simps wp_simps
      apply (rule wp_acquire [OF Cons.prems(1) p], simp add: True)
      apply (intro conjI impI)
       apply (rule wp_release, simp, simp, use Cons.prems(3) True in \<open>simp add: m\<close>)+
      done
  next
    case False
    show ?thesis
      unfolding kill_loop.simps wp_simps
      apply (rule wp_acquire [OF Cons.prems(1) p], simp add: False)
      apply (rule wp_release, simp, simp)
      apply (rule Cons.IH, simp, simp add: Cons.prems(2))
      using Cons.prems(3) False by (simp cong: option.case_cong)
  qed
next
  case Nil
  show ?case using Nil(1) Nil(3) [of "cpus s" "sstatus s" "locks s"] by simp
qed

section \<open>A concrete state\<close>

text \<open>
  Hart 0 runs process 1 and holds the locks \<open>L\<close>; process 2 sleeps on the clock; every
  other slot is unused.
\<close>

definition demo_P :: "nat \<Rightarrow> nat option" where
  "demo_P h = (if h = 0 then Some 1 else None)"

definition demo_proc :: "nat \<Rightarrow> sproc" where
  "demo_proc p =
     (if p = 1 then \<lparr>pstate = RUNNING, pchan = None, killed = False, xstate = 0, pid = 1, parent = None\<rparr>
      else if p = 2 then \<lparr>pstate = SLEEPING, pchan = Some ChanTicks, killed = False, xstate = 0, pid = 2, parent = Some 1\<rparr>
      else \<lparr>pstate = UNUSED, pchan = None, killed = False, xstate = 0, pid = 0, parent = None\<rparr>)"

definition demo_sched :: "lockid list \<Rightarrow> sched" where
  "demo_sched L = \<lparr>hart = 0, cpus = (\<lambda>h. \<lparr>cproc = demo_P h, noff = if h = 0 then int (length L) else 0, intena = True\<rparr>),
     sstatus = (\<lambda>_. 0),
     locks = (\<lambda>k. if k \<in> set L then \<lparr>locked = 1, lname = [], lcpu = Some 0\<rparr> else \<lparr>locked = 0, lname = [], lcpu = None\<rparr>),
     procs = demo_proc, initproc = Some 1\<rparr>"

lemma demo_sched_lkst: "distinct L \<Longrightarrow> lkst L demo_P (demo_sched L)"
  by (simp add: demo_sched_def lkb_def)

lemma demo_sched_fields [simp]: "hart (demo_sched L) = 0" "procs (demo_sched L) = demo_proc" "demo_P 0 = Some 1"
  by (simp_all add: demo_sched_def demo_P_def)

section \<open>Properties\<close>

text \<open>
  C27.  \<open>wakeup(ch)\<close>, called with no process lock held, returns and makes runnable exactly
  the processes of the table, other than the caller, that sleep on \<open>ch\<close>.  No other field
  of any process changes, no component's data changes, and the same locks are held.
\<close>

theorem wakeup_exact:
  assumes "lkst L P s" "\<And>p. ProcLock p \<notin> set L"
  shows "\<exists>c st l. wakeup ch s es = Done () (s\<lparr>procs := (\<lambda>q.
       if q < NPROC \<and> Some q \<noteq> P (hart s) \<and> pstate (procs s q) = SLEEPING \<and> pchan (procs s q) = Some ch
       then (procs s q)\<lparr>pstate := RUNNABLE\<rparr> else procs s q), cpus := c, sstatus := st, locks := l\<rparr>) es
     \<and> lkb L P (hart s) c st l"
proof -
  have "wp (wakeup ch) s es (\<lambda>x t fs. fs = es \<and> (\<exists>c st l. t = s\<lparr>procs := wake ch {p. p < NPROC} (P (hart s)) (procs s),
     cpus := c, sstatus := st, locks := l\<rparr> \<and> lkb L P (hart s) c st l))"
    by (rule wp_wakeup [OF assms]) blast
  then show ?thesis by (auto simp: wp_iff wake_def)
qed

lemma wakeup_exact_witness:
  "lkst [] demo_P (demo_sched []) \<and>
   (\<exists>t. wakeup ChanTicks (demo_sched []) [] = Done () t [] \<and> pstate (procs t 2) = RUNNABLE \<and> procs t 1 = demo_proc 1)"
proof -
  have lk: "lkst [] demo_P (demo_sched [])" by (rule demo_sched_lkst) simp
  obtain c st l where "wakeup ChanTicks (demo_sched []) [] = Done () ((demo_sched [])\<lparr>procs := (\<lambda>q.
       if q < NPROC \<and> Some q \<noteq> demo_P (hart (demo_sched [])) \<and> pstate (procs (demo_sched []) q) = SLEEPING \<and>
          pchan (procs (demo_sched []) q) = Some ChanTicks
       then (procs (demo_sched []) q)\<lparr>pstate := RUNNABLE\<rparr> else procs (demo_sched []) q),
     cpus := c, sstatus := st, locks := l\<rparr>) []"
    using wakeup_exact [OF lk, of ChanTicks "[]"] by auto
  with lk show ?thesis by (simp add: NPROC_def demo_proc_def)
qed












text \<open>
  C28.  \<open>kill(pid)\<close> returns 0 and marks the first process of the table with that pid,
  waking it if it sleeps, or returns \<open>-1\<close> and changes nothing when there is none.
\<close>

theorem kill_exact:
  assumes "lkst L P s" "\<And>p. ProcLock p \<notin> set L"
  shows "\<exists>c st l. lkb L P (hart s) c st l \<and> kill i s es =
     (case List.find (\<lambda>p. pid (procs s p) = i) [0..<NPROC] of
        None \<Rightarrow> Done (- 1) (s\<lparr>cpus := c, sstatus := st, locks := l\<rparr>) es
      | Some p \<Rightarrow> Done 0 (s\<lparr>procs := (procs s)(p := (procs s p)\<lparr>killed := True,
            pstate := if pstate (procs s p) = SLEEPING then RUNNABLE else pstate (procs s p)\<rparr>),
          cpus := c, sstatus := st, locks := l\<rparr>) es)"
proof -
  let ?r = "\<lambda>c st l. case List.find (\<lambda>p. pid (procs s p) = i) [0..<NPROC] of
        None \<Rightarrow> (- 1, s\<lparr>cpus := c, sstatus := st, locks := l\<rparr>)
      | Some p \<Rightarrow> (0, s\<lparr>procs := (procs s)(p := mark_killed (procs s p)), cpus := c, sstatus := st, locks := l\<rparr>)"
  have "wp (kill i) s es (\<lambda>x t fs. fs = es \<and> (\<exists>c st l. (x, t) = ?r c st l \<and> lkb L P (hart s) c st l))"
    unfolding kill_def by (rule wp_kill_loop [OF assms]) (auto split: option.split)
  then obtain c st l x t where "kill i s es = Done x t es" "(x, t) = ?r c st l" "lkb L P (hart s) c st l"
    by (auto simp: wp_iff)
  then show ?thesis
    by (intro exI [of _ c] exI [of _ st] exI [of _ l]) (auto simp: mark_killed_def split: option.split)
qed

lemma kill_exact_witness:
  "lkst [] demo_P (demo_sched []) \<and>
   (\<exists>t. kill 2 (demo_sched []) [] = Done 0 t [] \<and> killed (procs t 2) \<and> pstate (procs t 2) = RUNNABLE)"
proof -
  have lk: "lkst [] demo_P (demo_sched [])" by (rule demo_sched_lkst) simp
  have f: "List.find (\<lambda>p. pid (demo_proc p) = 2) [0..<NPROC] = Some 2"
    by (simp add: NPROC_def upt_conv_Cons demo_proc_def)
  show ?thesis
    using lk kill_exact [OF lk, of 2 "[]"] by (auto simp: f) (simp_all add: demo_proc_def)
qed

end
