(* ===== verification/Sleeplock.thy ===== *)
theory Sleeplock
  imports Sched
begin

text \<open>
  \<^verbatim>\<open>kernel/sleeplock.c\<close>: locks that are held across context switches.  The spinlock inside
  sleep-lock \<open>i\<close> is \<open>SleepLk i\<close>; its waiters sleep on the channel \<open>ChanSleep i\<close>.
\<close>

section \<open>State and operations\<close>

record sleeplock =
  slocked :: "32 word"
  slname :: string
  slpid :: int

record slk = sched +
  slocks :: "slockid \<Rightarrow> sleeplock"

lemma slk_upd_order [simp]:
  fixes s :: "'x slk_scheme"
  shows
  "slocks_update u_slocks (locks_update u_locks s) = locks_update u_locks (slocks_update u_slocks s)"
  "slocks_update u_slocks (sstatus_update u_sstatus s) = sstatus_update u_sstatus (slocks_update u_slocks s)"
  "slocks_update u_slocks (cpus_update u_cpus s) = cpus_update u_cpus (slocks_update u_slocks s)"
  "procs_update u_procs (slocks_update u_slocks s) = slocks_update u_slocks (procs_update u_procs s)"
  by simp_all

definition upd_slock :: "slockid \<Rightarrow> (sleeplock \<Rightarrow> sleeplock) \<Rightarrow> ('x slk_scheme, unit) M" where
  "upd_slock i f = modifyM (\<lambda>s. s\<lparr>slocks := (slocks s)(i := f (slocks s i))\<rparr>)"

definition initsleeplock :: "slockid \<Rightarrow> string \<Rightarrow> ('x slk_scheme, unit) M" where
  "initsleeplock i nm = seqM [
     initlock (SleepLk i) ''sleep lock'',
     upd_slock i (\<lambda>k. k\<lparr>slname := nm\<rparr>),
     upd_slock i (\<lambda>k. k\<lparr>slocked := 0\<rparr>),
     upd_slock i (\<lambda>k. k\<lparr>slpid := 0\<rparr>)]"

definition sleep_while_locked :: "slockid \<Rightarrow> ('x slk_scheme, unit) M" where
  "sleep_while_locked i = waitM 0 (\<lambda>_. doM (getsM (\<lambda>s. slocked (slocks s i))) (\<lambda>b.
     if b \<noteq> 0 then doM (sleep (ChanSleep i) (SleepLk i)) (\<lambda>_. returnM (Inl ()))
     else returnM (Inr ()))) ()"

definition acquiresleep :: "slockid \<Rightarrow> ('x slk_scheme, unit) M" where
  "acquiresleep i = seqM [
     acquire (SleepLk i),
     sleep_while_locked i,
     upd_slock i (\<lambda>k. k\<lparr>slocked := 1\<rparr>),
     doM curproc (\<lambda>p. doM (get_proc p) (\<lambda>q. upd_slock i (\<lambda>k. k\<lparr>slpid := pid q\<rparr>))),
     release (SleepLk i)]"

definition releasesleep :: "slockid \<Rightarrow> ('x slk_scheme, unit) M" where
  "releasesleep i = seqM [
     acquire (SleepLk i),
     upd_slock i (\<lambda>k. k\<lparr>slocked := 0\<rparr>),
     upd_slock i (\<lambda>k. k\<lparr>slpid := 0\<rparr>),
     wakeup (ChanSleep i),
     release (SleepLk i)]"

definition holdingsleep :: "slockid \<Rightarrow> ('x slk_scheme, bool) M" where
  "holdingsleep i =
     doM (acquire (SleepLk i)) (\<lambda>_.
     doM (getsM (\<lambda>s. slocks s i)) (\<lambda>k.
     doM (if slocked k \<noteq> 0 then doM curproc (\<lambda>p. doM (get_proc p) (\<lambda>q. returnM (slpid k = pid q)))
          else returnM False) (\<lambda>r.
     doM (release (SleepLk i)) (\<lambda>_.
     returnM r))))"

section \<open>Rules\<close>

text \<open>\<open>taken q k\<close> is the sleep-lock \<open>k\<close> once a process with pid \<open>q\<close> has acquired it.\<close>

abbreviation taken :: "int \<Rightarrow> sleeplock \<Rightarrow> sleeplock" where
  "taken q k \<equiv> k\<lparr>slocked := 1, slpid := q\<rparr>"

abbreviation freed :: "sleeplock \<Rightarrow> sleeplock" where
  "freed k \<equiv> k\<lparr>slocked := 0, slpid := 0\<rparr>"

lemma wp_slock [simp]:
  "wp (upd_slock i f) s es Q = Q () (s\<lparr>slocks := (slocks s)(i := f (slocks s i))\<rparr>) es"
  by (simp add: upd_slock_def)

lemma wp_initsleeplock:
  assumes "lkst L P s" "SleepLk i \<notin> set L"
    and "\<And>l. lkb L P (hart s) (cpus s) (sstatus s) l \<Longrightarrow>
      Q () (s\<lparr>slocks := (slocks s)(i := freed (slocks s i\<lparr>slname := nm\<rparr>)), locks := l\<rparr>) es"
  shows "wp (initsleeplock i nm) s es Q"
  unfolding initsleeplock_def wp_simps
  by (rule wp_initlock [OF assms(1,2)]) (simp add: assms(3))

lemma wp_sleep_while_locked_free:
  assumes "slocked (slocks s i) = 0" "Q () s es"
  shows "wp (sleep_while_locked i) s es Q"
  using assms by (simp add: sleep_while_locked_def waitM_def wp_def)

lemma wp_acquiresleep:
  assumes "lkst L P s" "SleepLk i \<notin> set L" "P (hart s) = Some p" "slocked (slocks s i) = 0"
    and "\<And>c st l. lkb L P (hart s) c st l \<Longrightarrow>
      Q () (s\<lparr>slocks := (slocks s)(i := taken (pid (procs s p)) (slocks s i)), cpus := c, sstatus := st, locks := l\<rparr>) es"
  shows "wp (acquiresleep i) s es Q"
  unfolding acquiresleep_def wp_simps
  apply (rule wp_acquire [OF assms(1,2)])
  apply (rule wp_sleep_while_locked_free, simp add: assms(4), simp)
  apply (rule wp_curproc, simp, simp, rule assms(3), simp)
  apply (rule wp_release, simp, simp, simp add: assms(5))
  done

lemma wp_releasesleep:
  assumes "lkst L P s" "SleepLk i \<notin> set L" "\<And>p. ProcLock p \<notin> set L"
    and "\<And>c st l ps. lkb L P (hart s) c st l \<Longrightarrow> woken (procs s) ps \<Longrightarrow>
      Q () (s\<lparr>procs := ps, slocks := (slocks s)(i := freed (slocks s i)), cpus := c, sstatus := st, locks := l\<rparr>) es"
  shows "wp (releasesleep i) s es Q"
  unfolding releasesleep_def wp_simps
  apply (rule wp_acquire [OF assms(1,2)])
  apply simp
  apply (rule wp_wakeup, simp, simp add: assms(3))
  apply (rule wp_release, simp, simp, simp add: assms(4) woken_wake)
  done

lemma wp_holdingsleep:
  assumes "lkst L P s" "SleepLk i \<notin> set L" "P (hart s) = Some p"
    and "\<And>c st l. lkb L P (hart s) c st l \<Longrightarrow>
      Q (slocked (slocks s i) \<noteq> 0 \<and> slpid (slocks s i) = pid (procs s p)) (s\<lparr>cpus := c, sstatus := st, locks := l\<rparr>) es"
  shows "wp (holdingsleep i) s es Q"
proof (cases "slocked (slocks s i) = 0")
  case True
  show ?thesis
    unfolding holdingsleep_def wp_simps
    apply (rule wp_acquire [OF assms(1,2)], simp add: True)
    apply (rule wp_release, simp, simp, use assms(4) True in simp)
    done
next
  case False
  show ?thesis
    unfolding holdingsleep_def wp_simps
    apply (rule wp_acquire [OF assms(1,2)], simp add: False)
    apply (rule wp_curproc, simp, simp, rule assms(3), simp)
    apply (rule wp_release, simp, simp, use assms(4) False in simp)
    done
qed

text \<open>The waiting loop: one turn, and the turns in which the process is resumed with the lock still taken.\<close>

definition wait_turn :: "slockid \<Rightarrow> unit \<Rightarrow> ('x slk_scheme, unit + unit) M" where
  "wait_turn i = (\<lambda>_. doM (getsM (\<lambda>s. slocked (slocks s i))) (\<lambda>b.
     if b \<noteq> 0 then doM (sleep (ChanSleep i) (SleepLk i)) (\<lambda>_. returnM (Inl ())) else returnM (Inr ())))"

lemma sleep_while_locked_eq: "sleep_while_locked i s es = iterM (Suc (length es)) (wait_turn i) () s es"
  by (simp add: sleep_while_locked_def wait_turn_def waitM_def)

definition resumed :: "nat \<Rightarrow> (nat \<Rightarrow> nat option) \<Rightarrow> nat \<Rightarrow> slockid \<Rightarrow> bool \<Rightarrow> ('x slk_scheme \<Rightarrow> 'x slk_scheme) \<Rightarrow> bool" where
  "resumed h P p i b e \<longleftrightarrow> (\<forall>t. hart t = h \<longrightarrow> lkst [ProcLock p] P t \<longrightarrow> pstate (procs t p) = SLEEPING \<longrightarrow> pchan (procs t p) = Some (ChanSleep i) \<longrightarrow>
     hart (e t) = h \<and> lkst [ProcLock p] P (e t) \<and> (slocked (slocks (e t) i) \<noteq> 0 \<longleftrightarrow> b))"

definition waiting :: "nat \<Rightarrow> (nat \<Rightarrow> nat option) \<Rightarrow> slockid \<Rightarrow> 'x slk_scheme \<Rightarrow> bool" where
  "waiting h P i s \<longleftrightarrow> hart s = h \<and> lkst [SleepLk i] P s \<and> slocked (slocks s i) \<noteq> 0"

lemma wp_wait_turn:
  assumes s: "waiting h P i s" "P h = Some p" and e: "resumed h P p i b e"
    and Q: "\<And>t. hart t = h \<Longrightarrow> lkst [SleepLk i] P t \<Longrightarrow> (slocked (slocks t i) \<noteq> 0 \<longleftrightarrow> b) \<Longrightarrow> Q (Inl ()) t fs"
  shows "wp (wait_turn i ()) s (e # fs) Q"
proof -
  have w: "lkst [SleepLk i] P s" "P (hart s) = Some p" "slocked (slocks s i) \<noteq> 0" "hart s = h" using s by (auto simp: waiting_def)
  have "wp (sleep (ChanSleep i) (SleepLk i)) s (e # fs) (\<lambda>_ t gs. Q (Inl ()) t gs)"
  proof (rule wp_sleep [OF w(1,2)], simp, goal_cases)
    case (1 c st l t)
    then have t: "hart t = h" "lkst [ProcLock p] P t" "pstate (procs t p) = SLEEPING" "pchan (procs t p) = Some (ChanSleep i)"
      using w(4) by (simp_all add: asleep_def)
    note r = e [unfolded resumed_def, rule_format, OF t]
    show ?case using r by (intro exI [of _ e] exI [of _ fs] exI [of _ P] conjI allI impI) (auto intro!: Q)
  qed
  then show ?thesis unfolding wait_turn_def wp_simps using w(3) by simp
qed

lemma wp_waits:
  assumes "waiting h P i s" "P h = Some p" "\<forall>u\<in>set us. resumed h P p i True u" "length us \<le> n"
    and "\<And>t. waiting h P i t \<Longrightarrow> wp (iterM (n - length us) (wait_turn i) ()) t fs Q"
  shows "wp (iterM n (wait_turn i) ()) s (us @ fs) Q"
  using assms
proof (induction us arbitrary: s n)
  case (Cons u us)
  obtain m where n: "n = Suc m" using Cons.prems(4) by (cases n) auto
  have "wp (wait_turn i ()) s (u # us @ fs) (\<lambda>r t gs. wp (case r of Inl y \<Rightarrow> iterM m (wait_turn i) y | Inr z \<Rightarrow> returnM z) t gs Q)"
  proof (rule wp_wait_turn [OF Cons.prems(1,2)])
    show "resumed h P p i True u" using Cons.prems(3) by simp
    show "wp (case Inl () of Inl y \<Rightarrow> iterM m (wait_turn i) y | Inr z \<Rightarrow> returnM z) t (us @ fs) Q"
      if "hart t = h" "lkst [SleepLk i] P t" "(slocked (slocks t i) \<noteq> 0) = True" for t
    proof -
      have "wp (iterM m (wait_turn i) ()) t (us @ fs) Q"
        by (rule Cons.IH [OF _ Cons.prems(2)]) (use Cons.prems(3-5) n that in \<open>auto simp: waiting_def\<close>)
      then show ?thesis by simp
    qed
  qed
  then show ?case unfolding n iterM.simps wp_simps by simp
qed simp

lemma stuck_waits:
  assumes "waiting h P i s" "P h = Some p" "\<forall>u\<in>set us. resumed h P p i True u"
  shows "stuck (iterM (Suc (length us)) (wait_turn i) ()) s us (\<lambda>t. pstate (procs t p) = SLEEPING \<and> pchan (procs t p) = Some (ChanSleep i) \<and>
    slocked (slocks t i) \<noteq> 0 \<and> locked (locks t (SleepLk i)) = 0)"
  using assms
proof (induction us arbitrary: s)
  case Nil
  have w: "lkst [SleepLk i] P s" "P (hart s) = Some p" "slocked (slocks s i) \<noteq> 0" using Nil by (auto simp: waiting_def)
  have "stuck (sleep (ChanSleep i) (SleepLk i)) s [] (\<lambda>t. pstate (procs t p) = SLEEPING \<and> pchan (procs t p) = Some (ChanSleep i) \<and>
    slocked (slocks t i) \<noteq> 0 \<and> locked (locks t (SleepLk i)) = 0)"
    by (rule stuck_sleep [OF w(1,2)]) (use w(3) in \<open>simp_all add: asleep_def lkb_free\<close>)
  then show ?case using w(3) by (auto simp: stuck_def wait_turn_def)
next
  case (Cons u us)
  have "stuck (doM (wait_turn i ()) (\<lambda>r. case r of Inl y \<Rightarrow> iterM (Suc (length us)) (wait_turn i) y | Inr z \<Rightarrow> returnM z)) s (u # us)
    (\<lambda>t. pstate (procs t p) = SLEEPING \<and> pchan (procs t p) = Some (ChanSleep i) \<and> slocked (slocks t i) \<noteq> 0 \<and> locked (locks t (SleepLk i)) = 0)"
  proof (rule stuck_doM(2), rule wp_wait_turn [OF Cons.prems(1,2), where b = True], goal_cases)
    case 1
    then show ?case using Cons.prems(3) by simp
  next
    case (2 t)
    then have "waiting h P i t" by (simp add: waiting_def)
    from Cons.IH [OF this Cons.prems(2)] Cons.prems(3) show ?case by (simp del: iterM.simps)
  qed
  moreover have "Suc (length (u # us)) = Suc (Suc (length us))" by simp
  ultimately show ?case by (simp only: iterM.simps(2) [of "Suc (length us)"])
qed

lemma stuck_sleep_while_locked:
  assumes "waiting h P i s" "P h = Some p" "\<forall>u\<in>set us. resumed h P p i True u"
  shows "stuck (sleep_while_locked i) s us (\<lambda>t. pstate (procs t p) = SLEEPING \<and> pchan (procs t p) = Some (ChanSleep i) \<and>
    slocked (slocks t i) \<noteq> 0 \<and> locked (locks t (SleepLk i)) = 0)"
  using stuck_waits [OF assms] unfolding stuck_def sleep_while_locked_eq .

lemma wp_sleep_while_locked:
  assumes s: "waiting h P i s" "P h = Some p" and us: "\<forall>u\<in>set us. resumed h P p i True u" "resumed h P p i False e"
    and Q: "\<And>t. hart t = h \<Longrightarrow> lkst [SleepLk i] P t \<Longrightarrow> slocked (slocks t i) = 0 \<Longrightarrow> Q () t fs"
  shows "wp (sleep_while_locked i) s (us @ e # fs) Q"
proof -
  have "wp (iterM (Suc (Suc (length fs))) (wait_turn i) ()) t (e # fs) Q" if "waiting h P i t" for t
  proof -
    have "wp (wait_turn i ()) t (e # fs) (\<lambda>r t gs. wp (case r of Inl y \<Rightarrow> iterM (Suc (length fs)) (wait_turn i) y | Inr z \<Rightarrow> returnM z) t gs Q)"
      by (rule wp_wait_turn [OF that s(2) us(2)]) (simp add: wait_turn_def Q)
    then show ?thesis by (simp only: iterM.simps(2) [of "Suc (length fs)"] wp_simps)
  qed
  then have "wp (iterM (Suc (length (us @ e # fs))) (wait_turn i) ()) s (us @ e # fs) Q"
    by (intro wp_waits [OF s us(1)]) (simp_all del: iterM.simps add: Suc_diff_le)
  then show ?thesis unfolding wp_def sleep_while_locked_eq .
qed

section \<open>Properties\<close>

text \<open>
  C30.  \<open>acquiresleep\<close> waits for the lock.  Each time the process is resumed with the sleep-lock still
  taken it goes to sleep again, on the lock's channel and with the inner spinlock released; it
  returns, as the owner, at the first time it is resumed with the lock free, and not before.
  Here \<open>us\<close> are the times it is resumed with the lock taken, any number of them.
\<close>

theorem acquiresleep_waits:
  fixes s :: "'x slk_scheme"
  assumes lk: "lkst [] P s" "P (hart s) = Some p" and l: "slocked (slocks s i) \<noteq> 0"
    and us: "\<forall>u\<in>set us. resumed (hart s) P p i True u" and e: "resumed (hart s) P p i False e"
  shows "(\<exists>t. acquiresleep i s us = Stuck t \<and> pstate (procs t p) = SLEEPING \<and> pchan (procs t p) = Some (ChanSleep i) \<and>
            slocked (slocks t i) \<noteq> 0 \<and> locked (locks t (SleepLk i)) = 0) \<and>
         (\<exists>t. acquiresleep i s (us @ e # fs) = Done () t fs \<and> lkst [] P t \<and>
            slocked (slocks t i) = 1 \<and> slpid (slocks t i) = pid (procs t p))"
proof
  have w: "waiting (hart s) P i (s\<lparr>cpus := c, sstatus := st, locks := l\<rparr>)" if "lkb [SleepLk i] P (hart s) c st l" for c st l
    using that l by (simp add: waiting_def)
  show "\<exists>t. acquiresleep i s us = Stuck t \<and> pstate (procs t p) = SLEEPING \<and> pchan (procs t p) = Some (ChanSleep i) \<and>
            slocked (slocks t i) \<noteq> 0 \<and> locked (locks t (SleepLk i)) = 0"
  proof -
    have "stuck (acquiresleep i) s us (\<lambda>t. pstate (procs t p) = SLEEPING \<and> pchan (procs t p) = Some (ChanSleep i) \<and>
        slocked (slocks t i) \<noteq> 0 \<and> locked (locks t (SleepLk i)) = 0)"
      unfolding acquiresleep_def
      by (rule stuck_doM(4), rule wp_acquire [OF lk(1)], simp, rule stuck_doM(3), rule stuck_sleep_while_locked [OF w lk(2) us])
    then show ?thesis by (simp add: stuck_def)
  qed
  have "wp (acquiresleep i) s (us @ e # fs) (\<lambda>_ t gs. gs = fs \<and> lkst [] P t \<and> slocked (slocks t i) = 1 \<and> slpid (slocks t i) = pid (procs t p))"
    unfolding acquiresleep_def wp_simps
    apply (rule wp_acquire [OF lk(1)], simp)
    apply (rule wp_sleep_while_locked [OF w lk(2) us e], assumption, simp)
    apply (rule wp_curproc, simp, simp add: lk(2), simp)
    by (rule wp_release, simp, simp, simp)
  then show "\<exists>t. acquiresleep i s (us @ e # fs) = Done () t fs \<and> lkst [] P t \<and>
            slocked (slocks t i) = 1 \<and> slpid (slocks t i) = pid (procs t p)" by (auto simp: wp_iff)
qed

definition demo_slk :: "lockid list \<Rightarrow> slk" where
  "demo_slk L = sched.extend (demo_sched L)
     (slk.fields (\<lambda>i. \<lparr>slocked = if i = BufLock 0 then 1 else 0, slname = [], slpid = if i = BufLock 0 then 2 else 0\<rparr>))"

definition demo_keep :: "slk \<Rightarrow> slk" where
  "demo_keep t = t\<lparr>slocks := (slocks t)(BufLock 0 := taken 2 (slocks t (BufLock 0)))\<rparr>"

definition demo_free :: "slk \<Rightarrow> slk" where
  "demo_free t = t\<lparr>slocks := (slocks t)(BufLock 0 := freed (slocks t (BufLock 0)))\<rparr>"

lemma acquiresleep_waits_witness:
  "lkst [] demo_P (demo_slk []) \<and>
   (\<exists>t. acquiresleep (BufLock 0) (demo_slk []) [demo_keep, demo_keep] = Stuck t \<and> locked (locks t (SleepLk (BufLock 0))) = 0) \<and>
   (\<exists>t. acquiresleep (BufLock 0) (demo_slk []) [demo_keep, demo_keep, demo_free] = Done () t [] \<and> slocked (slocks t (BufLock 0)) = 1)"
proof -
  have f: "hart (demo_slk []) = 0" "slocked (slocks (demo_slk []) (BufLock 0)) = 1"
    by (simp_all add: demo_slk_def demo_sched_def sched.defs slk.defs)
  have lk: "lkst [] demo_P (demo_slk [])"
    by (simp add: demo_slk_def demo_sched_def sched.defs slk.defs lkb_def)
  have r: "resumed 0 demo_P 1 (BufLock 0) True demo_keep" "resumed 0 demo_P 1 (BufLock 0) False demo_free"
    by (simp_all add: resumed_def demo_keep_def demo_free_def)
  show ?thesis
    using acquiresleep_waits [OF lk, of 1 "BufLock 0" "[demo_keep, demo_keep]" demo_free "[]"] lk r f by auto
qed

end
