(* ===== verification/Kstring.thy ===== *)
theory Kstring
  imports Prelude
begin

text \<open>
  \<^verbatim>\<open>kernel/string.c\<close>: the memory and string routines of the kernel, as functions on a
  memory image.  Pointers are 64-bit words; \<open>char\<close> arguments are bytes.  The lemmas give
  each routine in closed form over \<open>bytes m a n\<close> (the \<open>n\<close> bytes at \<open>a\<close>) and
  \<open>put m a bs\<close> (the memory with \<open>bs\<close> stored at \<open>a\<close>).
\<close>

section \<open>Regions of memory\<close>

definition bytes :: "memory \<Rightarrow> addr \<Rightarrow> nat \<Rightarrow> byte list" where
  "bytes m a n = map (\<lambda>i. m (a + of_nat i)) [0..<n]"

definition put :: "memory \<Rightarrow> addr \<Rightarrow> byte list \<Rightarrow> memory" where
  "put m a bs = (\<lambda>x. if unat (x - a) < length bs then bs ! unat (x - a) else m x)"

section \<open>Operations\<close>

definition memset :: "memory \<Rightarrow> addr \<Rightarrow> byte \<Rightarrow> nat \<Rightarrow> memory" where
  "memset m cdst c n = fold (\<lambda>i m. m(cdst + of_nat i := c)) [0..<n] m"

fun memcmp :: "memory \<Rightarrow> addr \<Rightarrow> addr \<Rightarrow> nat \<Rightarrow> int" where
  "memcmp m s1 s2 0 = 0"
| "memcmp m s1 s2 (Suc n) =
     (if m s1 \<noteq> m s2 then uint (m s1) - uint (m s2) else memcmp m (s1 + 1) (s2 + 1) n)"

fun copy_down :: "memory \<Rightarrow> addr \<Rightarrow> addr \<Rightarrow> nat \<Rightarrow> memory" where
  "copy_down m d s 0 = m"
| "copy_down m d s (Suc n) = copy_down (m(d - 1 := m (s - 1))) (d - 1) (s - 1) n"

fun copy_up :: "memory \<Rightarrow> addr \<Rightarrow> addr \<Rightarrow> nat \<Rightarrow> memory" where
  "copy_up m d s 0 = m"
| "copy_up m d s (Suc n) = copy_up (m(d := m s)) (d + 1) (s + 1) n"

definition memmove :: "memory \<Rightarrow> addr \<Rightarrow> addr \<Rightarrow> nat \<Rightarrow> memory" where
  "memmove m dst src n =
     (if n = 0 then m
      else if src < dst \<and> src + of_nat n > dst
      then copy_down m (dst + of_nat n) (src + of_nat n) n
      else copy_up m dst src n)"

definition memcpy :: "memory \<Rightarrow> addr \<Rightarrow> addr \<Rightarrow> nat \<Rightarrow> memory" where
  "memcpy m dst src n = memmove m dst src n"

fun strncmp :: "memory \<Rightarrow> addr \<Rightarrow> addr \<Rightarrow> nat \<Rightarrow> int" where
  "strncmp m p q 0 = 0"
| "strncmp m p q (Suc n) =
     (if m p \<noteq> 0 \<and> m p = m q then strncmp m (p + 1) (q + 1) n
      else uint (m p) - uint (m q))"

text \<open>The second loop of \<open>strncpy\<close>, then the whole routine with both loops.\<close>

fun zero_fill :: "memory \<Rightarrow> addr \<Rightarrow> nat \<Rightarrow> memory" where
  "zero_fill m s 0 = m"
| "zero_fill m s (Suc n) = zero_fill (m(s := 0)) (s + 1) n"

fun strncpy :: "memory \<Rightarrow> addr \<Rightarrow> addr \<Rightarrow> nat \<Rightarrow> memory" where
  "strncpy m s t 0 = m"
| "strncpy m s t (Suc n) =
     (let m' = m(s := m t) in
      if m t \<noteq> 0 then strncpy m' (s + 1) (t + 1) n else zero_fill m' (s + 1) n)"

text \<open>
  The loop of \<open>safestrcpy\<close> with \<open>k\<close> copies still allowed, returning the memory and \<open>s\<close>.
\<close>

fun safe_copy :: "memory \<Rightarrow> addr \<Rightarrow> addr \<Rightarrow> nat \<Rightarrow> memory \<times> addr" where
  "safe_copy m s t 0 = (m, s)"
| "safe_copy m s t (Suc k) =
     (let m' = m(s := m t) in if m t \<noteq> 0 then safe_copy m' (s + 1) (t + 1) k else (m', s + 1))"

definition safestrcpy :: "memory \<Rightarrow> addr \<Rightarrow> addr \<Rightarrow> int \<Rightarrow> memory" where
  "safestrcpy m s t n =
     (if n \<le> 0 then m else (let (m', s') = safe_copy m s t (nat (n - 1)) in m'(s' := 0)))"

text \<open>\<open>strlen\<close> has no bound: on memory without a zero byte it does not return.\<close>

partial_function (option) strlen_from :: "memory \<Rightarrow> addr \<Rightarrow> nat \<Rightarrow> nat option" where
  "strlen_from m s n = (if m (s + of_nat n) \<noteq> 0 then strlen_from m s (n + 1) else Some n)"

definition strlen :: "memory \<Rightarrow> addr \<Rightarrow> nat option" where
  "strlen m s = strlen_from m s 0"

section \<open>Laws of regions\<close>

lemma length_bytes [simp]: "length (bytes m a n) = n"
  by (simp add: bytes_def)

lemma nth_bytes [simp]: "i < n \<Longrightarrow> bytes m a n ! i = m (a + of_nat i)"
  by (simp add: bytes_def)

lemma bytes_0 [simp]: "bytes m a 0 = []"
  by (simp add: bytes_def)

lemma put_Nil [simp]: "put m a [] = m"
  by (simp add: put_def)

lemma unat_sub_eqD:
  fixes x a :: addr
  assumes "unat (x - a) = i" shows "x = a + of_nat i"
proof -
  have "x - a = of_nat i" unfolding assms [symmetric] by simp
  then show ?thesis by (simp add: algebra_simps)
qed

lemma unat_of_nat_addr [simp]: "i < 2 ^ 64 \<Longrightarrow> unat (of_nat i :: addr) = i"
  by (simp add: unat_of_nat)

lemma add_unat_sub [simp]: "a + of_nat (unat (x - a)) = (x :: addr)"
  by (metis unat_sub_eqD)

lemma bytes_put_same [simp]:
  assumes "length bs \<le> 2 ^ 64"
  shows "bytes (put m a bs) a (length bs) = bs"
  using assms by (auto intro!: nth_equalityI simp: put_def unat_of_nat_addr)

lemma put_bytes_same [simp]: "n \<le> 2 ^ 64 \<Longrightarrow> put m a (bytes m a n) = m"
  by (auto simp: put_def fun_eq_iff)

lemma bytes_cong: "(\<And>i. i < n \<Longrightarrow> m (a + of_nat i) = m' (a + of_nat i)) \<Longrightarrow> bytes m a n = bytes m' a n"
  by (auto intro: nth_equalityI)

lemma bytes_Suc: "bytes m a (Suc n) = m a # bytes m (a + 1) n"
  by (rule nth_equalityI) (auto simp: nth_Cons algebra_simps split: nat.split)

lemma bytes_add: "bytes m a (i + j) = bytes m a i @ bytes m (a + of_nat i) j"
  by (rule nth_equalityI) (auto simp: nth_append algebra_simps)

lemma put_Cons:
  assumes "length bs < 2 ^ 64"
  shows "put m a (b # bs) = put (m(a := b)) (a + 1) bs"
proof
  fix x :: addr
  show "put m a (b # bs) x = put (m(a := b)) (a + 1) bs x"
  proof (cases "x = a")
    case True
    have "unat (- 1 :: addr) = 2 ^ 64 - 1" by (simp add: unsigned_minus_1_eq_mask mask_eq_exp_minus_1)
    with True assms show ?thesis by (simp add: put_def)
  next
    case False
    then have "unat (x - (a + 1)) = unat (x - a) - 1" "unat (x - a) \<noteq> 0"
      using unat_minus_one [of "x - a"] by (simp_all add: diff_diff_eq unat_eq_0)
    then have "unat (x - a) = Suc (unat (x - (a + 1)))" by simp
    with False show ?thesis by (simp add: put_def)
  qed
qed

lemma put_append:
  assumes "length as + length bs \<le> 2 ^ 64"
  shows "put (put m a as) (a + of_nat (length as)) bs = put m a (as @ bs)"
  using assms
proof (induction as arbitrary: m a)
  case (Cons c as)
  have "put (put (m(a := c)) (a + 1) as) (a + 1 + of_nat (length as)) bs = put (m(a := c)) (a + 1) (as @ bs)"
    by (rule Cons.IH) (use Cons.prems in simp)
  with Cons.prems show ?case by (simp add: put_Cons add.assoc)
qed simp

section \<open>Closed forms\<close>

lemma memset_put: "n \<le> 2 ^ 64 \<Longrightarrow> memset m a c n = put m a (replicate n c)"
proof (induction n)
  case (Suc n)
  have "put m a (replicate (Suc n) c) = put (put m a (replicate n c)) (a + of_nat n) [c]"
    using put_append [of "replicate n c" "[c]" m a] Suc.prems
    by (simp add: replicate_append_same)
  also have "\<dots> = (put m a (replicate n c))(a + of_nat n := c)" by (simp add: put_Cons)
  finally show ?case using Suc by (simp add: memset_def)
qed (simp add: memset_def)

lemma copy_up_put:
  assumes "\<And>i j. i < j \<Longrightarrow> j < n \<Longrightarrow> d + of_nat i \<noteq> s + of_nat j" "n \<le> 2 ^ 64"
  shows "copy_up m d s n = put m d (bytes m s n)"
  using assms
proof (induction n arbitrary: m d s)
  case (Suc n)
  have "bytes (m(d := m s)) (s + 1) n = bytes m (s + 1) n"
    using Suc.prems(1) [of 0] by (intro bytes_cong) (force simp: algebra_simps)
  moreover have "d + 1 + of_nat i \<noteq> s + 1 + of_nat j" if "i < j" "j < n" for i j
    using Suc.prems(1) [of "Suc i" "Suc j"] that by (simp add: algebra_simps)
  ultimately show ?case using Suc by (simp add: bytes_Suc put_Cons)
qed simp

lemma copy_down_put:
  assumes "\<And>i j. i < j \<Longrightarrow> j < n \<Longrightarrow> s + of_nat i \<noteq> d + of_nat j" "n \<le> 2 ^ 64"
  shows "copy_down m (d + of_nat n) (s + of_nat n) n = put m d (bytes m s n)"
  using assms
proof (induction n arbitrary: m)
  case (Suc n)
  let ?m = "m(d + of_nat n := m (s + of_nat n))"
  have "bytes ?m s n = bytes m s n"
    using Suc.prems(1) [of _ n] by (intro bytes_cong) auto
  moreover have "bytes m s (Suc n) = bytes m s n @ [m (s + of_nat n)]"
    using bytes_add [of m s n 1] by (simp add: bytes_def)
  moreover have "put ?m d (bytes m s n) = put m d (bytes m s n @ [m (s + of_nat n)])"
  proof
    fix x show "put ?m d (bytes m s n) x = put m d (bytes m s n @ [m (s + of_nat n)]) x"
      using Suc.prems(2) by (cases "unat (x - d) = n") (auto simp: put_def nth_append dest: unat_sub_eqD)
  qed
  ultimately show ?case using Suc by (simp add: algebra_simps)
qed simp

lemma unat_add_of_nat: "unat a + i < 2 ^ 64 \<Longrightarrow> unat (a + of_nat i) = unat a + i" for a :: addr
  by (simp add: unat_word_ariths)

lemma memmove_put:
  assumes "unat src + n < 2 ^ 64" "unat dst + n \<le> 2 ^ 64"
  shows "memmove m dst src n = put m dst (bytes m src n)"
proof -
  have ne: "a + of_nat i \<noteq> b + of_nat j" if "unat a + i < unat b + j" "unat b + j < 2 ^ 64" for a b :: addr and i j
  proof
    assume "a + of_nat i = b + of_nat j"
    then have "unat (a + of_nat i) = unat (b + of_nat j)" by (rule arg_cong)
    with that show False by (simp add: unat_add_of_nat)
  qed
  show ?thesis
  proof (cases "src < dst \<and> src + of_nat n > dst")
    case True
    have "copy_down m (dst + of_nat n) (src + of_nat n) n = put m dst (bytes m src n)"
    proof (rule copy_down_put)
      fix i j assume "i < j" "j < n"
      then show "src + of_nat i \<noteq> dst + of_nat j"
        using True assms ne [of src i dst j] by (simp add: word_less_nat_alt)
    qed (use assms in simp)
    with True show ?thesis by (auto simp: memmove_def)
  next
    case False
    have "copy_up m dst src n = put m dst (bytes m src n)"
    proof (rule copy_up_put)
      fix i j assume "i < j" "j < n"
      then show "dst + of_nat i \<noteq> src + of_nat j"
        using False assms ne [of dst i src j] ne [of src j dst i]
        by (cases "src < dst") (auto simp: word_less_nat_alt unat_add_of_nat)
    qed (use assms in simp)
    with False show ?thesis by (auto simp: memmove_def)
  qed
qed

lemma strlen_from_nul:
  assumes "n \<le> k" "m (s + of_nat k) = 0" "\<And>i. n \<le> i \<Longrightarrow> i < k \<Longrightarrow> m (s + of_nat i) \<noteq> 0"
  shows "strlen_from m s n = Some k"
  using assms
proof (induction "k - n" arbitrary: n)
  case 0
  then show ?case by (simp add: strlen_from.simps)
next
  case (Suc d)
  then have "m (s + of_nat n) \<noteq> 0" by auto
  moreover have "strlen_from m s (n + 1) = Some k" using Suc by (intro Suc.hyps) auto
  ultimately show ?case by (subst strlen_from.simps) simp
qed

lemma strlen_nul:
  assumes "m (s + of_nat k) = 0" "\<And>i. i < k \<Longrightarrow> m (s + of_nat i) \<noteq> 0"
  shows "strlen m s = Some k"
  using strlen_from_nul [of 0 k m s] assms by (simp add: strlen_def)

text \<open>\<open>cstr bs\<close>: the C string in a buffer of bytes, cut at the first zero.\<close>

definition cstr :: "byte list \<Rightarrow> byte list" where
  "cstr bs = takeWhile (\<lambda>b. b \<noteq> 0) bs"

lemma memcmp_0_iff: "memcmp m p q n = 0 \<longleftrightarrow> bytes m p n = bytes m q n"
  by (induction m p q n rule: memcmp.induct) (auto simp: bytes_Suc unsigned_word_eqI)

lemma strncmp_0_iff: "strncmp m p q n = 0 \<longleftrightarrow> cstr (bytes m p n) = cstr (bytes m q n)"
  by (induction m p q n rule: strncmp.induct) (auto simp: bytes_Suc cstr_def unsigned_word_eqI)

definition apart :: "addr \<Rightarrow> addr \<Rightarrow> nat \<Rightarrow> bool" where
  "apart s t n \<longleftrightarrow> (\<forall>i<n. \<forall>j<n. s + of_nat i \<noteq> t + of_nat j)"

lemma apart_Suc:
  assumes "apart s t (Suc n)" shows "apart (s + 1) (t + 1) n"
  unfolding apart_def
proof (intro allI impI)
  fix i j assume "i < n" "j < n"
  then show "s + 1 + of_nat i \<noteq> t + 1 + of_nat j"
    using assms [unfolded apart_def, rule_format, of "Suc i" "Suc j"] by (simp add: algebra_simps)
qed

lemma bytes_apart:
  assumes "apart s t (Suc n)" shows "bytes (m(s := b)) (t + 1) n = bytes m (t + 1) n"
proof (rule bytes_cong)
  fix i assume "i < n"
  then show "(m(s := b)) (t + 1 + of_nat i) = m (t + 1 + of_nat i)"
    using assms [unfolded apart_def, rule_format, of 0 "Suc i"] by (auto simp: algebra_simps)
qed

lemma zero_fill_put: "n \<le> 2 ^ 64 \<Longrightarrow> zero_fill m s n = put m s (replicate n 0)"
  by (induction m s n rule: zero_fill.induct) (auto simp: put_Cons)

lemma length_cstr: "length (cstr bs) \<le> length bs"
  by (simp add: cstr_def length_takeWhile_le)

lemma length_cstr_bytes: "length (cstr (bytes m a n)) \<le> n"
  using length_cstr [of "bytes m a n"] by simp

lemma cstr_Nil [simp]: "cstr [] = []"
  by (simp add: cstr_def)

lemma cstr_Cons [simp]: "cstr (b # bs) = (if b = 0 then [] else b # cstr bs)"
  by (simp add: cstr_def)

lemma cstr_no_zero: "0 \<notin> set (cstr bs)"
  by (induction bs) (auto simp: cstr_def)

lemma cstr_append_zero: "0 \<notin> set xs \<Longrightarrow> cstr (xs @ 0 # ys) = xs"
  by (induction xs) (auto simp: cstr_def)

lemma strncpy_put:
  assumes "apart s t n" "n \<le> 2 ^ 64"
  shows "strncpy m s t n =
    put m s (cstr (bytes m t n) @ replicate (n - length (cstr (bytes m t n))) 0)"
  using assms
proof (induction n arbitrary: m s t)
  case (Suc n)
  let ?c = "cstr (bytes m (t + 1) n)"
  have l: "length ?c + (n - length ?c) = n" using length_cstr_bytes [of m "t + 1" n] by simp
  show ?case
  proof (cases "m t = 0")
    case True
    with Suc show ?thesis by (simp add: bytes_Suc zero_fill_put put_Cons)
  next
    case False
    have "strncpy (m(s := m t)) (s + 1) (t + 1) n = put (m(s := m t)) (s + 1) (?c @ replicate (n - length ?c) 0)"
      using Suc.IH [OF apart_Suc [OF Suc.prems(1)]] Suc.prems(2)
      by (simp add: bytes_apart [OF Suc.prems(1)] del: fun_upd_apply)
    with False Suc.prems l show ?thesis by (simp add: bytes_Suc put_Cons Let_def del: fun_upd_apply)
  qed
qed (simp add: cstr_def)

lemma safe_copy_put:
  assumes "apart s t k" "k < 2 ^ 64"
  shows "safe_copy m s t k =
    (if length (cstr (bytes m t k)) = k then (put m s (cstr (bytes m t k)), s + of_nat k)
     else (put m s (cstr (bytes m t k) @ [0]), s + of_nat (length (cstr (bytes m t k)) + 1)))"
  using assms
proof (induction k arbitrary: m s t)
  case (Suc k)
  let ?c = "cstr (bytes m (t + 1) k)"
  have l: "length ?c \<le> k" by (rule length_cstr_bytes)
  show ?case
  proof (cases "m t = 0")
    case True
    with Suc show ?thesis by (simp add: bytes_Suc put_Cons Let_def)
  next
    case False
    have "safe_copy (m(s := m t)) (s + 1) (t + 1) k =
      (if length ?c = k then (put (m(s := m t)) (s + 1) ?c, s + 1 + of_nat k)
       else (put (m(s := m t)) (s + 1) (?c @ [0]), s + 1 + of_nat (length ?c + 1)))"
      using Suc.IH [OF apart_Suc [OF Suc.prems(1)]] Suc.prems(2)
      by (simp add: bytes_apart [OF Suc.prems(1)] del: fun_upd_apply)
    with False Suc.prems l show ?thesis
      by (simp add: bytes_Suc put_Cons Let_def add.assoc del: fun_upd_apply)
  qed
qed simp

lemma safestrcpy_put:
  assumes "0 < n" "apart s t (nat (n - 1))" "n \<le> 2 ^ 63"
  shows "\<exists>z. (z = [] \<or> z = [0]) \<and> length (cstr (bytes m t (nat (n - 1))) @ [0] @ z) \<le> nat n \<and>
     safestrcpy m s t n = put m s (cstr (bytes m t (nat (n - 1))) @ [0] @ z)"
proof -
  define k where "k = nat (n - 1)"
  let ?c = "cstr (bytes m t k)"
  have k: "nat n = Suc k" "k < 2 ^ 64 - 1" "k < 2 ^ 64" using assms by (auto simp: k_def)
  have l: "length ?c \<le> k" by (rule length_cstr_bytes)
  have sc: "safe_copy m s t k = (if length ?c = k then (put m s ?c, s + of_nat k)
     else (put m s (?c @ [0]), s + of_nat (length ?c + 1)))"
    by (rule safe_copy_put) (use assms k in \<open>simp_all add: k_def\<close>)
  have upd: "(put m s bs)(s + of_nat (length bs) := 0) = put m s (bs @ [0])" if "length bs < 2 ^ 64" for bs
    using put_append [of bs "[0]" m s] that by (simp add: put_Cons)
  show ?thesis
  proof (cases "length ?c = k")
    case True
    then show ?thesis
      using assms(1) upd [of ?c] k sc by (intro exI [of _ "[]"]) (simp add: safestrcpy_def k_def [symmetric])
  next
    case False
    then show ?thesis
      using assms(1) upd [of "?c @ [0]"] k l sc
      by (intro exI [of _ "[0]"]) (simp add: safestrcpy_def k_def [symmetric])
  qed
qed

section \<open>Properties\<close>

text \<open>
  C37.  \<open>memmove\<close> copies the \<open>n\<close> source bytes as they were before the call to the destination,
  also when the two regions overlap in either direction, and changes nothing else.
\<close>

theorem memmove_correct:
  assumes "unat src + n < 2 ^ 64" "unat dst + n \<le> 2 ^ 64"
  shows "bytes (memmove m dst src n) dst n = bytes m src n \<and>
    (\<forall>a. unat (a - dst) \<ge> n \<longrightarrow> memmove m dst src n a = m a)"
proof -
  have "n \<le> 2 ^ 64" using assms(2) by simp
  then show ?thesis
    using bytes_put_same [of "bytes m src n" m dst] by (simp add: memmove_put [OF assms]) (simp add: put_def)
qed

lemma memmove_correct_witness:
  "bytes (memmove (\<lambda>a. ucast a) 2 0 4) 2 4 = [0, 1, 2, 3] \<and> bytes (memmove (\<lambda>a. ucast a) 0 2 4) 0 4 = [2, 3, 4, 5]"
  using memmove_correct [of 0 4 2 "\<lambda>a. ucast a"] memmove_correct [of 2 4 0 "\<lambda>a. ucast a"]
  by (simp add: bytes_def upt_rec)

text \<open>
  \<open>safestrcpy(s, t, n)\<close> with a positive \<open>n\<close> leaves at \<open>s\<close>, within its \<open>n\<close> bytes, the
  terminated string that is the first \<open>n - 1\<close> characters of the string at \<open>t\<close>, and writes
  nowhere else.
\<close>

theorem safestrcpy_terminates_string:
  assumes "0 < n" "n \<le> 2 ^ 31" "apart s t (nat (n - 1))"
  shows "cstr (bytes (safestrcpy m s t n) s (nat n)) = cstr (bytes m t (nat (n - 1))) \<and>
    0 \<in> set (bytes (safestrcpy m s t n) s (nat n)) \<and>
    (\<forall>a. unat (a - s) \<ge> nat n \<longrightarrow> safestrcpy m s t n a = m a)"
proof -
  let ?c = "cstr (bytes m t (nat (n - 1)))"
  obtain z where z: "length (?c @ [0] @ z) \<le> nat n" "safestrcpy m s t n = put m s (?c @ [0] @ z)"
    using safestrcpy_put [of n s t m] assms by auto
  define ys where "ys = bytes (safestrcpy m s t n) (s + of_nat (length (?c @ [0] @ z))) (nat n - length (?c @ [0] @ z))"
  have "length (?c @ [0] @ z) \<le> 2 ^ 64" using z(1) assms(2) by simp
  then have "bytes (safestrcpy m s t n) s (nat n) = (?c @ [0] @ z) @ ys"
    using bytes_add [of "safestrcpy m s t n" s "length (?c @ [0] @ z)" "nat n - length (?c @ [0] @ z)"]
      bytes_put_same [of "?c @ [0] @ z" m s] z by (simp add: ys_def)
  then have "bytes (safestrcpy m s t n) s (nat n) = ?c @ 0 # z @ ys" by simp
  moreover have "safestrcpy m s t n a = m a" if "unat (a - s) \<ge> nat n" for a
    using that z by (simp add: put_def)
  ultimately show ?thesis by (simp add: cstr_append_zero cstr_no_zero)
qed

lemma safestrcpy_terminates_string_witness:
  "apart 100 0 3 \<and> cstr (bytes (safestrcpy (\<lambda>a. ucast (a + 65)) 100 0 4) 100 4) = [65, 66, 67]"
proof -
  have "apart 100 0 3" by (auto simp: apart_def less_Suc_eq numeral_3_eq_3)
  then show ?thesis
    using safestrcpy_terminates_string [of 4 100 0 "\<lambda>a. ucast (a + 65)"] by (simp add: bytes_def upt_rec)
qed

end
