(* ===== verification/Page.thy ===== *)
theory Page
  imports Kstring
begin

text \<open>
  Pages and the memory map: the constants of \<^verbatim>\<open>kernel/riscv.h\<close> and
  \<^verbatim>\<open>kernel/memlayout.h\<close> that speak about pages, 64-bit loads and stores in a memory
  image, and the arithmetic of page-aligned addresses.
\<close>

section \<open>Constants\<close>

definition PGSIZE :: addr where "PGSIZE = 4096"

definition PGROUNDUP :: "addr \<Rightarrow> addr" where
  "PGROUNDUP sz = (sz + PGSIZE - 1) AND NOT (PGSIZE - 1)"

definition PGROUNDDOWN :: "addr \<Rightarrow> addr" where
  "PGROUNDDOWN a = a AND NOT (PGSIZE - 1)"

definition KERNBASE :: addr where "KERNBASE = 0x80000000"
definition PHYSTOP :: addr where "PHYSTOP = KERNBASE + 128 * 1024 * 1024"

lemmas page_consts = PGSIZE_def KERNBASE_def PHYSTOP_def

section \<open>Loads and stores\<close>

definition ld64 :: "memory \<Rightarrow> addr \<Rightarrow> 64 word" where
  "ld64 m a = le_word (bytes m a 8)"

definition st64 :: "memory \<Rightarrow> addr \<Rightarrow> 64 word \<Rightarrow> memory" where
  "st64 m a v = put m a (le_bytes 8 v)"

lemma ld64_st64 [simp]: "ld64 (st64 m a v) a = v"
  using bytes_put_same [of "le_bytes 8 v" m a] by (simp add: ld64_def st64_def)

lemma put_outside: "unat (x - a) \<ge> length bs \<Longrightarrow> put m a bs x = m x"
  by (simp add: put_def)

section \<open>Page arithmetic\<close>

definition aligned :: "addr \<Rightarrow> bool" where
  "aligned a \<longleftrightarrow> a mod PGSIZE = 0"

lemma PGSIZE_unat [simp]: "unat PGSIZE = 4096"
  by (simp add: PGSIZE_def)

lemma unat64: "unat (a :: addr) < 2 ^ 64"
proof -
  have "unat a < 2 ^ LENGTH(64)" by (rule unsigned_less)
  then show ?thesis by simp
qed

lemma aligned_unat: "aligned a \<longleftrightarrow> unat a mod 4096 = 0"
  unfolding aligned_def using unat_mod [of a PGSIZE] by (metis PGSIZE_unat unat_eq_0)

lemma alignedE:
  assumes "aligned a" obtains k where "unat a = 4096 * k"
  using assms by (auto simp: aligned_unat)

lemma aligned_bound:
  assumes "aligned a" shows "unat a + 4096 \<le> 2 ^ 64"
proof -
  obtain k where k: "unat a = 4096 * k" using assms by (auto simp: aligned_unat)
  with unat64 [of a] have "4096 * k < 4096 * 2 ^ 52" by simp
  then have "4096 * (k + 1) \<le> 4096 * 2 ^ 52" by simp
  with k show ?thesis by simp
qed

lemma mask12: "PGSIZE - 1 = mask 12"
  by (simp add: PGSIZE_def mask_eq_exp_minus_1)

lemma and_not_mask: "a AND NOT (mask n) = a - take_bit n a" for a :: "'a::len word"
proof -
  have "a AND NOT (mask n) = push_bit n (drop_bit n a)"
    by (rule bit_word_eqI) (auto simp: bit_simps)
  then show ?thesis using bits_ident [of n a] by (metis add_diff_cancel_right')
qed

lemma unat_PGROUNDDOWN: "unat (PGROUNDDOWN a) = unat a - unat a mod 4096"
proof -
  have t: "take_bit 12 a = a mod 4096" by (simp add: take_bit_eq_mod)
  have u: "unat (a mod 4096) = unat a mod 4096" by (simp add: unat_mod)
  then have "a mod 4096 \<le> a" by (simp add: word_le_nat_alt)
  with u show ?thesis unfolding PGROUNDDOWN_def mask12 and_not_mask t by (simp add: unat_sub)
qed

lemma aligned_PGROUNDDOWN [simp]: "aligned (PGROUNDDOWN a)"
  by (simp add: aligned_unat unat_PGROUNDDOWN)

lemma PGROUNDDOWN_le: "PGROUNDDOWN a \<le> a"
  by (simp add: word_le_nat_alt unat_PGROUNDDOWN)

lemma PGROUNDUP_eq: "PGROUNDUP a = PGROUNDDOWN (a + 4095)"
  by (simp add: PGROUNDUP_def PGROUNDDOWN_def PGSIZE_def algebra_simps)

lemma unat_PGROUNDUP:
  assumes "unat a + 4095 < 2 ^ 64"
  shows "unat (PGROUNDUP a) = (unat a + 4095) div 4096 * 4096"
proof -
  have "unat (a + 4095) = unat a + 4095" using assms by (simp add: unat_word_ariths)
  then show ?thesis by (simp add: PGROUNDUP_eq unat_PGROUNDDOWN minus_mod_eq_div_mult)
qed

lemma aligned_PGROUNDUP [simp]: "aligned (PGROUNDUP a)"
  by (simp add: PGROUNDUP_eq)

lemma PGROUNDUP_aligned: "aligned a \<Longrightarrow> PGROUNDUP a = a"
proof -
  assume a: "aligned a"
  then have m: "unat a mod 4096 = 0" by (simp add: aligned_unat)
  obtain k where k: "unat a = 4096 * k" using m by auto
  have "unat a + 4095 < 2 ^ 64" using aligned_bound [OF a] by simp
  then have "unat (PGROUNDUP a) = unat a" using k by (simp add: unat_PGROUNDUP)
  then show ?thesis by (rule unsigned_word_eqI)
qed

text \<open>\<open>in_page p x\<close>: address \<open>x\<close> lies in the page that starts at \<open>p\<close>.\<close>

definition in_page :: "addr \<Rightarrow> addr \<Rightarrow> bool" where
  "in_page p x \<longleftrightarrow> unat (x - p) < 4096"

lemma in_page_PGROUNDDOWN: "aligned p \<Longrightarrow> in_page p x \<longleftrightarrow> PGROUNDDOWN x = p"
proof
  assume p: "aligned p" and "in_page p x"
  then have x: "unat (x - p) < 4096" by (simp add: in_page_def)
  have "unat p + unat (x - p) < 2 ^ 64"
    using aligned_bound [OF p] x by simp
  then have "unat x = unat p + unat (x - p)"
    using unat_add_lem [of p "x - p"] by simp
  moreover obtain k where "unat p = 4096 * k" using p by (auto simp: aligned_unat)
  ultimately have "unat (PGROUNDDOWN x) = unat p"
    using x by (simp add: unat_PGROUNDDOWN)
  then show "PGROUNDDOWN x = p" by (rule unsigned_word_eqI)
next
  assume "PGROUNDDOWN x = p"
  then have "unat (x - p) = unat x mod 4096"
    using unat_sub [OF PGROUNDDOWN_le [of x]] unat_PGROUNDDOWN [of x] by simp
  then show "in_page p x" by (simp add: in_page_def)
qed

lemma pages_disjoint: "aligned p \<Longrightarrow> aligned q \<Longrightarrow> p \<noteq> q \<Longrightarrow> in_page p x \<Longrightarrow> \<not> in_page q x"
  by (auto simp: in_page_PGROUNDDOWN)

lemma in_page_offset [simp]: "i < 4096 \<Longrightarrow> in_page p (p + of_nat i)"
  by (simp add: in_page_def)

lemma ld64_page_cong:
  assumes "\<And>x. in_page p x \<Longrightarrow> m x = m' x" "unat off + 8 \<le> 4096"
  shows "ld64 m (p + off) = ld64 m' (p + off)"
proof -
  have "m (p + off + of_nat i) = m' (p + off + of_nat i)" if "i < 8" for i
  proof (rule assms(1))
    have "unat (off + of_nat i) = unat off + i" using that assms(2) by (intro unat_add_of_nat) simp
    then show "in_page p (p + off + of_nat i)"
      using that assms(2) by (simp add: in_page_def add.assoc)
  qed
  then show ?thesis unfolding ld64_def by (intro arg_cong [of _ _ le_word] bytes_cong) blast
qed

lemma st64_outside_page:
  assumes "\<not> in_page p x" "unat off + 8 \<le> 4096"
  shows "st64 m (p + off) v x = m x"
proof -
  have "unat (x - (p + off)) \<ge> 8"
  proof (rule ccontr)
    assume "\<not> ?thesis"
    then have "unat off + unat (x - (p + off)) < 4096" using assms(2) by simp
    moreover from this have "unat (off + (x - (p + off))) = unat off + unat (x - (p + off))"
      by (intro unat_add_lem [THEN iffD1]) simp
    ultimately have "unat (off + (x - (p + off))) < 4096" by (simp only:)
    then show False using assms(1) by (simp add: in_page_def)
  qed
  then show ?thesis by (simp add: st64_def put_outside)
qed

end
