(* ===== verification/Kalloc.thy ===== *)
theory Kalloc
  imports Sleeplock Page "HOL-Library.Multiset"
begin

text \<open>
  \<^verbatim>\<open>kernel/kalloc.c\<close>: the physical page allocator.  The free list is threaded through the
  free pages themselves: the first eight bytes of a free page hold the address of the next
  one.  \<open>kend\<close> is the linker symbol \<open>end\<close>, the first address after the kernel.  The theory
  shows that the allocator is a stack of distinct valid pages and, for any sequence of
  calls, that no page is handed out twice or lost.
\<close>

section \<open>State and operations\<close>

record kmem = slk +
  mem :: memory
  kend :: addr
  freelist :: addr

lemma kmem_upd_order [simp]:
  fixes s :: "'x kmem_scheme"
  shows
  "mem_update u_mem (locks_update u_locks s) = locks_update u_locks (mem_update u_mem s)"
  "mem_update u_mem (sstatus_update u_sstatus s) = sstatus_update u_sstatus (mem_update u_mem s)"
  "mem_update u_mem (cpus_update u_cpus s) = cpus_update u_cpus (mem_update u_mem s)"
  "freelist_update u_freelist (locks_update u_locks s) = locks_update u_locks (freelist_update u_freelist s)"
  "freelist_update u_freelist (sstatus_update u_sstatus s) = sstatus_update u_sstatus (freelist_update u_freelist s)"
  "freelist_update u_freelist (cpus_update u_cpus s) = cpus_update u_cpus (freelist_update u_freelist s)"
  "procs_update u_procs (mem_update u_mem s) = mem_update u_mem (procs_update u_procs s)"
  "slocks_update u_slocks (mem_update u_mem s) = mem_update u_mem (slocks_update u_slocks s)"
  "procs_update u_procs (freelist_update u_freelist s) = freelist_update u_freelist (procs_update u_procs s)"
  "slocks_update u_slocks (freelist_update u_freelist s) = freelist_update u_freelist (slocks_update u_slocks s)"
  "mem_update u_mem (freelist_update u_freelist s) = freelist_update u_freelist (mem_update u_mem s)"
  by simp_all

definition upd_mem :: "(memory \<Rightarrow> memory) \<Rightarrow> ('x kmem_scheme, unit) M" where
  "upd_mem f = modifyM (\<lambda>s. s\<lparr>mem := f (mem s)\<rparr>)"

definition kfree :: "addr \<Rightarrow> ('x kmem_scheme, unit) M" where
  "kfree pa = doM (getsM kend) (\<lambda>ke. seqM [
     whenM (pa mod PGSIZE \<noteq> 0 \<or> pa < ke \<or> pa \<ge> PHYSTOP) (panic ''kfree''),
     upd_mem (\<lambda>m. memset m pa 1 (unat PGSIZE)),
     acquire KmemLock,
     modifyM (\<lambda>s. s\<lparr>mem := st64 (mem s) pa (freelist s)\<rparr>),
     modifyM (\<lambda>s. s\<lparr>freelist := pa\<rparr>),
     release KmemLock])"

definition kalloc :: "('x kmem_scheme, addr) M" where
  "kalloc =
     doM (acquire KmemLock) (\<lambda>_.
     doM (getsM freelist) (\<lambda>r.
     doM (whenM (r \<noteq> 0) (modifyM (\<lambda>s. s\<lparr>freelist := ld64 (mem s) r\<rparr>))) (\<lambda>_.
     doM (release KmemLock) (\<lambda>_.
     doM (whenM (r \<noteq> 0) (upd_mem (\<lambda>m. memset m r 5 (unat PGSIZE)))) (\<lambda>_.
     returnM r)))))"

text \<open>
  The loop of \<open>freerange\<close> runs at most once per page below \<open>pa_end\<close> as long as
  \<open>pa_end + PGSIZE\<close> does not wrap.
\<close>

definition freerange :: "addr \<Rightarrow> addr \<Rightarrow> ('x kmem_scheme, unit) M" where
  "freerange pa_start pa_end =
     iterM (Suc (unat pa_end div 4096)) (\<lambda>p.
       if p + PGSIZE \<le> pa_end then doM (kfree p) (\<lambda>_. returnM (Inl (p + PGSIZE)))
       else returnM (Inr ())) (PGROUNDUP pa_start)"

definition kinit :: "('x kmem_scheme, unit) M" where
  "kinit = doM (initlock KmemLock ''kmem'') (\<lambda>_. doM (getsM kend) (\<lambda>ke. freerange ke PHYSTOP))"

section \<open>The free list as a list of pages\<close>

definition valid_page :: "addr \<Rightarrow> addr \<Rightarrow> bool" where
  "valid_page ke p \<longleftrightarrow> aligned p \<and> ke \<le> p \<and> p < PHYSTOP \<and> p \<noteq> 0"

fun flist :: "memory \<Rightarrow> addr \<Rightarrow> addr list \<Rightarrow> bool" where
  "flist m h [] \<longleftrightarrow> h = 0"
| "flist m h (p # ps) \<longleftrightarrow> h = p \<and> flist m (ld64 m p) ps"

definition free_pages :: "memory \<Rightarrow> addr \<Rightarrow> addr \<Rightarrow> addr list \<Rightarrow> bool" where
  "free_pages m ke h ps \<longleftrightarrow> flist m h ps \<and> distinct ps \<and> (\<forall>p\<in>set ps. valid_page ke p)"

definition page_fill :: "memory \<Rightarrow> addr \<Rightarrow> byte \<Rightarrow> memory" where
  "page_fill m p c = (\<lambda>x. if in_page p x then c else m x)"

lemma memset_page: "memset m p c (unat PGSIZE) = page_fill m p c"
  by (auto simp: memset_put page_fill_def put_def in_page_def)

lemma flist_cong:
  assumes "\<And>p x. p \<in> set ps \<Longrightarrow> in_page p x \<Longrightarrow> m x = m' x"
  shows "flist m h ps \<longleftrightarrow> flist m' h ps"
  using assms
proof (induction ps arbitrary: h)
  case (Cons p ps)
  have "ld64 m (p + 0) = ld64 m' (p + 0)" by (rule ld64_page_cong) (use Cons.prems in auto)
  moreover have "flist m k ps = flist m' k ps" for k by (rule Cons.IH) (use Cons.prems in auto)
  ultimately show ?case by simp
qed simp

lemma flist_outside:
  assumes "\<And>x. \<not> in_page q x \<Longrightarrow> m' x = m x" "aligned q" "q \<notin> set ps" "\<forall>p\<in>set ps. valid_page ke p"
  shows "flist m' h ps \<longleftrightarrow> flist m h ps"
proof (rule flist_cong)
  fix p x assume "p \<in> set ps" "in_page p x"
  then have "\<not> in_page q x" using pages_disjoint [of p q x] assms by (auto simp: valid_page_def)
  then show "m' x = m x" by (rule assms(1))
qed

lemma free_pages_outside:
  assumes "free_pages m ke h ps" "\<And>x. \<not> in_page q x \<Longrightarrow> m' x = m x" "aligned q" "q \<notin> set ps"
  shows "free_pages m' ke h ps"
  using assms flist_outside [of q m' m ps ke h] by (simp add: free_pages_def)

text \<open>The memory after \<open>kfree(pa)\<close>, and what freeing and allocating do to the list.\<close>

definition freed_mem :: "memory \<Rightarrow> addr \<Rightarrow> addr \<Rightarrow> memory" where
  "freed_mem m pa h = st64 (page_fill m pa 1) pa h"

lemma freed_mem_outside: "\<not> in_page pa x \<Longrightarrow> freed_mem m pa h x = m x"
  using st64_outside_page [of pa x 0 "page_fill m pa 1" h] by (simp add: freed_mem_def page_fill_def)

lemma ld64_freed_mem [simp]: "ld64 (freed_mem m pa h) pa = h"
  by (simp add: freed_mem_def)

lemma free_pages_free:
  assumes "free_pages m ke h ps" "valid_page ke pa" "pa \<notin> set ps"
  shows "free_pages (freed_mem m pa h) ke pa (pa # ps)"
proof -
  have "free_pages (freed_mem m pa h) ke h ps"
    by (rule free_pages_outside [OF assms(1) _ _ assms(3)])
       (use assms(2) in \<open>simp_all add: freed_mem_outside valid_page_def\<close>)
  with assms show ?thesis by (simp add: free_pages_def freed_mem_def)
qed

lemma free_pages_head: "free_pages m ke h (p # ps) \<Longrightarrow> h = p \<and> p \<noteq> 0"
  by (auto simp: free_pages_def valid_page_def)

lemma free_pages_Nil: "free_pages m ke h [] \<longleftrightarrow> h = 0"
  by (simp add: free_pages_def)

lemma free_pages_alloc:
  assumes "free_pages m ke h (p # ps)"
  shows "free_pages (page_fill m p c) ke (ld64 m h) ps"
  by (rule free_pages_outside [where q = p and m = m])
     (use assms in \<open>auto simp: free_pages_def valid_page_def page_fill_def\<close>)

section \<open>Rules\<close>

lemma wp_upd_mem [simp]: "wp (upd_mem f) s es Q = Q () (s\<lparr>mem := f (mem s)\<rparr>) es"
  by (simp add: upd_mem_def)

lemma wp_kfree:
  assumes "lkst L P s" "KmemLock \<notin> set L" "valid_page (kend s) pa"
    and "\<And>c st l. lkb L P (hart s) c st l \<Longrightarrow>
      Q () (s\<lparr>mem := freed_mem (mem s) pa (freelist s), freelist := pa, cpus := c, sstatus := st, locks := l\<rparr>) es"
  shows "wp (kfree pa) s es Q"
  using assms(3) unfolding kfree_def wp_simps
  apply (simp add: valid_page_def aligned_def not_le not_less)
  apply (rule wp_acquire, simp, rule assms(1), rule assms(2), simp)
  apply (rule wp_release, simp, simp, simp add: assms(4) memset_page [simplified] freed_mem_def [symmetric])
  done

lemma fails_kfree:
  "pa mod PGSIZE \<noteq> 0 \<or> pa < kend s \<or> pa \<ge> PHYSTOP \<Longrightarrow> fails (kfree pa) s es ''kfree''"
  by (auto simp: kfree_def fails_def)

lemma wp_kalloc:
  assumes "lkst L P s" "KmemLock \<notin> set L"
    and "\<And>c st l. lkb L P (hart s) c st l \<Longrightarrow> freelist s = 0 \<Longrightarrow>
      Q 0 (s\<lparr>cpus := c, sstatus := st, locks := l\<rparr>) es"
    and "\<And>c st l. lkb L P (hart s) c st l \<Longrightarrow> freelist s \<noteq> 0 \<Longrightarrow>
      Q (freelist s) (s\<lparr>mem := page_fill (mem s) (freelist s) 5, freelist := ld64 (mem s) (freelist s),
        cpus := c, sstatus := st, locks := l\<rparr>) es"
  shows "wp kalloc s es Q"
proof (cases "freelist s = 0")
  case True
  show ?thesis
    unfolding kalloc_def wp_simps
    apply (rule wp_acquire [OF assms(1,2)], simp add: True)
    apply (rule wp_release, simp, simp, simp add: assms(3) True)
    done
next
  case False
  show ?thesis
    unfolding kalloc_def wp_simps
    apply (rule wp_acquire [OF assms(1,2)], simp add: False)
    apply (rule wp_release, simp, simp)
    using assms(4) False by (simp add: memset_page [simplified])
qed

section \<open>Initialisation\<close>

lemma unat_PHYSTOP [simp]: "unat PHYSTOP = 0x88000000"
  by (simp add: page_consts)

lemma aligned_PHYSTOP [simp]: "aligned PHYSTOP"
  by (simp add: aligned_unat)

lemma aligned_less_next:
  assumes "aligned p" "aligned q" "unat p + 4096 < 2 ^ 64"
  shows "q < p + PGSIZE \<longleftrightarrow> q \<le> p"
proof -
  obtain i where "unat p = 4096 * i" using assms(1) by (rule alignedE)
  moreover obtain j where "unat q = 4096 * j" using assms(2) by (rule alignedE)
  moreover have "unat (p + PGSIZE) = unat p + 4096" using assms(3) by (simp add: unat_word_ariths)
  ultimately show ?thesis by (simp add: word_less_nat_alt word_le_nat_alt) linarith
qed

lemma wp_kinit:
  fixes s :: "'x kmem_scheme"
  assumes lk: "lkst [] P s" and f: "freelist s = 0" and ke: "0 < kend s" "kend s \<le> PHYSTOP"
    and Q: "\<And>t ps. lkst [] P t \<Longrightarrow> kend t = kend s \<Longrightarrow> hart t = hart s \<Longrightarrow> free_pages (mem t) (kend s) (freelist t) ps \<Longrightarrow>
       set ps = {p. valid_page (kend s) p} \<Longrightarrow> Q () t es"
  shows "wp kinit s es Q"
proof -
  define I where "I p t fs \<longleftrightarrow> fs = es \<and> lkst [] P t \<and> kend t = kend s \<and> hart t = hart s \<and> aligned p \<and>
      PGROUNDUP (kend s) \<le> p \<and> p \<le> PHYSTOP \<and>
      (\<exists>ps. free_pages (mem t) (kend s) (freelist t) ps \<and> set ps = {q. valid_page (kend s) q \<and> q < p})" for p and t :: "'x kmem_scheme" and fs
  have up: "unat (PGROUNDUP (kend s)) = (unat (kend s) + 4095) div 4096 * 4096" "unat (kend s) \<le> 0x88000000"
    using ke by (simp_all add: unat_PGROUNDUP word_le_nat_alt)
  have low: "PGROUNDUP (kend s) \<le> q" if "valid_page (kend s) q" for q
    using that up(1) by (auto simp: valid_page_def aligned_unat word_le_nat_alt)
  have none: "{q. valid_page (kend s) q \<and> q < PGROUNDUP (kend s)} = {}"
    using low by (auto simp: not_less)
  have init: "I (PGROUNDUP (kend s)) (s\<lparr>locks := (locks s)(KmemLock := \<lparr>locked = 0, lname = nm, lcpu = None\<rparr>)\<rparr>) es" for nm
    unfolding I_def none using lk f ke up by (auto simp: lkb_def free_pages_Nil word_le_nat_alt)
  have step: "wp (kfree p) t fs (\<lambda>_ t fs. I (p + PGSIZE) t fs \<and> (unat PHYSTOP - unat (p + PGSIZE)) div 4096 < (unat PHYSTOP - unat p) div 4096)"
    if I: "I p t fs" and le: "p + PGSIZE \<le> PHYSTOP" for p t fs
  proof -
    have p: "aligned p" "p \<le> PHYSTOP" "PGROUNDUP (kend s) \<le> p" and t: "fs = es" "lkst [] P t"
        "kend t = kend s" "hart t = hart s" using I unfolding I_def by blast+
    obtain ps where ps: "free_pages (mem t) (kend s) (freelist t) ps" "set ps = {q. valid_page (kend s) q \<and> q < p}"
      using I by (auto simp: I_def)
    have n: "unat (p + PGSIZE) = unat p + 4096" using p(2) by (simp add: unat_word_ariths word_le_nat_alt)
    obtain k where k: "unat p = 4096 * k" using p(1) by (rule alignedE)
    have v: "valid_page (kend s) p"
      using p le ke up n by (auto simp: valid_page_def word_le_nat_alt word_less_nat_alt)
    have nxt: "q < p + PGSIZE \<longleftrightarrow> q < p \<or> q = p" if "aligned q" for q
    proof -
      have "unat p + 4096 < 2 ^ 64" using p(2) by (simp add: word_le_nat_alt)
      then show ?thesis using aligned_less_next [OF p(1) that] by (simp add: order_le_less)
    qed
    have fp: "free_pages (freed_mem (mem t) p (freelist t)) (kend s) p (p # ps)"
      by (rule free_pages_free [OF ps(1) v]) (simp add: ps(2))
    have set: "set (p # ps) = {q. valid_page (kend s) q \<and> q < p + PGSIZE}"
      using v nxt ps(2) by (auto simp: valid_page_def)
    have al: "aligned (p + PGSIZE)" using k by (simp add: aligned_unat n)
    have ge: "PGROUNDUP (kend s) \<le> p + PGSIZE" using p(3) n by (simp add: word_le_nat_alt)
    have I': "I (p + PGSIZE) (t\<lparr>mem := freed_mem (mem t) p (freelist t), freelist := p, cpus := c, sstatus := st, locks := l\<rparr>) es"
      if "lkb [] P (hart t) c st l" for c st l
      unfolding I_def using that t(3,4) al ge le
      by (intro conjI exI [of _ "p # ps"] fp [simplified] set) (simp_all add: fp)
    have "(unat PHYSTOP - unat (p + PGSIZE)) div 4096 < (unat PHYSTOP - unat p) div 4096"
      using le k by (simp add: n word_le_nat_alt)
    then show ?thesis
      by (intro wp_kfree [OF t(2)], simp, simp add: t(3) v) (simp add: I' t(1))
  qed
  have last: "Q () t fs" if "I p t fs" "\<not> p + PGSIZE \<le> PHYSTOP" for p t fs
  proof -
    have p: "aligned p" "p \<le> PHYSTOP" using that(1) unfolding I_def by blast+
    then have "unat p + 4096 < 2 ^ 64" by (simp add: word_le_nat_alt)
    then have "p = PHYSTOP"
      using aligned_less_next [OF p(1) aligned_PHYSTOP] that(2) p(2) by (simp add: not_le)
    moreover have "{q. valid_page (kend s) q \<and> q < PHYSTOP} = {q. valid_page (kend s) q}"
      by (auto simp: valid_page_def)
    ultimately show ?thesis using that(1) unfolding I_def by (auto intro!: Q)
  qed
  have body: "wp (if p + PGSIZE \<le> PHYSTOP then doM (kfree p) (\<lambda>_. returnM (Inl (p + PGSIZE))) else returnM (Inr ())) t fs
      (\<lambda>r u gs. case r of Inl q \<Rightarrow> I q u gs \<and> (unat PHYSTOP - unat q) div 4096 < (unat PHYSTOP - unat p) div 4096 | Inr x \<Rightarrow> Q x u gs)"
    if "I p t fs" for p t fs
  proof (cases "p + PGSIZE \<le> PHYSTOP")
    case True
    show ?thesis unfolding if_P [OF True] wp_simps sum.case by (rule step [OF that True])
  next
    case False
    show ?thesis unfolding if_not_P [OF False] wp_simps sum.case using last [OF that False] by simp
  qed
  have "wp (freerange (kend s) PHYSTOP) (s\<lparr>locks := (locks s)(KmemLock := \<lparr>locked = 0, lname = nm, lcpu = None\<rparr>)\<rparr>) es Q" for nm
    unfolding freerange_def
    by (rule wp_iterM [where I = I and \<mu> = "\<lambda>p t fs. (unat PHYSTOP - unat p) div 4096", OF init _ body])
       (simp_all add: less_Suc_eq_le div_le_mono)
  then show ?thesis by (simp add: kinit_def initlock_def)
qed

section \<open>The allocator's contract\<close>

text \<open>
  What clients of a page allocator rely on.  \<open>pool s ps\<close>: the allocator in state \<open>s\<close> can
  still hand out the pages \<open>ps\<close>; \<open>ok p\<close>: page \<open>p\<close> belongs to the allocator.
\<close>

locale page_allocator =
  fixes pool :: "'s \<Rightarrow> addr list \<Rightarrow> bool"
    and ok :: "addr \<Rightarrow> bool"
    and alloc :: "('s, addr) M"
    and free :: "addr \<Rightarrow> ('s, unit) M"
  assumes pool_distinct: "pool s ps \<Longrightarrow> distinct ps"
    and pool_ok: "pool s ps \<Longrightarrow> p \<in> set ps \<Longrightarrow> ok p"
    and ok_nonzero: "ok p \<Longrightarrow> p \<noteq> 0"
    and alloc_page: "pool s (p # ps) \<Longrightarrow> \<exists>t. alloc s es = Done p t es \<and> pool t ps"
    and alloc_fail: "pool s [] \<Longrightarrow> \<exists>t. alloc s es = Done 0 t es \<and> pool t []"
    and free_page: "pool s ps \<Longrightarrow> ok p \<Longrightarrow> p \<notin> set ps \<Longrightarrow> \<exists>t. free p s es = Done () t es \<and> pool t (p # ps)"

text \<open>
  A client: a sequence of allocations and of frees of pages it holds.  \<open>held\<close> is the list
  of pages the client has; \<open>Free i\<close> gives back the \<open>i\<close>-th of them.
\<close>

datatype pool_op = Alloc | Free nat

fun pool_run :: "('s, addr) M \<Rightarrow> (addr \<Rightarrow> ('s, unit) M) \<Rightarrow> pool_op list \<Rightarrow> addr list \<Rightarrow> ('s, addr list) M" where
  "pool_run al fr [] held = returnM held"
| "pool_run al fr (Alloc # ops) held =
     doM al (\<lambda>p. pool_run al fr ops (if p = 0 then held else p # held))"
| "pool_run al fr (Free i # ops) held =
     (if i < length held
      then doM (fr (held ! i)) (\<lambda>_. pool_run al fr ops (take i held @ drop (Suc i) held))
      else pool_run al fr ops held)"

lemma mset_remove_nth: "i < length xs \<Longrightarrow> mset xs = add_mset (xs ! i) (mset (take i xs @ drop (Suc i) xs))"
  by (metis add_mset_add_single id_take_nth_drop mset.simps(2) mset_append union_mset_add_mset_right)

context page_allocator
begin

lemma pool_run_conserves:
  assumes "pool s ps" "distinct (held @ ps)" "\<forall>p\<in>set held. ok p"
  shows "\<exists>t held' ps'. pool_run alloc free ops held s es = Done held' t es \<and> pool t ps' \<and>
    distinct (held' @ ps') \<and> mset (held' @ ps') = mset (held @ ps)"
  using assms
proof (induction ops arbitrary: s held ps)
  case (Cons op ops)
  note IH = Cons.IH and prems = Cons.prems
  show ?case
  proof (cases op)
    case Alloc
    show ?thesis
    proof (cases ps)
      case Nil
      then obtain t where "alloc s es = Done 0 t es" "pool t []"
        using alloc_fail [of s es] prems(1) by blast
      then show ?thesis using IH [of t "[]" held] prems(2,3) Nil Alloc by simp
    next
      case (Cons p qs)
      then obtain t where t: "alloc s es = Done p t es" "pool t qs"
        using alloc_page [of s p qs es] prems(1) by blast
      have p: "ok p" "p \<noteq> 0" using pool_ok [OF prems(1), of p] ok_nonzero [of p] Cons by auto
      have "distinct ((p # held) @ qs)" "\<forall>q\<in>set (p # held). ok q" using prems(2,3) Cons p(1) by auto
      from IH [OF t(2) this] show ?thesis using Cons Alloc t(1) p(2) by simp
    qed
  next
    case (Free i)
    show ?thesis
    proof (cases "i < length held")
      case True
      let ?h = "take i held @ drop (Suc i) held"
      have m: "mset held = add_mset (held ! i) (mset ?h)" by (rule mset_remove_nth [OF True])
      then have s: "set held = insert (held ! i) (set ?h)" by (metis set_mset_add_mset_insert set_mset_mset)
      have mm: "mset (?h @ held ! i # ps) = mset (held @ ps)" using m by simp
      then have d: "distinct (?h @ (held ! i # ps))" using prems(2) mset_eq_imp_distinct_iff by blast
      have "held ! i \<notin> set ps" "ok (held ! i)" using prems(2,3) s by auto
      then obtain t where t: "free (held ! i) s es = Done () t es" "pool t (held ! i # ps)"
        using free_page [OF prems(1), of "held ! i" es] by blast
      have ok: "\<forall>p\<in>set ?h. ok p" using prems(3) s by blast
      from IH [OF t(2) d ok] show ?thesis unfolding mm using t(1) Free True by simp
    next
      case False
      then show ?thesis using IH [OF prems] Free by simp
    qed
  qed
qed auto

end

text \<open>The pool of \<open>kalloc\<close>: with no spinlock held, the free list holds these pages.\<close>

definition kpool :: "(nat \<Rightarrow> nat option) \<Rightarrow> addr \<Rightarrow> 'x kmem_scheme \<Rightarrow> addr list \<Rightarrow> bool" where
  "kpool P ke s ps \<longleftrightarrow> lkst [] P s \<and> kend s = ke \<and> free_pages (mem s) ke (freelist s) ps"

interpretation kmem: page_allocator "kpool P ke" "valid_page ke" kalloc kfree for P ke
proof
  fix s :: "'x kmem_scheme" and p ps es
  show "kpool P ke s ps \<Longrightarrow> distinct ps" by (simp add: kpool_def free_pages_def)
  show "kpool P ke s ps \<Longrightarrow> p \<in> set ps \<Longrightarrow> valid_page ke p" by (simp add: kpool_def free_pages_def)
  show "valid_page ke p \<Longrightarrow> p \<noteq> 0" by (simp add: valid_page_def)
  show "\<exists>t. kalloc s es = Done p t es \<and> kpool P ke t ps" if k: "kpool P ke s (p # ps)"
  proof -
    have lk: "lkst [] P s" and f: "free_pages (mem s) ke (freelist s) (p # ps)" using k by (simp_all add: kpool_def)
    have "wp kalloc s es (\<lambda>x t fs. x = p \<and> fs = es \<and> kpool P ke t ps)"
      by (rule wp_kalloc [OF lk]) (use k free_pages_head [OF f] free_pages_alloc [OF f] in \<open>auto simp: kpool_def\<close>)
    then show ?thesis by (auto simp: wp_iff)
  qed
  show "\<exists>t. kalloc s es = Done 0 t es \<and> kpool P ke t []" if k: "kpool P ke s []"
  proof -
    have lk: "lkst [] P s" and f: "freelist s = 0" using k by (simp_all add: kpool_def free_pages_Nil)
    have "wp kalloc s es (\<lambda>x t fs. x = 0 \<and> fs = es \<and> kpool P ke t [])"
      by (rule wp_kalloc [OF lk]) (use k f in \<open>auto simp: kpool_def\<close>)
    then show ?thesis by (auto simp: wp_iff)
  qed
  show "\<exists>t. kfree p s es = Done () t es \<and> kpool P ke t (p # ps)"
    if k: "kpool P ke s ps" and v: "valid_page ke p" and n: "p \<notin> set ps"
  proof -
    have lk: "lkst [] P s" and f: "free_pages (mem s) ke (freelist s) ps" and e: "kend s = ke"
      using k by (simp_all add: kpool_def)
    have "wp (kfree p) s es (\<lambda>x t fs. fs = es \<and> kpool P ke t (p # ps))"
      by (rule wp_kfree [OF lk]) (use v e free_pages_free [OF f v n] in \<open>auto simp: kpool_def\<close>)
    then show ?thesis by (auto simp: wp_iff)
  qed
qed

section \<open>Properties\<close>

definition demo_kmem :: kmem where
  "demo_kmem = slk.extend (demo_slk []) (kmem.fields (\<lambda>_. 0) 0x87ffe000 0)"

lemma demo_kmem_fields [simp]:
  "kend demo_kmem = 0x87ffe000" "freelist demo_kmem = 0" "hart demo_kmem = 0" "mem demo_kmem = (\<lambda>_. 0)"
  by (simp_all add: demo_kmem_def demo_slk_def demo_sched_def sched.defs slk.defs kmem.defs)

lemma demo_kmem_lkst: "lkst [] demo_P demo_kmem"
  by (simp add: demo_kmem_def demo_slk_def demo_sched_def sched.defs slk.defs kmem.defs lkb_def)

text \<open>
  C31.  \<open>kinit\<close>, run at boot with an empty free list, returns with every page between the end
  of the kernel and \<open>PHYSTOP\<close> on the free list, each exactly once.
\<close>

theorem kinit_frees_every_page:
  assumes "lkst [] P s" "freelist s = 0" "0 < kend s" "kend s \<le> PHYSTOP"
  shows "\<exists>t ps. kinit s es = Done () t es \<and> kpool P (kend s) t ps \<and> distinct ps \<and>
    set ps = {p. p mod PGSIZE = 0 \<and> kend s \<le> p \<and> p < PHYSTOP}"
proof -
  have "valid_page (kend s) p \<longleftrightarrow> p mod PGSIZE = 0 \<and> kend s \<le> p \<and> p < PHYSTOP" for p
    using assms(3) unfolding valid_page_def aligned_def by (metis leD)
  then have "wp kinit s es (\<lambda>_ t fs. fs = es \<and> (\<exists>ps. kpool P (kend s) t ps \<and> distinct ps \<and>
    set ps = {p. p mod PGSIZE = 0 \<and> kend s \<le> p \<and> p < PHYSTOP}))"
    by (intro wp_kinit [OF assms]) (auto simp: kpool_def free_pages_def)
  then show ?thesis by (auto simp: wp_iff)
qed

lemma kinit_frees_every_page_witness:
  "lkst [] demo_P demo_kmem \<and> (\<exists>t ps. kinit demo_kmem [] = Done () t [] \<and> kpool demo_P 0x87ffe000 t ps \<and> 0x87fff000 \<in> set ps)"
proof -
  have "0 < kend demo_kmem" "kend demo_kmem \<le> PHYSTOP" by (simp_all add: page_consts)
  from kinit_frees_every_page [OF demo_kmem_lkst demo_kmem_fields(2) this, where es = "[]"]
  obtain t ps where t: "kinit demo_kmem [] = Done () t []" "kpool demo_P (kend demo_kmem) t ps"
    and ps: "set ps = {p. p mod PGSIZE = 0 \<and> kend demo_kmem \<le> p \<and> p < PHYSTOP}" by blast
  have "0x87fff000 \<in> set ps" unfolding ps by (simp add: page_consts)
  with t show ?thesis using demo_kmem_lkst unfolding demo_kmem_fields by blast
qed

text \<open>
  C3.  Whatever sequence of \<open>kalloc\<close> calls and of \<open>kfree\<close> calls on allocated pages is run,
  every call returns, no page is ever in the hands of two callers or both allocated and
  free, and no page is lost: allocated and free pages together are the initial pool.
\<close>

theorem kalloc_kfree_conserve_pages:
  assumes "kpool P ke s ps"
  shows "\<exists>t held ps'. pool_run kalloc kfree ops [] s es = Done held t es \<and> kpool P ke t ps' \<and>
    distinct (held @ ps') \<and> mset (held @ ps') = mset ps"
  using kmem.pool_run_conserves [OF assms, of "[]" ops es] kmem.pool_distinct [OF assms] by simp

lemma kalloc_kfree_conserve_pages_witness:
  "kpool demo_P 0x87ffe000 (demo_kmem\<lparr>freelist := 0x87fff000\<rparr>) [0x87fff000] \<and>
   (\<exists>t held ps'. pool_run kalloc kfree [Alloc, Alloc, Free 0, Alloc] [] (demo_kmem\<lparr>freelist := 0x87fff000\<rparr>) [] = Done held t [] \<and>
      mset (held @ ps') = mset [0x87fff000])"
proof -
  have "ld64 (\<lambda>_. 0) a = 0" for a by (simp add: ld64_def bytes_def upt_rec)
  then have k: "kpool demo_P 0x87ffe000 (demo_kmem\<lparr>freelist := 0x87fff000\<rparr>) [0x87fff000]"
    using demo_kmem_lkst by (simp add: kpool_def free_pages_def valid_page_def aligned_def page_consts)
  obtain t held ps' where "pool_run kalloc kfree [Alloc, Alloc, Free 0, Alloc] [] (demo_kmem\<lparr>freelist := 0x87fff000\<rparr>) [] = Done held t []"
    "mset (held @ ps') = mset [0x87fff000]"
    using kalloc_kfree_conserve_pages [OF k, where ops = "[Alloc, Alloc, Free 0, Alloc]" and es = "[]"] by blast
  with k show ?thesis by blast
qed

text \<open>
  C40.  \<open>kfree\<close> panics exactly on addresses that are not page aligned or not between the end
  of the kernel and \<open>PHYSTOP\<close>; otherwise the page it frees is what the next \<open>kalloc\<close> returns,
  filled with the byte 5.
\<close>

theorem kfree_checks_then_pushes:
  assumes "lkst [] P s" "0 < kend s"
  shows "if pa mod PGSIZE \<noteq> 0 \<or> pa < kend s \<or> pa \<ge> PHYSTOP
    then kfree pa s es = Panic ''kfree''
    else (\<exists>t. doM (kfree pa) (\<lambda>_. kalloc) s es = Done pa t es \<and> freelist t = freelist s \<and>
            (\<forall>x. mem t x = (if in_page pa x then 5 else mem s x)))"
proof (cases "pa mod PGSIZE \<noteq> 0 \<or> pa < kend s \<or> pa \<ge> PHYSTOP")
  case True
  with fails_kfree [OF this, of es] show ?thesis by (simp add: fails_def)
next
  case False
  then have v: "valid_page (kend s) pa"
    using assms(2) by (auto simp: valid_page_def aligned_def not_less not_le)
  have "wp (doM (kfree pa) (\<lambda>_. kalloc)) s es (\<lambda>x t fs. x = pa \<and> fs = es \<and> freelist t = freelist s \<and>
            (\<forall>x. mem t x = (if in_page pa x then 5 else mem s x)))"
    unfolding wp_simps
    apply (rule wp_kfree [OF assms(1) _ v], simp)
    apply (rule wp_kalloc, simp, simp)
     apply (use v in \<open>simp add: valid_page_def\<close>)
    apply (simp add: page_fill_def freed_mem_outside)
    done
  then show ?thesis using False by (auto simp: wp_iff)
qed

lemma kfree_checks_then_pushes_witness:
  "kfree 0x1000 demo_kmem [] = Panic ''kfree'' \<and> (\<exists>t. doM (kfree 0x87fff000) (\<lambda>_. kalloc) demo_kmem [] = Done 0x87fff000 t [])"
  using kfree_checks_then_pushes [OF demo_kmem_lkst, where pa = "0x1000" and es = "[]"]
    kfree_checks_then_pushes [OF demo_kmem_lkst, where pa = "0x87fff000" and es = "[]"]
  by (auto simp: page_consts simp del: doM_apply)

end
