(* ===== verification/Pagetable.thy ===== *)
theory Pagetable
  imports Kalloc
begin

text \<open>
  The page-table half of \<^verbatim>\<open>kernel/vm.c\<close>: page-table entries (the macros of
  \<^verbatim>\<open>kernel/riscv.h\<close>), \<open>walk\<close>, \<open>walkaddr\<close>, \<open>mappages\<close> and \<open>uvmunmap\<close>.  Page tables live in
  the memory image.  The theory abstracts a three-level table to a function from virtual
  addresses to entries (\<open>entry\<close>) and shows that the operations implement updates of it.
\<close>

section \<open>Page-table entries\<close>

definition PTE_V :: "64 word" where "PTE_V = 1"
definition PTE_R :: "64 word" where "PTE_R = 2"
definition PTE_W :: "64 word" where "PTE_W = 4"
definition PTE_X :: "64 word" where "PTE_X = 8"
definition PTE_U :: "64 word" where "PTE_U = 16"

definition PA2PTE :: "addr \<Rightarrow> 64 word" where
  "PA2PTE pa = push_bit 10 (drop_bit 12 pa)"

definition PTE2PA :: "64 word \<Rightarrow> addr" where
  "PTE2PA pte = push_bit 12 (drop_bit 10 pte)"

definition PTE_FLAGS :: "64 word \<Rightarrow> 64 word" where
  "PTE_FLAGS pte = pte AND 0x3FF"

definition PXMASK :: "64 word" where "PXMASK = 0x1FF"

definition PXSHIFT :: "nat \<Rightarrow> nat" where
  "PXSHIFT level = 12 + 9 * level"

definition PX :: "nat \<Rightarrow> addr \<Rightarrow> 64 word" where
  "PX level va = drop_bit (PXSHIFT level) va AND PXMASK"

definition MAXVA :: addr where
  "MAXVA = push_bit (9 + 9 + 9 + 12 - 1) 1"

section \<open>Operations\<close>

text \<open>The address of entry \<open>i\<close> of the table at \<open>pagetable\<close>.\<close>

definition pte_at :: "addr \<Rightarrow> 64 word \<Rightarrow> addr" where
  "pte_at pagetable i = pagetable + 8 * i"

definition load64 :: "addr \<Rightarrow> ('x kmem_scheme, 64 word) M" where
  "load64 a = getsM (\<lambda>s. ld64 (mem s) a)"

definition store64 :: "addr \<Rightarrow> 64 word \<Rightarrow> ('x kmem_scheme, unit) M" where
  "store64 a v = upd_mem (\<lambda>m. st64 m a v)"

fun walk_levels :: "nat \<Rightarrow> addr \<Rightarrow> addr \<Rightarrow> bool \<Rightarrow> ('x kmem_scheme, addr) M" where
  "walk_levels 0 pagetable va alloc = returnM (pte_at pagetable (PX 0 va))"
| "walk_levels (Suc n) pagetable va alloc =
     doM (load64 (pte_at pagetable (PX (Suc n) va))) (\<lambda>pte.
     if pte AND PTE_V \<noteq> 0 then walk_levels n (PTE2PA pte) va alloc
     else if \<not> alloc then returnM 0
     else doM kalloc (\<lambda>p.
       if p = 0 then returnM 0
       else
         doM (upd_mem (\<lambda>m. memset m p 0 (unat PGSIZE))) (\<lambda>_.
         doM (store64 (pte_at pagetable (PX (Suc n) va)) (PA2PTE p OR PTE_V)) (\<lambda>_.
         walk_levels n p va alloc))))"

definition walk :: "addr \<Rightarrow> addr \<Rightarrow> bool \<Rightarrow> ('x kmem_scheme, addr) M" where
  "walk pagetable va alloc =
     doM (whenM (va \<ge> MAXVA) (panic ''walk'')) (\<lambda>_. walk_levels 2 pagetable va alloc)"

definition walkaddr :: "addr \<Rightarrow> addr \<Rightarrow> ('x kmem_scheme, addr) M" where
  "walkaddr pagetable va =
     (if va \<ge> MAXVA then returnM 0
      else doM (walk pagetable va False) (\<lambda>pte.
        if pte = 0 then returnM 0
        else doM (load64 pte) (\<lambda>v.
          if v AND PTE_V = 0 then returnM 0
          else if v AND PTE_U = 0 then returnM 0
          else returnM (PTE2PA v))))"

text \<open>
  A bound for the loops that step through successive pages of the 64-bit address space:
  the address of the \<open>2 ^ 52\<close>-th following page is the first one again, and \<open>walk\<close> panics
  long before, at \<open>MAXVA\<close>.
\<close>

definition VPAGES :: nat where "VPAGES = 2 ^ 52 + 1"

definition mappages :: "addr \<Rightarrow> addr \<Rightarrow> addr \<Rightarrow> addr \<Rightarrow> 64 word \<Rightarrow> ('x kmem_scheme, int) M" where
  "mappages pagetable va sz pa perm =
     doM (whenM (sz = 0) (panic ''mappages: size'')) (\<lambda>_.
     let last = PGROUNDDOWN (va + sz - 1) in
     iterM VPAGES (\<lambda>(a, pa).
       doM (walk pagetable a True) (\<lambda>pte.
       if pte = 0 then returnM (Inr (- 1))
       else
         doM (load64 pte) (\<lambda>v.
         doM (whenM (v AND PTE_V \<noteq> 0) (panic ''mappages: remap'')) (\<lambda>_.
         doM (store64 pte (PA2PTE pa OR perm OR PTE_V)) (\<lambda>_.
         returnM (if a = last then Inr 0 else Inl (a + PGSIZE, pa + PGSIZE)))))))
       (PGROUNDDOWN va, pa))"

definition uvmunmap :: "addr \<Rightarrow> addr \<Rightarrow> 64 word \<Rightarrow> bool \<Rightarrow> ('x kmem_scheme, unit) M" where
  "uvmunmap pagetable va npages do_free =
     doM (whenM (va mod PGSIZE \<noteq> 0) (panic ''uvmunmap: not aligned'')) (\<lambda>_.
     iterM VPAGES (\<lambda>a.
       if a < va + npages * PGSIZE then
         doM (walk pagetable a False) (\<lambda>pte.
         doM (whenM (pte = 0) (panic ''uvmunmap: walk'')) (\<lambda>_.
         doM (load64 pte) (\<lambda>v.
         doM (whenM (v AND PTE_V = 0) (panic ''uvmunmap: not mapped'')) (\<lambda>_.
         doM (whenM (PTE_FLAGS v = PTE_V) (panic ''uvmunmap: not a leaf'')) (\<lambda>_.
         doM (whenM do_free (kfree (PTE2PA v))) (\<lambda>_.
         doM (store64 pte 0) (\<lambda>_.
         returnM (Inl (a + PGSIZE)))))))))
       else returnM (Inr ())) va)"

section \<open>Arithmetic of entries\<close>

lemmas pte_bits = PTE_V_def PTE_R_def PTE_W_def PTE_X_def PTE_U_def

lemma bit_PA2PTE: "bit (PA2PTE pa) n \<longleftrightarrow> 10 \<le> n \<and> n < 64 \<and> bit pa (n + 2)"
  by (auto simp: PA2PTE_def bit_simps algebra_simps)

lemma bit_PTE2PA: "bit (PTE2PA v) n \<longleftrightarrow> 12 \<le> n \<and> n < 64 \<and> bit v (n - 2)"
  by (auto simp: PTE2PA_def bit_simps)

text \<open>A flag word fits below bit 10; a physical address fits below bit 56.\<close>

definition flag_word :: "64 word \<Rightarrow> bool" where
  "flag_word f \<longleftrightarrow> take_bit 10 f = f"

lemma bit_flag_word: "flag_word f \<Longrightarrow> bit f n \<Longrightarrow> n < 10"
  by (metis bit_take_bit_iff flag_word_def)

lemma phys_bit: "pa < 2 ^ 56 \<Longrightarrow> bit pa n \<Longrightarrow> n < 56" for pa :: addr
  using less_mask_eq [of pa 56] by (metis bit_and_iff bit_mask_iff)

lemma aligned_bit: "aligned pa \<Longrightarrow> bit pa n \<Longrightarrow> 12 \<le> n"
proof (rule ccontr)
  assume "aligned pa" "bit pa n" "\<not> 12 \<le> n"
  then have "take_bit 12 pa = 0" by (simp add: take_bit_eq_mod aligned_def PGSIZE_def)
  then have "\<not> bit (take_bit 12 pa) n" by simp
  with \<open>bit pa n\<close> \<open>\<not> 12 \<le> n\<close> show False by (simp add: bit_take_bit_iff)
qed

text \<open>An entry built from an aligned address and flags gives back both.\<close>

lemma PTE2PA_PA2PTE [simp]:
  assumes "aligned pa" "pa < 2 ^ 56" "flag_word f"
  shows "PTE2PA (PA2PTE pa OR f) = pa"
proof (rule bit_word_eqI)
  fix n assume n: "n < LENGTH(64)"
  have "12 \<le> n \<Longrightarrow> Suc (Suc (n - 2)) = n" by simp
  then show "bit (PTE2PA (PA2PTE pa OR f)) n = bit pa n"
    using aligned_bit [OF assms(1), of n] phys_bit [OF assms(2), of n] bit_flag_word [OF assms(3), of "n - 2"] n
    by (auto simp: bit_PTE2PA bit_or_iff bit_PA2PTE)
qed

lemma PTE_FLAGS_PA2PTE [simp]:
  assumes "flag_word f" shows "PTE_FLAGS (PA2PTE pa OR f) = f"
proof -
  have m: "(0x3FF :: 64 word) = mask 10" by (simp add: mask_eq_exp_minus_1)
  show ?thesis
    unfolding PTE_FLAGS_def m
    by (rule bit_word_eqI) (auto simp: bit_simps bit_PA2PTE dest: bit_flag_word [OF assms])
qed

lemma PTE_V_iff: "v AND PTE_V \<noteq> 0 \<longleftrightarrow> bit v 0"
  by (simp add: PTE_V_def and_one_eq bit_0 odd_iff_mod_2_eq_one mod2_eq_if)

lemma PTE_V_nonzero [simp]: "PTE_V \<noteq> 0"
  by (simp add: PTE_V_def)

lemma valid_PA2PTE [simp]: "(PA2PTE pa OR f OR PTE_V) AND PTE_V \<noteq> 0" "(PA2PTE pa OR PTE_V) AND PTE_V \<noteq> 0"
  by (simp_all add: PTE_V_iff bit_or_iff) (simp_all add: PTE_V_def)

lemma flag_words [simp]:
  "flag_word PTE_V" "flag_word PTE_R" "flag_word PTE_W" "flag_word PTE_X" "flag_word PTE_U" "flag_word 0"
  by (simp_all add: flag_word_def pte_bits)

lemma flag_word_or [simp]: "flag_word f \<Longrightarrow> flag_word g \<Longrightarrow> flag_word (f OR g)"
  by (simp add: flag_word_def)

lemma PTE2PA_aligned [simp]: "aligned (PTE2PA v)"
proof -
  have "take_bit 12 (PTE2PA v) = 0"
    by (rule bit_word_eqI) (auto simp: bit_take_bit_iff bit_PTE2PA)
  then show ?thesis by (simp add: take_bit_eq_mod aligned_def PGSIZE_def)
qed

section \<open>Entries in a page\<close>

lemma unat_PX: "unat (PX l va) < 512"
proof -
  have "PX l va = take_bit 9 (drop_bit (PXSHIFT l) va)"
    by (simp add: PX_def PXMASK_def take_bit_eq_mask mask_eq_exp_minus_1)
  then have "unat (PX l va) = take_bit 9 (unat (drop_bit (PXSHIFT l) va))" by (simp add: unsigned_take_bit_eq)
  then show ?thesis using take_bit_nat_less_exp [of 9] by simp
qed

lemma unat_8_mult: "unat i < 512 \<Longrightarrow> unat (8 * i :: addr) = 8 * unat i"
  by (simp add: unat_word_ariths)

lemma pte_in_page: "unat i < 512 \<Longrightarrow> k < 8 \<Longrightarrow> in_page p (pte_at p i + of_nat k)"
proof -
  assume "unat i < 512" "k < 8"
  then have "unat (8 * i + of_nat k) = 8 * unat i + k" by (simp add: unat_add_of_nat unat_8_mult)
  with \<open>unat i < 512\<close> \<open>k < 8\<close> show ?thesis by (simp add: in_page_def pte_at_def add.assoc)
qed

lemma ld64_pte_cong:
  assumes "\<And>x. in_page p x \<Longrightarrow> m' x = m x" "unat i < 512"
  shows "ld64 m' (pte_at p i) = ld64 m (pte_at p i)"
  unfolding pte_at_def by (rule ld64_page_cong [OF assms(1)]) (use assms(2) in \<open>simp_all add: unat_8_mult\<close>)

lemma st64_pte_outside:
  assumes "\<not> in_page p x" "unat i < 512"
  shows "st64 m (pte_at p i) v x = m x"
  unfolding pte_at_def by (rule st64_outside_page [OF assms(1)]) (use assms(2) in \<open>simp add: unat_8_mult\<close>)

lemma ld64_put_apart:
  assumes "\<And>k. k < 8 \<Longrightarrow> unat (b + of_nat k - a) \<ge> length bs"
  shows "ld64 (put m a bs) b = ld64 m b"
  unfolding ld64_def
  by (intro arg_cong [of _ _ le_word] bytes_cong put_outside) (use assms in \<open>simp add: algebra_simps\<close>)

lemma ld64_st64_pte_other:
  assumes ij: "unat i < 512" "unat j < 512" "i \<noteq> j"
  shows "ld64 (st64 m (pte_at p i) v) (pte_at p j) = ld64 m (pte_at p j)"
  unfolding st64_def
proof (rule ld64_put_apart)
  fix k :: nat assume k: "k < 8"
  have u: "unat (8 * j + of_nat k :: addr) = 8 * unat j + k" "unat (8 * i :: addr) = 8 * unat i"
    using ij k by (simp_all add: unat_add_of_nat unat_8_mult)
  have "unat i \<noteq> unat j" using ij(3) unsigned_word_eqI by blast
  have "unat (8 * j + of_nat k - 8 * i :: addr) \<ge> 8"
  proof (cases "unat i < unat j")
    case True
    then show ?thesis using u by (simp add: unat_sub_if')
  next
    case False
    with \<open>unat i \<noteq> unat j\<close> k ij show ?thesis using u by (simp add: unat_sub_if')
  qed
  moreover have "pte_at p j + of_nat k - pte_at p i = 8 * j + of_nat k - 8 * i"
    by (simp add: pte_at_def algebra_simps)
  ultimately show "unat (pte_at p j + of_nat k - pte_at p i) \<ge> length (le_bytes 8 v)" by (simp only: length_le_bytes)
qed

section \<open>The abstraction\<close>

text \<open>
  \<open>lookup m n pt va\<close>: the address of the level-0 entry of \<open>va\<close> in the table of level \<open>n\<close> at
  \<open>pt\<close>, if the tables on the way exist.  \<open>entry\<close> is its content, zero if there is none.
\<close>

fun lookup :: "memory \<Rightarrow> nat \<Rightarrow> addr \<Rightarrow> addr \<Rightarrow> addr option" where
  "lookup m 0 pt va = Some (pte_at pt (PX 0 va))"
| "lookup m (Suc n) pt va =
     (let v = ld64 m (pte_at pt (PX (Suc n) va)) in
      if v AND PTE_V \<noteq> 0 then lookup m n (PTE2PA v) va else None)"

definition entry :: "memory \<Rightarrow> nat \<Rightarrow> addr \<Rightarrow> addr \<Rightarrow> 64 word" where
  "entry m n pt va = (case lookup m n pt va of None \<Rightarrow> 0 | Some a \<Rightarrow> ld64 m a)"

lemma entry_0: "entry m 0 pt va = ld64 m (pte_at pt (PX 0 va))"
  by (simp add: entry_def)

lemma entry_Suc:
  "entry m (Suc n) pt va =
     (if ld64 m (pte_at pt (PX (Suc n) va)) AND PTE_V \<noteq> 0
      then entry m n (PTE2PA (ld64 m (pte_at pt (PX (Suc n) va)))) va else 0)"
  by (simp add: entry_def Let_def)

text \<open>
  \<open>ptab m ke n pt A\<close>: at \<open>pt\<close> there is a well-formed table of level \<open>n\<close>, a tree made of
  exactly the pages \<open>A\<close>; \<open>kids\<close> gives the pages \<open>B i\<close> below entry \<open>i\<close>.
\<close>

definition split_pages :: "addr set \<Rightarrow> addr \<Rightarrow> (64 word \<Rightarrow> addr set) \<Rightarrow> bool" where
  "split_pages A pt B \<longleftrightarrow> A = insert pt (\<Union>i\<in>{i. unat i < 512}. B i) \<and> (\<forall>i. unat i < 512 \<longrightarrow> pt \<notin> B i) \<and>
     (\<forall>i j. unat i < 512 \<longrightarrow> unat j < 512 \<longrightarrow> i \<noteq> j \<longrightarrow> B i \<inter> B j = {})"

fun ptab :: "memory \<Rightarrow> addr \<Rightarrow> nat \<Rightarrow> addr \<Rightarrow> addr set \<Rightarrow> bool" where
  "ptab m ke 0 pt A \<longleftrightarrow> valid_page ke pt \<and> A = {pt}"
| "ptab m ke (Suc n) pt A \<longleftrightarrow> valid_page ke pt \<and> (\<exists>B. split_pages A pt B \<and>
     (\<forall>i. unat i < 512 \<longrightarrow> (let v = ld64 m (pte_at pt i) in
        if v AND PTE_V \<noteq> 0 then ptab m ke n (PTE2PA v) (B i) else B i = {})))"

definition kids :: "memory \<Rightarrow> addr \<Rightarrow> nat \<Rightarrow> addr \<Rightarrow> (64 word \<Rightarrow> addr set) \<Rightarrow> bool" where
  "kids m ke n pt B \<longleftrightarrow> (\<forall>i. unat i < 512 \<longrightarrow>
     (if ld64 m (pte_at pt i) AND PTE_V \<noteq> 0 then ptab m ke n (PTE2PA (ld64 m (pte_at pt i))) (B i) else B i = {}))"

lemma ptab_Suc: "ptab m ke (Suc n) pt A \<longleftrightarrow> valid_page ke pt \<and> (\<exists>B. split_pages A pt B \<and> kids m ke n pt B)"
  by (simp add: kids_def Let_def)

declare ptab.simps(2) [simp del]

lemma kids_valid:
  "kids m ke n pt B \<Longrightarrow> unat i < 512 \<Longrightarrow> ld64 m (pte_at pt i) AND PTE_V \<noteq> 0 \<Longrightarrow>
   ptab m ke n (PTE2PA (ld64 m (pte_at pt i))) (B i)"
  "kids m ke n pt B \<Longrightarrow> unat i < 512 \<Longrightarrow> ld64 m (pte_at pt i) AND PTE_V = 0 \<Longrightarrow> B i = {}"
  by (auto simp: kids_def)

lemma split_pages_simps:
  assumes "split_pages A pt B"
  shows "pt \<in> A" "unat i < 512 \<Longrightarrow> B i \<subseteq> A" "unat i < 512 \<Longrightarrow> pt \<notin> B i"
    "unat i < 512 \<Longrightarrow> unat j < 512 \<Longrightarrow> i \<noteq> j \<Longrightarrow> B i \<inter> B j = {}"
    "p \<in> A \<Longrightarrow> p = pt \<or> (\<exists>i. unat i < 512 \<and> p \<in> B i)"
  using assms unfolding split_pages_def by blast+

lemma ptab_root: "ptab m ke n pt A \<Longrightarrow> pt \<in> A \<and> valid_page ke pt"
  by (cases n) (auto simp: ptab_Suc dest: split_pages_simps)

lemma ptab_valid: "ptab m ke n pt A \<Longrightarrow> p \<in> A \<Longrightarrow> valid_page ke p"
proof (induction n arbitrary: pt A)
  case (Suc n)
  then obtain B where B: "valid_page ke pt" "split_pages A pt B" "kids m ke n pt B" by (auto simp: ptab_Suc)
  consider "p = pt" | i where "unat i < 512" "p \<in> B i" using split_pages_simps(5) [OF B(2) Suc.prems(2)] by blast
  then show ?case
  proof cases
    case (2 i)
    then have "ptab m ke n (PTE2PA (ld64 m (pte_at pt i))) (B i)"
      using kids_valid [OF B(3) 2(1)] by blast
    then show ?thesis using Suc.IH 2(2) by blast
  qed (use B(1) in simp)
qed auto

text \<open>A table depends only on its own pages.\<close>

definition same_on :: "addr set \<Rightarrow> memory \<Rightarrow> memory \<Rightarrow> bool" where
  "same_on A m m' \<longleftrightarrow> (\<forall>p\<in>A. \<forall>x. in_page p x \<longrightarrow> m' x = m x)"

lemma same_on_subset: "same_on A m m' \<Longrightarrow> B \<subseteq> A \<Longrightarrow> same_on B m m'"
  by (auto simp: same_on_def)

lemma ld64_same_on: "same_on A m m' \<Longrightarrow> p \<in> A \<Longrightarrow> unat i < 512 \<Longrightarrow> ld64 m' (pte_at p i) = ld64 m (pte_at p i)"
  by (rule ld64_pte_cong) (auto simp: same_on_def)

lemma ptab_frame:
  assumes "ptab m ke n pt A" "same_on A m m'"
  shows "ptab m' ke n pt A \<and> lookup m' n pt va = lookup m n pt va \<and> entry m' n pt va = entry m n pt va"
  using assms
proof (induction n arbitrary: pt A)
  case 0
  have "ld64 m' (pte_at pt (PX 0 va)) = ld64 m (pte_at pt (PX 0 va))"
    by (rule ld64_same_on [OF 0(2)]) (use 0 in \<open>auto simp: unat_PX\<close>)
  with 0 show ?case by (simp add: entry_def)
next
  case (Suc n)
  obtain B where B: "valid_page ke pt" "split_pages A pt B" "kids m ke n pt B"
    using Suc.prems(1) by (auto simp: ptab_Suc)
  have ld: "ld64 m' (pte_at pt i) = ld64 m (pte_at pt i)" if "unat i < 512" for i
    by (rule ld64_same_on [OF Suc.prems(2) split_pages_simps(1) [OF B(2)] that])
  have kid: "ptab m' ke n (PTE2PA (ld64 m (pte_at pt i))) (B i) \<and>
      lookup m' n (PTE2PA (ld64 m (pte_at pt i))) va = lookup m n (PTE2PA (ld64 m (pte_at pt i))) va \<and>
      entry m' n (PTE2PA (ld64 m (pte_at pt i))) va = entry m n (PTE2PA (ld64 m (pte_at pt i))) va"
    if "unat i < 512" "ld64 m (pte_at pt i) AND PTE_V \<noteq> 0" for i
    by (rule Suc.IH [OF kids_valid(1) [OF B(3) that]])
       (rule same_on_subset [OF Suc.prems(2) split_pages_simps(2) [OF B(2) that(1)]])
  have "kids m' ke n pt B" using ld kid kids_valid(2) [OF B(3)] by (auto simp: kids_def)
  then have "ptab m' ke (Suc n) pt A" using B by (auto simp: ptab_Suc)
  moreover have "lookup m' (Suc n) pt va = lookup m (Suc n) pt va" "entry m' (Suc n) pt va = entry m (Suc n) pt va"
    using ld [OF unat_PX] kid [OF unat_PX] by (auto simp: entry_Suc Let_def)
  ultimately show ?case by blast
qed

lemma lookup_in_pages:
  assumes "ptab m ke n pt A" "lookup m n pt va = Some a"
  obtains p where "p \<in> A" "a = pte_at p (PX 0 va)"
  using assms
proof (induction n arbitrary: pt A thesis)
  case (Suc n)
  obtain B where B: "split_pages A pt B" "kids m ke n pt B" using Suc.prems(2) by (auto simp: ptab_Suc)
  let ?i = "PX (Suc n) va"
  have v: "ld64 m (pte_at pt ?i) AND PTE_V \<noteq> 0" "lookup m n (PTE2PA (ld64 m (pte_at pt ?i))) va = Some a"
    using Suc.prems(3) by (auto simp: Let_def split: if_splits)
  obtain p where "p \<in> B ?i" "a = pte_at p (PX 0 va)"
    by (rule Suc.IH [OF _ kids_valid(1) [OF B(2) unat_PX v(1)] v(2)])
  then show ?case using split_pages_simps(2) [OF B(1) unat_PX] by (intro Suc.prems(1) [of p]) auto
qed auto

text \<open>A zeroed page is an empty table.\<close>

lemma ld64_zero_page:
  assumes "\<And>x. in_page p x \<Longrightarrow> m x = 0" "unat i < 512"
  shows "ld64 m (pte_at p i) = 0"
proof -
  have "ld64 m (pte_at p i) = ld64 (\<lambda>_. 0) (pte_at p i)"
    by (rule ld64_pte_cong) (use assms in auto)
  then show ?thesis by (simp add: ld64_def bytes_def upt_rec)
qed

lemma ptab_zero:
  assumes "\<And>x. in_page p x \<Longrightarrow> m x = 0" "valid_page ke p"
  shows "ptab m ke n p {p} \<and> entry m n p va = 0"
proof (cases n)
  case 0
  then show ?thesis using assms ld64_zero_page [OF assms(1) unat_PX] by (simp add: entry_def)
next
  case (Suc k)
  have z: "ld64 m (pte_at p i) = 0" if "unat i < 512" for i by (rule ld64_zero_page [OF assms(1) that])
  have "split_pages {p} p (\<lambda>_. {}) \<and> kids m ke k p (\<lambda>_. {})" using z by (simp add: split_pages_def kids_def)
  then have "ptab m ke (Suc k) p {p}" using assms(2) by (auto simp: ptab_Suc)
  then show ?thesis using z [OF unat_PX] Suc by (simp add: entry_def)
qed

text \<open>Replacing the subtree below entry \<open>i\<close>.\<close>

lemma ptab_child:
  assumes B: "valid_page ke pt" "split_pages A pt B" "kids m ke n pt B" and i: "unat i < 512"
    and same: "same_on (A - insert pt (B i)) m m'"
    and ent: "\<And>j. unat j < 512 \<Longrightarrow> j \<noteq> i \<Longrightarrow> ld64 m' (pte_at pt j) = ld64 m (pte_at pt j)"
    and v: "ld64 m' (pte_at pt i) AND PTE_V \<noteq> 0" "PTE2PA (ld64 m' (pte_at pt i)) = c"
    and C: "ptab m' ke n c C" "C \<inter> (A - B i) = {}"
  shows "ptab m' ke (Suc n) pt ((A - B i) \<union> C) \<and>
    entry m' (Suc n) pt va = (if PX (Suc n) va = i then entry m' n c va else entry m (Suc n) pt va)"
proof
  note sp = split_pages_simps [OF B(2)]
  have kid: "ptab m' ke n (PTE2PA (ld64 m (pte_at pt j))) (B j) \<and>
      entry m' n (PTE2PA (ld64 m (pte_at pt j))) va = entry m n (PTE2PA (ld64 m (pte_at pt j))) va"
    if j: "unat j < 512" "j \<noteq> i" "ld64 m (pte_at pt j) AND PTE_V \<noteq> 0" for j
  proof -
    have "same_on (B j) m m'"
      by (rule same_on_subset [OF same]) (use sp(2,3) [OF j(1)] sp(4) [OF j(1) i j(2)] in blast)
    then show ?thesis using ptab_frame [OF kids_valid(1) [OF B(3) j(1,3)]] by blast
  qed
  have "split_pages ((A - B i) \<union> C) pt (B(i := C))"
    unfolding split_pages_def
  proof (intro conjI allI impI)
    have "A - B i = insert pt (\<Union>j\<in>{j. unat j < 512 \<and> j \<noteq> i}. B j)"
      using B(2) i sp(3,4) unfolding split_pages_def by blast
    then show "A - B i \<union> C = insert pt (\<Union>j\<in>{j. unat j < 512}. (B(i := C)) j)"
      using i by auto
    fix j k :: "64 word" assume j: "unat j < 512"
    show "pt \<notin> (B(i := C)) j" using sp(1,3) j i C(2) by auto
    assume k: "unat k < 512" "j \<noteq> k"
    show "(B(i := C)) j \<inter> (B(i := C)) k = {}"
      using sp(2) [OF j] sp(2) [OF k(1)] sp(4) [OF j k] sp(4) [OF j i] sp(4) [OF k(1) i] C(2) k(2) by auto
  qed
  moreover have "kids m' ke n pt (B(i := C))"
    unfolding kids_def using ent kid kids_valid(2) [OF B(3)] v C(1) by auto
  ultimately show "ptab m' ke (Suc n) pt ((A - B i) \<union> C)" using B(1) by (auto simp: ptab_Suc)
  show "entry m' (Suc n) pt va = (if PX (Suc n) va = i then entry m' n c va else entry m (Suc n) pt va)"
    using v ent [OF unat_PX] kid [OF unat_PX] by (auto simp: entry_Suc)
qed

text \<open>
  \<open>outside A m m'\<close>: \<open>m'\<close> differs from \<open>m\<close> in the pages \<open>A\<close> only.
\<close>

definition outside :: "addr set \<Rightarrow> memory \<Rightarrow> memory \<Rightarrow> bool" where
  "outside A m m' \<longleftrightarrow> (\<forall>x. (\<forall>p\<in>A. \<not> in_page p x) \<longrightarrow> m' x = m x)"

lemma outside_refl [simp]: "outside A m m"
  by (simp add: outside_def)

lemma outside_mono: "outside A m m' \<Longrightarrow> A \<subseteq> B \<Longrightarrow> outside B m m'"
  by (auto simp: outside_def)

lemma outside_trans: "outside A m m' \<Longrightarrow> outside A m' m'' \<Longrightarrow> outside A m m''"
  by (simp add: outside_def)

lemma outside_same_on:
  assumes "outside A m m'" "A \<inter> D = {}" "\<forall>p\<in>A. aligned p" "\<forall>p\<in>D. aligned p"
  shows "same_on D m m'"
  unfolding same_on_def
proof (intro ballI allI impI)
  fix p x assume "p \<in> D" "in_page p x"
  then have "\<forall>q\<in>A. \<not> in_page q x" using assms(2-4) pages_disjoint [of p _ x] by blast
  then show "m' x = m x" using assms(1) by (simp add: outside_def)
qed

lemma valid_page_aligned: "valid_page ke p \<Longrightarrow> aligned p"
  by (simp add: valid_page_def)

lemma free_pages_same_on:
  assumes "free_pages m ke h ps" "same_on (set ps) m m'"
  shows "free_pages m' ke h ps"
  using assms flist_cong [of ps m' m h] by (auto simp: free_pages_def same_on_def)

lemma pte_at_nonzero:
  assumes "valid_page ke p" shows "pte_at p (PX l va) \<noteq> 0"
proof
  assume "pte_at p (PX l va) = 0"
  then have "in_page p 0" using pte_in_page [OF unat_PX, of 0 p l va] by simp
  then have "PGROUNDDOWN 0 = p" using assms by (simp add: in_page_PGROUNDDOWN valid_page_def)
  then show False using assms by (simp add: PGROUNDDOWN_def valid_page_def)
qed

lemma PTE2PA_new [simp]: "valid_page ke p \<Longrightarrow> flag_word f \<Longrightarrow> PTE2PA (PA2PTE p OR f) = p"
  by (rule PTE2PA_PA2PTE) (auto simp: valid_page_def page_consts elim: order.strict_trans)

text \<open>
  What \<open>walk\<close> with allocation does to the table at \<open>pt\<close>: pages move from the free list into
  the tree, no entry changes, and memory outside the tree is untouched.
\<close>

definition pt_ext :: "nat \<Rightarrow> addr \<Rightarrow> memory \<Rightarrow> addr set \<Rightarrow> addr list \<Rightarrow> memory \<Rightarrow> addr set \<Rightarrow> addr list \<Rightarrow> bool" where
  "pt_ext n pt m A ps m' A' ps' \<longleftrightarrow> (\<exists>us. ps = us @ ps' \<and> A' = A \<union> set us) \<and> outside A' m m' \<and>
     (\<forall>va. entry m' n pt va = entry m n pt va)"

lemma pt_ext_refl [simp]: "pt_ext n pt m A ps m A ps"
  by (auto simp: pt_ext_def)

lemma free_pages_valid: "free_pages m ke h ps \<Longrightarrow> p \<in> set ps \<Longrightarrow> valid_page ke p"
  by (simp add: free_pages_def)

lemma walk_descend:
  assumes pt: "ptab m ke (Suc n) pt A" and fp: "free_pages m ke h ps" "A \<inter> set ps = {}"
    and v: "ld64 m (pte_at pt (PX (Suc n) va)) AND PTE_V \<noteq> 0"
  obtains C where "ptab m ke n (PTE2PA (ld64 m (pte_at pt (PX (Suc n) va)))) C" "C \<inter> set ps = {}"
    "\<And>m' C' ps'. ptab m' ke n (PTE2PA (ld64 m (pte_at pt (PX (Suc n) va)))) C' \<Longrightarrow>
      pt_ext n (PTE2PA (ld64 m (pte_at pt (PX (Suc n) va)))) m C ps m' C' ps' \<Longrightarrow>
      \<exists>A'. ptab m' ke (Suc n) pt A' \<and> pt_ext (Suc n) pt m A ps m' A' ps' \<and>
        lookup m' (Suc n) pt va = lookup m' n (PTE2PA (ld64 m (pte_at pt (PX (Suc n) va)))) va"
proof -
  let ?i = "PX (Suc n) va" let ?c = "PTE2PA (ld64 m (pte_at pt ?i))"
  obtain B where B: "valid_page ke pt" "split_pages A pt B" "kids m ke n pt B" using pt by (auto simp: ptab_Suc)
  note sp = split_pages_simps [OF B(2)]
  have C: "ptab m ke n ?c (B ?i)" by (rule kids_valid(1) [OF B(3) unat_PX v])
  show thesis
  proof (rule that [of "B ?i"])
    show "ptab m ke n ?c (B ?i)" by (rule C)
    show "B ?i \<inter> set ps = {}" using sp(2) [OF unat_PX] fp(2) by blast
    fix m' C' ps' assume C': "ptab m' ke n ?c C'" and x: "pt_ext n ?c m (B ?i) ps m' C' ps'"
    obtain us where us: "ps = us @ ps'" "C' = B ?i \<union> set us" and o: "outside C' m m'"
      and e: "\<And>va. entry m' n ?c va = entry m n ?c va" using x by (auto simp: pt_ext_def)
    have al: "\<forall>p\<in>C'. aligned p" "\<forall>p\<in>A. aligned p"
      using ptab_valid [OF C'] ptab_valid [OF pt] by (auto intro: valid_page_aligned)
    have dis: "C' \<inter> (A - B ?i) = {}" using us fp(2) by auto
    have so: "same_on (A - B ?i) m m'" by (rule outside_same_on [OF o dis al(1)]) (use al(2) in blast)
    have ld: "ld64 m' (pte_at pt j) = ld64 m (pte_at pt j)" if "unat j < 512" for j
      by (rule ld64_same_on [OF so _ that]) (use sp(1) sp(3) [OF unat_PX] in blast)
    have "ptab m' ke (Suc n) pt ((A - B ?i) \<union> C') \<and>
        entry m' (Suc n) pt w = (if PX (Suc n) w = ?i then entry m' n ?c w else entry m (Suc n) pt w)" for w
      by (rule ptab_child [OF B unat_PX]) (use so ld unat_PX v C' dis in \<open>auto simp: same_on_def\<close>)
    moreover have "entry m (Suc n) pt w = entry m n ?c w" if "PX (Suc n) w = ?i" for w
      using that v by (simp add: entry_Suc)
    ultimately have "ptab m' ke (Suc n) pt ((A - B ?i) \<union> C')" "\<And>w. entry m' (Suc n) pt w = entry m (Suc n) pt w"
      using e by auto
    moreover have "A - B ?i \<union> C' = A \<union> set us" using us(2) sp(2) [OF unat_PX] by blast
    moreover have "outside (A \<union> set us) m m'" by (rule outside_mono [OF o]) (use us(2) sp(2) [OF unat_PX] in blast)
    ultimately show "\<exists>A'. ptab m' ke (Suc n) pt A' \<and> pt_ext (Suc n) pt m A ps m' A' ps' \<and>
        lookup m' (Suc n) pt va = lookup m' n ?c va"
      using us(1) ld [OF unat_PX] v by (intro exI [of _ "A \<union> set us"]) (auto simp: pt_ext_def)
  qed
qed

text \<open>The memory after a fresh page \<open>p\<close> has been linked in at \<open>slot\<close>.\<close>

definition link_page :: "memory \<Rightarrow> addr \<Rightarrow> addr \<Rightarrow> memory" where
  "link_page m p slot = st64 (page_fill m p 0) slot (PA2PTE p OR PTE_V)"

lemma walk_new_page:
  assumes pt: "ptab m ke (Suc n) pt A" and fp: "free_pages m ke h (p # ps)" "A \<inter> set (p # ps) = {}"
    and v: "ld64 m (pte_at pt (PX (Suc n) va)) AND PTE_V = 0"
  defines "m2 \<equiv> link_page m p (pte_at pt (PX (Suc n) va))"
  shows "ptab m2 ke n p {p} \<and> free_pages m2 ke (ld64 m h) ps \<and> p \<notin> set ps \<and>
    (\<forall>m' C' ps'. ptab m' ke n p C' \<longrightarrow> pt_ext n p m2 {p} ps m' C' ps' \<longrightarrow>
      (\<exists>A'. ptab m' ke (Suc n) pt A' \<and> pt_ext (Suc n) pt m A (p # ps) m' A' ps' \<and>
        lookup m' (Suc n) pt va = lookup m' n p va))"
proof -
  let ?i = "PX (Suc n) va"
  obtain B where B: "valid_page ke pt" "split_pages A pt B" "kids m ke n pt B" using pt by (auto simp: ptab_Suc)
  note sp = split_pages_simps [OF B(2)]
  have Bi: "B ?i = {}" by (rule kids_valid(2) [OF B(3) unat_PX v])
  have vp: "valid_page ke p" "p \<noteq> pt" "p \<notin> set ps" "p \<notin> A" "h = p"
    using fp sp(1) free_pages_head [OF fp(1)] by (auto simp: free_pages_def)
  have o2: "outside {pt, p} m m2"
    unfolding outside_def m2_def link_page_def
    using st64_pte_outside [OF _ unat_PX] by (auto simp: page_fill_def)
  have ld2: "ld64 m2 (pte_at pt j) = (if j = ?i then PA2PTE p OR PTE_V else ld64 m (pte_at pt j))" if j: "unat j < 512" for j
  proof -
    have "ld64 (page_fill m p 0) (pte_at pt j) = ld64 m (pte_at pt j)"
      by (rule ld64_pte_cong [OF _ j])
         (use vp B(1) pages_disjoint [of pt p] in \<open>auto simp: page_fill_def valid_page_def\<close>)
    then show ?thesis using ld64_st64_pte_other [OF unat_PX j] by (auto simp: m2_def link_page_def)
  qed
  have z: "m2 x = 0" if "in_page p x" for x
  proof -
    have "\<not> in_page pt x" using that vp B(1) pages_disjoint [of p pt x] by (auto simp: valid_page_def)
    then show ?thesis using that by (simp add: m2_def link_page_def st64_pte_outside [OF _ unat_PX] page_fill_def)
  qed
  have pz: "ptab m2 ke n p {p} \<and> entry m2 n p w = 0" for w
    by (rule ptab_zero) (simp_all add: z vp(1))
  have alps: "\<forall>q\<in>set ps. aligned q" using fp(1) by (auto simp: free_pages_def valid_page_def)
  have fp2: "free_pages m2 ke (ld64 m h) ps"
  proof (rule free_pages_same_on [OF free_pages_alloc [OF fp(1), of 0]], rule outside_same_on [of "{pt}"])
    show "outside {pt} (page_fill m p 0) m2"
      unfolding outside_def m2_def link_page_def using st64_pte_outside [OF _ unat_PX] by auto
  qed (use sp(1) fp(2) alps B(1) in \<open>auto simp: valid_page_def\<close>)
  have comb: "\<exists>A'. ptab m' ke (Suc n) pt A' \<and> pt_ext (Suc n) pt m A (p # ps) m' A' ps' \<and>
        lookup m' (Suc n) pt va = lookup m' n p va"
    if C': "ptab m' ke n p C'" and x: "pt_ext n p m2 {p} ps m' C' ps'" for m' C' ps'
  proof -
    obtain us where us: "ps = us @ ps'" "C' = insert p (set us)" and o: "outside C' m2 m'"
      and e: "\<And>va. entry m' n p va = entry m2 n p va" using x by (auto simp: pt_ext_def)
    have al: "\<forall>q\<in>C'. aligned q" "\<forall>q\<in>A. aligned q" "\<forall>q\<in>{pt, p}. aligned q"
      using ptab_valid [OF C'] ptab_valid [OF pt] vp(1) B(1) by (auto intro: valid_page_aligned)
    have dis: "C' \<inter> A = {}" using us fp(2) vp by auto
    have so2: "same_on (A - {pt}) m m2" by (rule outside_same_on [OF o2]) (use al vp in auto)
    have so': "same_on A m2 m'" by (rule outside_same_on [OF o dis al(1,2)])
    have so: "same_on (A - {pt}) m m'" using so2 so' by (auto simp: same_on_def)
    have ld: "ld64 m' (pte_at pt j) = ld64 m2 (pte_at pt j)" if "unat j < 512" for j
      by (rule ld64_same_on [OF so' sp(1) that])
    have "ptab m' ke (Suc n) pt ((A - B ?i) \<union> C') \<and>
        entry m' (Suc n) pt w = (if PX (Suc n) w = ?i then entry m' n p w else entry m (Suc n) pt w)" for w
      by (rule ptab_child [OF B unat_PX])
         (use so ld ld2 unat_PX C' dis vp Bi in \<open>auto simp: same_on_def\<close>)
    moreover have "entry m (Suc n) pt w = 0" if "PX (Suc n) w = ?i" for w
      using that v by (simp add: entry_Suc)
    moreover have "entry m' n p w = 0" for w using e pz by simp
    ultimately have "ptab m' ke (Suc n) pt (A \<union> C')" "\<And>w. entry m' (Suc n) pt w = entry m (Suc n) pt w"
      using Bi by auto
    moreover have "outside (A \<union> C') m m'"
      by (rule outside_trans [OF outside_mono [OF o2] outside_mono [OF o]]) (use sp(1) us(2) in auto)
    ultimately show ?thesis
      using us ld [OF unat_PX] ld2 [OF unat_PX] vp(1)
      by (intro exI [of _ "A \<union> C'"]) (auto simp: pt_ext_def intro!: exI [of _ "p # us"])
  qed
  show ?thesis using pz fp2 vp(3) comb by blast
qed

section \<open>walk\<close>

lemma wp_load_store [simp]:
  "wp (load64 a) s es Q = Q (ld64 (mem s) a) s es"
  "wp (store64 a v) s es R = R () (s\<lparr>mem := st64 (mem s) a v\<rparr>) es"
  by (simp_all add: load64_def store64_def)

lemma wp_walk_levels:
  assumes "lkst L P s" "KmemLock \<notin> set L" "kend s = ke"
    and "ptab (mem s) ke n pt A" "free_pages (mem s) ke (freelist s) ps" "A \<inter> set ps = {}"
    and "\<And>r m' h' A' ps' c st l. lkb L P (hart s) c st l \<Longrightarrow> ptab m' ke n pt A' \<Longrightarrow> free_pages m' ke h' ps' \<Longrightarrow>
      pt_ext n pt (mem s) A ps m' A' ps' \<Longrightarrow> if r = 0 then ps' = [] else lookup m' n pt va = Some r \<Longrightarrow>
      Q r (s\<lparr>mem := m', freelist := h', cpus := c, sstatus := st, locks := l\<rparr>) es"
  shows "wp (walk_levels n pt va True) s es Q"
  using assms
proof (induction n arbitrary: s pt A ps)
  case 0
  have "pte_at pt (PX 0 va) \<noteq> 0" using 0(4) pte_at_nonzero [of ke pt] by simp
  then show ?case
    using 0(7) [of "cpus s" "sstatus s" "locks s" "mem s" A "freelist s" ps "pte_at pt (PX 0 va)"] 0 by simp
next
  case (Suc n)
  note lk = Suc.prems(1-3) and pt = Suc.prems(4) and fp = Suc.prems(5,6) and Q = Suc.prems(7)
  let ?v = "ld64 (mem s) (pte_at pt (PX (Suc n) va))"
  show ?case
  proof (cases "?v AND PTE_V = 0")
    case False
    obtain C where C: "ptab (mem s) ke n (PTE2PA ?v) C" "C \<inter> set ps = {}"
      and comb: "\<And>m' C' ps'. ptab m' ke n (PTE2PA ?v) C' \<Longrightarrow> pt_ext n (PTE2PA ?v) (mem s) C ps m' C' ps' \<Longrightarrow>
        \<exists>A'. ptab m' ke (Suc n) pt A' \<and> pt_ext (Suc n) pt (mem s) A ps m' A' ps' \<and>
          lookup m' (Suc n) pt va = lookup m' n (PTE2PA ?v) va"
      using walk_descend [OF pt fp False] by metis
    have "wp (walk_levels n (PTE2PA ?v) va True) s es Q"
    proof (rule Suc.IH [OF lk C(1) fp(1) C(2)])
      fix r m' h' C' ps' c st l
      assume 1: "lkb L P (hart s) c st l" "ptab m' ke n (PTE2PA ?v) C'" "free_pages m' ke h' ps'"
        "pt_ext n (PTE2PA ?v) (mem s) C ps m' C' ps'"
        "if r = 0 then ps' = [] else lookup m' n (PTE2PA ?v) va = Some r"
      from comb [OF 1(2,4)] obtain A' where "ptab m' ke (Suc n) pt A'" "pt_ext (Suc n) pt (mem s) A ps m' A' ps'"
        "lookup m' (Suc n) pt va = lookup m' n (PTE2PA ?v) va" by blast
      then show "Q r (s\<lparr>mem := m', freelist := h', cpus := c, sstatus := st, locks := l\<rparr>) es"
        using Q [OF 1(1) _ 1(3), of A' r] 1(5) by simp
    qed
    then show ?thesis using False unfolding walk_levels.simps wp_simps by simp
  next
    case True
    show ?thesis
    proof (cases ps)
      case Nil
      then have "freelist s = 0" using fp(1) by (simp add: free_pages_Nil)
      have q: "Q 0 (s\<lparr>cpus := c, sstatus := st, locks := l\<rparr>) es" if "lkb L P (hart s) c st l" for c st l
        using Q [of c st l "mem s" A "freelist s" ps 0] that pt fp Nil by simp
      have "wp kalloc s es (\<lambda>p t fs. wp (if p = 0 then returnM 0 else doM (upd_mem (\<lambda>m. memset m p 0 (unat PGSIZE))) (\<lambda>_.
         doM (store64 (pte_at pt (PX (Suc n) va)) (PA2PTE p OR PTE_V)) (\<lambda>_. walk_levels n p va True))) t fs Q)"
        by (rule wp_kalloc [OF lk(1,2)]) (simp_all add: q \<open>freelist s = 0\<close>)
      then show ?thesis using True unfolding walk_levels.simps wp_simps by simp
    next
      case (Cons p qs)
      let ?slot = "pte_at pt (PX (Suc n) va)" let ?m2 = "link_page (mem s) p ?slot"
      have f: "freelist s = p" "p \<noteq> 0" using free_pages_head fp(1) Cons by auto
      have new: "ptab ?m2 ke n p {p}" "free_pages ?m2 ke (ld64 (mem s) (freelist s)) qs" "{p} \<inter> set qs = {}"
        and comb: "\<And>m' C' ps'. ptab m' ke n p C' \<Longrightarrow> pt_ext n p ?m2 {p} qs m' C' ps' \<Longrightarrow>
          \<exists>A'. ptab m' ke (Suc n) pt A' \<and> pt_ext (Suc n) pt (mem s) A ps m' A' ps' \<and>
            lookup m' (Suc n) pt va = lookup m' n p va"
        using walk_new_page [OF pt fp [unfolded Cons] True] Cons by auto
      have m2: "st64 (memset (page_fill (mem s) p 5) p 0 (unat PGSIZE)) ?slot (PA2PTE p OR PTE_V) = ?m2"
        by (simp only: memset_page link_page_def) (simp add: page_fill_def cong: if_cong)
      have "wp kalloc s es (\<lambda>p t fs. wp (if p = 0 then returnM 0 else doM (upd_mem (\<lambda>m. memset m p 0 (unat PGSIZE))) (\<lambda>_.
         doM (store64 (pte_at pt (PX (Suc n) va)) (PA2PTE p OR PTE_V)) (\<lambda>_. walk_levels n p va True))) t fs Q)"
      proof (rule wp_kalloc [OF lk(1,2)], goal_cases)
        case 1
        then show ?case using f by simp
      next
        case (2 c st l)
        have "wp (walk_levels n p va True) (s\<lparr>mem := ?m2, freelist := ld64 (mem s) p, cpus := c, sstatus := st, locks := l\<rparr>) es Q"
        proof (rule Suc.IH [where A = "{p}" and ps = qs])
          fix r m' h' C' ps' c' st' l'
          let ?s = "s\<lparr>mem := ?m2, freelist := ld64 (mem s) p, cpus := c, sstatus := st, locks := l\<rparr>"
          assume 7: "lkb L P (hart ?s) c' st' l'" "ptab m' ke n p C'" "free_pages m' ke h' ps'"
            "pt_ext n p (mem ?s) {p} qs m' C' ps'" "if r = 0 then ps' = [] else lookup m' n p va = Some r"
          then have x: "ptab m' ke n p C'" "pt_ext n p ?m2 {p} qs m' C' ps'" by simp_all
          from comb [OF x] obtain A' where A': "ptab m' ke (Suc n) pt A'" "pt_ext (Suc n) pt (mem s) A ps m' A' ps'"
            "lookup m' (Suc n) pt va = lookup m' n p va" by blast
          show "Q r (?s\<lparr>mem := m', freelist := h', cpus := c', sstatus := st', locks := l'\<rparr>) es"
            using Q [OF _ A'(1) _ A'(2), of c' st' l' h' r] 7 A'(3) by simp
        qed (use 2 lk new f in simp_all)
        then show ?case using f m2 by simp
      qed
      then show ?thesis using True unfolding walk_levels.simps wp_simps by simp
    qed
  qed
qed

text \<open>Without allocation \<open>walk\<close> is a look-up.\<close>

lemma wp_walk_levels_ro:
  assumes "Q (case lookup (mem s) n pt va of None \<Rightarrow> 0 | Some a \<Rightarrow> a) s es"
  shows "wp (walk_levels n pt va False) s es Q"
  using assms
proof (induction n arbitrary: pt)
  case (Suc n)
  then show ?case unfolding walk_levels.simps wp_simps by (auto simp: Let_def)
qed simp

text \<open>Storing into the level-0 entry of \<open>a\<close> changes the entry of the addresses of its page.\<close>

definition same_px :: "nat \<Rightarrow> addr \<Rightarrow> addr \<Rightarrow> bool" where
  "same_px n v w \<longleftrightarrow> (\<forall>l\<le>n. PX l v = PX l w)"

lemma same_px_Suc: "same_px (Suc n) v w \<longleftrightarrow> same_px n v w \<and> PX (Suc n) v = PX (Suc n) w"
  by (auto simp: same_px_def le_Suc_eq)

lemma ptab_store:
  assumes "ptab m ke n pt A" "lookup m n pt a = Some slot"
  shows "ptab (st64 m slot v) ke n pt A \<and> outside A m (st64 m slot v) \<and>
    entry (st64 m slot v) n pt w = (if same_px n w a then v else entry m n pt w)"
  using assms
proof (induction n arbitrary: pt A)
  case 0
  then have slot: "slot = pte_at pt (PX 0 a)" "A = {pt}" by simp_all
  have "outside A m (st64 m slot v)" unfolding outside_def slot using st64_pte_outside [OF _ unat_PX] by auto
  moreover have "entry (st64 m slot v) 0 pt w = (if same_px 0 w a then v else entry m 0 pt w)"
    unfolding slot entry_0 using ld64_st64_pte_other [OF unat_PX unat_PX, of 0 a 0 w] by (auto simp: same_px_def)
  ultimately show ?case using 0 by simp
next
  case (Suc n)
  let ?i = "PX (Suc n) a" let ?c = "PTE2PA (ld64 m (pte_at pt ?i))" let ?m = "st64 m slot v"
  obtain B where B: "valid_page ke pt" "split_pages A pt B" "kids m ke n pt B" using Suc.prems(1) by (auto simp: ptab_Suc)
  note sp = split_pages_simps [OF B(2)]
  have v: "ld64 m (pte_at pt ?i) AND PTE_V \<noteq> 0" and lk: "lookup m n ?c a = Some slot"
    using Suc.prems(2) by (auto simp: Let_def split: if_splits)
  have C: "ptab m ke n ?c (B ?i)" by (rule kids_valid(1) [OF B(3) unat_PX v])
  have ih: "ptab ?m ke n ?c (B ?i) \<and> outside (B ?i) m ?m \<and>
      entry ?m n ?c w = (if same_px n w a then v else entry m n ?c w)" by (rule Suc.IH [OF C lk])
  have al: "\<forall>p\<in>A. aligned p" using ptab_valid [OF Suc.prems(1)] by (auto intro: valid_page_aligned)
  have so: "same_on (A - B ?i) m ?m"
    by (rule outside_same_on [of "B ?i"]) (use ih al sp(2) [OF unat_PX] in blast)+
  have ld: "ld64 ?m (pte_at pt j) = ld64 m (pte_at pt j)" if "unat j < 512" for j
    by (rule ld64_same_on [OF so _ that]) (use sp(1) sp(3) [OF unat_PX] in blast)
  have "ptab ?m ke (Suc n) pt ((A - B ?i) \<union> B ?i) \<and>
      entry ?m (Suc n) pt w = (if PX (Suc n) w = ?i then entry ?m n ?c w else entry m (Suc n) pt w)"
    by (rule ptab_child [OF B unat_PX]) (use so ld unat_PX v ih in \<open>auto simp: same_on_def\<close>)
  moreover have "(A - B ?i) \<union> B ?i = A" using sp(2) [OF unat_PX] by blast
  moreover have "entry m (Suc n) pt w = entry m n ?c w" if "PX (Suc n) w = ?i" using that v by (simp add: entry_Suc)
  moreover have "outside A m ?m" using ih sp(2) [OF unat_PX] by (blast intro: outside_mono)
  ultimately show ?case using ih by (auto simp: same_px_Suc)
qed

lemma entry_lookup: "entry m n pt va AND PTE_V \<noteq> 0 \<Longrightarrow> \<exists>a. lookup m n pt va = Some a"
  by (auto simp: entry_def split: option.splits)

section \<open>Pages of the virtual address space\<close>

lemma unat_MAXVA [simp]: "unat MAXVA = 2 ^ 38"
  by (simp add: MAXVA_def)

lemma bit_PX: "bit (PX l va) k \<longleftrightarrow> k < 9 \<and> bit va (PXSHIFT l + k)"
proof -
  have m: "PXMASK = mask 9" by (simp add: PXMASK_def mask_eq_exp_minus_1)
  show ?thesis unfolding PX_def m by (auto simp: bit_and_iff bit_drop_bit_eq bit_mask_iff dest: bit_imp_le_length)
qed

lemma below_MAXVA_bit: "va < MAXVA \<Longrightarrow> bit va k \<Longrightarrow> k < 38"
proof -
  assume "va < MAXVA" "bit va k"
  then have "va < 2 ^ 38" by (simp add: MAXVA_def)
  then show "k < 38" using less_mask_eq [of va 38] \<open>bit va k\<close> by (metis bit_and_iff bit_mask_iff)
qed

lemma same_px_iff:
  assumes "v < MAXVA" "w < MAXVA"
  shows "same_px 2 v w \<longleftrightarrow> PGROUNDDOWN v = PGROUNDDOWN w"
proof -
  have rd: "bit (PGROUNDDOWN x) k \<longleftrightarrow> 12 \<le> k \<and> bit x k" for x :: addr and k
    unfolding PGROUNDDOWN_def mask12 by (auto simp: bit_simps dest: bit_imp_le_length)
  have "(\<forall>l\<le>2. \<forall>k<9. bit v (PXSHIFT l + k) = bit w (PXSHIFT l + k)) \<longleftrightarrow> (\<forall>k\<ge>12. bit v k = bit w k)"
  proof
    assume *: "\<forall>l\<le>2. \<forall>k<9. bit v (PXSHIFT l + k) = bit w (PXSHIFT l + k)"
    show "\<forall>k\<ge>12. bit v k = bit w k"
    proof (intro allI impI)
      fix k :: nat assume k: "12 \<le> k"
      show "bit v k = bit w k"
      proof (cases "k < 38")
        case True
        then have "(k - 12) div 9 \<le> 2" "k = PXSHIFT ((k - 12) div 9) + (k - 12) mod 9"
          using k by (auto simp: PXSHIFT_def)
        then show ?thesis using * by (metis mod_less_divisor zero_less_numeral)
      next
        case False
        then show ?thesis using below_MAXVA_bit [OF assms(1), of k] below_MAXVA_bit [OF assms(2), of k] by blast
      qed
    qed
  qed (auto simp: PXSHIFT_def)
  moreover have "PX l v = PX l w \<longleftrightarrow> (\<forall>k<9. bit v (PXSHIFT l + k) = bit w (PXSHIFT l + k))" for l
  proof
    assume e: "PX l v = PX l w"
    show "\<forall>k<9. bit v (PXSHIFT l + k) = bit w (PXSHIFT l + k)"
    proof (intro allI impI)
      fix k :: nat assume "k < 9"
      then show "bit v (PXSHIFT l + k) = bit w (PXSHIFT l + k)"
        using bit_PX [of l v k] bit_PX [of l w k] unfolding e by simp
    qed
  qed (rule bit_word_eqI, auto simp: bit_PX)
  moreover have "PGROUNDDOWN v = PGROUNDDOWN w \<longleftrightarrow> (\<forall>k\<ge>12. bit v k = bit w k)"
  proof
    assume e: "PGROUNDDOWN v = PGROUNDDOWN w"
    show "\<forall>k\<ge>12. bit v k = bit w k"
    proof (intro allI impI)
      fix k :: nat assume "12 \<le> k"
      then show "bit v k = bit w k" using rd [of v k] rd [of w k] unfolding e by simp
    qed
  qed (rule bit_word_eqI, auto simp: rd)
  ultimately show ?thesis by (simp add: same_px_def)
qed

section \<open>Rules for walk, walkaddr and mappages\<close>

text \<open>
  \<open>pt_ok ke pt m h A ps\<close>: a well-formed three-level table at \<open>pt\<close> made of the pages \<open>A\<close>,
  beside a free list with the pages \<open>ps\<close>.
\<close>

definition pt_ok :: "addr \<Rightarrow> addr \<Rightarrow> memory \<Rightarrow> addr \<Rightarrow> addr set \<Rightarrow> addr list \<Rightarrow> bool" where
  "pt_ok ke pt m h A ps \<longleftrightarrow> ptab m ke 2 pt A \<and> free_pages m ke h ps \<and> A \<inter> set ps = {}"

definition pte :: "memory \<Rightarrow> addr \<Rightarrow> addr \<Rightarrow> 64 word" where
  "pte m pt va = entry m 2 pt va"

lemma pt_ok_ext:
  assumes "pt_ok ke pt m h A ps" "ptab m' ke 2 pt A'" "free_pages m' ke h' ps'" "pt_ext 2 pt m A ps m' A' ps'"
  shows "pt_ok ke pt m' h' A' ps'"
  using assms by (auto simp: pt_ok_def pt_ext_def free_pages_def)

lemma wp_walk:
  assumes "lkst L P s" "KmemLock \<notin> set L" "kend s = ke" "va < MAXVA"
    and "pt_ok ke pt (mem s) (freelist s) A ps"
    and "\<And>r m' h' us ps' c st l. lkb L P (hart s) c st l \<Longrightarrow> pt_ok ke pt m' h' (A \<union> set us) ps' \<Longrightarrow>
      ps = us @ ps' \<Longrightarrow> outside (A \<union> set us) (mem s) m' \<Longrightarrow> (\<And>w. pte m' pt w = pte (mem s) pt w) \<Longrightarrow>
      (if r = 0 then ps' = [] else lookup m' 2 pt va = Some r) \<Longrightarrow>
      Q r (s\<lparr>mem := m', freelist := h', cpus := c, sstatus := st, locks := l\<rparr>) es"
  shows "wp (walk pt va True) s es Q"
proof -
  have ok: "ptab (mem s) ke 2 pt A" "free_pages (mem s) ke (freelist s) ps" "A \<inter> set ps = {}"
    using assms(5) by (auto simp: pt_ok_def)
  have "wp (walk_levels 2 pt va True) s es Q"
  proof (rule wp_walk_levels [OF assms(1-3) ok])
    fix r m' h' A' ps' c st l
    assume 1: "lkb L P (hart s) c st l" "ptab m' ke 2 pt A'" "free_pages m' ke h' ps'"
      "pt_ext 2 pt (mem s) A ps m' A' ps'" "if r = 0 then ps' = [] else lookup m' 2 pt va = Some r"
    obtain us where us: "ps = us @ ps'" "A' = A \<union> set us" "outside A' (mem s) m'"
      "\<And>w. pte m' pt w = pte (mem s) pt w" using 1(4) by (auto simp: pt_ext_def pte_def)
    show "Q r (s\<lparr>mem := m', freelist := h', cpus := c, sstatus := st, locks := l\<rparr>) es"
      using assms(6) [OF 1(1) _ us(1) _ us(4) 1(5), of h'] pt_ok_ext [OF assms(5) 1(2-4)] us(2,3) by simp
  qed
  moreover have "\<not> MAXVA \<le> va" using assms(4) by simp
  ultimately show ?thesis unfolding walk_def wp_simps by (simp only: if_False)
qed

lemma wp_walk_ro:
  assumes "va < MAXVA" "Q (case lookup (mem s) 2 pt va of None \<Rightarrow> 0 | Some a \<Rightarrow> a) s es"
  shows "wp (walk pt va False) s es Q"
proof -
  have "\<not> MAXVA \<le> va" using assms(1) by simp
  moreover have "wp (walk_levels 2 pt va False) s es Q" by (rule wp_walk_levels_ro) (rule assms(2))
  ultimately show ?thesis unfolding walk_def wp_simps by (simp only: if_False)
qed

text \<open>What \<open>walkaddr\<close> returns.\<close>

definition uaddr :: "memory \<Rightarrow> addr \<Rightarrow> addr \<Rightarrow> addr" where
  "uaddr m pt va = (if va < MAXVA \<and> pte m pt va AND PTE_V \<noteq> 0 \<and> pte m pt va AND PTE_U \<noteq> 0
     then PTE2PA (pte m pt va) else 0)"

lemma lookup_nonzero:
  assumes "ptab m ke n pt A" "lookup m n pt va = Some a" shows "a \<noteq> 0"
proof -
  obtain p where p: "p \<in> A" and a: "a = pte_at p (PX 0 va)" by (rule lookup_in_pages [OF assms])
  show ?thesis unfolding a by (rule pte_at_nonzero [OF ptab_valid [OF assms(1) p]])
qed

lemma wp_walkaddr:
  assumes "ptab (mem s) ke 2 pt A" "Q (uaddr (mem s) pt va) s es"
  shows "wp (walkaddr pt va) s es Q"
proof (cases "va < MAXVA")
  case True
  then have nle: "\<not> MAXVA \<le> va" by simp
  have r: "wp (if a = 0 then returnM 0 else doM (load64 a) (\<lambda>v. if v AND PTE_V = 0 then returnM 0
      else if v AND PTE_U = 0 then returnM 0 else returnM (PTE2PA v))) s es Q"
    if a: "a = (case lookup (mem s) 2 pt va of None \<Rightarrow> 0 | Some a \<Rightarrow> a)" for a
  proof (cases "lookup (mem s) 2 pt va")
    case None
    then show ?thesis using a assms(2) by (simp add: uaddr_def pte_def entry_def)
  next
    case (Some b)
    then have "a \<noteq> 0" "pte (mem s) pt va = ld64 (mem s) a"
      using a lookup_nonzero [OF assms(1) Some] by (simp_all add: pte_def entry_def)
    then show ?thesis using assms(2) True by (auto simp: uaddr_def split: if_splits)
  qed
  show ?thesis
    unfolding walkaddr_def if_not_P [OF nle] wp_simps(2)
    by (rule wp_walk_ro [OF True]) (rule r [OF refl])
next
  case False
  then have "MAXVA \<le> va" "uaddr (mem s) pt va = 0" by (simp_all add: uaddr_def)
  with assms(2) show ?thesis by (simp add: walkaddr_def)
qed

lemma PGROUNDDOWN_aligned: "aligned a \<Longrightarrow> PGROUNDDOWN a = a"
  using in_page_PGROUNDDOWN [of a a] by (simp add: in_page_def)

lemma pt_ok_store:
  assumes ok: "pt_ok ke pt m h A ps" and lk: "lookup m 2 pt a = Some r" and a: "aligned a" "a < MAXVA"
  shows "pt_ok ke pt (st64 m r v) h A ps \<and> outside A m (st64 m r v) \<and>
    (\<forall>w<MAXVA. pte (st64 m r v) pt w = (if PGROUNDDOWN w = a then v else pte m pt w))"
proof -
  have pt: "ptab m ke 2 pt A" and fp: "free_pages m ke h ps" "A \<inter> set ps = {}" using ok by (auto simp: pt_ok_def)
  have o: "outside A m (st64 m r v)" and pt': "ptab (st64 m r v) ke 2 pt A" using ptab_store [OF pt lk] by blast+
  have "same_on (set ps) m (st64 m r v)"
    by (rule outside_same_on [OF o fp(2)])
       (use ptab_valid [OF pt] free_pages_valid [OF fp(1)] in \<open>auto intro: valid_page_aligned\<close>)
  then have "pt_ok ke pt (st64 m r v) h A ps" using pt' fp by (auto simp: pt_ok_def intro: free_pages_same_on)
  moreover have "pte (st64 m r v) pt w = (if PGROUNDDOWN w = a then v else pte m pt w)" if "w < MAXVA" for w
    using ptab_store [OF pt lk, of v w] same_px_iff [OF that a(2)] PGROUNDDOWN_aligned [OF a(1)] by (simp add: pte_def)
  ultimately show ?thesis using o by blast
qed

text \<open>The entries after \<open>k\<close> pages from \<open>a\<close> on have been mapped to the frames from \<open>pa\<close> on.\<close>

definition map_range :: "(addr \<Rightarrow> 64 word) \<Rightarrow> addr \<Rightarrow> addr \<Rightarrow> 64 word \<Rightarrow> nat \<Rightarrow> addr \<Rightarrow> 64 word" where
  "map_range e a pa perm k w =
     (if unat a \<le> unat w \<and> unat w < unat a + 4096 * k
      then PA2PTE (pa + (PGROUNDDOWN w - a)) OR perm OR PTE_V else e w)"

lemma map_range_0 [simp]: "map_range e a pa perm 0 w = e w"
  by (auto simp: map_range_def)

lemma page_index:
  assumes "aligned a" "unat a + 4096 * k < 2 ^ 64"
  shows "PGROUNDDOWN w = a + of_nat (4096 * k) \<longleftrightarrow> unat a + 4096 * k \<le> unat w \<and> unat w < unat a + 4096 * Suc k"
proof -
  have u: "unat (a + of_nat (4096 * k)) = unat a + 4096 * k" by (rule unat_add_of_nat [OF assms(2)])
  obtain i where i: "unat a = 4096 * i" using assms(1) by (rule alignedE)
  have "PGROUNDDOWN w = a + of_nat (4096 * k) \<longleftrightarrow> unat (PGROUNDDOWN w) = unat a + 4096 * k"
    using u by (metis unsigned_word_eqI)
  also have "\<dots> \<longleftrightarrow> unat w - unat w mod 4096 = 4096 * (i + k)" by (simp add: unat_PGROUNDDOWN i algebra_simps)
  also have "\<dots> \<longleftrightarrow> unat w div 4096 = i + k" by (auto simp: minus_mod_eq_mult_div)
  also have "\<dots> \<longleftrightarrow> 4096 * (i + k) \<le> unat w \<and> unat w < 4096 * (i + Suc k)"
    using div_nat_eqI [of 4096 "i + k" "unat w"] by (auto simp: algebra_simps)
  finally show ?thesis using i by (simp add: algebra_simps)
qed

lemma map_range_Suc:
  assumes "aligned a" "unat a + 4096 * k < 2 ^ 64"
  shows "map_range e a pa perm (Suc k) w =
    (if PGROUNDDOWN w = a + of_nat (4096 * k) then PA2PTE (pa + of_nat (4096 * k)) OR perm OR PTE_V
     else map_range e a pa perm k w)"
  using page_index [OF assms, of w] by (auto simp: map_range_def)

section \<open>mappages\<close>

lemma mappages_body:
  assumes lk: "lkst L P t" "KmemLock \<notin> set L" "kend t = ke" and a: "aligned a" "a < MAXVA"
    and ok: "pt_ok ke pt (mem t) (freelist t) A ps" and free: "pte (mem t) pt a AND PTE_V = 0"
    and Q: "\<And>(r :: addr) m' h' us ps' c st l. lkb L P (hart t) c st l \<Longrightarrow> pt_ok ke pt m' h' (A \<union> set us) ps' \<Longrightarrow>
      ps = us @ ps' \<Longrightarrow> outside (A \<union> set us) (mem t) m' \<Longrightarrow>
      (if r = 0 then ps' = [] \<and> (\<forall>w<MAXVA. pte m' pt w = pte (mem t) pt w)
       else \<forall>w<MAXVA. pte m' pt w = (if PGROUNDDOWN w = a then PA2PTE pa OR perm OR PTE_V else pte (mem t) pt w)) \<Longrightarrow>
      Q (if r = 0 then Inr (- 1) else nxt) (t\<lparr>mem := m', freelist := h', cpus := c, sstatus := st, locks := l\<rparr>) es"
  shows "wp (doM (walk pt a True) (\<lambda>pte. if pte = 0 then returnM (Inr (- 1)) else
         doM (load64 pte) (\<lambda>v.
         doM (whenM (v AND PTE_V \<noteq> 0) (panic ''mappages: remap'')) (\<lambda>_.
         doM (store64 pte (PA2PTE pa OR perm OR PTE_V)) (\<lambda>_. returnM nxt))))) t es Q"
  unfolding wp_simps(2)
proof (rule wp_walk [OF lk a(2) ok])
  fix r m' h' us ps' c st l
  assume 1: "lkb L P (hart t) c st l" "pt_ok ke pt m' h' (A \<union> set us) ps'" "ps = us @ ps'"
    "outside (A \<union> set us) (mem t) m'" "\<And>w. pte m' pt w = pte (mem t) pt w"
    "if r = 0 then ps' = [] else lookup m' 2 pt a = Some r"
  let ?t = "t\<lparr>mem := m', freelist := h', cpus := c, sstatus := st, locks := l\<rparr>"
  show "wp (if r = 0 then returnM (Inr (- 1)) else
         doM (load64 r) (\<lambda>v.
         doM (whenM (v AND PTE_V \<noteq> 0) (panic ''mappages: remap'')) (\<lambda>_.
         doM (store64 r (PA2PTE pa OR perm OR PTE_V)) (\<lambda>_. returnM nxt)))) ?t es Q"
  proof (cases "r = 0")
    case True
    then show ?thesis using Q [OF 1(1-4), of r] 1(5,6) by simp
  next
    case False
    then have lu: "lookup m' 2 pt a = Some r" using 1(6) by simp
    then have v: "ld64 m' r AND PTE_V = 0" using free 1(5) [of a] by (simp add: pte_def entry_def)
    let ?m = "st64 m' r (PA2PTE pa OR perm OR PTE_V)"
    have st: "pt_ok ke pt ?m h' (A \<union> set us) ps'" "outside (A \<union> set us) m' ?m"
      "\<forall>w<MAXVA. pte ?m pt w = (if PGROUNDDOWN w = a then PA2PTE pa OR perm OR PTE_V else pte m' pt w)"
      using pt_ok_store [OF 1(2) lu a] by blast+
    have "Q nxt (t\<lparr>mem := ?m, freelist := h', cpus := c, sstatus := st, locks := l\<rparr>) es"
      using Q [OF 1(1) st(1) 1(3) outside_trans [OF 1(4) st(2)], of r] False st(3) 1(5) by simp
    then show ?thesis using False v by simp
  qed
qed

text \<open>
  \<open>mappages\<close> on a range below \<open>MAXVA\<close> with no mapping in it: the first \<open>j\<close> pages get mapped,
  all of them when it returns 0; it returns \<open>-1\<close> only when the free list has run out.
\<close>

lemma wp_mappages:
  fixes s :: "'x kmem_scheme"
  defines "npages va sz \<equiv> (unat (PGROUNDDOWN (va + sz - 1)) - unat (PGROUNDDOWN va)) div 4096 + 1"
  assumes lk: "lkst L P s" "KmemLock \<notin> set L" "kend s = ke"
    and ok: "pt_ok ke pt (mem s) (freelist s) A ps"
    and rng: "sz \<noteq> 0" "unat va + unat sz \<le> 2 ^ 38"
    and unmapped: "\<And>w. unat (PGROUNDDOWN va) \<le> unat w \<Longrightarrow> unat w < unat (PGROUNDDOWN va) + 4096 * npages va sz \<Longrightarrow>
      pte (mem s) pt w AND PTE_V = 0"
    and Q: "\<And>r m' h' us ps' j c st l. lkb L P (hart s) c st l \<Longrightarrow> pt_ok ke pt m' h' (A \<union> set us) ps' \<Longrightarrow>
      ps = us @ ps' \<Longrightarrow> outside (A \<union> set us) (mem s) m' \<Longrightarrow>
      (\<And>w. w < MAXVA \<Longrightarrow> pte m' pt w = map_range (pte (mem s) pt) (PGROUNDDOWN va) pa perm j w) \<Longrightarrow>
      (r = 0 \<and> j = npages va sz \<or> r = - 1 \<and> j < npages va sz \<and> ps' = []) \<Longrightarrow>
      Q r (s\<lparr>mem := m', freelist := h', cpus := c, sstatus := st, locks := l\<rparr>) es"
  shows "wp (mappages pt va sz pa perm) s es Q"
proof -
  define a0 where "a0 = PGROUNDDOWN va"
  define la where "la = PGROUNDDOWN (va + sz - 1)"
  define k where "k = npages va sz"
  have al: "aligned a0" "aligned la" by (simp_all add: a0_def la_def)
  have sz: "unat sz \<noteq> 0" using rng(1) by (simp add: unat_eq_0)
  have "unat (va + sz) = unat va + unat sz" using rng(2) by (intro unat_add_lem [THEN iffD1]) simp
  then have e: "unat (va + sz - 1) = unat va + unat sz - 1"
    using sz by (subst unat_minus_one) (auto simp: unat_eq_0 [symmetric] simp del: unat_eq_0)
  have ula: "unat la = unat a0 + 4096 * (k - 1)" and k: "k \<ge> 1" and lal: "unat la < 2 ^ 38"
  proof -
    obtain i where i: "unat a0 = 4096 * i" using al(1) by (rule alignedE)
    obtain j where j: "unat la = 4096 * j" using al(2) by (rule alignedE)
    have "unat a0 \<le> unat la"
      unfolding a0_def la_def unat_PGROUNDDOWN e minus_mod_eq_div_mult using sz by (simp add: div_le_mono)
    then show "unat la = unat a0 + 4096 * (k - 1)" using i j by (simp add: k_def npages_def a0_def la_def)
    show "k \<ge> 1" by (simp add: k_def npages_def)
    show "unat la < 2 ^ 38" using PGROUNDDOWN_le [of "va + sz - 1"] e sz rng(2) by (simp add: la_def word_le_nat_alt)
  qed
  define I where "I v t fs \<longleftrightarrow> (\<exists>j m h us ps' c st l. v = (a0 + of_nat (4096 * j), pa + of_nat (4096 * j)) \<and> j < k \<and> fs = es \<and>
      lkb L P (hart s) c st l \<and> pt_ok ke pt m h (A \<union> set us) ps' \<and> ps = us @ ps' \<and> outside (A \<union> set us) (mem s) m \<and>
      (\<forall>w<MAXVA. pte m pt w = map_range (pte (mem s) pt) a0 pa perm j w) \<and>
      t = s\<lparr>mem := m, freelist := h, cpus := c, sstatus := st, locks := l\<rparr>)" for v and t :: "'x kmem_scheme" and fs
  let ?body = "\<lambda>(a, pa). doM (walk pt a True) (\<lambda>pte. if pte = 0 then returnM (Inr (- 1)) else
         doM (load64 pte) (\<lambda>v.
         doM (whenM (v AND PTE_V \<noteq> 0) (panic ''mappages: remap'')) (\<lambda>_.
         doM (store64 pte (PA2PTE pa OR perm OR PTE_V)) (\<lambda>_.
         returnM (if a = la then Inr 0 else Inl (a + PGSIZE, pa + PGSIZE))))))"
  have body: "wp (?body v) t fs (\<lambda>r u gs. case r of
      Inl y \<Rightarrow> I y u gs \<and> unat la - unat (fst y) < unat la - unat (fst v) | Inr z \<Rightarrow> Q z u gs)" if I: "I v t fs" for v t fs
  proof -
    obtain j m h us ps' c st l where v: "v = (a0 + of_nat (4096 * j), pa + of_nat (4096 * j))" and j: "j < k" and fs: "fs = es"
      and lkb: "lkb L P (hart s) c st l" and okm: "pt_ok ke pt m h (A \<union> set us) ps'" and ps: "ps = us @ ps'"
      and out: "outside (A \<union> set us) (mem s) m" and e: "\<forall>w<MAXVA. pte m pt w = map_range (pte (mem s) pt) a0 pa perm j w"
      and t: "t = s\<lparr>mem := m, freelist := h, cpus := c, sstatus := st, locks := l\<rparr>"
      using I unfolding I_def by blast
    let ?a = "a0 + of_nat (4096 * j)" let ?p = "pa + of_nat (4096 * j)"
    have lt: "unat a0 + 4096 * j \<le> unat la" using j ula by simp
    have ua: "unat ?a = unat a0 + 4096 * j" using lt lal by (intro unat_add_of_nat) simp
    have a: "aligned ?a" "?a < MAXVA"
      using al(1) ua lt lal by (simp_all add: aligned_unat word_less_nat_alt del: of_nat_mult)
    have free: "pte m pt ?a AND PTE_V = 0"
      using e a(2) unmapped [of ?a] ua j by (simp add: map_range_def a0_def k_def del: of_nat_mult)
    have la: "?a = la \<longleftrightarrow> Suc j = k"
    proof -
      have "?a = la \<longleftrightarrow> unat ?a = unat la" using unsigned_word_eqI by blast
      then show ?thesis using ua ula k by auto
    qed
    show ?thesis
      unfolding v fs prod.case fst_conv
    proof (rule mappages_body [where A = "A \<union> set us" and ps = ps' and ke = ke and L = L and P = P])
      show "lkst L P t" "KmemLock \<notin> set L" "kend t = ke" "aligned ?a" "?a < MAXVA"
        "pt_ok ke pt (mem t) (freelist t) (A \<union> set us) ps'" "pte (mem t) pt ?a AND PTE_V = 0"
        using lkb lk a okm free by (simp_all add: t del: of_nat_mult)
      fix r :: addr and m' h' us' qs c' st' l'
      assume 1: "lkb L P (hart t) c' st' l'" "pt_ok ke pt m' h' (A \<union> set us \<union> set us') qs" "ps' = us' @ qs"
        "outside (A \<union> set us \<union> set us') (mem t) m'"
        "if r = 0 then qs = [] \<and> (\<forall>w<MAXVA. pte m' pt w = pte (mem t) pt w)
         else \<forall>w<MAXVA. pte m' pt w = (if PGROUNDDOWN w = ?a then PA2PTE ?p OR perm OR PTE_V else pte (mem t) pt w)"
      have 2: "lkb L P (hart s) c' st' l'" "pt_ok ke pt m' h' (A \<union> set (us @ us')) qs" "ps = (us @ us') @ qs"
        using 1(1-3) ps by (simp_all add: t Un_assoc)
      have 3: "outside (A \<union> set (us @ us')) (mem s) m'"
      proof (rule outside_trans [of _ _ m])
        show "outside (A \<union> set (us @ us')) (mem s) m" by (rule outside_mono [OF out]) auto
        show "outside (A \<union> set (us @ us')) m m'" using 1(4) by (simp add: t Un_assoc)
      qed
      let ?t = "s\<lparr>mem := m', freelist := h', cpus := c', sstatus := st', locks := l'\<rparr>"
      have teq: "t\<lparr>mem := m', freelist := h', cpus := c', sstatus := st', locks := l'\<rparr> = ?t" by (simp add: t)
      have 4: "pte m' pt w = map_range (pte (mem s) pt) a0 pa perm (Suc j) w" if "r \<noteq> 0" "w < MAXVA" for w
        using 1(5) that e map_range_Suc [OF al(1), of j "pte (mem s) pt" pa perm w] lt lal
        by (simp add: t del: of_nat_mult)
      have "case (if r = 0 then Inr (- 1) else if ?a = la then Inr 0 else Inl (?a + PGSIZE, ?p + PGSIZE)) of
          Inl y \<Rightarrow> I y ?t es \<and> unat la - unat (fst y) < unat la - unat ?a | Inr z \<Rightarrow> Q z ?t es"
      proof (cases "r = 0")
        case True
        then show ?thesis using Q [OF 2 3, of j "- 1"] 1(5) e j by (simp add: t a0_def k_def)
      next
        case False
        show ?thesis
        proof (cases "Suc j = k")
          case True
          then show ?thesis using Q [OF 2 3, of "Suc j" 0] 4 False la by (simp add: a0_def k_def)
        next
          case sj: False
          have nx: "?a + PGSIZE = a0 + of_nat (4096 * Suc j)" "?p + PGSIZE = pa + of_nat (4096 * Suc j)"
            by (simp_all add: PGSIZE_def algebra_simps)
          have le: "unat a0 + 4096 * Suc j \<le> unat la" using j sj ula by simp
          moreover have "unat (?a + PGSIZE) = unat a0 + 4096 * Suc j"
            unfolding nx by (rule unat_add_of_nat) (use lal le in simp)
          moreover have "I (?a + PGSIZE, ?p + PGSIZE) ?t es"
            unfolding I_def nx using j sj 2 3 4 [OF False]
            by (intro exI [of _ "Suc j"] exI [of _ m'] exI [of _ h'] exI [of _ "us @ us'"] exI [of _ qs]
                exI [of _ c'] exI [of _ st'] exI [of _ l']) (simp del: of_nat_mult)
          ultimately show ?thesis using False sj la ua by (simp del: of_nat_mult)
        qed
      qed
      then show "case (if r = 0 then Inr (- 1) else if ?a = la then Inr 0 else Inl (?a + PGSIZE, ?p + PGSIZE)) of
          Inl y \<Rightarrow> I y (t\<lparr>mem := m', freelist := h', cpus := c', sstatus := st', locks := l'\<rparr>) es \<and>
            unat la - unat (fst y) < unat la - unat ?a
        | Inr z \<Rightarrow> Q z (t\<lparr>mem := m', freelist := h', cpus := c', sstatus := st', locks := l'\<rparr>) es"
        unfolding teq .
    qed
  qed
  have "I (a0, pa) s es"
    unfolding I_def using k lk(1) ok
    by (intro exI [of _ 0] exI [of _ "mem s"] exI [of _ "freelist s"] exI [of _ "[]"] exI [of _ ps]
        exI [of _ "cpus s"] exI [of _ "sstatus s"] exI [of _ "locks s"]) simp
  then have "wp (iterM VPAGES ?body (a0, pa)) s es Q"
  proof (rule wp_iterM [where I = I and \<mu> = "\<lambda>v t fs. unat la - unat (fst v)", OF _ _ body])
    show "unat la - unat (fst (a0, pa)) < VPAGES" using lal by (simp add: VPAGES_def)
  qed
  then show ?thesis
    unfolding mappages_def wp_simps Let_def a0_def [symmetric] la_def [symmetric] if_not_P [OF rng(1)] .
qed

end
