(* ===== verification/Vm.thy ===== *)
theory Vm
  imports Pagetable
begin

text \<open>
  The rest of \<^verbatim>\<open>kernel/vm.c\<close>: the kernel's own page table, user address spaces, and the
  copies between kernel and user memory.  Kernel buffers that are not in the memory image
  (local variables, fields of kernel structures) are lists of bytes: \<open>copyout\<close> takes the
  bytes to be copied, \<open>copyin\<close> and \<open>copyinstr\<close> return the bytes they would store.
\<close>

section \<open>State and constants\<close>

record vm = kmem +
  kernel_pagetable :: addr
  satp :: "nat \<Rightarrow> 64 word"
  etext :: addr
  trampoline :: addr

definition UART0 :: addr where "UART0 = 0x10000000"
definition VIRTIO0 :: addr where "VIRTIO0 = 0x10001000"
definition PLIC :: addr where "PLIC = 0x0c000000"
definition TRAMPOLINE :: addr where "TRAMPOLINE = MAXVA - PGSIZE"
definition TRAPFRAME :: addr where "TRAPFRAME = TRAMPOLINE - PGSIZE"

definition KSTACK :: "nat \<Rightarrow> addr" where
  "KSTACK p = TRAMPOLINE - (of_nat p + 1) * 2 * PGSIZE"

definition SATP_SV39 :: "64 word" where "SATP_SV39 = push_bit 60 8"

definition MAKE_SATP :: "addr \<Rightarrow> 64 word" where
  "MAKE_SATP pagetable = SATP_SV39 OR drop_bit 12 pagetable"

text \<open>A null pointer that the kernel dereferences.\<close>

definition nonnull :: "addr \<Rightarrow> ('s, unit) M" where
  "nonnull p = whenM (p = 0) (panic ''kerneltrap'')"

definition zero_page :: "addr \<Rightarrow> ('x kmem_scheme, unit) M" where
  "zero_page p = upd_mem (\<lambda>m. memset m p 0 (unat PGSIZE))"

section \<open>The kernel page table\<close>

definition kvmmap :: "addr \<Rightarrow> addr \<Rightarrow> addr \<Rightarrow> addr \<Rightarrow> 64 word \<Rightarrow> ('x kmem_scheme, unit) M" where
  "kvmmap kpgtbl va pa sz perm =
     doM (mappages kpgtbl va sz pa perm) (\<lambda>r. whenM (r \<noteq> 0) (panic ''kvmmap''))"

definition proc_mapstacks :: "addr \<Rightarrow> ('x kmem_scheme, unit) M" where
  "proc_mapstacks kpgtbl = forM [0..<NPROC] (\<lambda>p.
     doM kalloc (\<lambda>pa.
     doM (whenM (pa = 0) (panic ''kalloc'')) (\<lambda>_.
     kvmmap kpgtbl (KSTACK p) pa PGSIZE (PTE_R OR PTE_W))))"

definition kvmmake :: "('x vm_scheme, addr) M" where
  "kvmmake =
     doM kalloc (\<lambda>kpgtbl.
     doM (nonnull kpgtbl) (\<lambda>_.
     doM (zero_page kpgtbl) (\<lambda>_.
     doM (kvmmap kpgtbl UART0 UART0 PGSIZE (PTE_R OR PTE_W)) (\<lambda>_.
     doM (kvmmap kpgtbl VIRTIO0 VIRTIO0 PGSIZE (PTE_R OR PTE_W)) (\<lambda>_.
     doM (kvmmap kpgtbl PLIC PLIC 0x400000 (PTE_R OR PTE_W)) (\<lambda>_.
     doM (getsM etext) (\<lambda>et.
     doM (kvmmap kpgtbl KERNBASE KERNBASE (et - KERNBASE) (PTE_R OR PTE_X)) (\<lambda>_.
     doM (kvmmap kpgtbl et et (PHYSTOP - et) (PTE_R OR PTE_W)) (\<lambda>_.
     doM (getsM trampoline) (\<lambda>tr.
     doM (kvmmap kpgtbl TRAMPOLINE tr PGSIZE (PTE_R OR PTE_X)) (\<lambda>_.
     doM (proc_mapstacks kpgtbl) (\<lambda>_.
     returnM kpgtbl))))))))))))"

definition kvminit :: "('x vm_scheme, unit) M" where
  "kvminit = doM kvmmake (\<lambda>k. modifyM (\<lambda>s. s\<lparr>kernel_pagetable := k\<rparr>))"

definition kvminithart :: "('x vm_scheme, unit) M" where
  "kvminithart = modifyM (\<lambda>s. s\<lparr>satp := (satp s)(hart s := MAKE_SATP (kernel_pagetable s))\<rparr>)"

section \<open>User address spaces\<close>

definition uvmcreate :: "('x kmem_scheme, addr) M" where
  "uvmcreate = doM kalloc (\<lambda>pagetable.
     if pagetable = 0 then returnM 0 else doM (zero_page pagetable) (\<lambda>_. returnM pagetable))"

definition uvminit :: "addr \<Rightarrow> byte list \<Rightarrow> ('x kmem_scheme, unit) M" where
  "uvminit pagetable src =
     doM (whenM (length src \<ge> unat PGSIZE) (panic ''inituvm: more than a page'')) (\<lambda>_.
     doM kalloc (\<lambda>mm.
     doM (nonnull mm) (\<lambda>_.
     doM (zero_page mm) (\<lambda>_.
     doM (mappages pagetable 0 PGSIZE mm (PTE_W OR PTE_R OR PTE_X OR PTE_U)) (\<lambda>_.
     upd_mem (\<lambda>m. put m mm src))))))"

definition uvmdealloc :: "addr \<Rightarrow> addr \<Rightarrow> addr \<Rightarrow> ('x kmem_scheme, addr) M" where
  "uvmdealloc pagetable oldsz newsz =
     (if newsz \<ge> oldsz then returnM oldsz
      else doM (whenM (PGROUNDUP newsz < PGROUNDUP oldsz)
        (let npages = ucast ((PGROUNDUP oldsz - PGROUNDUP newsz) div PGSIZE) :: 32 word in
         uvmunmap pagetable (PGROUNDUP newsz) (scast npages) True)) (\<lambda>_.
      returnM newsz))"

definition uvmalloc :: "addr \<Rightarrow> addr \<Rightarrow> addr \<Rightarrow> ('x kmem_scheme, addr) M" where
  "uvmalloc pagetable oldsz newsz =
     (if newsz < oldsz then returnM oldsz
      else let base = PGROUNDUP oldsz in
        iterM VPAGES (\<lambda>a.
          if a < newsz then
            doM kalloc (\<lambda>mm.
            if mm = 0 then doM (uvmdealloc pagetable a base) (\<lambda>_. returnM (Inr 0))
            else
              doM (zero_page mm) (\<lambda>_.
              doM (mappages pagetable a PGSIZE mm (PTE_W OR PTE_X OR PTE_R OR PTE_U)) (\<lambda>r.
              if r \<noteq> 0 then
                doM (kfree mm) (\<lambda>_.
                doM (uvmdealloc pagetable a base) (\<lambda>_.
                returnM (Inr 0)))
              else returnM (Inl (a + PGSIZE)))))
          else returnM (Inr newsz)) base)"

text \<open>
  \<open>freewalk\<close> recurses into the tables a table points to; the first argument bounds the
  depth, which is three for an Sv39 table.
\<close>

fun freewalk :: "nat \<Rightarrow> addr \<Rightarrow> ('x kmem_scheme, unit) M" where
  "freewalk 0 pagetable = (\<lambda>s es. Stuck s)"
| "freewalk (Suc n) pagetable =
     doM (forM [0..<512] (\<lambda>i.
       doM (load64 (pte_at pagetable (of_nat i))) (\<lambda>pte.
       if pte AND PTE_V \<noteq> 0 \<and> pte AND (PTE_R OR PTE_W OR PTE_X) = 0 then
         doM (freewalk n (PTE2PA pte)) (\<lambda>_. store64 (pte_at pagetable (of_nat i)) 0)
       else whenM (pte AND PTE_V \<noteq> 0) (panic ''freewalk: leaf'')))) (\<lambda>_.
     kfree pagetable)"

definition uvmfree :: "addr \<Rightarrow> addr \<Rightarrow> ('x kmem_scheme, unit) M" where
  "uvmfree pagetable sz =
     doM (whenM (sz > 0) (uvmunmap pagetable 0 (PGROUNDUP sz div PGSIZE) True)) (\<lambda>_.
     freewalk 3 pagetable)"

definition uvmcopy :: "addr \<Rightarrow> addr \<Rightarrow> addr \<Rightarrow> ('x kmem_scheme, int) M" where
  "uvmcopy old new sz =
     iterM VPAGES (\<lambda>i.
       if i < sz then
         doM (walk old i False) (\<lambda>pte.
         doM (whenM (pte = 0) (panic ''uvmcopy: pte should exist'')) (\<lambda>_.
         doM (load64 pte) (\<lambda>v.
         doM (whenM (v AND PTE_V = 0) (panic ''uvmcopy: page not present'')) (\<lambda>_.
         doM kalloc (\<lambda>mm.
         if mm = 0 then doM (uvmunmap new 0 (i div PGSIZE) True) (\<lambda>_. returnM (Inr (- 1)))
         else
           doM (upd_mem (\<lambda>m. memmove m mm (PTE2PA v) (unat PGSIZE))) (\<lambda>_.
           doM (mappages new i PGSIZE mm (PTE_FLAGS v)) (\<lambda>r.
           if r \<noteq> 0 then
             doM (kfree mm) (\<lambda>_.
             doM (uvmunmap new 0 (i div PGSIZE) True) (\<lambda>_.
             returnM (Inr (- 1))))
           else returnM (Inl (i + PGSIZE)))))))))
       else returnM (Inr 0)) 0"

definition uvmclear :: "addr \<Rightarrow> addr \<Rightarrow> ('x kmem_scheme, unit) M" where
  "uvmclear pagetable va =
     doM (walk pagetable va False) (\<lambda>pte.
     doM (whenM (pte = 0) (panic ''uvmclear'')) (\<lambda>_.
     doM (load64 pte) (\<lambda>v. store64 pte (v AND NOT PTE_U))))"

section \<open>Copies between kernel and user memory\<close>

text \<open>
  Every round of \<open>copyout\<close> and \<open>copyin\<close> moves at least one byte, so \<open>len + 1\<close> rounds are
  enough; likewise \<open>max + 1\<close> for \<open>copyinstr\<close>.
\<close>

definition copyout :: "addr \<Rightarrow> addr \<Rightarrow> byte list \<Rightarrow> ('x kmem_scheme, int) M" where
  "copyout pagetable dstva src =
     iterM (Suc (length src)) (\<lambda>(dstva, src).
       if length src > 0 then
         let va0 = PGROUNDDOWN dstva in
         doM (walkaddr pagetable va0) (\<lambda>pa0.
         if pa0 = 0 then returnM (Inr (- 1))
         else
           let n = min (unat (PGSIZE - (dstva - va0))) (length src) in
           doM (upd_mem (\<lambda>m. put m (pa0 + (dstva - va0)) (take n src))) (\<lambda>_.
           returnM (Inl (va0 + PGSIZE, drop n src))))
       else returnM (Inr 0)) (dstva, src)"

definition copyin :: "addr \<Rightarrow> addr \<Rightarrow> nat \<Rightarrow> ('x kmem_scheme, byte list option) M" where
  "copyin pagetable srcva len =
     iterM (Suc len) (\<lambda>(srcva, len, dst).
       if len > 0 then
         let va0 = PGROUNDDOWN srcva in
         doM (walkaddr pagetable va0) (\<lambda>pa0.
         if pa0 = 0 then returnM (Inr None)
         else
           let n = min (unat (PGSIZE - (srcva - va0))) len in
           doM (getsM (\<lambda>s. bytes (mem s) (pa0 + (srcva - va0)) n)) (\<lambda>bs.
           returnM (Inl (va0 + PGSIZE, len - n, dst @ bs))))
       else returnM (Inr (Some dst))) (srcva, len, [])"

text \<open>
  The inner loop of \<open>copyinstr\<close> over at most \<open>n\<close> bytes at \<open>p\<close>: the bytes stored (the
  terminating zero included) and whether the zero was found.
\<close>

fun copy_until_nul :: "memory \<Rightarrow> addr \<Rightarrow> nat \<Rightarrow> byte list \<times> bool" where
  "copy_until_nul m p 0 = ([], False)"
| "copy_until_nul m p (Suc n) =
     (if m p = 0 then ([0], True)
      else let (bs, got) = copy_until_nul m (p + 1) n in (m p # bs, got))"

definition copyinstr :: "addr \<Rightarrow> addr \<Rightarrow> nat \<Rightarrow> ('x kmem_scheme, byte list option) M" where
  "copyinstr pagetable srcva mx =
     iterM (Suc (Suc mx)) (\<lambda>(srcva, mx, dst, got_null).
       if \<not> got_null \<and> mx > 0 then
         let va0 = PGROUNDDOWN srcva in
         doM (walkaddr pagetable va0) (\<lambda>pa0.
         if pa0 = 0 then returnM (Inr None)
         else
           let n = min (unat (PGSIZE - (srcva - va0))) mx in
           doM (getsM (\<lambda>s. copy_until_nul (mem s) (pa0 + (srcva - va0)) n)) (\<lambda>(bs, got).
           returnM (Inl (va0 + PGSIZE, mx - n, dst @ bs, got))))
       else returnM (Inr (if got_null then Some dst else None))) (srcva, mx, [], False)"

section \<open>User memory\<close>

text \<open>
  \<open>ubyte m pt va\<close>: the byte a user program with page table \<open>pt\<close> sees at \<open>va\<close>, if \<open>va\<close> is
  mapped for user access.  \<open>user_ok\<close>: user frames are not page-table pages and no frame is
  mapped twice.
\<close>

definition ubyte :: "memory \<Rightarrow> addr \<Rightarrow> addr \<Rightarrow> byte option" where
  "ubyte m pt va = (let pa0 = uaddr m pt (PGROUNDDOWN va) in
     if pa0 = 0 then None else Some (m (pa0 + (va - PGROUNDDOWN va))))"

definition user_ok :: "addr \<Rightarrow> memory \<Rightarrow> addr \<Rightarrow> addr set \<Rightarrow> bool" where
  "user_ok ke m pt A \<longleftrightarrow> ptab m ke 2 pt A \<and> (\<forall>v. uaddr m pt v \<noteq> 0 \<longrightarrow> uaddr m pt v \<notin> A) \<and>
     (\<forall>v w. aligned v \<longrightarrow> aligned w \<longrightarrow> uaddr m pt v \<noteq> 0 \<longrightarrow> uaddr m pt v = uaddr m pt w \<longrightarrow> v = w)"

lemma uaddr_aligned [simp]: "aligned (uaddr m pt v)"
  by (simp add: uaddr_def) (simp add: aligned_def)

lemma page_offset: "unat (w - PGROUNDDOWN w) < 4096"
  using in_page_PGROUNDDOWN [of "PGROUNDDOWN w" w] by (simp add: in_page_def)

lemma uaddr_frame:
  assumes "user_ok ke m pt A" "uaddr m pt v0 \<noteq> 0" "outside {uaddr m pt v0} m m'"
  shows "user_ok ke m' pt A \<and> uaddr m' pt v = uaddr m pt v"
proof -
  have pt: "ptab m ke 2 pt A" and n: "uaddr m pt v0 \<notin> A" using assms(1,2) by (auto simp: user_ok_def)
  have "same_on A m m'"
    by (rule outside_same_on [OF assms(3)]) (use n ptab_valid [OF pt] in \<open>auto intro: valid_page_aligned\<close>)
  then have pt': "ptab m' ke 2 pt A" and p: "pte m' pt w = pte m pt w" for w
    using ptab_frame [OF pt] by (auto simp: pte_def)
  then have u: "uaddr m' pt w = uaddr m pt w" for w by (simp add: uaddr_def)
  show ?thesis using assms(1) pt' u by (simp add: user_ok_def)
qed

lemma chunk_in_page:
  assumes "unat (w - d) < n" "n + unat (d - PGROUNDDOWN d) \<le> 4096"
  shows "PGROUNDDOWN w = PGROUNDDOWN d"
proof -
  have "w - PGROUNDDOWN d = (w - d) + (d - PGROUNDDOWN d)" by simp
  moreover have "unat ((w - d) + (d - PGROUNDDOWN d)) = unat (w - d) + unat (d - PGROUNDDOWN d)"
    by (rule unat_add_lem [THEN iffD1]) (use assms in simp)
  ultimately have "in_page (PGROUNDDOWN d) w" using assms by (simp add: in_page_def)
  then show ?thesis by (simp add: in_page_PGROUNDDOWN)
qed

lemma put_chunk:
  assumes ok: "user_ok ke m pt A" and pa: "uaddr m pt (PGROUNDDOWN d) \<noteq> 0"
    and n: "length bs + unat (d - PGROUNDDOWN d) \<le> 4096"
  defines "m' \<equiv> put m (uaddr m pt (PGROUNDDOWN d) + (d - PGROUNDDOWN d)) bs"
  shows "user_ok ke m' pt A \<and> uaddr m' pt v = uaddr m pt v \<and>
    ubyte m' pt w = (if unat (w - d) < length bs then Some (bs ! unat (w - d)) else ubyte m pt w)"
proof -
  let ?pa = "uaddr m pt (PGROUNDDOWN d)" let ?o = "d - PGROUNDDOWN d"
  have out: "outside {?pa} m m'"
    unfolding outside_def
  proof (intro allI impI)
    fix x assume "\<forall>p\<in>{?pa}. \<not> in_page p x"
    then have "\<not> unat (x - ?pa) < 4096" by (simp add: in_page_def)
    moreover have "unat (x - ?pa) = unat (x - (?pa + ?o)) + unat ?o" if "unat (x - (?pa + ?o)) < length bs"
    proof -
      have "unat (x - (?pa + ?o) + ?o) = unat (x - (?pa + ?o)) + unat ?o"
        by (rule unat_add_lem [THEN iffD1]) (use that n in simp)
      moreover have "x - (?pa + ?o) + ?o = x - ?pa" by (simp only: diff_diff_eq [symmetric] diff_add_cancel)
      ultimately show ?thesis by (simp only:)
    qed
    ultimately show "m' x = m x" using n by (auto simp: m'_def put_def)
  qed
  note fr = uaddr_frame [OF ok pa out]
  have "ubyte m' pt w = (if unat (w - d) < length bs then Some (bs ! unat (w - d)) else ubyte m pt w)"
  proof (cases "PGROUNDDOWN w = PGROUNDDOWN d")
    case True
    have "?pa + (w - PGROUNDDOWN d) - (?pa + ?o) = w - d" by (simp add: algebra_simps)
    then show ?thesis using True pa fr by (simp add: ubyte_def m'_def put_def)
  next
    case False
    then have nl: "\<not> unat (w - d) < length bs" using chunk_in_page [OF _ n] by blast
    show ?thesis
    proof (cases "uaddr m pt (PGROUNDDOWN w) = 0")
      case False
      then have ne: "uaddr m pt (PGROUNDDOWN w) \<noteq> ?pa"
        using ok \<open>PGROUNDDOWN w \<noteq> PGROUNDDOWN d\<close> unfolding user_ok_def by (metis aligned_PGROUNDDOWN)
      have "in_page (uaddr m pt (PGROUNDDOWN w)) (uaddr m pt (PGROUNDDOWN w) + (w - PGROUNDDOWN w))"
        using page_offset [of w] by (simp add: in_page_def)
      then have "\<not> in_page ?pa (uaddr m pt (PGROUNDDOWN w) + (w - PGROUNDDOWN w))"
        using pages_disjoint [OF uaddr_aligned uaddr_aligned ne] by blast
      then have "m' (uaddr m pt (PGROUNDDOWN w) + (w - PGROUNDDOWN w)) = m (uaddr m pt (PGROUNDDOWN w) + (w - PGROUNDDOWN w))"
        using out by (simp add: outside_def)
      then show ?thesis using nl fr by (simp add: ubyte_def Let_def)
    qed (use nl fr in \<open>simp add: ubyte_def Let_def\<close>)
  qed
  then show ?thesis using fr by blast
qed

lemma unat_sub_shift:
  fixes w d :: addr
  assumes "k + n \<le> 2 ^ 63"
  shows "unat (w - (d + of_nat k)) < n \<longleftrightarrow> k \<le> unat (w - d) \<and> unat (w - d) < k + n"
    "k \<le> unat (w - d) \<Longrightarrow> unat (w - (d + of_nat k)) = unat (w - d) - k"
proof -
  have e: "w - (d + of_nat k) = (w - d) - of_nat k" by (simp add: algebra_simps)
  have u: "unat (of_nat k :: addr) = k" using assms by simp
  show "k \<le> unat (w - d) \<Longrightarrow> unat (w - (d + of_nat k)) = unat (w - d) - k"
    unfolding e by (simp add: unat_sub_if' u)
  show "unat (w - (d + of_nat k)) < n \<longleftrightarrow> k \<le> unat (w - d) \<and> unat (w - d) < k + n"
    unfolding e using assms by (auto simp: unat_sub_if' u)
qed

lemma chunk_size: "unat (PGSIZE - (d - PGROUNDDOWN d)) = 4096 - unat (d - PGROUNDDOWN d)"
  using page_offset [of d] by (simp add: unat_sub word_le_nat_alt)

lemma next_page:
  "d + of_nat (4096 - unat (d - PGROUNDDOWN d)) = PGROUNDDOWN d + PGSIZE"
proof -
  have "of_nat (4096 - unat (d - PGROUNDDOWN d)) = PGSIZE - (d - PGROUNDDOWN d)"
    unfolding chunk_size [symmetric] by simp
  then show ?thesis by simp
qed

text \<open>The physical address of a user address, and where a copy into a page stores.\<close>

definition upa :: "memory \<Rightarrow> addr \<Rightarrow> addr \<Rightarrow> addr" where
  "upa m pt v = uaddr m pt (PGROUNDDOWN v) + (v - PGROUNDDOWN v)"

lemma put_chunk_outside:
  assumes n: "length bs + unat (d - PGROUNDDOWN d) \<le> 4096" and a: "\<forall>i<length bs. a \<noteq> upa m pt (d + of_nat i)"
  shows "put m' (uaddr m pt (PGROUNDDOWN d) + (d - PGROUNDDOWN d)) bs a = m' a"
proof (cases "unat (a - (uaddr m pt (PGROUNDDOWN d) + (d - PGROUNDDOWN d))) < length bs")
  case True
  define i where "i = unat (a - (uaddr m pt (PGROUNDDOWN d) + (d - PGROUNDDOWN d)))"
  have i2: "a = uaddr m pt (PGROUNDDOWN d) + (d - PGROUNDDOWN d) + of_nat i" by (rule unat_sub_eqD [OF i_def [symmetric]])
  have i: "i < length bs" using True unfolding i_def [symmetric] .
  have "unat (of_nat i :: addr) = i" using i n by simp
  then have "PGROUNDDOWN (d + of_nat i) = PGROUNDDOWN d" using chunk_in_page [of "d + of_nat i" d "length bs"] i n by simp
  then have "a = upa m pt (d + of_nat i)" by (subst i2) (simp add: upa_def algebra_simps)
  then show ?thesis using a i by blast
qed (simp add: put_def)

lemma wp_copyout:
  fixes s :: "'x kmem_scheme"
  assumes ok: "user_ok ke (mem s) pt A" and len: "length src \<le> 2 ^ 62"
    and mapped: "\<And>i. i < length src \<Longrightarrow> ubyte (mem s) pt (d + of_nat i) \<noteq> None"
    and Q: "\<And>m'. user_ok ke m' pt A \<Longrightarrow> (\<And>v. uaddr m' pt v = uaddr (mem s) pt v) \<Longrightarrow>
      (\<And>w. ubyte m' pt w = (if unat (w - d) < length src then Some (src ! unat (w - d)) else ubyte (mem s) pt w)) \<Longrightarrow>
      (\<And>a. \<forall>i<length src. a \<noteq> upa (mem s) pt (d + of_nat i) \<Longrightarrow> m' a = mem s a) \<Longrightarrow>
      Q 0 (s\<lparr>mem := m'\<rparr>) es"
  shows "wp (copyout pt d src) s es Q"
proof -
  define I where "I v t fs \<longleftrightarrow> fs = es \<and> (\<exists>k m'. snd v = drop k src \<and> k \<le> length src \<and>
      (k < length src \<longrightarrow> fst v = d + of_nat k) \<and> t = s\<lparr>mem := m'\<rparr> \<and> user_ok ke m' pt A \<and>
      (\<forall>v. uaddr m' pt v = uaddr (mem s) pt v) \<and>
      (\<forall>w. ubyte m' pt w = (if unat (w - d) < k then Some (src ! unat (w - d)) else ubyte (mem s) pt w)) \<and>
      (\<forall>a. (\<forall>i<k. a \<noteq> upa (mem s) pt (d + of_nat i)) \<longrightarrow> m' a = mem s a))"
    for v :: "addr \<times> byte list" and t :: "'x kmem_scheme" and fs
  define R where "R v r t fs \<longleftrightarrow> (case r of Inl y \<Rightarrow> I y t fs \<and> length (snd y) < length (snd v) | Inr z \<Rightarrow> Q z t fs)"
    for v :: "addr \<times> byte list" and r :: "(addr \<times> byte list) + int" and t fs
  let ?body = "\<lambda>(dstva, src). if length src > 0 then let va0 = PGROUNDDOWN dstva in
         doM (walkaddr pt va0) (\<lambda>pa0. if pa0 = 0 then returnM (Inr (- 1))
         else let n = min (unat (PGSIZE - (dstva - va0))) (length src) in
           doM (upd_mem (\<lambda>m. put m (pa0 + (dstva - va0)) (take n src))) (\<lambda>_.
           returnM (Inl (va0 + PGSIZE, drop n src)))) else returnM (Inr 0)"
  have "wp (?body v) t fs (R v)" if I: "I v t fs" for v t fs
  proof -
    obtain k m' where v: "snd v = drop k src" "k \<le> length src" "k < length src \<longrightarrow> fst v = d + of_nat k"
      and t: "t = s\<lparr>mem := m'\<rparr>" and okm: "user_ok ke m' pt A" and u: "\<forall>v. uaddr m' pt v = uaddr (mem s) pt v"
      and b: "\<forall>w. ubyte m' pt w = (if unat (w - d) < k then Some (src ! unat (w - d)) else ubyte (mem s) pt w)"
      and ph: "\<forall>a. (\<forall>i<k. a \<noteq> upa (mem s) pt (d + of_nat i)) \<longrightarrow> m' a = mem s a"
      and fs: "fs = es" using I unfolding I_def by blast
    show ?thesis
    proof (cases "k < length src")
      case False
      then have "Q 0 t fs" using Q [OF okm] u b ph v(2) fs t by simp
      then show ?thesis using False v(1) by (cases v) (simp add: R_def)
    next
      case True
      define e where "e = d + of_nat k"
      define n where "n = min (4096 - unat (e - PGROUNDDOWN e)) (length src - k)"
      define mm where "mm = put m' (uaddr m' pt (PGROUNDDOWN e) + (e - PGROUNDDOWN e)) (take n (drop k src))"
      have n: "length (take n (drop k src)) = n" "n + unat (e - PGROUNDDOWN e) \<le> 4096" "0 < n" "k + n \<le> length src"
        using page_offset [of e] True by (auto simp: n_def)
      have pa: "uaddr m' pt (PGROUNDDOWN e) \<noteq> 0"
        using mapped [OF True] u by (auto simp: ubyte_def Let_def e_def split: if_splits)
      have ch: "user_ok ke mm pt A" "uaddr mm pt v = uaddr m' pt v"
        "ubyte mm pt w = (if unat (w - e) < n then Some (take n (drop k src) ! unat (w - e)) else ubyte m' pt w)" for v w
        using put_chunk [OF okm pa, of "take n (drop k src)" v w] n(2) unfolding n(1) mm_def [symmetric] by blast+
      have ub: "ubyte mm pt w = (if unat (w - d) < k + n then Some (src ! unat (w - d)) else ubyte (mem s) pt w)" for w
        using ch(3) [of w] b n unat_sub_shift [of k n w d] len by (auto simp: e_def)
      have ph': "mm a = mem s a" if "\<forall>i<k + n. a \<noteq> upa (mem s) pt (d + of_nat i)" for a
      proof -
        have "\<forall>i<n. a \<noteq> upa m' pt (e + of_nat i)"
          using that u by (auto simp: upa_def e_def add.assoc simp flip: of_nat_add)
        then have "mm a = m' a" using put_chunk_outside [of "take n (drop k src)" e a m' pt m'] n(1,2) by (simp add: mm_def)
        then show ?thesis using ph that by simp
      qed
      have nx: "k + n < length src \<Longrightarrow> PGROUNDDOWN e + PGSIZE = d + of_nat (k + n)"
        using next_page [of e] by (simp add: n_def e_def min_def algebra_simps split: if_splits)
      have "I (PGROUNDDOWN e + PGSIZE, drop n (drop k src)) (t\<lparr>mem := mm\<rparr>) fs"
        unfolding I_def using n(4) nx ch(1,2) u ub ph' fs
        by (intro conjI exI [of _ "k + n"] exI [of _ mm]) (simp_all add: add.commute t)
      then have R: "R v (Inl (PGROUNDDOWN e + PGSIZE, drop n (drop k src))) (t\<lparr>mem := mm\<rparr>) fs"
        using n(3) n(4) v(1) by (simp add: R_def)
      have pt: "ptab (mem t) ke 2 pt A" using okm t by (simp add: user_ok_def)
      have v': "v = (e, drop k src)" using v True by (cases v) (simp add: e_def)
      have n': "min (unat (PGSIZE - (e - PGROUNDDOWN e))) (length src - k) = n" by (simp add: n_def chunk_size)
      show ?thesis
        unfolding v' using True
        apply (simp add: Let_def n')
        apply (rule wp_walkaddr [OF pt])
        using R [unfolded v'] pa by (simp add: mm_def t add.commute)
    qed
  qed
  moreover have "I (d, src) s es"
    unfolding I_def using ok by (intro conjI refl exI [of _ 0] exI [of _ "mem s"]) simp_all
  ultimately show ?thesis
    unfolding copyout_def
    by (intro wp_iterM [where \<mu> = "\<lambda>v t fs. length (snd v)" and I = I]) (simp_all add: R_def [abs_def])
qed

text \<open>The \<open>n\<close> user bytes from \<open>a\<close> on, if all of them are mapped.\<close>

definition ubytes :: "memory \<Rightarrow> addr \<Rightarrow> addr \<Rightarrow> nat \<Rightarrow> byte list option" where
  "ubytes m pt a n = (if \<forall>i<n. ubyte m pt (a + of_nat i) \<noteq> None
     then Some (map (\<lambda>i. the (ubyte m pt (a + of_nat i))) [0..<n]) else None)"

lemma ubytes_add:
  "ubytes m pt a (i + j) = (case ubytes m pt a i of None \<Rightarrow> None
     | Some xs \<Rightarrow> map_option (\<lambda>ys. xs @ ys) (ubytes m pt (a + of_nat i) j))"
proof -
  have "(\<forall>k<i + j. ubyte m pt (a + of_nat k) \<noteq> None) \<longleftrightarrow>
      (\<forall>k<i. ubyte m pt (a + of_nat k) \<noteq> None) \<and> (\<forall>k<j. ubyte m pt (a + of_nat i + of_nat k) \<noteq> None)"
    (is "?l \<longleftrightarrow> ?r")
  proof
    assume r: ?r
    show ?l
    proof (intro allI impI)
      fix k assume "k < i + j"
      then show "ubyte m pt (a + of_nat k) \<noteq> None"
        using r [THEN conjunct2, rule_format, of "k - i"] r by (cases "k < i") (simp_all add: of_nat_diff)
    qed
  qed (auto simp: add.assoc simp flip: of_nat_add)
  moreover have "map f [0..<i + j] = map f [0..<i] @ map (\<lambda>k. f (i + k)) [0..<j]" for f :: "nat \<Rightarrow> byte"
    by (induction j) auto
  ultimately show ?thesis by (auto simp: ubytes_def add.assoc)
qed

lemma ubytes_0 [simp]: "ubytes m pt a 0 = Some []"
  by (simp add: ubytes_def)

lemma ubytes_None: "ubyte m pt (a + of_nat k) = None \<Longrightarrow> k < n \<Longrightarrow> ubytes m pt a n = None"
  by (auto simp: ubytes_def)

lemma ubytes_chunk:
  assumes "uaddr m pt (PGROUNDDOWN e) \<noteq> 0" "n + unat (e - PGROUNDDOWN e) \<le> 4096"
  shows "ubytes m pt e n = Some (bytes m (uaddr m pt (PGROUNDDOWN e) + (e - PGROUNDDOWN e)) n)"
proof -
  have "ubyte m pt (e + of_nat i) = Some (m (uaddr m pt (PGROUNDDOWN e) + (e - PGROUNDDOWN e) + of_nat i))" if "i < n" for i
  proof -
    have "unat (of_nat i :: addr) = i" using that assms(2) by simp
    then have "PGROUNDDOWN (e + of_nat i) = PGROUNDDOWN e"
      using chunk_in_page [of "e + of_nat i" e n] that assms(2) by simp
    then show ?thesis using assms(1) by (simp add: ubyte_def algebra_simps)
  qed
  then show ?thesis by (auto simp: ubytes_def bytes_def)
qed

lemma wp_copyin:
  fixes s :: "'x kmem_scheme"
  assumes pt: "ptab (mem s) ke 2 pt A" and Q: "Q (ubytes (mem s) pt a len) s es"
  shows "wp (copyin pt a len) s es Q"
proof -
  define I where "I v t fs \<longleftrightarrow> fs = es \<and> t = s \<and> (\<exists>k\<le>len. fst (snd v) = len - k \<and> (k < len \<longrightarrow> fst v = a + of_nat k) \<and>
      ubytes (mem s) pt a k = Some (snd (snd v)))" for v :: "addr \<times> nat \<times> byte list" and t :: "'x kmem_scheme" and fs
  define R where "R v r t fs \<longleftrightarrow> (case r of Inl y \<Rightarrow> I y t fs \<and> fst (snd y) < fst (snd v) | Inr z \<Rightarrow> Q z t fs)"
    for v :: "addr \<times> nat \<times> byte list" and r and t fs
  let ?body = "\<lambda>(srcva, len, dst). if len > 0 then let va0 = PGROUNDDOWN srcva in
         doM (walkaddr pt va0) (\<lambda>pa0. if pa0 = 0 then returnM (Inr None)
         else let n = min (unat (PGSIZE - (srcva - va0))) len in
           doM (getsM (\<lambda>s. bytes (mem s) (pa0 + (srcva - va0)) n)) (\<lambda>bs.
           returnM (Inl (va0 + PGSIZE, len - n, dst @ bs)))) else returnM (Inr (Some dst))"
  have "wp (?body v) t fs (R v)" if I: "I v t fs" for v t fs
  proof -
    obtain k dst where k: "k \<le> len" "fst (snd v) = len - k" "k < len \<longrightarrow> fst v = a + of_nat k"
      "ubytes (mem s) pt a k = Some dst" "snd (snd v) = dst" and ts: "fs = es" "t = s" using I unfolding I_def by auto
    show ?thesis
    proof (cases "k < len")
      case False
      then show ?thesis using k Q ts by (cases v) (simp add: R_def)
    next
      case True
      define e where "e = a + of_nat k"
      define n where "n = min (4096 - unat (e - PGROUNDDOWN e)) (len - k)"
      have n: "n + unat (e - PGROUNDDOWN e) \<le> 4096" "0 < n" "k + n \<le> len"
        using page_offset [of e] True by (auto simp: n_def)
      have v: "v = (e, len - k, dst)" using k True by (cases v) (simp add: e_def)
      have n': "min (unat (PGSIZE - (e - PGROUNDDOWN e))) (len - k) = n" by (simp add: n_def chunk_size)
      have nx: "k + n < len \<Longrightarrow> PGROUNDDOWN e + PGSIZE = a + of_nat (k + n)"
        using next_page [of e] by (simp add: n_def e_def min_def algebra_simps split: if_splits)
      let ?pa = "uaddr (mem s) pt (PGROUNDDOWN e)"
      have R1: "R v (Inr None) s es" if "?pa = 0"
        using Q ubytes_None [of "mem s" pt a k len] True that by (simp add: R_def e_def ubyte_def)
      have R2: "R v (Inl (PGROUNDDOWN e + PGSIZE, len - k - n, dst @ bytes (mem s) (?pa + (e - PGROUNDDOWN e)) n)) s es"
        if "?pa \<noteq> 0"
        using ubytes_add [of "mem s" pt a k n] ubytes_chunk [OF that n(1)] k(4) n nx v
        by (simp add: R_def I_def e_def) (intro conjI exI [of _ "k + n"], simp_all)
      show ?thesis
        unfolding v using True
        apply (simp add: Let_def n')
        apply (rule wp_walkaddr, use pt ts in simp)
        using R1 R2 by (simp add: ts v)
    qed
  qed
  moreover have "I (a, len, []) s es" by (simp add: I_def) (intro exI [of _ 0], simp)
  ultimately show ?thesis
    unfolding copyin_def
    by (intro wp_iterM [where \<mu> = "\<lambda>v t fs. fst (snd v)" and I = I]) (simp_all add: R_def [abs_def])
qed

section \<open>A concrete address space\<close>

text \<open>
  Root table at \<open>0x87fff000\<close>, with a free list of two pages; then the same with both pages
  linked in as the tables of address 0 and the frame \<open>0x87ffc000\<close> mapped there.
\<close>

definition demo_m0 :: memory where
  "demo_m0 = st64 (\<lambda>_. 0) 0x87ffe000 0x87ffd000"

definition demo_m3 :: memory where
  "demo_m3 = st64 (link_page (link_page demo_m0 0x87ffe000 (pte_at 0x87fff000 0)) 0x87ffd000 (pte_at 0x87ffe000 0))
     (pte_at 0x87ffd000 0) (PA2PTE 0x87ffc000 OR (PTE_V OR PTE_U))"

lemma demo_valid [simp]:
  "valid_page 0x87ff0000 0x87fff000" "valid_page 0x87ff0000 0x87ffe000" "valid_page 0x87ff0000 0x87ffd000"
  "valid_page 0x87ff0000 0x87ffc000"
  by (simp_all add: valid_page_def aligned_def page_consts)

lemma demo_m0_outside: "\<not> in_page 0x87ffe000 x \<Longrightarrow> demo_m0 x = 0"
  using st64_outside_page [of "0x87ffe000" x 0] by (simp add: demo_m0_def)

lemma demo_disjoint: "in_page p x \<Longrightarrow> valid_page ke p \<Longrightarrow> valid_page ke q \<Longrightarrow> p \<noteq> q \<Longrightarrow> \<not> in_page q x"
  using pages_disjoint [of p q x] by (auto simp: valid_page_def)

lemma demo_pt_ok: "pt_ok 0x87ff0000 0x87fff000 demo_m0 0x87ffe000 {0x87fff000} [0x87ffe000, 0x87ffd000]"
proof -
  have "demo_m0 x = 0" if "in_page 0x87fff000 x" for x
    using demo_disjoint [OF that, of "0x87ff0000" "0x87ffe000"] by (simp add: demo_m0_outside)
  then have "ptab demo_m0 0x87ff0000 2 0x87fff000 {0x87fff000}" using ptab_zero [of "0x87fff000" demo_m0] by simp
  moreover have "ld64 demo_m0 (0x87ffd000 + 0) = ld64 (\<lambda>_. 0) (0x87ffd000 + 0)"
  proof (rule ld64_page_cong)
    fix x assume "in_page 0x87ffd000 x"
    then show "demo_m0 x = 0" using demo_disjoint [of "0x87ffd000" x "0x87ff0000" "0x87ffe000"] by (simp add: demo_m0_outside)
  qed simp
  then have "ld64 demo_m0 0x87ffd000 = 0" by (simp add: ld64_def bytes_def upt_rec)
  moreover have "ld64 demo_m0 0x87ffe000 = 0x87ffd000" by (simp add: demo_m0_def)
  ultimately show ?thesis by (simp add: pt_ok_def free_pages_def)
qed

lemma demo_PX [simp]: "PX l 0 = 0"
  by (simp add: PX_def)

lemma demo_pte_0: "pte demo_m0 0x87fff000 w = 0"
proof -
  have "demo_m0 x = 0" if "in_page 0x87fff000 x" for x
    using demo_disjoint [OF that, of "0x87ff0000" "0x87ffe000"] by (simp add: demo_m0_outside)
  then show ?thesis using ptab_zero [of "0x87fff000" demo_m0 "0x87ff0000" 2 w] by (simp add: pte_def)
qed

lemma demo_m3_map:
  "\<exists>A. ptab demo_m3 0x87ff0000 2 0x87fff000 A \<and> 0x87ffc000 \<notin> A \<and>
    (\<forall>w<MAXVA. pte demo_m3 0x87fff000 w = (if PGROUNDDOWN w = 0 then PA2PTE 0x87ffc000 OR (PTE_V OR PTE_U) else 0))"
proof -
  let ?ke = "0x87ff0000 :: addr" let ?R = "0x87fff000 :: addr" let ?L1 = "0x87ffe000 :: addr" let ?L0 = "0x87ffd000 :: addr"
  let ?m1 = "link_page demo_m0 ?L1 (pte_at ?R 0)" let ?m2 = "link_page ?m1 ?L0 (pte_at ?L1 0)"
  have 0: "ptab demo_m0 ?ke (Suc 1) ?R {?R}" "free_pages demo_m0 ?ke ?L1 [?L1, ?L0]" "{?R} \<inter> set [?L1, ?L0] = {}"
    using demo_pt_ok by (simp_all add: pt_ok_def numeral_2_eq_2)
  have z0: "entry demo_m0 2 ?R w = 0" for w using demo_pte_0 [of w] by (simp add: pte_def)
  have rz: "ld64 demo_m0 (pte_at ?R (PX (Suc 1) 0)) AND PTE_V = 0"
    using ld64_zero_page [of ?R demo_m0 0] demo_disjoint [of ?R _ ?ke ?L1] by (simp add: demo_m0_outside)
  have 1: "ptab ?m1 ?ke (Suc 0) ?L1 {?L1}" "free_pages ?m1 ?ke (ld64 demo_m0 ?L1) [?L0]"
    and c1: "\<And>m' C' ps'. ptab m' ?ke (Suc 0) ?L1 C' \<Longrightarrow> pt_ext (Suc 0) ?L1 ?m1 {?L1} [?L0] m' C' ps' \<Longrightarrow>
      \<exists>A'. ptab m' ?ke (Suc 1) ?R A' \<and> pt_ext (Suc 1) ?R demo_m0 {?R} [?L1, ?L0] m' A' ps' \<and>
        lookup m' (Suc 1) ?R 0 = lookup m' (Suc 0) ?L1 0"
    using walk_new_page [OF 0 rz] by simp_all
  have "?m1 x = 0" if "in_page ?L1 x" for x
    using that demo_disjoint [OF that, of ?ke ?R] unfolding link_page_def
    by (subst st64_pte_outside) (simp_all add: page_fill_def)
  then have lz: "ld64 ?m1 (pte_at ?L1 (PX (Suc 0) 0)) AND PTE_V = 0"
    using ld64_zero_page [of ?L1 ?m1 0] by simp
  have fp1: "free_pages ?m1 ?ke ?L0 [?L0]" using 1(2) by (simp add: demo_m0_def)
  have 2: "ptab ?m2 ?ke 0 ?L0 {?L0}"
    and c2: "\<And>m' C' ps'. ptab m' ?ke 0 ?L0 C' \<Longrightarrow> pt_ext 0 ?L0 ?m2 {?L0} [] m' C' ps' \<Longrightarrow>
      \<exists>A'. ptab m' ?ke (Suc 0) ?L1 A' \<and> pt_ext (Suc 0) ?L1 ?m1 {?L1} [?L0] m' A' ps' \<and>
        lookup m' (Suc 0) ?L1 0 = lookup m' 0 ?L0 0"
    using walk_new_page [OF 1(1) fp1 _ lz] by simp_all
  obtain A1 where A1: "ptab ?m2 ?ke (Suc 0) ?L1 A1" "pt_ext (Suc 0) ?L1 ?m1 {?L1} [?L0] ?m2 A1 []"
    "lookup ?m2 (Suc 0) ?L1 0 = lookup ?m2 0 ?L0 0" using c2 [OF 2 pt_ext_refl] by blast
  obtain A where A: "ptab ?m2 ?ke 2 ?R A" "pt_ext 2 ?R demo_m0 {?R} [?L1, ?L0] ?m2 A []"
    "lookup ?m2 2 ?R 0 = Some (pte_at ?L0 0)" using c1 [OF A1(1,2)] A1(3) by (auto simp: numeral_2_eq_2)
  have e: "entry ?m2 2 ?R w = 0" and As: "A = {?R, ?L1, ?L0}" for w using A(2) z0 by (auto simp: pt_ext_def)
  have st: "ptab demo_m3 ?ke 2 ?R A \<and> outside A ?m2 demo_m3 \<and>
      entry demo_m3 2 ?R w = (if same_px 2 w 0 then PA2PTE 0x87ffc000 OR (PTE_V OR PTE_U) else entry ?m2 2 ?R w)" for w
    unfolding demo_m3_def by (rule ptab_store [OF A(1,3)])
  have "PGROUNDDOWN 0 = 0" by (simp add: PGROUNDDOWN_def)
  then have "\<forall>w<MAXVA. pte demo_m3 ?R w = (if PGROUNDDOWN w = 0 then PA2PTE 0x87ffc000 OR (PTE_V OR PTE_U) else 0)"
    using st e same_px_iff [of _ 0] by (auto simp: pte_def MAXVA_def)
  then show ?thesis using st As by (intro exI [of _ A]) simp
qed

lemma demo_uaddr: "uaddr demo_m3 0x87fff000 v = (if v < MAXVA \<and> PGROUNDDOWN v = 0 then 0x87ffc000 else 0)"
proof -
  have "pte demo_m3 0x87fff000 v = (if PGROUNDDOWN v = 0 then PA2PTE 0x87ffc000 OR (PTE_V OR PTE_U) else 0)" if "v < MAXVA"
    using demo_m3_map that by auto
  moreover have "PTE2PA (PA2PTE 0x87ffc000 OR (PTE_V OR PTE_U)) = 0x87ffc000"
    by (rule PTE2PA_new [of "0x87ff0000"]) simp_all
  moreover have "(PA2PTE 0x87ffc000 OR (PTE_V OR PTE_U)) AND PTE_V \<noteq> 0" "(PA2PTE 0x87ffc000 OR (PTE_V OR PTE_U)) AND PTE_U \<noteq> 0"
    by (simp_all add: PA2PTE_def pte_bits)
  ultimately show ?thesis by (auto simp: uaddr_def)
qed

lemma demo_user_ok: "\<exists>A. user_ok 0x87ff0000 demo_m3 0x87fff000 A"
proof -
  obtain A where A: "ptab demo_m3 0x87ff0000 2 0x87fff000 A" "0x87ffc000 \<notin> A" using demo_m3_map by blast
  have "v = w" if "aligned v" "aligned w" "uaddr demo_m3 0x87fff000 v \<noteq> 0"
    "uaddr demo_m3 0x87fff000 v = uaddr demo_m3 0x87fff000 w" for v w
    using that PGROUNDDOWN_aligned by (simp add: demo_uaddr split: if_splits)
  then show ?thesis using A by (intro exI [of _ A]) (auto simp: user_ok_def demo_uaddr split: if_splits)
qed

section \<open>Properties\<close>

text \<open>
  C39.  A page-table entry built from a page-aligned physical address below \<open>2 ^ 56\<close> and flag
  bits gives back exactly that address and those flags.
\<close>

theorem pte_roundtrip:
  assumes "aligned pa" "pa < 2 ^ 56" "flag_word f"
  shows "PTE2PA (PA2PTE pa OR f) = pa \<and> PTE_FLAGS (PA2PTE pa OR f) = f"
  using assms by simp

lemma pte_roundtrip_witness:
  "aligned 0x87fff000 \<and> PTE2PA (PA2PTE 0x87fff000 OR (PTE_R OR PTE_U)) = 0x87fff000 \<and>
   PTE_FLAGS (PA2PTE 0x87fff000 OR (PTE_R OR PTE_U)) = (PTE_R OR PTE_U)"
proof -
  have "aligned 0x87fff000" by (simp add: aligned_def PGSIZE_def)
  then show ?thesis using pte_roundtrip [of "0x87fff000" "PTE_R OR PTE_U"] by simp
qed

text \<open>
  C5.  \<open>mappages\<close> implements the update of an abstract map from virtual addresses to entries:
  on an unmapped range below \<open>MAXVA\<close> it returns 0 and every address of the range gets the
  entry of its own frame while all other entries keep their value, or it returns \<open>-1\<close>, having
  mapped a proper prefix, only when physical memory has run out.  In both cases the table
  stays a well-formed tree and grows only by pages taken from the free list.
\<close>

theorem mappages_updates_map:
  fixes s :: "'x kmem_scheme"
  defines "n va sz \<equiv> (unat (PGROUNDDOWN (va + sz - 1)) - unat (PGROUNDDOWN va)) div 4096 + 1"
  assumes "lkst [] P s" "pt_ok (kend s) pt (mem s) (freelist s) A ps" "sz \<noteq> 0" "unat va + unat sz \<le> 2 ^ 38"
    and "\<And>w. unat (PGROUNDDOWN va) \<le> unat w \<Longrightarrow> unat w < unat (PGROUNDDOWN va) + 4096 * n va sz \<Longrightarrow>
      pte (mem s) pt w AND PTE_V = 0"
  shows "\<exists>r t us ps' j. mappages pt va sz pa perm s es = Done r t es \<and>
    pt_ok (kend s) pt (mem t) (freelist t) (A \<union> set us) ps' \<and> ps = us @ ps' \<and>
    (\<forall>w<MAXVA. pte (mem t) pt w =
      (if unat (PGROUNDDOWN va) \<le> unat w \<and> unat w < unat (PGROUNDDOWN va) + 4096 * j
       then PA2PTE (pa + (PGROUNDDOWN w - PGROUNDDOWN va)) OR perm OR PTE_V else pte (mem s) pt w)) \<and>
    (r = 0 \<and> j = n va sz \<or> r = - 1 \<and> j < n va sz \<and> ps' = [])"
proof -
  have "wp (mappages pt va sz pa perm) s es (\<lambda>r t fs. fs = es \<and> (\<exists>us ps' j.
    pt_ok (kend s) pt (mem t) (freelist t) (A \<union> set us) ps' \<and> ps = us @ ps' \<and>
    (\<forall>w<MAXVA. pte (mem t) pt w = map_range (pte (mem s) pt) (PGROUNDDOWN va) pa perm j w) \<and>
    (r = 0 \<and> j = n va sz \<or> r = - 1 \<and> j < n va sz \<and> ps' = [])))"
    by (rule wp_mappages [OF assms(2) _ refl assms(3-5)]) (use assms(6) in \<open>fastforce simp: n_def\<close>)+
  then show ?thesis by (auto simp: wp_iff map_range_def)
qed

lemma mappages_updates_map_witness:
  "\<exists>r t. mappages 0x87fff000 0x1000 0x1000 0x87ffc000 PTE_R (demo_kmem\<lparr>mem := demo_m0, freelist := 0x87ffe000, kend := 0x87ff0000\<rparr>) [] = Done r t [] \<and>
     (r = 0 \<longrightarrow> pte (mem t) 0x87fff000 0x1000 = PA2PTE 0x87ffc000 OR PTE_R OR PTE_V)"
proof -
  let ?s = "demo_kmem\<lparr>mem := demo_m0, freelist := 0x87ffe000, kend := 0x87ff0000\<rparr>"
  have lk: "lkst [] demo_P ?s" using demo_kmem_lkst by simp
  have rd: "PGROUNDDOWN 0x1000 = 0x1000" "PGROUNDDOWN 0x1FFF = 0x1000" by (simp_all add: PGROUNDDOWN_def PGSIZE_def)
  have ok: "pt_ok (kend ?s) 0x87fff000 (mem ?s) (freelist ?s) {0x87fff000} [0x87ffe000, 0x87ffd000]" using demo_pt_ok by simp
  obtain r t us ps' j where 1: "mappages 0x87fff000 0x1000 0x1000 0x87ffc000 PTE_R ?s [] = Done r t []"
    "\<forall>w<MAXVA. pte (mem t) 0x87fff000 w =
      (if unat (PGROUNDDOWN 0x1000) \<le> unat w \<and> unat w < unat (PGROUNDDOWN 0x1000) + 4096 * j
       then PA2PTE (0x87ffc000 + (PGROUNDDOWN w - PGROUNDDOWN 0x1000)) OR PTE_R OR PTE_V else pte (mem ?s) 0x87fff000 w)"
    "r = 0 \<and> j = (unat (PGROUNDDOWN (0x1000 + 0x1000 - 1)) - unat (PGROUNDDOWN 0x1000)) div 4096 + 1 \<or> r = - 1"
    using mappages_updates_map [OF lk ok, where sz = "0x1000" and va = "0x1000" and pa = "0x87ffc000" and perm = PTE_R and es = "[]"]
    by (auto simp: demo_pte_0)
  have "(0x1000 :: addr) < MAXVA" by (simp add: MAXVA_def)
  then have "r = 0 \<longrightarrow> pte (mem t) 0x87fff000 0x1000 = PA2PTE 0x87ffc000 OR PTE_R OR PTE_V"
    using 1(2,3) rd by auto
  then show ?thesis using 1(1) by blast
qed

text \<open>
  C15.  \<open>copyin\<close> reads back what \<open>copyout\<close> wrote: if the range is mapped for user access,
  \<open>copyout\<close> of the bytes \<open>src\<close> to \<open>va\<close> succeeds, \<open>copyin\<close> of as many bytes from \<open>va\<close> then
  returns them, and user memory outside the range is unchanged.
\<close>

theorem copyout_copyin_roundtrip:
  assumes "user_ok ke (mem s) pt A" "length src \<le> 2 ^ 62"
    and "\<And>i. i < length src \<Longrightarrow> ubyte (mem s) pt (va + of_nat i) \<noteq> None"
  shows "\<exists>t. copyout pt va src s es = Done 0 t es \<and> copyin pt va (length src) t es = Done (Some src) t es \<and>
    (\<forall>w. unat (w - va) \<ge> length src \<longrightarrow> ubyte (mem t) pt w = ubyte (mem s) pt w)"
proof -
  have "wp (copyout pt va src) s es (\<lambda>r t fs. r = 0 \<and> fs = es \<and> user_ok ke (mem t) pt A \<and>
      (\<forall>w. ubyte (mem t) pt w = (if unat (w - va) < length src then Some (src ! unat (w - va)) else ubyte (mem s) pt w)))"
    by (rule wp_copyout [OF assms]) simp_all
  then obtain t where t: "copyout pt va src s es = Done 0 t es" "user_ok ke (mem t) pt A"
    and b: "\<And>w. ubyte (mem t) pt w = (if unat (w - va) < length src then Some (src ! unat (w - va)) else ubyte (mem s) pt w)"
    by (auto simp: wp_iff)
  have "ubytes (mem t) pt va (length src) = Some src"
    using assms(2) by (auto simp: ubytes_def b intro!: nth_equalityI)
  then have "wp (copyin pt va (length src)) t es (\<lambda>r u fs. r = Some src \<and> u = t \<and> fs = es)"
    by (intro wp_copyin [of _ ke _ A]) (use t(2) in \<open>simp_all add: user_ok_def\<close>)
  then show ?thesis using t(1) b by (auto simp: wp_iff)
qed

lemma copyout_copyin_roundtrip_witness:
  "\<exists>t. copyout 0x87fff000 0x10 [1, 2, 3] (demo_kmem\<lparr>mem := demo_m3\<rparr>) [] = Done 0 t [] \<and>
     copyin 0x87fff000 0x10 3 t [] = Done (Some [1, 2, 3]) t []"
proof -
  obtain A where A: "user_ok 0x87ff0000 (mem (demo_kmem\<lparr>mem := demo_m3\<rparr>)) 0x87fff000 A" using demo_user_ok by auto
  have "ubyte demo_m3 0x87fff000 (0x10 + of_nat i) \<noteq> None" if "i < 3" for i
  proof -
    have "unat (0x10 + of_nat i :: addr) = 0x10 + i" using that by (simp add: unat_add_of_nat)
    then have "unat (PGROUNDDOWN (0x10 + of_nat i)) = 0" using that by (simp add: unat_PGROUNDDOWN)
    then have "PGROUNDDOWN (0x10 + of_nat i) = 0" by (simp add: unat_eq_0)
    then show ?thesis by (simp add: ubyte_def demo_uaddr PGROUNDDOWN_def MAXVA_def)
  qed
  then show ?thesis using copyout_copyin_roundtrip [OF A, of "[1, 2, 3]" "0x10" "[]"] by (auto simp: numeral_3_eq_3)
qed

end
