(* ===== verification/Procmem.thy ===== *)
theory Procmem
  imports Vm
begin

text \<open>
  The memory side of \<^verbatim>\<open>kernel/proc.c\<close>: the private fields of \<open>struct proc\<close>, process
  identifiers, allocation and release of process slots with their trapframe page and page
  table, \<open>growproc\<close>, and the copies that take a user or a kernel address.  The trapframe is
  a page of the memory image; its fields are at the offsets of \<open>struct trapframe\<close>.  Open
  files and the current directory are indices into the file and inode tables.
\<close>

section \<open>State\<close>

record cntxt =
  cx_ra :: addr
  cx_sp :: addr

record pproc =
  kstack :: addr
  psz :: addr
  pagetable :: addr
  trapframe :: addr
  pcontext :: cntxt
  ofile :: "nat \<Rightarrow> nat option"
  cwd :: "nat option"
  pname :: "byte list"
  kbuf :: "byte list"

record proc = vm +
  pp :: "nat \<Rightarrow> pproc"
  nextpid :: int
  forkret_addr :: addr

definition NOFILE :: nat where "NOFILE = 16"

definition upd_pp :: "nat \<Rightarrow> (pproc \<Rightarrow> pproc) \<Rightarrow> ('x proc_scheme, unit) M" where
  "upd_pp p f = modifyM (\<lambda>s. s\<lparr>pp := (pp s)(p := f (pp s p))\<rparr>)"

definition get_pp :: "nat \<Rightarrow> ('x proc_scheme, pproc) M" where
  "get_pp p = getsM (\<lambda>s. pp s p)"

lemma proc_upd_order [simp]:
  fixes s :: "'x proc_scheme"
  shows
  "pp_update u_pp (locks_update u_locks s) = locks_update u_locks (pp_update u_pp s)"
  "pp_update u_pp (sstatus_update u_sstatus s) = sstatus_update u_sstatus (pp_update u_pp s)"
  "pp_update u_pp (cpus_update u_cpus s) = cpus_update u_cpus (pp_update u_pp s)"
  "nextpid_update u_np (locks_update u_locks s) = locks_update u_locks (nextpid_update u_np s)"
  "nextpid_update u_np (sstatus_update u_sstatus s) = sstatus_update u_sstatus (nextpid_update u_np s)"
  "nextpid_update u_np (cpus_update u_cpus s) = cpus_update u_cpus (nextpid_update u_np s)"
  "procs_update u_procs (pp_update u_pp s) = pp_update u_pp (procs_update u_procs s)"
  "procs_update u_procs (nextpid_update u_np s) = nextpid_update u_np (procs_update u_procs s)"
  "slocks_update u_slocks (pp_update u_pp s) = pp_update u_pp (slocks_update u_slocks s)"
  "mem_update u_mem (pp_update u_pp s) = pp_update u_pp (mem_update u_mem s)"
  "mem_update u_mem (nextpid_update u_np s) = nextpid_update u_np (mem_update u_mem s)"
  "freelist_update u_fl (pp_update u_pp s) = pp_update u_pp (freelist_update u_fl s)"
  "freelist_update u_fl (nextpid_update u_np s) = nextpid_update u_np (freelist_update u_fl s)"
  "pp_update u_pp (nextpid_update u_np s) = nextpid_update u_np (pp_update u_pp s)"
  by simp_all

text \<open>Offsets of the fields of \<open>struct trapframe\<close>.\<close>

definition TF_kernel_satp :: addr where "TF_kernel_satp = 0"
definition TF_kernel_sp :: addr where "TF_kernel_sp = 8"
definition TF_kernel_trap :: addr where "TF_kernel_trap = 16"
definition TF_epc :: addr where "TF_epc = 24"
definition TF_kernel_hartid :: addr where "TF_kernel_hartid = 32"
definition TF_sp :: addr where "TF_sp = 48"
definition TF_a :: "nat \<Rightarrow> addr" where "TF_a n = 112 + 8 * of_nat n"
definition TF_size :: nat where "TF_size = 288"

text \<open>
  Byte buffers: the \<open>n\<close> bytes at an offset, and the buffer with bytes written at an
  offset.  A write beyond the end of the buffer makes it longer: the bytes past the end are
  those an overflow overwrites.
\<close>

definition slice :: "'a list \<Rightarrow> nat \<Rightarrow> nat \<Rightarrow> 'a list" where
  "slice bs off n = take n (drop off bs)"

definition blit :: "'a list \<Rightarrow> nat \<Rightarrow> 'a list \<Rightarrow> 'a list" where
  "blit bs off xs = take off bs @ xs @ drop (off + length xs) bs"

lemma length_blit [simp]: "off + length xs \<le> length bs \<Longrightarrow> length (blit bs off xs) = length bs"
  by (simp add: blit_def)

lemma slice_blit_same: "off + length xs \<le> length bs \<Longrightarrow> n = length xs \<Longrightarrow> slice (blit bs off xs) off n = xs"
  by (simp add: slice_def blit_def drop_take)

lemma nth_blit:
  assumes "i < length bs"
  shows "blit bs off xs ! i = (if off \<le> i \<and> i < off + length xs \<and> off \<le> length bs then xs ! (i - off) else bs ! i)"
  using assms by (auto simp: blit_def nth_append min_def)

section \<open>Operations\<close>

definition procinit :: "('x proc_scheme, unit) M" where
  "procinit = doM (initlock PidLock ''nextpid'') (\<lambda>_.
     doM (initlock WaitLock ''wait_lock'') (\<lambda>_.
     forM [0..<NPROC] (\<lambda>p.
       doM (initlock (ProcLock p) ''proc'') (\<lambda>_.
       upd_pp p (\<lambda>q. q\<lparr>kstack := KSTACK p\<rparr>)))))"

definition allocpid :: "('x proc_scheme, int) M" where
  "allocpid =
     doM (acquire PidLock) (\<lambda>_.
     doM (getsM nextpid) (\<lambda>i.
     doM (modifyM (\<lambda>s. s\<lparr>nextpid := nextpid s + 1\<rparr>)) (\<lambda>_.
     doM (release PidLock) (\<lambda>_.
     returnM i))))"

definition proc_pagetable :: "nat \<Rightarrow> ('x proc_scheme, addr) M" where
  "proc_pagetable p =
     doM uvmcreate (\<lambda>pt.
     if pt = 0 then returnM 0
     else
       doM (getsM trampoline) (\<lambda>tr.
       doM (mappages pt TRAMPOLINE PGSIZE tr (PTE_R OR PTE_X)) (\<lambda>r.
       if r < 0 then doM (uvmfree pt 0) (\<lambda>_. returnM 0)
       else
         doM (get_pp p) (\<lambda>q.
         doM (mappages pt TRAPFRAME PGSIZE (trapframe q) (PTE_R OR PTE_W)) (\<lambda>r.
         if r < 0 then
           doM (uvmunmap pt TRAMPOLINE 1 False) (\<lambda>_.
           doM (uvmfree pt 0) (\<lambda>_.
           returnM 0))
         else returnM pt)))))"

definition proc_freepagetable :: "addr \<Rightarrow> addr \<Rightarrow> ('x kmem_scheme, unit) M" where
  "proc_freepagetable pt sz = seqM [
     uvmunmap pt TRAMPOLINE 1 False,
     uvmunmap pt TRAPFRAME 1 False,
     uvmfree pt sz]"

definition freeproc :: "nat \<Rightarrow> ('x proc_scheme, unit) M" where
  "freeproc p = seqM [
     doM (get_pp p) (\<lambda>q. whenM (trapframe q \<noteq> 0) (kfree (trapframe q))),
     upd_pp p (\<lambda>q. q\<lparr>trapframe := 0\<rparr>),
     doM (get_pp p) (\<lambda>q. whenM (pagetable q \<noteq> 0) (proc_freepagetable (pagetable q) (psz q))),
     upd_pp p (\<lambda>q. q\<lparr>pagetable := 0\<rparr>),
     upd_pp p (\<lambda>q. q\<lparr>psz := 0\<rparr>),
     upd_proc p (\<lambda>q. q\<lparr>pid := 0\<rparr>),
     upd_proc p (\<lambda>q. q\<lparr>parent := None\<rparr>),
     upd_pp p (\<lambda>q. q\<lparr>pname := (pname q)[0 := 0]\<rparr>),
     upd_proc p (\<lambda>q. q\<lparr>pchan := None\<rparr>),
     upd_proc p (\<lambda>q. q\<lparr>killed := False\<rparr>),
     upd_proc p (\<lambda>q. q\<lparr>xstate := 0\<rparr>),
     upd_proc p (\<lambda>q. q\<lparr>pstate := UNUSED\<rparr>)]"

text \<open>The search for an unused slot; it returns with the lock of the slot held.\<close>

definition find_unused :: "('x sched_scheme, nat option) M" where
  "find_unused = exitM [0..<NPROC] (\<lambda>p.
     doM (acquire (ProcLock p)) (\<lambda>_.
     doM (get_proc p) (\<lambda>q.
     if pstate q = UNUSED then returnM (Some p)
     else doM (release (ProcLock p)) (\<lambda>_. returnM None))))"

definition allocproc :: "('x proc_scheme, nat option) M" where
  "allocproc =
     doM find_unused (\<lambda>po.
     case po of None \<Rightarrow> returnM None
     | Some p \<Rightarrow>
         doM allocpid (\<lambda>i.
         doM (upd_proc p (\<lambda>q. q\<lparr>pid := i\<rparr>)) (\<lambda>_.
         doM (upd_proc p (\<lambda>q. q\<lparr>pstate := USED\<rparr>)) (\<lambda>_.
         doM kalloc (\<lambda>tf.
         doM (upd_pp p (\<lambda>q. q\<lparr>trapframe := tf\<rparr>)) (\<lambda>_.
         if tf = 0 then
           doM (freeproc p) (\<lambda>_.
           doM (release (ProcLock p)) (\<lambda>_.
           returnM None))
         else
           doM (proc_pagetable p) (\<lambda>pt.
           doM (upd_pp p (\<lambda>q. q\<lparr>pagetable := pt\<rparr>)) (\<lambda>_.
           if pt = 0 then
             doM (freeproc p) (\<lambda>_.
             doM (release (ProcLock p)) (\<lambda>_.
             returnM None))
           else
             doM (getsM forkret_addr) (\<lambda>fa.
             doM (upd_pp p (\<lambda>q. q\<lparr>pcontext := \<lparr>cx_ra = fa, cx_sp = kstack q + PGSIZE\<rparr>\<rparr>)) (\<lambda>_.
             returnM (Some p)))))))))))"

text \<open>
  \<open>sz\<close> is an \<open>uint\<close> and \<open>n\<close> an \<open>int\<close>: the new size is computed in 32 bits and wraps.
\<close>

definition growproc :: "32 word \<Rightarrow> ('x proc_scheme, int) M" where
  "growproc n =
     doM curproc (\<lambda>p.
     doM (get_pp p) (\<lambda>q.
     let sz = ucast (psz q) :: 32 word in
     if sint n > 0 then
       doM (uvmalloc (pagetable q) (ucast sz) (ucast (sz + n))) (\<lambda>r.
       let sz' = ucast r :: 32 word in
       if sz' = 0 then returnM (- 1)
       else doM (upd_pp p (\<lambda>q. q\<lparr>psz := ucast sz'\<rparr>)) (\<lambda>_. returnM 0))
     else if sint n < 0 then
       doM (uvmdealloc (pagetable q) (ucast sz) (ucast (sz + n))) (\<lambda>r.
       doM (upd_pp p (\<lambda>q. q\<lparr>psz := ucast (ucast r :: 32 word)\<rparr>)) (\<lambda>_. returnM 0))
     else doM (upd_pp p (\<lambda>q. q\<lparr>psz := ucast sz\<rparr>)) (\<lambda>_. returnM 0)))"

text \<open>
  \<open>either_copyout\<close> and \<open>either_copyin\<close>: one end of the copy is a kernel buffer, a list of
  bytes as for \<open>copyout\<close> and \<open>copyin\<close>.  The other end is a user address
  (\<open>user_dst = 1\<close>), an address of the memory image, or a local variable of the kernel
  function, on the kernel stack of the process (both with \<open>user_dst = 0\<close>).
\<close>

datatype loc = UserLoc addr | KernLoc addr | StackLoc nat

fun loc_plus :: "loc \<Rightarrow> nat \<Rightarrow> loc" where
  "loc_plus (UserLoc a) n = UserLoc (a + of_nat n)"
| "loc_plus (KernLoc a) n = KernLoc (a + of_nat n)"
| "loc_plus (StackLoc i) n = StackLoc (i + n)"

fun either_copyout :: "loc \<Rightarrow> byte list \<Rightarrow> ('x proc_scheme, int) M" where
  "either_copyout (UserLoc dst) src =
     doM curproc (\<lambda>p. doM (get_pp p) (\<lambda>q. copyout (pagetable q) dst src))"
| "either_copyout (KernLoc dst) src =
     doM myproc (\<lambda>_. doM (upd_mem (\<lambda>m. put m dst src)) (\<lambda>_. returnM 0))"
| "either_copyout (StackLoc i) src =
     doM curproc (\<lambda>p. doM (upd_pp p (\<lambda>q. q\<lparr>kbuf := blit (kbuf q) i src\<rparr>)) (\<lambda>_. returnM 0))"

fun either_copyin :: "loc \<Rightarrow> nat \<Rightarrow> ('x proc_scheme, byte list option) M" where
  "either_copyin (UserLoc src) len =
     doM curproc (\<lambda>p. doM (get_pp p) (\<lambda>q. copyin (pagetable q) src len))"
| "either_copyin (KernLoc src) len =
     doM myproc (\<lambda>_. getsM (\<lambda>s. Some (bytes (mem s) src len)))"
| "either_copyin (StackLoc i) len =
     doM curproc (\<lambda>p. doM (get_pp p) (\<lambda>q. returnM (Some (slice (kbuf q) i len))))"

section \<open>A concrete state\<close>

definition demo_pproc :: pproc where
  "demo_pproc = \<lparr>kstack = 0, psz = 0, pagetable = 0, trapframe = 0, pcontext = \<lparr>cx_ra = 0, cx_sp = 0\<rparr>,
     ofile = (\<lambda>_. None), cwd = None, pname = replicate 16 0, kbuf = []\<rparr>"

definition demo_pm :: proc where
  "demo_pm = vm.extend (kmem.extend demo_kmem (vm.fields 0 (\<lambda>_. 0) 0 0)) (proc.fields (\<lambda>_. demo_pproc) 3 0)"

lemma demo_pm_fields [simp]:
  "hart demo_pm = 0" "procs demo_pm = demo_proc" "slocks demo_pm = slocks (demo_slk [])" "mem demo_pm = (\<lambda>_. 0)"
  "pp demo_pm = (\<lambda>_. demo_pproc)" "nextpid demo_pm = 3"
  by (simp_all add: demo_pm_def demo_kmem_def demo_slk_def demo_sched_def sched.defs slk.defs kmem.defs vm.defs proc.defs)

lemma demo_pm_lkst: "lkst [] demo_P demo_pm"
  by (simp add: demo_pm_def demo_kmem_def demo_slk_def demo_sched_def sched.defs slk.defs kmem.defs vm.defs proc.defs lkb_def)

end
