(* ===== verification/Bio.thy ===== *)
theory Bio
  imports Procmem
begin

text \<open>
  The buffer cache, \<^verbatim>\<open>kernel/bio.c\<close>.  Buffer \<open>i\<close> of \<open>bcache.buf\<close> is \<open>bufs s i\<close>; the list
  head \<open>bcache.head\<close> follows the array and is \<open>bufs s BHEAD\<close>.  The list pointers are
  indices.  The sleep-lock of buffer \<open>i\<close> is \<open>BufLock i\<close>.

  The disk is a map from block numbers to blocks.  \<open>disk_rw\<close> is what the cache relies on
  of \<open>virtio_disk_rw\<close>: when it returns, the block has been moved between the buffer and
  the disk.  Completed writes are recorded in order in \<open>wlog\<close>, which is what the disk
  holds if the machine stops.
\<close>

section \<open>State\<close>

record buf =
  bvalid :: bool
  bdisk :: bool
  bdev :: "32 word"
  blockno :: "32 word"
  brefcnt :: "32 word"
  bprev :: nat
  bnext :: nat
  bdata :: "byte list"

record bio = proc +
  bufs :: "nat \<Rightarrow> buf"
  disk :: "32 word \<Rightarrow> byte list"
  wlog :: "(32 word \<times> byte list) list"

lemma bio_upd_order [simp]:
  fixes s :: "'x bio_scheme"
  shows
  "bufs_update u_b (locks_update u_locks s) = locks_update u_locks (bufs_update u_b s)"
  "bufs_update u_b (sstatus_update u_sstatus s) = sstatus_update u_sstatus (bufs_update u_b s)"
  "bufs_update u_b (cpus_update u_cpus s) = cpus_update u_cpus (bufs_update u_b s)"
  "disk_update u_d (locks_update u_locks s) = locks_update u_locks (disk_update u_d s)"
  "disk_update u_d (sstatus_update u_sstatus s) = sstatus_update u_sstatus (disk_update u_d s)"
  "disk_update u_d (cpus_update u_cpus s) = cpus_update u_cpus (disk_update u_d s)"
  "wlog_update u_w (locks_update u_locks s) = locks_update u_locks (wlog_update u_w s)"
  "wlog_update u_w (sstatus_update u_sstatus s) = sstatus_update u_sstatus (wlog_update u_w s)"
  "wlog_update u_w (cpus_update u_cpus s) = cpus_update u_cpus (wlog_update u_w s)"
  "bufs_update u_b (disk_update u_d s) = disk_update u_d (bufs_update u_b s)"
  "bufs_update u_b (wlog_update u_w s) = wlog_update u_w (bufs_update u_b s)"
  "disk_update u_d (wlog_update u_w s) = wlog_update u_w (disk_update u_d s)"
  "procs_update u_procs (bufs_update u_b s) = bufs_update u_b (procs_update u_procs s)"
  "procs_update u_procs (disk_update u_d s) = disk_update u_d (procs_update u_procs s)"
  "procs_update u_procs (wlog_update u_w s) = wlog_update u_w (procs_update u_procs s)"
  "slocks_update u_sl (bufs_update u_b s) = bufs_update u_b (slocks_update u_sl s)"
  "slocks_update u_sl (disk_update u_d s) = disk_update u_d (slocks_update u_sl s)"
  "slocks_update u_sl (wlog_update u_w s) = wlog_update u_w (slocks_update u_sl s)"
  "pp_update u_pp (bufs_update u_b s) = bufs_update u_b (pp_update u_pp s)"
  "pp_update u_pp (disk_update u_d s) = disk_update u_d (pp_update u_pp s)"
  "pp_update u_pp (wlog_update u_w s) = wlog_update u_w (pp_update u_pp s)"
  "mem_update u_mem (bufs_update u_b s) = bufs_update u_b (mem_update u_mem s)"
  "mem_update u_mem (disk_update u_d s) = disk_update u_d (mem_update u_mem s)"
  "mem_update u_mem (wlog_update u_w s) = wlog_update u_w (mem_update u_mem s)"
  by simp_all

definition BSIZE :: nat where "BSIZE = 1024"
definition MAXOPBLOCKS :: nat where "MAXOPBLOCKS = 10"
definition NBUF :: nat where "NBUF = MAXOPBLOCKS * 3"
definition BHEAD :: nat where "BHEAD = NBUF"

definition upd_buf :: "nat \<Rightarrow> (buf \<Rightarrow> buf) \<Rightarrow> ('x bio_scheme, unit) M" where
  "upd_buf b f = modifyM (\<lambda>s. s\<lparr>bufs := (bufs s)(b := f (bufs s b))\<rparr>)"

definition get_buf :: "nat \<Rightarrow> ('x bio_scheme, buf) M" where
  "get_buf b = getsM (\<lambda>s. bufs s b)"

definition disk_rw :: "nat \<Rightarrow> bool \<Rightarrow> ('x bio_scheme, unit) M" where
  "disk_rw b wr =
     doM (get_buf b) (\<lambda>d.
     if wr then modifyM (\<lambda>s. s\<lparr>disk := (disk s)(blockno d := bdata d), wlog := wlog s @ [(blockno d, bdata d)]\<rparr>)
     else doM (getsM disk) (\<lambda>dk. upd_buf b (\<lambda>d'. d'\<lparr>bdata := dk (blockno d)\<rparr>)))"

section \<open>Operations\<close>

text \<open>Insertion of \<open>b\<close> at the front of the list, shared by \<open>binit\<close> and \<open>brelse\<close>.\<close>

definition link_pointers :: "nat \<Rightarrow> ('x bio_scheme, unit) M" where
  "link_pointers b = seqM [
     doM (get_buf BHEAD) (\<lambda>h. upd_buf b (\<lambda>d. d\<lparr>bnext := bnext h\<rparr>)),
     upd_buf b (\<lambda>d. d\<lparr>bprev := BHEAD\<rparr>)]"

definition link_front :: "nat \<Rightarrow> ('x bio_scheme, unit) M" where
  "link_front b = seqM [
     doM (get_buf BHEAD) (\<lambda>h. upd_buf (bnext h) (\<lambda>d. d\<lparr>bprev := b\<rparr>)),
     upd_buf BHEAD (\<lambda>d. d\<lparr>bnext := b\<rparr>)]"

definition binit :: "('x bio_scheme, unit) M" where
  "binit = seqM [
     initlock BcacheLock ''bcache'',
     upd_buf BHEAD (\<lambda>d. d\<lparr>bprev := BHEAD\<rparr>),
     upd_buf BHEAD (\<lambda>d. d\<lparr>bnext := BHEAD\<rparr>),
     forM [0..<NBUF] (\<lambda>b. seqM [
       link_pointers b,
       initsleeplock (BufLock b) ''buffer'',
       link_front b])]"

text \<open>
  The two walks over the list.  Each visits at most the \<open>NBUF\<close> buffers and the head, so
  \<open>NBUF + 1\<close> iterations are enough.
\<close>

definition bget_cached :: "32 word \<Rightarrow> 32 word \<Rightarrow> ('x bio_scheme, nat option) M" where
  "bget_cached dev bn =
     doM (get_buf BHEAD) (\<lambda>h.
     iterM (Suc NBUF) (\<lambda>b.
       if b = BHEAD then returnM (Inr None)
       else doM (get_buf b) (\<lambda>d.
         if bdev d = dev \<and> blockno d = bn then
           doM (upd_buf b (\<lambda>d. d\<lparr>brefcnt := brefcnt d + 1\<rparr>)) (\<lambda>_.
           doM (release BcacheLock) (\<lambda>_.
           doM (acquiresleep (BufLock b)) (\<lambda>_.
           returnM (Inr (Some b)))))
         else returnM (Inl (bnext d)))) (bnext h))"

definition bget_recycle :: "32 word \<Rightarrow> 32 word \<Rightarrow> ('x bio_scheme, nat option) M" where
  "bget_recycle dev bn =
     doM (get_buf BHEAD) (\<lambda>h.
     iterM (Suc NBUF) (\<lambda>b.
       if b = BHEAD then returnM (Inr None)
       else doM (get_buf b) (\<lambda>d.
         if brefcnt d = 0 then
           doM (upd_buf b (\<lambda>d. d\<lparr>bdev := dev\<rparr>)) (\<lambda>_.
           doM (upd_buf b (\<lambda>d. d\<lparr>blockno := bn\<rparr>)) (\<lambda>_.
           doM (upd_buf b (\<lambda>d. d\<lparr>bvalid := False\<rparr>)) (\<lambda>_.
           doM (upd_buf b (\<lambda>d. d\<lparr>brefcnt := 1\<rparr>)) (\<lambda>_.
           doM (release BcacheLock) (\<lambda>_.
           doM (acquiresleep (BufLock b)) (\<lambda>_.
           returnM (Inr (Some b))))))))
         else returnM (Inl (bprev d)))) (bprev h))"

definition bget :: "32 word \<Rightarrow> 32 word \<Rightarrow> ('x bio_scheme, nat) M" where
  "bget dev bn =
     doM (acquire BcacheLock) (\<lambda>_.
     doM (bget_cached dev bn) (\<lambda>r.
     case r of Some b \<Rightarrow> returnM b
     | None \<Rightarrow>
         doM (bget_recycle dev bn) (\<lambda>r.
         case r of Some b \<Rightarrow> returnM b
         | None \<Rightarrow> panic ''bget: no buffers'')))"

definition bread :: "32 word \<Rightarrow> 32 word \<Rightarrow> ('x bio_scheme, nat) M" where
  "bread dev bn =
     doM (bget dev bn) (\<lambda>b.
     doM (get_buf b) (\<lambda>d.
     doM (whenM (\<not> bvalid d)
       (doM (disk_rw b False) (\<lambda>_. upd_buf b (\<lambda>d. d\<lparr>bvalid := True\<rparr>)))) (\<lambda>_.
     returnM b)))"

definition bwrite :: "nat \<Rightarrow> ('x bio_scheme, unit) M" where
  "bwrite b =
     doM (holdingsleep (BufLock b)) (\<lambda>h.
     doM (whenM (\<not> h) (panic ''bwrite'')) (\<lambda>_.
     disk_rw b True))"

text \<open>Unlink \<open>b\<close> and insert it at the front.\<close>

definition move_front :: "nat \<Rightarrow> ('x bio_scheme, unit) M" where
  "move_front b = seqM [
     doM (get_buf b) (\<lambda>d. upd_buf (bnext d) (\<lambda>n. n\<lparr>bprev := bprev d\<rparr>)),
     doM (get_buf b) (\<lambda>d. upd_buf (bprev d) (\<lambda>n. n\<lparr>bnext := bnext d\<rparr>)),
     link_pointers b,
     link_front b]"

definition brelse :: "nat \<Rightarrow> ('x bio_scheme, unit) M" where
  "brelse b =
     doM (holdingsleep (BufLock b)) (\<lambda>h.
     doM (whenM (\<not> h) (panic ''brelse'')) (\<lambda>_.
     seqM [
       releasesleep (BufLock b),
       acquire BcacheLock,
       upd_buf b (\<lambda>d. d\<lparr>brefcnt := brefcnt d - 1\<rparr>),
       doM (get_buf b) (\<lambda>d. whenM (brefcnt d = 0) (move_front b)),
       release BcacheLock]))"

definition bpin :: "nat \<Rightarrow> ('x bio_scheme, unit) M" where
  "bpin b = seqM [
     acquire BcacheLock,
     upd_buf b (\<lambda>d. d\<lparr>brefcnt := brefcnt d + 1\<rparr>),
     release BcacheLock]"

definition bunpin :: "nat \<Rightarrow> ('x bio_scheme, unit) M" where
  "bunpin b = seqM [
     acquire BcacheLock,
     upd_buf b (\<lambda>d. d\<lparr>brefcnt := brefcnt d - 1\<rparr>),
     release BcacheLock]"

end
