(* ===== verification/Bcache.thy ===== *)
theory Bcache
  imports Bio
begin

text \<open>
  What the buffer cache promises.  The list of buffers is a doubly linked ring through
  the head, ordered by use.  Seen from its clients the cache is a map \<open>C\<close> from block
  numbers to contents, a reference count \<open>R\<close> per block and a set \<open>H\<close> of blocks locked by
  the running process; \<open>bstate\<close> relates it to the buffers, and the rules at the end give
  each operation of \<^verbatim>\<open>bio.c\<close> on the map.
\<close>

section \<open>The ring\<close>

fun links :: "(nat \<Rightarrow> buf) \<Rightarrow> nat \<Rightarrow> nat list \<Rightarrow> nat \<Rightarrow> bool" where
  "links f a [] e \<longleftrightarrow> bnext (f a) = e \<and> bprev (f e) = a"
| "links f a (x # xs) e \<longleftrightarrow> bnext (f a) = x \<and> bprev (f x) = a \<and> links f x xs e"

definition ring :: "(nat \<Rightarrow> buf) \<Rightarrow> nat list \<Rightarrow> bool" where
  "ring f xs \<longleftrightarrow> links f BHEAD xs BHEAD"

lemma links_append: "links f a (us @ b # vs) e \<longleftrightarrow> links f a us b \<and> links f b vs e"
  by (induction us arbitrary: a) auto

lemma links_cong:
  assumes "\<And>x. x \<in> set (a # xs) \<Longrightarrow> bnext (g x) = bnext (f x)"
    and "\<And>x. x \<in> set (xs @ [e]) \<Longrightarrow> bprev (g x) = bprev (f x)"
  shows "links g a xs e = links f a xs e"
  using assms by (induction xs arbitrary: a) auto

fun chain :: "(nat \<Rightarrow> nat) \<Rightarrow> nat \<Rightarrow> nat list \<Rightarrow> nat \<Rightarrow> bool" where
  "chain nx a [] e \<longleftrightarrow> a = e"
| "chain nx a (x # xs) e \<longleftrightarrow> a = x \<and> chain nx (nx x) xs e"

lemma chain_append: "chain nx a (xs @ [y]) e \<longleftrightarrow> chain nx a xs y \<and> nx y = e"
  by (induction xs arbitrary: a) auto

lemma links_next: "links f a xs e \<Longrightarrow> chain (\<lambda>b. bnext (f b)) (bnext (f a)) xs e"
  by (induction xs arbitrary: a) auto

lemma links_prev: "links f a xs e \<Longrightarrow> chain (\<lambda>b. bprev (f b)) (bprev (f e)) (rev xs) a"
  by (induction xs arbitrary: a) (auto simp: chain_append)

lemma ring_cong:
  "(\<And>x. bnext (g x) = bnext (f x)) \<Longrightarrow> (\<And>x. bprev (g x) = bprev (f x)) \<Longrightarrow> ring g xs = ring f xs"
  unfolding ring_def by (rule links_cong) auto

text \<open>Unlinking a buffer and linking it at the front.\<close>

definition unlink_buf :: "(nat \<Rightarrow> buf) \<Rightarrow> nat \<Rightarrow> nat \<Rightarrow> buf" where
  "unlink_buf f b =
     (let f1 = f(bnext (f b) := (f (bnext (f b)))\<lparr>bprev := bprev (f b)\<rparr>)
      in f1(bprev (f1 b) := (f1 (bprev (f1 b)))\<lparr>bnext := bnext (f1 b)\<rparr>))"

definition push_buf :: "(nat \<Rightarrow> buf) \<Rightarrow> nat \<Rightarrow> nat \<Rightarrow> buf" where
  "push_buf f b =
     (let f1 = f(b := (f b)\<lparr>bnext := bnext (f BHEAD)\<rparr>);
          f2 = f1(b := (f1 b)\<lparr>bprev := BHEAD\<rparr>);
          f3 = f2(bnext (f2 BHEAD) := (f2 (bnext (f2 BHEAD)))\<lparr>bprev := b\<rparr>)
      in f3(BHEAD := (f3 BHEAD)\<lparr>bnext := b\<rparr>))"

lemma links_last: "links f a us b \<Longrightarrow> bprev (f b) = last (a # us) \<and> bnext (f (last (a # us))) = b"
  by (induction us arbitrary: a) auto

lemma links_hd: "links f b vs e \<Longrightarrow> bnext (f b) = hd (vs @ [e]) \<and> bprev (f (hd (vs @ [e]))) = b"
  by (cases vs) auto

lemma links_redirect:
  assumes "links f a us b" "distinct (a # us)" "b \<notin> set us" "e \<notin> set us"
    and "\<And>x. bnext (g x) = (if x = last (a # us) then e else bnext (f x))"
    and "\<And>x. bprev (g x) = (if x = e then last (a # us) else bprev (f x))"
  shows "links g a us e"
  using assms
proof (induction us arbitrary: a)
  case (Cons u us)
  then have "links g u us e" by (intro Cons.IH) auto
  with Cons.prems show ?case by auto
qed auto

lemma unlink_buf_fields:
  "bnext (unlink_buf f b x) = (if x = bprev (f b) \<and> bnext (f b) \<noteq> b then bnext (f b)
     else if bnext (f b) = b \<and> x = bprev (f b) then b else bnext (f x))"
  "bprev (unlink_buf f b x) = (if x = bnext (f b) then bprev (f b) else bprev (f x))"
  by (auto simp: unlink_buf_def Let_def)

lemma ring_unlink:
  assumes r: "ring f (us @ b # vs)" and d: "distinct (BHEAD # us @ b # vs)"
  shows "ring (unlink_buf f b) (us @ vs)"
proof -
  let ?g = "unlink_buf f b" and ?p = "last (BHEAD # us)" and ?n = "hd (vs @ [BHEAD])"
  have l: "links f BHEAD us b" "links f b vs BHEAD" using r by (auto simp: ring_def links_append)
  have p: "bprev (f b) = ?p" and n: "bnext (f b) = ?n" using links_last [OF l(1)] links_hd [OF l(2)] by auto
  have nb: "?n \<noteq> b" using d by (cases vs) auto
  have nx: "bnext (?g x) = (if x = ?p then ?n else bnext (f x))" for x
    using nb by (auto simp: unlink_buf_fields p n)
  have pv: "bprev (?g x) = (if x = ?n then ?p else bprev (f x))" for x
    by (simp add: unlink_buf_fields p n)
  have us: "links ?g BHEAD us ?n"
    by (rule links_redirect [OF l(1)]) (use d nx pv in \<open>auto simp: hd_append\<close>)
  show ?thesis
  proof (cases vs)
    case Nil
    with us show ?thesis by (simp add: ring_def)
  next
    case (Cons v ws)
    have ln: "?p \<in> insert BHEAD (set us)" by (cases us rule: rev_cases) auto
    have "links ?g v ws BHEAD = links f v ws BHEAD"
      by (rule links_cong) (use d Cons ln in \<open>auto simp: nx pv\<close>)
    with us l(2) Cons show ?thesis by (simp add: ring_def links_append)
  qed
qed

lemma ring_push:
  assumes r: "ring f xs" and d: "distinct (BHEAD # b # xs)"
  shows "ring (push_buf f b) (b # xs)"
proof -
  let ?g = "push_buf f b" and ?n = "hd (xs @ [BHEAD])"
  have n: "bnext (f BHEAD) = ?n" using r links_hd by (auto simp: ring_def)
  have nb: "?n \<noteq> b" using d by (cases xs) auto
  have nx: "bnext (?g x) = (if x = BHEAD then b else if x = b then ?n else bnext (f x))" for x
    using d nb n by (auto simp: push_buf_def Let_def)
  have pv: "bprev (?g x) = (if x = ?n then b else if x = b then BHEAD else bprev (f x))" for x
    using d nb n by (auto simp: push_buf_def Let_def)
  have "links ?g b xs BHEAD"
  proof (cases xs)
    case Nil
    then show ?thesis using d by (auto simp: nx pv)
  next
    case (Cons v ws)
    have "links ?g v ws BHEAD = links f v ws BHEAD"
      by (rule links_cong) (use d Cons in \<open>auto simp: nx pv\<close>)
    with r Cons d show ?thesis by (auto simp: ring_def nx pv)
  qed
  then show ?thesis using d nb by (auto simp: ring_def nx pv)
qed

section \<open>Walks over the ring\<close>

lemma wp_buf [simp]:
  "wp (upd_buf b f) s es Q = Q () (s\<lparr>bufs := (bufs s)(b := f (bufs s b))\<rparr>) es"
  "wp (get_buf b) s es R = R (bufs s b) s es"
  by (simp_all add: upd_buf_def get_buf_def)

text \<open>Both searches of \<open>bget\<close> follow a chain of pointers to the first buffer with a property.\<close>

lemma wp_walk_chain:
  assumes "chain (\<lambda>b. nx (bufs s b)) a xs BHEAD" "BHEAD \<notin> set xs" "length xs < n"
    and hit: "\<And>us b vs. xs = us @ b # vs \<Longrightarrow> \<forall>u\<in>set us. \<not> test (bufs s u) \<Longrightarrow> test (bufs s b) \<Longrightarrow>
      wp (act b) s es (\<lambda>r t fs. case r of Inl y \<Rightarrow> False | Inr z \<Rightarrow> Q z t fs)"
    and miss: "\<forall>u\<in>set xs. \<not> test (bufs s u) \<Longrightarrow> Q None s es"
  shows "wp (iterM n (\<lambda>b. if b = BHEAD then returnM (Inr None)
      else doM (get_buf b) (\<lambda>d. if test d then act b else returnM (Inl (nx d)))) a) s es Q"
  using assms
proof (induction xs arbitrary: a n)
  case Nil
  then obtain k where "n = Suc k" by (cases n) auto
  with Nil show ?case unfolding wp_iterM_Suc by simp
next
  case (Cons x xs)
  let ?f = "\<lambda>b. if b = BHEAD then returnM (Inr None)
      else doM (get_buf b) (\<lambda>d. if test d then act b else returnM (Inl (nx d)))"
  obtain k where n: "n = Suc k" using Cons.prems(3) by (cases n) auto
  have a: "a = x" "x \<noteq> BHEAD" using Cons.prems(1,2) by auto
  show ?case
  proof (cases "test (bufs s x)")
    case True
    have "wp (act x) s es (\<lambda>r t fs. case r of Inl y \<Rightarrow> False | Inr z \<Rightarrow> Q z t fs)"
      by (rule Cons.prems(4) [of "[]"]) (use True in auto)
    then have "wp (act x) s es (\<lambda>r t fs. case r of Inl y \<Rightarrow> wp (iterM k ?f y) t fs Q | Inr z \<Rightarrow> Q z t fs)"
      by (rule wp_mono) (auto split: sum.splits)
    with True a show ?thesis unfolding n wp_iterM_Suc by simp
  next
    case False
    have "wp (iterM k ?f (nx (bufs s x))) s es Q"
    proof (rule Cons.IH)
      show "chain (\<lambda>b. nx (bufs s b)) (nx (bufs s x)) xs BHEAD" using Cons.prems(1) by simp
      show "BHEAD \<notin> set xs" "length xs < k" using Cons.prems(2,3) n by auto
      show "wp (act b) s es (\<lambda>r t fs. case r of Inl y \<Rightarrow> False | Inr z \<Rightarrow> Q z t fs)"
        if "xs = us @ b # vs" "\<forall>u\<in>set us. \<not> test (bufs s u)" "test (bufs s b)" for us b vs
        by (rule Cons.prems(4) [of "x # us"]) (use that False in auto)
      show "Q None s es" if "\<forall>u\<in>set xs. \<not> test (bufs s u)"
        using Cons.prems(5) that False by auto
    qed
    with False a show ?thesis unfolding n wp_iterM_Suc by simp
  qed
qed

section \<open>The cache as a map\<close>

definition lru_ok :: "(nat \<Rightarrow> buf) \<Rightarrow> nat list \<Rightarrow> bool" where
  "lru_ok bf xs \<longleftrightarrow> ring bf xs \<and> distinct xs \<and> set xs = {..<NBUF}"

definition at_buf :: "(nat \<Rightarrow> buf) \<Rightarrow> 32 word \<Rightarrow> 32 word \<Rightarrow> nat \<Rightarrow> bool" where
  "at_buf bf d n b \<longleftrightarrow> b < NBUF \<and> bdev (bf b) = d \<and> blockno (bf b) = n"

text \<open>
  \<open>cache_ok\<close>: no block of device \<open>d\<close> has two buffers; a cached block has the contents and
  the count of its buffer, any other block the contents of the disk; a block without
  references is as on the disk, so it may be evicted; the locked buffers are those of \<open>H\<close>,
  and they belong to process \<open>q\<close>.
\<close>

definition cache_ok :: "(nat \<Rightarrow> buf) \<Rightarrow> (32 word \<Rightarrow> byte list) \<Rightarrow> (slockid \<Rightarrow> sleeplock) \<Rightarrow> int \<Rightarrow> 32 word \<Rightarrow>
    (32 word \<Rightarrow> byte list) \<Rightarrow> (32 word \<Rightarrow> nat) \<Rightarrow> 32 word set \<Rightarrow> bool" where
  "cache_ok bf dk sl q d C R H \<longleftrightarrow>
     (\<exists>xs. lru_ok bf xs) \<and>
     (\<forall>n i j. at_buf bf d n i \<longrightarrow> at_buf bf d n j \<longrightarrow> i = j) \<and>
     (\<forall>b<NBUF. brefcnt (bf b) \<noteq> 0 \<longrightarrow> bdev (bf b) = d) \<and>
     (\<forall>n b. at_buf bf d n b \<longrightarrow> C n = (if bvalid (bf b) then bdata (bf b) else dk n) \<and> R n = unat (brefcnt (bf b))) \<and>
     (\<forall>n. (\<forall>b. \<not> at_buf bf d n b) \<longrightarrow> C n = dk n \<and> R n = 0) \<and>
     (\<forall>n. R n = 0 \<longrightarrow> C n = dk n) \<and>
     (\<forall>b<NBUF. slocked (sl (BufLock b)) \<noteq> 0 \<longleftrightarrow> bdev (bf b) = d \<and> blockno (bf b) \<in> H) \<and>
     (\<forall>n\<in>H. \<exists>b. at_buf bf d n b \<and> bvalid (bf b) \<and> R n \<noteq> 0 \<and> slpid (sl (BufLock b)) = q)"

lemma cache_okD:
  assumes "cache_ok bf dk sl q d C R H"
  shows "\<exists>xs. lru_ok bf xs"
    and "at_buf bf d n i \<Longrightarrow> at_buf bf d n j \<Longrightarrow> i = j"
    and "b < NBUF \<Longrightarrow> brefcnt (bf b) \<noteq> 0 \<Longrightarrow> bdev (bf b) = d"
    and "at_buf bf d n b \<Longrightarrow> C n = (if bvalid (bf b) then bdata (bf b) else dk n)"
    and "at_buf bf d n b \<Longrightarrow> R n = unat (brefcnt (bf b))"
    and "(\<And>b. \<not> at_buf bf d n b) \<Longrightarrow> C n = dk n \<and> R n = 0"
    and "R n = 0 \<Longrightarrow> C n = dk n"
    and "b < NBUF \<Longrightarrow> slocked (sl (BufLock b)) \<noteq> 0 \<longleftrightarrow> bdev (bf b) = d \<and> blockno (bf b) \<in> H"
    and "n \<in> H \<Longrightarrow> \<exists>b. at_buf bf d n b \<and> bvalid (bf b) \<and> R n \<noteq> 0 \<and> slpid (sl (BufLock b)) = q"
  using assms unfolding cache_ok_def by blast+

text \<open>A held block's buffer.\<close>

lemma cache_held:
  assumes "cache_ok bf dk sl q d C R H" "n \<in> H" "at_buf bf d n b"
  shows "bvalid (bf b)" "R n \<noteq> 0" "slpid (sl (BufLock b)) = q" "slocked (sl (BufLock b)) \<noteq> 0" "bdata (bf b) = C n"
    "unat (brefcnt (bf b)) = R n"
proof -
  obtain b' where b': "at_buf bf d n b'" "bvalid (bf b')" "R n \<noteq> 0" "slpid (sl (BufLock b')) = q"
    using cache_okD(9) [OF assms(1,2)] by blast
  then have "b' = b" using cache_okD(2) [OF assms(1)] assms(3) by blast
  with b' show v: "bvalid (bf b)" "R n \<noteq> 0" "slpid (sl (BufLock b)) = q" by auto
  show "slocked (sl (BufLock b)) \<noteq> 0"
    using cache_okD(8) [OF assms(1), of b] assms(2,3) by (auto simp: at_buf_def)
  show "bdata (bf b) = C n" using cache_okD(4) [OF assms(1,3)] v by simp
  show "unat (brefcnt (bf b)) = R n" using cache_okD(5) [OF assms(1,3)] by simp
qed

text \<open>Only the pointers change.\<close>

lemma cache_ok_ptrs:
  assumes c: "cache_ok bf dk sl q d C R H" and l: "lru_ok bf' xs"
    and f: "\<And>b. bvalid (bf' b) = bvalid (bf b)" "\<And>b. bdev (bf' b) = bdev (bf b)" "\<And>b. blockno (bf' b) = blockno (bf b)"
      "\<And>b. brefcnt (bf' b) = brefcnt (bf b)" "\<And>b. bdata (bf' b) = bdata (bf b)"
  shows "cache_ok bf' dk sl q d C R H"
proof -
  have "at_buf bf' = at_buf bf" by (intro ext) (simp add: at_buf_def f)
  then show ?thesis using c l unfolding cache_ok_def by (simp add: f) blast
qed

text \<open>The order of the buffers does not depend on the other fields.\<close>

lemma lru_ok_upd:
  assumes "lru_ok bf xs" "bnext v = bnext (bf b)" "bprev v = bprev (bf b)"
  shows "lru_ok (bf(b := v)) xs"
proof -
  have "ring (bf(b := v)) xs = ring bf xs" by (rule ring_cong) (use assms in auto)
  with assms show ?thesis by (simp add: lru_ok_def)
qed

text \<open>
  Every operation changes one buffer \<open>b\<close>, which afterwards holds block \<open>n\<close>: either it held
  it before, or \<open>n\<close> was not cached and \<open>b\<close> was unused.
\<close>

lemma cache_upd:
  assumes c: "cache_ok bf dk sl q d C R H"
    and b: "b < NBUF" "bdev v = d" "blockno v = n" "bnext v = bnext (bf b)" "bprev v = bprev (bf b)"
    and own: "at_buf bf d n b \<or> (\<forall>i. \<not> at_buf bf d n i) \<and> brefcnt (bf b) = 0"
    and v: "ct = (if bvalid v then bdata v else x)" "r = unat (brefcnt v)" "r = 0 \<Longrightarrow> ct = x"
    and k: "slocked k \<noteq> 0 \<longleftrightarrow> n \<in> H'" "n \<in> H' \<Longrightarrow> bvalid v \<and> r \<noteq> 0 \<and> slpid k = q"
    and H': "H' - {n} = H - {n}" and dk': "dk' = dk(n := x)" and sl': "sl' = sl(BufLock b := k)"
    and C': "C' = C(n := ct)" and R': "R' = R(n := r)" and bf': "bf' = bf(b := v)"
  shows "cache_ok bf' dk' sl' q d C' R' H'"
proof -
  note D = cache_okD [OF c]
  have only: "\<not> at_buf bf d n i" if "i \<noteq> b" for i using own D(2) [of n i b] that by auto
  have at': "at_buf bf' d m i \<longleftrightarrow> (if i = b then m = n else at_buf bf d m i)" for m i
    using b(1-3) by (auto simp: at_buf_def bf')
  have idle: "R m = 0" if "m \<noteq> n" "at_buf bf d m b" for m
    using own that D(5) [OF that(2)] by (auto simp: at_buf_def)
  have Hin: "m \<in> H' \<longleftrightarrow> m \<in> H" if "m \<noteq> n" for m using H' that by blast
  have Hat: "\<exists>i. at_buf bf d m i \<and> i \<noteq> b \<and> bvalid (bf i) \<and> R m \<noteq> 0 \<and> slpid (sl (BufLock i)) = q"
    if "m \<in> H'" "m \<noteq> n" for m
  proof -
    have "m \<in> H" using Hin [OF that(2)] that(1) by simp
    from D(9) [OF this] obtain i where i: "at_buf bf d m i" "bvalid (bf i)" "R m \<noteq> 0" "slpid (sl (BufLock i)) = q"
      by (elim exE conjE)
    moreover from i have "i \<noteq> b" using idle [OF that(2)] by auto
    ultimately show ?thesis by (intro exI [of _ i] conjI)
  qed
  show ?thesis
    unfolding cache_ok_def
  proof (intro conjI allI impI ballI)
    obtain xs where "lru_ok bf xs" using D(1) by blast
    then show "\<exists>xs. lru_ok bf' xs" unfolding bf' using lru_ok_upd b(4,5) by blast
    show "i = j" if "at_buf bf' d m i" "at_buf bf' d m j" for m i j
      using that only D(2) [of m i j] by (auto simp: at' split: if_splits)
    show "bdev (bf' i) = d" if "i < NBUF" "brefcnt (bf' i) \<noteq> 0" for i
      using that D(3) [of i] b by (auto simp: bf' split: if_splits)
    show "C' m = (if bvalid (bf' i) then bdata (bf' i) else dk' m)" if "at_buf bf' d m i" for m i
    proof (cases "i = b")
      case True then show ?thesis using that [unfolded at'] v(1) by (simp add: C' dk' bf')
    next
      case False
      then have i: "at_buf bf d m i" "m \<noteq> n" using that only by (auto simp: at')
      from D(4) [OF i(1)] show ?thesis using i(2) False by (simp add: C' dk' bf')
    qed
    show "R' m = unat (brefcnt (bf' i))" if "at_buf bf' d m i" for m i
    proof (cases "i = b")
      case True then show ?thesis using that [unfolded at'] v(2) by (simp add: R' bf')
    next
      case False
      then have i: "at_buf bf d m i" "m \<noteq> n" using that only by (auto simp: at')
      from D(5) [OF i(1)] show ?thesis using i(2) False by (simp add: R' bf')
    qed
    show "C' m = dk' m" "R' m = 0" if "\<forall>i. \<not> at_buf bf' d m i" for m
    proof -
      have m: "m \<noteq> n" using that [rule_format, of b, unfolded at'] by simp
      have "R m = 0"
      proof (cases "at_buf bf d m b")
        case True then show ?thesis using idle m by blast
      next
        case False
        then have "\<not> at_buf bf d m i" for i using that [rule_format, of i, unfolded at'] by (cases "i = b") auto
        then show ?thesis using D(6) by blast
      qed
      with D(7) m show "C' m = dk' m" "R' m = 0" by (auto simp: C' R' dk')
    qed
    show "C' m = dk' m" if "R' m = 0" for m using that v(3) D(7) by (auto simp: C' R' dk')
    show "slocked (sl' (BufLock i)) \<noteq> 0 \<longleftrightarrow> bdev (bf' i) = d \<and> blockno (bf' i) \<in> H'" if "i < NBUF" for i
    proof (cases "i = b")
      case True then show ?thesis using k(1) b by (simp add: bf' sl')
    next
      case False
      then have "bdev (bf i) = d \<longrightarrow> blockno (bf i) \<noteq> n" using only that by (auto simp: at_buf_def)
      with D(8) [OF that] False Hin show ?thesis by (auto simp: bf' sl')
    qed
    show "\<exists>i. at_buf bf' d m i \<and> bvalid (bf' i) \<and> R' m \<noteq> 0 \<and> slpid (sl' (BufLock i)) = q" if "m \<in> H'" for m
    proof (cases "m = n")
      case True then show ?thesis using k(2) that unfolding at' by (intro exI [of _ b]) (simp add: bf' R' sl')
    next
      case False
      from Hat [OF that False] obtain i where "at_buf bf d m i" "i \<noteq> b" "bvalid (bf i)" "R m \<noteq> 0"
        "slpid (sl (BufLock i)) = q" by blast
      with False show ?thesis unfolding at' by (intro exI [of _ i]) (simp add: bf' R' sl')
    qed
  qed
qed

section \<open>Rules\<close>

definition bstate :: "lockid list \<Rightarrow> (nat \<Rightarrow> nat option) \<Rightarrow> nat \<Rightarrow> 32 word \<Rightarrow> (32 word \<Rightarrow> byte list) \<Rightarrow>
    (32 word \<Rightarrow> nat) \<Rightarrow> 32 word set \<Rightarrow> 'x bio_scheme \<Rightarrow> bool" where
  "bstate L P p d C R H s \<longleftrightarrow> lkst L P s \<and> P (hart s) = Some p \<and>
     cache_ok (bufs s) (disk s) (slocks s) (pid (procs s p)) d C R H"

lemma bstateD:
  assumes "bstate L P p d C R H s"
  shows "lkst L P s" "P (hart s) = Some p" "cache_ok (bufs s) (disk s) (slocks s) (pid (procs s p)) d C R H"
  using assms by (simp_all add: bstate_def)

lemma NBUF_pos [simp]: "BHEAD \<notin> {..<NBUF}" "BHEAD < NBUF = False"
  by (simp_all add: BHEAD_def)

lemma lru_okD:
  assumes "lru_ok bf xs"
  shows "BHEAD \<notin> set xs" "length xs = NBUF"
    and "chain (\<lambda>b. bnext (bf b)) (bnext (bf BHEAD)) xs BHEAD"
    and "chain (\<lambda>b. bprev (bf b)) (bprev (bf BHEAD)) (rev xs) BHEAD"
  using assms links_next links_prev distinct_card [of xs] by (auto simp: lru_ok_def ring_def)

text \<open>
  \<open>bget\<close> returns the buffer of a cached block, and otherwise the least recently used of the
  buffers without references.
\<close>

lemma wp_bget:
  assumes bst: "bstate L P p d C R H s" and xs: "lru_ok (bufs s) xs"
    and L: "BcacheLock \<notin> set L" "\<And>b. SleepLk (BufLock b) \<notin> set L"
    and n: "n \<notin> H" "(\<exists>b. at_buf (bufs s) d n b) \<or> (\<exists>b<NBUF. brefcnt (bufs s b) = 0)"
    and hit: "\<And>b c st l. at_buf (bufs s) d n b \<Longrightarrow> lkb L P (hart s) c st l \<Longrightarrow>
      Q b (s\<lparr>slocks := (slocks s)(BufLock b := taken (pid (procs s p)) (slocks s (BufLock b))),
             bufs := (bufs s)(b := (bufs s b)\<lparr>brefcnt := brefcnt (bufs s b) + 1\<rparr>),
             cpus := c, sstatus := st, locks := l\<rparr>) es"
    and miss: "\<And>b us vs c st l. \<forall>i. \<not> at_buf (bufs s) d n i \<Longrightarrow> xs = us @ b # vs \<Longrightarrow> brefcnt (bufs s b) = 0 \<Longrightarrow>
      \<forall>v\<in>set vs. brefcnt (bufs s v) \<noteq> 0 \<Longrightarrow> lkb L P (hart s) c st l \<Longrightarrow>
      Q b (s\<lparr>slocks := (slocks s)(BufLock b := taken (pid (procs s p)) (slocks s (BufLock b))),
             bufs := (bufs s)(b := (bufs s b)\<lparr>bdev := d, blockno := n, bvalid := False, brefcnt := 1\<rparr>),
             cpus := c, sstatus := st, locks := l\<rparr>) es"
  shows "wp (bget d n) s es Q"
proof -
  note B = bstateD [OF bst] and X = lru_okD [OF xs]
  have inx: "b \<in> set xs \<longleftrightarrow> b < NBUF" for b using xs by (auto simp: lru_ok_def)
  have free: "slocked (slocks s (BufLock b)) = 0" if "b < NBUF" "at_buf (bufs s) d n b \<or> brefcnt (bufs s b) = 0" for b
  proof (rule ccontr)
    assume "slocked (slocks s (BufLock b)) \<noteq> 0"
    then have h: "bdev (bufs s b) = d" "blockno (bufs s b) \<in> H" using cache_okD(8) [OF B(3) that(1)] by auto
    then have a: "at_buf (bufs s) d (blockno (bufs s b)) b" using that(1) by (simp add: at_buf_def)
    from cache_held [OF B(3) h(2) a] n(1) that h show False by (auto simp: at_buf_def)
  qed
  show ?thesis
    unfolding bget_def wp_simps
    apply (rule wp_acquire [OF B(1) L(1)])
    unfolding bget_cached_def wp_simps wp_buf
    apply (rule wp_walk_chain [where xs = xs])
        apply (simp add: X(3))
       apply (simp add: X(1))
      apply (simp add: X(2))
    subgoal for c st l us b vs
      apply simp
      apply (rule wp_release, simp, simp)
      apply (rule wp_acquiresleep, simp, simp add: L, simp add: B(2))
       apply (simp add: free inx [symmetric] at_buf_def)
      apply simp
      apply (rule hit)
       apply (auto simp: at_buf_def inx [symmetric])
      done
    subgoal for c st l
      unfolding option.case bget_recycle_def wp_simps wp_buf
      apply (rule wp_walk_chain [where xs = "rev xs"])
          apply (simp add: X(4))
         apply (simp add: X(1))
        apply (simp add: X(2))
      subgoal for us b vs
        apply simp
        apply (rule wp_release, simp, simp)
        apply (rule wp_acquiresleep, simp, simp add: L, simp add: B(2))
         apply (simp add: free inx [symmetric] at_buf_def rev_eq_append_conv)
        apply simp
        apply (rule miss [where us = "rev vs" and vs = "rev us"])
            apply (auto simp: at_buf_def inx [symmetric] rev_eq_append_conv)
        done
      subgoal using n(2) by (auto simp: at_buf_def inx [symmetric])
      done
    done
qed

text \<open>What a cache operation leaves alone.\<close>

definition bframe :: "'x bio_scheme \<Rightarrow> 'x bio_scheme \<Rightarrow> bool" where
  "bframe s t \<longleftrightarrow> woken (procs s) (procs t) \<and> (\<forall>i. slocks t (InodeLock i) = slocks s (InodeLock i)) \<and>
     t = s\<lparr>procs := procs t, slocks := slocks t, bufs := bufs t, disk := disk t, wlog := wlog t,
           cpus := cpus t, sstatus := sstatus t, locks := locks t\<rparr>"

lemma bframe_refl: "bframe s s"
  by (simp add: bframe_def)

lemma bframe_trans:
  assumes "bframe s t" "bframe t u" shows "bframe s u"
proof -
  have t: "t = s\<lparr>procs := procs t, slocks := slocks t, bufs := bufs t, disk := disk t, wlog := wlog t,
      cpus := cpus t, sstatus := sstatus t, locks := locks t\<rparr>" and
    u: "u = t\<lparr>procs := procs u, slocks := slocks u, bufs := bufs u, disk := disk u, wlog := wlog u,
      cpus := cpus u, sstatus := sstatus u, locks := locks u\<rparr>" using assms unfolding bframe_def by blast+
  have "u = (s\<lparr>procs := procs t, slocks := slocks t, bufs := bufs t, disk := disk t, wlog := wlog t,
      cpus := cpus t, sstatus := sstatus t, locks := locks t\<rparr>)\<lparr>procs := procs u, slocks := slocks u, bufs := bufs u,
      disk := disk u, wlog := wlog u, cpus := cpus u, sstatus := sstatus u, locks := locks u\<rparr>"
    using t u by presburger
  then have "u = s\<lparr>procs := procs u, slocks := slocks u, bufs := bufs u, disk := disk u, wlog := wlog u,
      cpus := cpus u, sstatus := sstatus u, locks := locks u\<rparr>" by simp
  then show ?thesis using assms woken_trans unfolding bframe_def by (metis (no_types))
qed

lemma bframe_base:
  assumes "bframe s t"
  shows "hart t = hart s" "mem t = mem s" "pp t = pp s" "bio.more t = bio.more s" "pid (procs t q) = pid (procs s q)"
proof -
  have w: "woken (procs s) (procs t)" and t: "t = s\<lparr>procs := procs t, slocks := slocks t, bufs := bufs t, disk := disk t, wlog := wlog t,
      cpus := cpus t, sstatus := sstatus t, locks := locks t\<rparr>" using assms unfolding bframe_def by blast+
  show "hart t = hart s" by (subst t) simp
  show "mem t = mem s" by (subst t) simp
  show "pp t = pp s" by (subst t) simp
  show "bio.more t = bio.more s" by (subst t) simp
  show "pid (procs t q) = pid (procs s q)" using woken_fields [OF w] by simp
qed

lemma bframeI:
  "woken (procs s) ps \<Longrightarrow> (\<And>i. sl (InodeLock i) = slocks s (InodeLock i)) \<Longrightarrow>
   bframe s (s\<lparr>procs := ps, slocks := sl, bufs := bf, disk := dk, wlog := w, cpus := c, sstatus := st, locks := l\<rparr>)"
  by (simp add: bframe_def)

text \<open>A buffer without references exists unless every buffer is in use.\<close>

lemma cache_room:
  assumes c: "cache_ok bf dk sl q d C R H" and r: "card {m. R m \<noteq> 0} < NBUF"
  shows "\<exists>b<NBUF. brefcnt (bf b) = 0"
proof (rule ccontr)
  assume "\<not> ?thesis"
  then have a: "at_buf bf d (blockno (bf b)) b" "brefcnt (bf b) \<noteq> 0" if "b < NBUF" for b
    using cache_okD(3) [OF c that] that by (auto simp: at_buf_def)
  have inj: "inj_on (\<lambda>b. blockno (bf b)) {..<NBUF}"
    by (rule inj_onI) (metis a(1) cache_okD(2) [OF c] lessThan_iff)
  have "R (blockno (bf b)) \<noteq> 0" if "b < NBUF" for b
    using cache_okD(5) [OF c a(1) [OF that]] a(2) [OF that] unat_eq_0 by metis
  then have sub: "(\<lambda>b. blockno (bf b)) ` {..<NBUF} \<subseteq> {m. R m \<noteq> 0}" by auto
  have "{m. R m \<noteq> 0} \<subseteq> (\<lambda>b. blockno (bf b)) ` {..<NBUF}"
  proof
    fix m assume "m \<in> {m. R m \<noteq> 0}"
    then obtain b where "at_buf bf d m b" using cache_okD(6) [OF c, of m] by auto
    then show "m \<in> (\<lambda>b. blockno (bf b)) ` {..<NBUF}" by (auto simp: at_buf_def)
  qed
  with sub inj r show False by (metis card_image card_lessThan less_irrefl subset_antisym)
qed

abbreviation same_bufs :: "32 word \<Rightarrow> (32 word \<Rightarrow> nat) \<Rightarrow> 'x bio_scheme \<Rightarrow> 'x bio_scheme \<Rightarrow> bool" where
  "same_bufs d R s t \<equiv> \<forall>m i. R m \<noteq> 0 \<longrightarrow> at_buf (bufs s) d m i \<longrightarrow> at_buf (bufs t) d m i"

abbreviation cache_locks_free :: "lockid list \<Rightarrow> bool" where
  "cache_locks_free L \<equiv> BcacheLock \<notin> set L \<and> (\<forall>b. SleepLk (BufLock b) \<notin> set L) \<and> (\<forall>q. ProcLock q \<notin> set L)"

lemma unat_plus_one: "unat (x :: 32 word) < 2 ^ 32 - 1 \<Longrightarrow> unat (x + 1) = unat x + 1"
  by (simp add: unat_add_lem [THEN iffD1] unat_word_ariths)

lemma wp_bread:
  assumes bst: "bstate L P p d C R H s" and L: "cache_locks_free L"
    and n: "n \<notin> H" "R n \<noteq> 0 \<or> card {m. R m \<noteq> 0} < NBUF" "R n < 2 ^ 32 - 1"
    and Q: "\<And>b t. bframe s t \<Longrightarrow> bstate L P p d C (R(n := R n + 1)) (insert n H) t \<Longrightarrow> at_buf (bufs t) d n b \<Longrightarrow>
      same_bufs d R s t \<Longrightarrow> disk t = disk s \<Longrightarrow> wlog t = wlog s \<Longrightarrow> Q b t es"
  shows "wp (bread d n) s es Q"
proof -
  note B = bstateD [OF bst] and D = cache_okD [OF bstateD(3) [OF bst]]
  obtain xs where xs: "lru_ok (bufs s) xs" using D(1) by blast
  let ?q = "pid (procs s p)" and ?R = "R(n := R n + 1)"
  have room: "(\<exists>b. at_buf (bufs s) d n b) \<or> (\<exists>b<NBUF. brefcnt (bufs s b) = 0)"
    using n(2) D(6) [of n] cache_room [OF B(3)] by auto
  have at: "b < NBUF" "bdev (bufs s b) = d" "blockno (bufs s b) = n" if "at_buf (bufs s) d n b" for b
    using that by (auto simp: at_buf_def)
  have inc: "unat (brefcnt (bufs s b) + 1) = R n + 1" if "at_buf (bufs s) d n b" for b
    using D(5) [OF that] n(3) by (simp add: unat_plus_one)
  have go: "Q b (s\<lparr>slocks := (slocks s)(BufLock b := taken ?q (slocks s (BufLock b))),
      bufs := (bufs s)(b := v), cpus := c, sstatus := st, locks := l\<rparr>) es"
    if b: "b < NBUF" "bdev v = d" "blockno v = n" "bnext v = bnext (bufs s b)" "bprev v = bprev (bufs s b)"
      and own: "at_buf (bufs s) d n b \<or> (\<forall>i. \<not> at_buf (bufs s) d n i) \<and> brefcnt (bufs s b) = 0"
      and v: "bvalid v" "bdata v = C n" "unat (brefcnt v) = R n + 1" and lk: "lkb L P (hart s) c st l" for b v c st l
  proof -
    let ?t = "s\<lparr>slocks := (slocks s)(BufLock b := taken ?q (slocks s (BufLock b))),
      bufs := (bufs s)(b := v), cpus := c, sstatus := st, locks := l\<rparr>"
    have ok: "cache_ok (bufs ?t) (disk ?t) (slocks ?t) ?q d C ?R (insert n H)"
      by (rule cache_upd [OF B(3) b own, where ct = "C n" and r = "R n + 1" and x = "disk s n"]) (use v in auto)
    have same: "same_bufs d R s ?t"
      using own D(5) b(1-3) by (auto simp: at_buf_def split: if_splits)
    have "bframe s ?t"
      using bframeI [of s "procs s" "slocks ?t"] by (simp add: bframe_def)
    then show ?thesis
      by (rule Q) (use ok same lk B b in \<open>auto simp: bstate_def at_buf_def\<close>)
  qed
  show ?thesis
    unfolding bread_def wp_simps
    apply (rule wp_bget [OF bst xs _ _ n(1) room])
       apply (use L in simp)
      apply (use L in simp)
    subgoal for b c st l
      apply (cases "bvalid (bufs s b)")
       apply (simp add: disk_rw_def)
       apply (rule go, simp_all add: inc at D(4)) [1]
      apply (simp add: disk_rw_def)
      apply (rule go, simp_all add: inc at D(4)) [1]
      done
    subgoal for b us vs c st l
      apply (simp add: disk_rw_def)
      apply (rule go, use xs D(6) in \<open>auto simp: at_buf_def lru_ok_def\<close>)
      done
    done
qed

lemma wp_bdata:
  assumes bst: "bstate L P p d C R H s" and n: "n \<in> H" "at_buf (bufs s) d n b"
    and f: "f (bufs s b) = (bufs s b)\<lparr>bdata := x\<rparr>"
    and Q: "\<And>t. bframe s t \<Longrightarrow> bstate L P p d (C(n := x)) R H t \<Longrightarrow> same_bufs d R s t \<Longrightarrow> at_buf (bufs t) d n b \<Longrightarrow>
      disk t = disk s \<Longrightarrow> wlog t = wlog s \<Longrightarrow> Q () t es"
  shows "wp (upd_buf b f) s es Q"
proof -
  note B = bstateD [OF bst] and h = cache_held [OF bstateD(3) [OF bst] n]
  let ?t = "s\<lparr>bufs := (bufs s)(b := (bufs s b)\<lparr>bdata := x\<rparr>)\<rparr>"
  have b: "b < NBUF" "bdev (bufs s b) = d" "blockno (bufs s b) = n" using n(2) by (auto simp: at_buf_def)
  have "cache_ok (bufs ?t) (disk ?t) (slocks ?t) (pid (procs s p)) d (C(n := x)) R H"
    by (rule cache_upd [OF B(3) b(1), where n = n and ct = x and r = "R n" and x = "disk s n" and k = "slocks s (BufLock b)"])
       (use b h n in auto)
  moreover have "bframe s ?t" by (simp add: bframe_def)
  ultimately have "Q () ?t es" by (intro Q) (use B b in \<open>auto simp: bstate_def at_buf_def\<close>)
  then show ?thesis by (simp add: f)
qed

lemma wp_bwrite:
  assumes bst: "bstate L P p d C R H s" and L: "cache_locks_free L" and n: "n \<in> H" "at_buf (bufs s) d n b"
    and Q: "\<And>t. bframe s t \<Longrightarrow> bstate L P p d C R H t \<Longrightarrow> same_bufs d R s t \<Longrightarrow> at_buf (bufs t) d n b \<Longrightarrow>
      disk t = (disk s)(n := C n) \<Longrightarrow> wlog t = wlog s @ [(n, C n)] \<Longrightarrow> Q () t es"
  shows "wp (bwrite b) s es Q"
proof -
  note B = bstateD [OF bst] and h = cache_held [OF bstateD(3) [OF bst] n]
  have b: "b < NBUF" "bdev (bufs s b) = d" "blockno (bufs s b) = n" using n(2) by (auto simp: at_buf_def)
  have ok: "cache_ok (bufs s) ((disk s)(n := C n)) (slocks s) (pid (procs s p)) d C R H"
    by (rule cache_upd [OF B(3) b(1), where n = n and ct = "C n" and r = "R n" and x = "C n" and k = "slocks s (BufLock b)" and v = "bufs s b"])
       (use b h n in auto)
  show ?thesis
    unfolding bwrite_def wp_simps
    apply (rule wp_holdingsleep [OF B(1) _ B(2)], use L in simp)
    apply (simp add: h disk_rw_def b)
    apply (rule Q)
         apply (simp add: bframe_def)
        apply (use ok B h b in \<open>auto simp: bstate_def at_buf_def\<close>)
    done
qed

text \<open>The four assignments that move a buffer to the front of the ring.\<close>

lemma wp_move_front:
  "wp (move_front b) s es Q = Q () (s\<lparr>bufs := push_buf (unlink_buf (bufs s) b) b\<rparr>) es"
  by (simp del: fun_upd_apply add: move_front_def link_pointers_def link_front_def push_buf_def unlink_buf_def Let_def)

lemma unlink_fields:
  "bvalid (unlink_buf f b x) = bvalid (f x)" "bdev (unlink_buf f b x) = bdev (f x)"
  "blockno (unlink_buf f b x) = blockno (f x)" "brefcnt (unlink_buf f b x) = brefcnt (f x)"
  "bdata (unlink_buf f b x) = bdata (f x)"
  by (simp_all add: unlink_buf_def Let_def)

lemma push_field:
  assumes g: "\<And>v y. g (v\<lparr>bnext := y\<rparr>) = g v" "\<And>v y. g (v\<lparr>bprev := y\<rparr>) = g v"
  shows "g (push_buf f b x) = g (f x)"
proof -
  define f1 where "f1 = f(b := (f b)\<lparr>bnext := bnext (f BHEAD)\<rparr>)"
  define f2 where "f2 = f1(b := (f1 b)\<lparr>bprev := BHEAD\<rparr>)"
  define f3 where "f3 = f2(bnext (f2 BHEAD) := (f2 (bnext (f2 BHEAD)))\<lparr>bprev := b\<rparr>)"
  have "push_buf f b = f3(BHEAD := (f3 BHEAD)\<lparr>bnext := b\<rparr>)"
    unfolding push_buf_def Let_def f3_def f2_def f1_def ..
  then have "g (push_buf f b x) = g (f3 x)" by (simp add: g)
  also have "\<dots> = g (f2 x)" by (simp add: f3_def g)
  also have "\<dots> = g (f1 x)" by (simp add: f2_def g)
  also have "\<dots> = g (f x)" by (simp add: f1_def g)
  finally show ?thesis .
qed

lemma push_fields:
  "bvalid (push_buf f b x) = bvalid (f x)" "bdev (push_buf f b x) = bdev (f x)"
  "blockno (push_buf f b x) = blockno (f x)" "brefcnt (push_buf f b x) = brefcnt (f x)"
  "bdata (push_buf f b x) = bdata (f x)"
  by (rule push_field; simp)+

lemmas relink_fields = push_fields unlink_fields

lemma lru_relink:
  assumes "lru_ok f xs" "b < NBUF" shows "lru_ok (push_buf (unlink_buf f b) b) (b # remove1 b xs)"
proof -
  have "b \<in> set xs" using assms by (auto simp: lru_ok_def)
  then obtain us vs where xs: "xs = us @ b # vs" by (meson split_list)
  have d: "distinct (BHEAD # us @ b # vs)" using assms lru_okD(1) [OF assms(1)] by (auto simp: lru_ok_def xs)
  then have r: "remove1 b xs = us @ vs" by (simp add: xs remove1_append)
  have "ring (push_buf (unlink_buf f b) b) (b # us @ vs)"
    by (rule ring_push [OF ring_unlink]) (use assms d in \<open>auto simp: lru_ok_def xs\<close>)
  with assms d show ?thesis unfolding lru_ok_def r by (auto simp: xs)
qed

lemma unat_minus_one32: "(x :: 32 word) \<noteq> 0 \<Longrightarrow> unat (x - 1) = unat x - 1"
  by (simp add: unat_minus_one)

text \<open>Dropping a reference: the count goes down and the lock, if given up, is free.\<close>

lemma cache_drop:
  assumes c: "cache_ok bf dk sl q d C R H" and n: "n \<in> H" "at_buf bf d n b" and last: "R n = 1 \<Longrightarrow> C n = dk n"
  shows "cache_ok (bf(b := (bf b)\<lparr>brefcnt := brefcnt (bf b) - 1\<rparr>)) dk (sl(BufLock b := freed k)) q d C (R(n := R n - 1)) (H - {n})"
proof -
  note h = cache_held [OF c n]
  have b: "b < NBUF" "bdev (bf b) = d" "blockno (bf b) = n" using n(2) by (auto simp: at_buf_def)
  have r: "unat (brefcnt (bf b) - 1) = R n - 1"
    using h(2,6) by (subst unat_minus_one32) auto
  show ?thesis
    by (rule cache_upd [OF c b(1), where n = n and ct = "C n" and r = "R n - 1" and x = "dk n" and k = "freed k"])
       (use b h n r last in auto)
qed

lemma cache_drop_held:
  assumes c: "cache_ok bf dk sl q d C R H" and n: "n \<in> H" "at_buf bf d n b" and more: "R n > 1"
  shows "cache_ok (bf(b := (bf b)\<lparr>brefcnt := brefcnt (bf b) - 1\<rparr>)) dk sl q d C (R(n := R n - 1)) H"
proof -
  note h = cache_held [OF c n]
  have b: "b < NBUF" "bdev (bf b) = d" "blockno (bf b) = n" using n(2) by (auto simp: at_buf_def)
  have r: "unat (brefcnt (bf b) - 1) = R n - 1"
    using h(2,6) by (subst unat_minus_one32) auto
  show ?thesis
    by (rule cache_upd [OF c b(1), where n = n and ct = "C n" and r = "R n - 1" and x = "dk n" and k = "sl (BufLock b)"])
       (use b h n r more in auto)
qed

lemma cache_pin:
  assumes c: "cache_ok bf dk sl q d C R H" and n: "n \<in> H" "at_buf bf d n b" and max: "R n < 2 ^ 32 - 1"
  shows "cache_ok (bf(b := (bf b)\<lparr>brefcnt := brefcnt (bf b) + 1\<rparr>)) dk sl q d C (R(n := R n + 1)) H"
proof -
  note h = cache_held [OF c n]
  have b: "b < NBUF" "bdev (bf b) = d" "blockno (bf b) = n" using n(2) by (auto simp: at_buf_def)
  have r: "unat (brefcnt (bf b) + 1) = R n + 1" using h(6) max by (simp add: unat_plus_one)
  show ?thesis
    by (rule cache_upd [OF c b(1), where n = n and ct = "C n" and r = "R n + 1" and x = "dk n" and k = "sl (BufLock b)"])
       (use b h n r in auto)
qed

lemma wp_brelse:
  assumes bst: "bstate L P p d C R H s" and L: "cache_locks_free L" and n: "n \<in> H" "at_buf (bufs s) d n b"
    and last: "R n = 1 \<Longrightarrow> C n = disk s n"
    and Q: "\<And>t. bframe s t \<Longrightarrow> bstate L P p d C (R(n := R n - 1)) (H - {n}) t \<Longrightarrow> same_bufs d R s t \<Longrightarrow>
      disk t = disk s \<Longrightarrow> wlog t = wlog s \<Longrightarrow>
      (\<forall>xs. R n = 1 \<longrightarrow> lru_ok (bufs s) xs \<longrightarrow> lru_ok (bufs t) (b # remove1 b xs)) \<Longrightarrow> Q () t es"
  shows "wp (brelse b) s es Q"
proof -
  note B = bstateD [OF bst] and h = cache_held [OF bstateD(3) [OF bst] n]
  let ?bf = "(bufs s)(b := (bufs s b)\<lparr>brefcnt := brefcnt (bufs s b) - 1\<rparr>)"
    and ?sl = "(slocks s)(BufLock b := freed (slocks s (BufLock b)))"
  have ok: "cache_ok ?bf (disk s) ?sl (pid (procs s p)) d C (R(n := R n - 1)) (H - {n})"
    by (rule cache_drop [OF B(3) n last])
  then obtain xs where xs: "lru_ok ?bf xs" using cache_okD(1) by blast
  have b: "b < NBUF" using n(2) by (simp add: at_buf_def)
  have zero: "brefcnt (bufs s b) - 1 = 0 \<longleftrightarrow> R n = 1"
    using h(2,6) unat_minus_one32 [of "brefcnt (bufs s b)"] by (auto simp: unat_eq_0 [symmetric])
  have lru: "\<forall>xs. lru_ok (bufs s) xs \<longrightarrow> lru_ok (push_buf (unlink_buf ?bf b) b) (b # remove1 b xs)"
    using lru_relink [OF lru_ok_upd b] by auto
  have ok': "cache_ok (push_buf (unlink_buf ?bf b) b) (disk s) ?sl (pid (procs s p)) d C (R(n := R n - 1)) (H - {n})"
    by (rule cache_ok_ptrs [OF ok lru_relink [OF xs b]]) (simp_all add: relink_fields)
  have go: "Q () (s\<lparr>procs := ps, slocks := ?sl, bufs := bf', cpus := c, sstatus := st, locks := l\<rparr>) es"
    if ok: "cache_ok bf' (disk s) ?sl (pid (procs s p)) d C (R(n := R n - 1)) (H - {n})"
      and f: "\<And>i. bdev (bf' i) = bdev (bufs s i)" "\<And>i. blockno (bf' i) = blockno (bufs s i)"
      and lru: "\<forall>xs. R n = 1 \<longrightarrow> lru_ok (bufs s) xs \<longrightarrow> lru_ok bf' (b # remove1 b xs)"
      and ps: "woken (procs s) ps" and lk: "lkb L P (hart s) c st l" for bf' ps c st l
  proof (rule Q)
    show "bframe s (s\<lparr>procs := ps, slocks := ?sl, bufs := bf', cpus := c, sstatus := st, locks := l\<rparr>)"
      using ps by (simp add: bframe_def)
    show "bstate L P p d C (R(n := R n - 1)) (H - {n}) (s\<lparr>procs := ps, slocks := ?sl, bufs := bf', cpus := c, sstatus := st, locks := l\<rparr>)"
      using ok lk B woken_fields [OF ps] by (simp add: bstate_def)
  qed (use f lru in \<open>auto simp: at_buf_def\<close>)
  show ?thesis
    unfolding brelse_def wp_simps
    apply (rule wp_holdingsleep [OF B(1) _ B(2)], use L in simp)
    apply (simp add: h del: fun_upd_apply seqM.simps)
    apply (rule wp_releasesleep, simp, use L in simp, use L in simp)
    apply (rule wp_acquire, simp, use L in simp)
    apply (simp del: fun_upd_apply add: wp_move_front)
    apply (intro conjI impI)
     apply (rule wp_release, simp, simp, simp del: fun_upd_apply)
     apply (rule go [OF ok'], simp add: relink_fields, simp add: relink_fields, simp add: lru del: fun_upd_apply, assumption, simp)
    apply (rule wp_release, simp, simp, simp del: fun_upd_apply)
    apply (rule go [OF ok], simp, simp, use zero in simp, assumption, simp)
    done
qed

lemma wp_bpin:
  assumes bst: "bstate L P p d C R H s" and L: "BcacheLock \<notin> set L" and n: "n \<in> H" "at_buf (bufs s) d n b"
    and max: "R n < 2 ^ 32 - 1"
    and Q: "\<And>t. bframe s t \<Longrightarrow> bstate L P p d C (R(n := R n + 1)) H t \<Longrightarrow> same_bufs d R s t \<Longrightarrow> at_buf (bufs t) d n b \<Longrightarrow>
      disk t = disk s \<Longrightarrow> wlog t = wlog s \<Longrightarrow> Q () t es"
  shows "wp (bpin b) s es Q"
proof -
  note B = bstateD [OF bst]
  show ?thesis
    unfolding bpin_def wp_simps
    apply (rule wp_acquire [OF B(1) L])
    apply (simp del: fun_upd_apply)
    apply (rule wp_release, simp, simp, simp del: fun_upd_apply)
    apply (rule Q)
         apply (simp add: bframe_def)
        apply (use cache_pin [OF B(3) n max] B(2) in \<open>simp add: bstate_def\<close>)
    using n(2) by (auto simp: at_buf_def)
qed

lemma wp_bunpin:
  assumes bst: "bstate L P p d C R H s" and L: "BcacheLock \<notin> set L" and n: "n \<in> H" "at_buf (bufs s) d n b"
    and more: "R n > 1"
    and Q: "\<And>t. bframe s t \<Longrightarrow> bstate L P p d C (R(n := R n - 1)) H t \<Longrightarrow> same_bufs d R s t \<Longrightarrow> at_buf (bufs t) d n b \<Longrightarrow>
      disk t = disk s \<Longrightarrow> wlog t = wlog s \<Longrightarrow> Q () t es"
  shows "wp (bunpin b) s es Q"
proof -
  note B = bstateD [OF bst]
  show ?thesis
    unfolding bunpin_def wp_simps
    apply (rule wp_acquire [OF B(1) L])
    apply (simp del: fun_upd_apply)
    apply (rule wp_release, simp, simp, simp del: fun_upd_apply)
    apply (rule Q)
         apply (simp add: bframe_def)
        apply (use cache_drop_held [OF B(3) n more] B(2) in \<open>simp add: bstate_def\<close>)
    using n(2) by (auto simp: at_buf_def)
qed

section \<open>Initialisation\<close>

lemma wp_link_new:
  "wp (link_pointers b) s es Q = Q () (s\<lparr>bufs := (bufs s)(b := (bufs s b)\<lparr>bnext := bnext (bufs s BHEAD), bprev := BHEAD\<rparr>)\<rparr>) es"
  "wp (link_front b) s es R =
     (let f = (bufs s)(bnext (bufs s BHEAD) := (bufs s (bnext (bufs s BHEAD)))\<lparr>bprev := b\<rparr>) in
      R () (s\<lparr>bufs := f(BHEAD := (f BHEAD)\<lparr>bnext := b\<rparr>)\<rparr>) es)"
  by (simp_all add: link_pointers_def link_front_def Let_def del: fun_upd_apply) (simp add: fun_upd_def)

lemma wp_binit_step:
  assumes lk: "lkst [] P s"
    and Q: "\<And>l. lkb [] P (hart s) (cpus s) (sstatus s) l \<Longrightarrow>
      Q () (s\<lparr>slocks := (slocks s)(BufLock b := freed (slocks s (BufLock b)\<lparr>slname := ''buffer''\<rparr>)),
              bufs := push_buf (bufs s) b, locks := l\<rparr>) es"
  shows "wp (seqM [link_pointers b, initsleeplock (BufLock b) ''buffer'', link_front b]) s es Q"
proof -
  have "(let f = (bufs s)(b := (bufs s b)\<lparr>bnext := bnext (bufs s BHEAD), bprev := BHEAD\<rparr>);
      g = f(bnext (f BHEAD) := (f (bnext (f BHEAD)))\<lparr>bprev := b\<rparr>) in g(BHEAD := (g BHEAD)\<lparr>bnext := b\<rparr>)) = push_buf (bufs s) b"
    by (simp add: push_buf_def Let_def del: fun_upd_apply) (simp add: fun_upd_def)
  note eq = this [unfolded Let_def]
  show ?thesis
    unfolding wp_simps wp_link_new
    apply (rule wp_initsleeplock [where L = "[]" and P = P], simp add: lk, simp)
    apply (simp only: Let_def)
    apply (simp del: fun_upd_apply add: eq Q)
    done
qed

lemma wp_binit:
  fixes s :: "'x bio_scheme"
  assumes lk: "lkst [] P s"
    and Q: "\<And>t :: 'x bio_scheme. lkst [] P t \<Longrightarrow> hart t = hart s \<Longrightarrow> disk t = disk s \<Longrightarrow> procs t = procs s \<Longrightarrow> lru_ok (bufs t) (rev [0..<NBUF]) \<Longrightarrow>
      (\<And>b. bdev (bufs t b) = bdev (bufs s b) \<and> brefcnt (bufs t b) = brefcnt (bufs s b)) \<Longrightarrow>
      (\<And>b. b < NBUF \<Longrightarrow> slocked (slocks t (BufLock b)) = 0) \<Longrightarrow> Q () t es"
  shows "wp binit s es Q"
proof -
  define I where "I = (\<lambda>ds (t :: 'x bio_scheme) fs. fs = es \<and> lkst [] P t \<and> hart t = hart s \<and> disk t = disk s \<and> procs t = procs s \<and>
    ring (bufs t) (rev ds) \<and>
    (\<forall>b. bdev (bufs t b) = bdev (bufs s b) \<and> brefcnt (bufs t b) = brefcnt (bufs s b)) \<and>
    (\<forall>b\<in>set ds. slocked (slocks t (BufLock b)) = 0))"
  have loop: "wp (forM [0..<NBUF] (\<lambda>b. seqM [link_pointers b, initsleeplock (BufLock b) ''buffer'', link_front b])) t es (\<lambda>_. Q ())"
    if "I [] t es" for t :: "'x bio_scheme"
  proof (rule wp_forM_inv [where I = I])
    show "I [] t es" by (rule that)
    fix ds i rest u fs assume sp: "[0..<NBUF] = ds @ i # rest" and I: "I ds u fs"
    have "distinct (ds @ i # rest)" "set (ds @ i # rest) = {0..<NBUF}" using sp by (metis distinct_upt, metis set_upt)
    then have d: "distinct (BHEAD # i # rev ds)" by (auto simp: BHEAD_def)
    show "wp (seqM [link_pointers i, initsleeplock (BufLock i) ''buffer'', link_front i]) u fs (\<lambda>_ v gs. I (ds @ [i]) v gs)"
      by (rule wp_binit_step [where P = P]) (use I ring_push [OF _ d, of "bufs u"] in \<open>auto simp: I_def push_fields\<close>)
  next
    fix u fs assume I: "I [0..<NBUF] u fs"
    then have "lru_ok (bufs u) (rev [0..<NBUF])" by (auto simp: I_def lru_ok_def)
    with I show "Q () u fs" unfolding I_def by (auto intro!: Q)
  qed
  show ?thesis
    unfolding binit_def wp_simps
    apply (rule wp_initlock [OF lk], simp)
    apply (simp only: wp_buf)
    apply (rule loop)
    apply (simp add: I_def ring_def)
    done
qed

lemma fails_bget:
  assumes lk: "lkst L P s" "BcacheLock \<notin> set L" and xs: "lru_ok (bufs s) xs"
    and miss: "\<forall>b. \<not> at_buf (bufs s) d n b" and busy: "\<forall>b<NBUF. brefcnt (bufs s b) \<noteq> 0"
  shows "fails (bget d n) s es ''bget: no buffers''"
proof -
  note X = lru_okD [OF xs]
  have inx: "b \<in> set xs \<longleftrightarrow> b < NBUF" for b using xs by (auto simp: lru_ok_def)
  show ?thesis
    unfolding bget_def
    apply (rule fails_doM(2), rule wp_acquire [OF lk])
    apply (rule fails_doM(2))
    unfolding bget_cached_def wp_simps wp_buf
    apply (rule wp_walk_chain [where xs = xs])
        apply (simp add: X(3))
       apply (simp add: X(1))
      apply (simp add: X(2))
    subgoal using miss by (auto simp: at_buf_def inx [symmetric])
    subgoal
      unfolding option.case
      apply (rule fails_doM(2))
      unfolding bget_recycle_def wp_simps wp_buf
      apply (rule wp_walk_chain [where xs = "rev xs"])
          apply (simp add: X(4))
         apply (simp add: X(1))
        apply (simp add: X(2))
      subgoal for us b vs
        using busy by (auto simp: inx [symmetric] rev_eq_append_conv)
      subgoal by simp
      done
    done
qed

section \<open>Properties\<close>

text \<open>A cache of thirty unused buffers, linked as \<open>binit\<close> links them, over an empty disk.\<close>

definition demo_bufs :: "nat \<Rightarrow> buf" where
  "demo_bufs b = \<lparr>bvalid = False, bdisk = False, bdev = 0, blockno = 0, brefcnt = 0,
     bprev = (if b = 30 then 0 else b + 1), bnext = (if b = 0 then 30 else b - 1), bdata = []\<rparr>"

definition demo_bio :: bio where
  "demo_bio = proc.extend (demo_pm\<lparr>slocks := (\<lambda>_. \<lparr>slocked = 0, slname = [], slpid = 0\<rparr>)\<rparr>)
     (bio.fields demo_bufs (\<lambda>n. replicate 1024 (ucast n)) [])"

lemma demo_bio_fields [simp]:
  "hart demo_bio = 0" "procs demo_bio = demo_proc" "bufs demo_bio = demo_bufs" "disk demo_bio = (\<lambda>n. replicate 1024 (ucast n))"
  "wlog demo_bio = []" "slocked (slocks demo_bio i) = 0"
  by (simp_all add: demo_bio_def demo_pm_def demo_kmem_def demo_slk_def demo_sched_def sched.defs slk.defs kmem.defs vm.defs proc.defs bio.defs)

lemma demo_bio_lkst: "lkst [] demo_P demo_bio"
  by (simp add: demo_bio_def demo_pm_def demo_kmem_def demo_slk_def demo_sched_def sched.defs slk.defs kmem.defs vm.defs proc.defs bio.defs lkb_def)

lemma NBUF_30: "NBUF = 30"
  by (simp add: NBUF_def MAXOPBLOCKS_def)

lemma demo_lru: "lru_ok demo_bufs (rev [0..<30])"
proof -
  have "ring demo_bufs (rev [0..<30])" unfolding ring_def BHEAD_def NBUF_30 by code_simp
  then show ?thesis by (auto simp: lru_ok_def NBUF_30)
qed

lemma fresh_cache_ok:
  assumes "lru_ok bf xs" "\<And>b. b < NBUF \<Longrightarrow> bdev (bf b) = 0 \<and> brefcnt (bf b) = 0" "d \<noteq> 0"
    "\<And>b. b < NBUF \<Longrightarrow> slocked (sl (BufLock b)) = 0"
  shows "cache_ok bf dk sl q d dk (\<lambda>_. 0) {}"
  using assms unfolding cache_ok_def at_buf_def by auto

lemma demo_bstate: "bstate [] demo_P 1 1 (disk demo_bio) (\<lambda>_. 0) {} demo_bio"
  using fresh_cache_ok [OF demo_lru, of 1 "slocks demo_bio" "disk demo_bio" "pid (demo_proc 1)"] demo_bio_lkst
  by (simp add: bstate_def demo_bufs_def)

text \<open>
  C34.  \<open>binit\<close>, run on the zeroed cache, links all the buffers into one ring and leaves a
  cache in which every block reads as it is on the disk, no block is referenced and no
  buffer is locked.
\<close>

theorem binit_makes_cache:
  fixes s :: "'x bio_scheme"
  assumes "lkst [] P s" "\<And>b. b < NBUF \<Longrightarrow> bdev (bufs s b) = 0 \<and> brefcnt (bufs s b) = 0" "d \<noteq> 0"
  shows "\<exists>t. binit s es = Done () t es \<and> lru_ok (bufs t) (rev [0..<NBUF]) \<and> disk t = disk s \<and>
    cache_ok (bufs t) (disk t) (slocks t) q d (disk s) (\<lambda>_. 0) {}"
proof -
  have "wp binit s es (\<lambda>_ t fs. fs = es \<and> lru_ok (bufs t) (rev [0..<NBUF]) \<and> disk t = disk s \<and>
      cache_ok (bufs t) (disk t) (slocks t) q d (disk s) (\<lambda>_. 0) {})"
    by (rule wp_binit [OF assms(1)]) (use assms(2,3) in \<open>auto intro!: fresh_cache_ok\<close>)
  then show ?thesis by (auto simp: wp_iff)
qed

lemma binit_makes_cache_witness:
  "\<exists>t. binit demo_bio [] = Done () t [] \<and> cache_ok (bufs t) (disk t) (slocks t) 1 1 (disk demo_bio) (\<lambda>_. 0) {}"
  using binit_makes_cache [OF demo_bio_lkst, of 1 "[]" 1] by (auto simp: demo_bufs_def)

text \<open>
  C4.  The cache implements a map from blocks to contents.  \<open>bread\<close> of a block that the
  process does not hold, when a buffer can be had, returns a buffer that holds the block's
  current contents, whether or not the block was cached, with its sleep-lock owned by the
  process, and neither the contents of any block nor the disk change.
\<close>

theorem bread_implements_map:
  fixes s :: "'x bio_scheme"
  assumes "bstate [] P p d C R H s" "n \<notin> H" "R n \<noteq> 0 \<or> card {m. R m \<noteq> 0} < NBUF" "R n < 2 ^ 32 - 1"
  shows "\<exists>b t. bread d n s es = Done b t es \<and> bstate [] P p d C (R(n := R n + 1)) (insert n H) t \<and>
    at_buf (bufs t) d n b \<and> bdata (bufs t b) = C n \<and> slpid (slocks t (BufLock b)) = pid (procs t p) \<and>
    disk t = disk s \<and> wlog t = wlog s"
proof -
  have "wp (bread d n) s es (\<lambda>b t fs. fs = es \<and> bstate [] P p d C (R(n := R n + 1)) (insert n H) t \<and>
      at_buf (bufs t) d n b \<and> bdata (bufs t b) = C n \<and> slpid (slocks t (BufLock b)) = pid (procs t p) \<and>
      disk t = disk s \<and> wlog t = wlog s)"
    apply (rule wp_bread [OF assms(1) _ assms(2-4)], simp)
    subgoal for b t using cache_held [OF bstateD(3), of "[]" P p d C _ "insert n H" t n b] by blast
    done
  then show ?thesis by (auto simp: wp_iff)
qed

lemma bread_implements_map_witness:
  "bstate [] demo_P 1 1 (disk demo_bio) (\<lambda>_. 0) {} demo_bio \<and>
   (\<exists>b t. bread 1 7 demo_bio [] = Done b t [] \<and> bdata (bufs t b) = replicate 1024 7)"
proof -
  have "card {m :: 32 word. (0 :: nat) \<noteq> 0} < NBUF" by (simp add: NBUF_30)
  with bread_implements_map [OF demo_bstate, of 7 "[]"] obtain b t where
    "bread 1 7 demo_bio [] = Done b t []" "bdata (bufs t b) = disk demo_bio 7" by auto
  with demo_bstate show ?thesis by auto
qed

text \<open>
  C33.  Replacement is least recently used.  With the buffers listed from the most to the
  least recently released, a miss recycles the last one without references, and a buffer
  whose last reference is released becomes the first of the list.
\<close>

theorem lru_replacement:
  fixes s :: "'x bio_scheme"
  assumes bst: "bstate [] P p d C R H s" and xs: "lru_ok (bufs s) xs"
  shows "(n \<notin> H \<and> (\<forall>i. \<not> at_buf (bufs s) d n i) \<and> (\<exists>i<NBUF. brefcnt (bufs s i) = 0) \<longrightarrow>
      (\<exists>b t us vs. bget d n s es = Done b t es \<and> xs = us @ b # vs \<and> brefcnt (bufs s b) = 0 \<and>
        (\<forall>v\<in>set vs. brefcnt (bufs s v) \<noteq> 0) \<and> lru_ok (bufs t) xs)) \<and>
    (m \<in> H \<and> at_buf (bufs s) d m b \<and> R m = 1 \<and> C m = disk s m \<longrightarrow>
      (\<exists>t. brelse b s es = Done () t es \<and> lru_ok (bufs t) (b # remove1 b xs)))"
proof (intro conjI impI; elim conjE)
  assume a: "n \<notin> H" "\<forall>i. \<not> at_buf (bufs s) d n i" "\<exists>i<NBUF. brefcnt (bufs s i) = 0"
  have "wp (bget d n) s es (\<lambda>b t fs. fs = es \<and> (\<exists>us vs. xs = us @ b # vs \<and> brefcnt (bufs s b) = 0 \<and>
      (\<forall>v\<in>set vs. brefcnt (bufs s v) \<noteq> 0)) \<and> lru_ok (bufs t) xs)"
    apply (rule wp_bget [OF bst xs _ _ a(1)], simp, simp, use a in simp, use a in simp)
    using xs lru_ok_upd [OF xs] by (auto simp: at_buf_def)
  then show "\<exists>b t us vs. bget d n s es = Done b t es \<and> xs = us @ b # vs \<and> brefcnt (bufs s b) = 0 \<and>
      (\<forall>v\<in>set vs. brefcnt (bufs s v) \<noteq> 0) \<and> lru_ok (bufs t) xs" by (auto simp: wp_iff)
next
  assume a: "m \<in> H" "at_buf (bufs s) d m b" "R m = 1" "C m = disk s m"
  have "wp (brelse b) s es (\<lambda>_ t fs. fs = es \<and> lru_ok (bufs t) (b # remove1 b xs))"
    by (rule wp_brelse [OF bst _ a(1,2)]) (use a xs in auto)
  then show "\<exists>t. brelse b s es = Done () t es \<and> lru_ok (bufs t) (b # remove1 b xs)" by (auto simp: wp_iff)
qed

lemma lru_replacement_witness:
  "\<exists>b t. bget 1 7 demo_bio [] = Done b t [] \<and> b = 0"
proof -
  have "\<forall>i. \<not> at_buf (bufs demo_bio) 1 7 i" "\<exists>i<NBUF. brefcnt (bufs demo_bio i) = 0"
    by (auto simp: at_buf_def demo_bufs_def NBUF_30 intro: exI [of _ 0])
  with lru_replacement [OF demo_bstate, of "rev [0..<30]" 7 "[]"] demo_lru
  obtain b t us vs where g: "bget 1 7 demo_bio [] = Done b t []" and l: "rev [0..<30] = us @ b # vs"
    and v: "\<forall>v\<in>set vs. brefcnt (demo_bufs v) \<noteq> 0" by auto
  have "vs = []" using v by (cases vs) (auto simp: demo_bufs_def)
  with l have "b = last (rev [0..<30])" by simp
  with g show ?thesis by (auto simp: last_rev)
qed

text \<open>
  When the block is not cached and every buffer is referenced, \<open>bread\<close> panics with
  \<open>bget: no buffers\<close>.
\<close>

theorem bread_no_buffers:
  fixes s :: "'x bio_scheme"
  assumes "lkst [] P s" "lru_ok (bufs s) xs" "\<forall>b. \<not> at_buf (bufs s) d n b" "\<forall>b<NBUF. brefcnt (bufs s b) \<noteq> 0"
  shows "bread d n s es = Panic ''bget: no buffers''"
proof -
  have "fails (bread d n) s es ''bget: no buffers''"
    unfolding bread_def by (rule fails_doM(1), rule fails_bget [OF assms(1) _ assms(2-4)]) simp
  then show ?thesis by (simp add: fails_def)
qed

lemma bread_no_buffers_witness:
  "\<exists>s :: bio. lru_ok (bufs s) (rev [0..<30]) \<and> bread 1 7 s [] = Panic ''bget: no buffers''"
proof -
  let ?f = "\<lambda>b. demo_bufs b\<lparr>brefcnt := 1\<rparr>"
  have "ring ?f (rev [0..<30]) = ring demo_bufs (rev [0..<30])" by (rule ring_cong) auto
  then have l: "lru_ok ?f (rev [0..<30])" using demo_lru by (simp add: lru_ok_def)
  have "bread 1 7 (demo_bio\<lparr>bufs := ?f\<rparr>) [] = Panic ''bget: no buffers''"
    by (rule bread_no_buffers [where P = demo_P and xs = "rev [0..<30]"])
       (use l demo_bio_lkst in \<open>auto simp: at_buf_def demo_bufs_def\<close>)
  with l show ?thesis by (intro exI [of _ "demo_bio\<lparr>bufs := ?f\<rparr>"]) simp
qed

end
