(* ===== verification/Log.thy ===== *)
theory Log
  imports Bcache
begin

text \<open>
  The redo log, \<^verbatim>\<open>kernel/log.c\<close>.  The in-memory header is \<open>lh_n\<close> and \<open>lh_block\<close>; on disk it
  is the block at \<open>log.start\<close>, encoded as \<open>struct logheader\<close> (a 32-bit count followed by
  32-bit block numbers).
\<close>

section \<open>State\<close>

record logst =
  lstart :: "32 word"
  lsize :: int
  outstanding :: int
  committing :: bool
  ldev :: "32 word"
  lh_n :: int
  lh_block :: "nat \<Rightarrow> 32 word"

record superblock =
  sb_magic :: "32 word"
  sb_size :: "32 word"
  sb_nblocks :: "32 word"
  sb_ninodes :: "32 word"
  sb_nlog :: "32 word"
  sb_logstart :: "32 word"
  sb_inodestart :: "32 word"
  sb_bmapstart :: "32 word"

record logs = bio +
  log :: logst

lemma logs_upd_order [simp]:
  fixes s :: "'x logs_scheme"
  shows
  "log_update u_l (locks_update u_locks s) = locks_update u_locks (log_update u_l s)"
  "log_update u_l (sstatus_update u_sstatus s) = sstatus_update u_sstatus (log_update u_l s)"
  "log_update u_l (cpus_update u_cpus s) = cpus_update u_cpus (log_update u_l s)"
  "procs_update u_procs (log_update u_l s) = log_update u_l (procs_update u_procs s)"
  "slocks_update u_sl (log_update u_l s) = log_update u_l (slocks_update u_sl s)"
  "bufs_update u_b (log_update u_l s) = log_update u_l (bufs_update u_b s)"
  "disk_update u_d (log_update u_l s) = log_update u_l (disk_update u_d s)"
  "wlog_update u_w (log_update u_l s) = log_update u_l (wlog_update u_w s)"
  "pp_update u_pp (log_update u_l s) = log_update u_l (pp_update u_pp s)"
  "mem_update u_mem (log_update u_l s) = log_update u_l (mem_update u_mem s)"
  by simp_all

definition LOGSIZE :: nat where "LOGSIZE = MAXOPBLOCKS * 3"

definition upd_log :: "(logst \<Rightarrow> logst) \<Rightarrow> ('x logs_scheme, unit) M" where
  "upd_log f = modifyM (\<lambda>s. s\<lparr>log := f (log s)\<rparr>)"

definition get_log :: "('x logs_scheme, logst) M" where
  "get_log = getsM log"

text \<open>32-bit fields of a buffer.\<close>

definition rd32 :: "byte list \<Rightarrow> nat \<Rightarrow> 32 word" where
  "rd32 bs off = le_word (slice bs off 4)"

definition wr32 :: "byte list \<Rightarrow> nat \<Rightarrow> 32 word \<Rightarrow> byte list" where
  "wr32 bs off v = blit bs off (le_bytes 4 v)"

text \<open>The size of \<open>struct logheader\<close>.\<close>

definition sizeof_logheader :: nat where
  "sizeof_logheader = 4 + 4 * LOGSIZE"

section \<open>Operations\<close>

definition install_trans :: "bool \<Rightarrow> ('x logs_scheme, unit) M" where
  "install_trans recovering =
     doM get_log (\<lambda>l0. forM [0..<nat (lh_n l0)] (\<lambda>tail.
       doM get_log (\<lambda>l.
       doM (bread (ldev l) (lstart l + of_nat tail + 1)) (\<lambda>lbuf.
       doM (bread (ldev l) (lh_block l tail)) (\<lambda>dbuf.
       doM (get_buf lbuf) (\<lambda>lb.
       seqM [
         upd_buf dbuf (\<lambda>d. d\<lparr>bdata := bdata lb\<rparr>),
         bwrite dbuf,
         whenM (\<not> recovering) (bunpin dbuf),
         brelse lbuf,
         brelse dbuf]))))))"

definition read_head :: "('x logs_scheme, unit) M" where
  "read_head =
     doM get_log (\<lambda>l.
     doM (bread (ldev l) (lstart l)) (\<lambda>b.
     doM (get_buf b) (\<lambda>d.
     seqM [
       upd_log (\<lambda>l. l\<lparr>lh_n := sint (rd32 (bdata d) 0)\<rparr>),
       forM [0..<nat (sint (rd32 (bdata d) 0))] (\<lambda>i.
         upd_log (\<lambda>l. l\<lparr>lh_block := (lh_block l)(i := rd32 (bdata d) (4 + 4 * i))\<rparr>)),
       brelse b])))"

definition write_head :: "('x logs_scheme, unit) M" where
  "write_head =
     doM get_log (\<lambda>l.
     doM (bread (ldev l) (lstart l)) (\<lambda>b.
     seqM [
       upd_buf b (\<lambda>d. d\<lparr>bdata := wr32 (bdata d) 0 (of_int (lh_n l))\<rparr>),
       forM [0..<nat (lh_n l)] (\<lambda>i.
         upd_buf b (\<lambda>d. d\<lparr>bdata := wr32 (bdata d) (4 + 4 * i) (lh_block l i)\<rparr>)),
       bwrite b,
       brelse b]))"

definition recover_from_log :: "('x logs_scheme, unit) M" where
  "recover_from_log = seqM [
     read_head,
     install_trans True,
     upd_log (\<lambda>l. l\<lparr>lh_n := 0\<rparr>),
     write_head]"

definition initlog :: "32 word \<Rightarrow> superblock \<Rightarrow> ('x logs_scheme, unit) M" where
  "initlog dev sb = seqM [
     whenM (sizeof_logheader \<ge> BSIZE) (panic ''initlog: too big logheader''),
     initlock LogLock ''log'',
     upd_log (\<lambda>l. l\<lparr>lstart := sb_logstart sb\<rparr>),
     upd_log (\<lambda>l. l\<lparr>lsize := sint (sb_nlog sb)\<rparr>),
     upd_log (\<lambda>l. l\<lparr>ldev := dev\<rparr>),
     recover_from_log]"

definition begin_op :: "('x logs_scheme, unit) M" where
  "begin_op =
     doM (acquire LogLock) (\<lambda>_.
     waitM 0 (\<lambda>_.
       doM get_log (\<lambda>l.
       if committing l then doM (sleep ChanLog LogLock) (\<lambda>_. returnM (Inl ()))
       else if lh_n l + (outstanding l + 1) * int MAXOPBLOCKS > int LOGSIZE then
         doM (sleep ChanLog LogLock) (\<lambda>_. returnM (Inl ()))
       else
         doM (upd_log (\<lambda>l. l\<lparr>outstanding := outstanding l + 1\<rparr>)) (\<lambda>_.
         doM (release LogLock) (\<lambda>_.
         returnM (Inr ()))))) ())"

definition write_log :: "('x logs_scheme, unit) M" where
  "write_log =
     doM get_log (\<lambda>l0. forM [0..<nat (lh_n l0)] (\<lambda>tail.
       doM get_log (\<lambda>l.
       doM (bread (ldev l) (lstart l + of_nat tail + 1)) (\<lambda>to.
       doM (bread (ldev l) (lh_block l tail)) (\<lambda>from.
       doM (get_buf from) (\<lambda>fb.
       seqM [
         upd_buf to (\<lambda>d. d\<lparr>bdata := bdata fb\<rparr>),
         bwrite to,
         brelse from,
         brelse to]))))))"

definition commit :: "('x logs_scheme, unit) M" where
  "commit =
     doM get_log (\<lambda>l. whenM (lh_n l > 0) (seqM [
       write_log,
       write_head,
       install_trans False,
       upd_log (\<lambda>l. l\<lparr>lh_n := 0\<rparr>),
       write_head]))"

definition end_op :: "('x logs_scheme, unit) M" where
  "end_op =
     doM (acquire LogLock) (\<lambda>_.
     doM (upd_log (\<lambda>l. l\<lparr>outstanding := outstanding l - 1\<rparr>)) (\<lambda>_.
     doM get_log (\<lambda>l.
     doM (whenM (committing l) (panic ''log.committing'')) (\<lambda>_.
     doM (if outstanding l = 0 then
            doM (upd_log (\<lambda>l. l\<lparr>committing := True\<rparr>)) (\<lambda>_. returnM True)
          else doM (wakeup ChanLog) (\<lambda>_. returnM False)) (\<lambda>do_commit.
     doM (release LogLock) (\<lambda>_.
     whenM do_commit (seqM [
       commit,
       acquire LogLock,
       upd_log (\<lambda>l. l\<lparr>committing := False\<rparr>),
       wakeup ChanLog,
       release LogLock])))))))"

text \<open>The first slot below \<open>n\<close> that records block \<open>bn\<close>, or \<open>n\<close> (log absorption).\<close>

fun log_slot :: "(nat \<Rightarrow> 32 word) \<Rightarrow> 32 word \<Rightarrow> nat \<Rightarrow> nat \<Rightarrow> nat" where
  "log_slot blk bn 0 i = i"
| "log_slot blk bn (Suc k) i = (if blk i = bn then i else log_slot blk bn k (Suc i))"

definition log_write :: "nat \<Rightarrow> ('x logs_scheme, unit) M" where
  "log_write b =
     doM (acquire LogLock) (\<lambda>_.
     doM get_log (\<lambda>l.
     doM (whenM (lh_n l \<ge> int LOGSIZE \<or> lh_n l \<ge> lsize l - 1) (panic ''too big a transaction'')) (\<lambda>_.
     doM (whenM (outstanding l < 1) (panic ''log_write outside of trans'')) (\<lambda>_.
     doM (get_buf b) (\<lambda>d.
     let i = log_slot (lh_block l) (blockno d) (nat (lh_n l)) 0 in
     seqM [
       upd_log (\<lambda>l. l\<lparr>lh_block := (lh_block l)(i := blockno d)\<rparr>),
       whenM (int i = lh_n l) (seqM [
         bpin b,
         upd_log (\<lambda>l. l\<lparr>lh_n := lh_n l + 1\<rparr>)]),
       release LogLock])))))"

end
