(* ===== verification/Journal.thy ===== *)
theory Journal
  imports Log
begin

text \<open>
  The log on the cache as a map (theory \<open>Bcache\<close>): rules for the copies of blocks that
  \<open>write_log\<close> and \<open>install_trans\<close> of \<^verbatim>\<open>log.c\<close> are made of.
\<close>

section \<open>Rules\<close>

lemma wp_log [simp]:
  "wp (upd_log f) s es Q = Q () (s\<lparr>log := f (log s)\<rparr>) es"
  "wp get_log s es R = R (log s) s es"
  by (simp_all add: upd_log_def get_log_def)

lemma bstate_log [simp]: "bstate L P p d C R H (s\<lparr>log := l\<rparr>) = bstate L P p d C R H s"
  by (simp add: bstate_def)

lemma bframe_log:
  assumes "bframe s t" shows "log t = log s"
proof -
  have t: "t = s\<lparr>procs := procs t, slocks := slocks t, bufs := bufs t, disk := disk t, wlog := wlog t,
      cpus := cpus t, sstatus := sstatus t, locks := locks t\<rparr>" using assms unfolding bframe_def by blast
  show ?thesis by (subst t) simp
qed

lemma bframe_log_upd:
  assumes "bframe (t\<lparr>log := l\<rparr>) u" shows "bframe t (u\<lparr>log := log t\<rparr>)"
proof -
  have u: "u = t\<lparr>log := l\<rparr>\<lparr>procs := procs u, slocks := slocks u, bufs := bufs u, disk := disk u, wlog := wlog u,
      cpus := cpus u, sstatus := sstatus u, locks := locks u\<rparr>"
    and w: "woken (procs t) (procs u)" "\<forall>i. slocks u (InodeLock i) = slocks t (InodeLock i)"
    using assms unfolding bframe_def by (simp_all del: logs_upd_order)
  have "u\<lparr>log := log t\<rparr> = t\<lparr>procs := procs u, slocks := slocks u, bufs := bufs u, disk := disk u, wlog := wlog u,
      cpus := cpus u, sstatus := sstatus u, locks := locks u\<rparr>"
    by (subst (1) u) simp
  with w show ?thesis unfolding bframe_def by simp
qed

lemma bstate_eq:
  "bstate L P p d C R H s \<Longrightarrow> C = C' \<Longrightarrow> R = R' \<Longrightarrow> H = H' \<Longrightarrow> bstate L P p d C' R' H' s"
  by simp

text \<open>The body of the loop in \<open>write_log\<close>: block \<open>b\<close> is copied to block \<open>a\<close> and written there.\<close>

lemma card_upd_less:
  assumes "card {m. R m \<noteq> (0 :: nat)} < N" "R a \<noteq> 0"
  shows "card {m. (R(a := R a + k)) m \<noteq> 0} < N"
proof -
  have "{m. (R(a := R a + k)) m \<noteq> 0} = {m. R m \<noteq> 0}" using assms(2) by auto
  then show ?thesis using assms(1) by simp
qed

lemma wp_copy_block:
  assumes bst: "bstate [] P p d C R {} s" and ab: "a \<noteq> b" "R b \<noteq> 0" "card {m. R m \<noteq> 0} < NBUF"
    "R a < 2 ^ 31" "R b < 2 ^ 31"
    and Q: "\<And>t. bframe s t \<Longrightarrow> bstate [] P p d (C(a := C b)) R {} t \<Longrightarrow> disk t = (disk s)(a := C b) \<Longrightarrow>
      wlog t = wlog s @ [(a, C b)] \<Longrightarrow> Q () t es"
  shows "wp (doM (bread d a) (\<lambda>to. doM (bread d b) (\<lambda>from. doM (get_buf from) (\<lambda>fb.
     seqM [upd_buf to (\<lambda>d. d\<lparr>bdata := bdata fb\<rparr>), bwrite to, brelse from, brelse to])))) s es Q"
  unfolding wp_simps wp_buf(2)
  apply (rule wp_bread [OF bst])
     apply simp
    apply simp
   apply (use ab in simp)
  apply (use ab in simp)
  subgoal for ba s1
    apply (rule wp_bread, assumption, simp)
       apply (use ab in simp)
      apply (use ab in simp)
     apply (use ab in simp)
    subgoal for bb s2
      apply (rule wp_bdata [where n = a and b = ba and x = "C b"], assumption, simp, use ab in simp)
      subgoal
        using cache_held(5) [OF bstateD(3), of "[]" P p d C _ "insert b (insert a {})" s2 b bb] by simp
      subgoal for s3
        apply (rule wp_bwrite [where n = a], assumption, simp, simp, assumption)
        subgoal for s4
          apply (rule wp_brelse [where n = b and b = bb], assumption, simp, simp)
            apply (use ab in auto) [1]
           apply (use ab in simp)
          subgoal for s5
            apply (rule wp_brelse [where n = a and b = ba], assumption, simp, use ab in simp)
              apply (use ab in auto) [1]
             apply (use ab in simp)
            subgoal for s6
              apply (rule Q)
                 apply (meson bframe_trans)
                apply (erule bstate_eq, simp, use ab in \<open>simp add: fun_eq_iff\<close>, blast)
               apply simp
              apply simp
              done
            done
          done
        done
      done
    done
  done

text \<open>The body of the loop in \<open>install_trans\<close>: block \<open>a\<close> is copied to block \<open>b\<close>, and \<open>b\<close> unpinned.\<close>

lemma wp_install_block:
  assumes bst: "bstate [] P p d C R {} s" and ab: "a \<noteq> b" "card {m. R m \<noteq> 0} < NBUF"
    "R b \<noteq> 0 \<or> card {m. (R(a := R a + 1)) m \<noteq> 0} < NBUF" "R a < 2 ^ 31" "R b < 2 ^ 31"
    and pin: "\<not> rc \<Longrightarrow> R b \<noteq> 0"
    and Q: "\<And>t. bframe s t \<Longrightarrow> bstate [] P p d (C(b := C a)) (if rc then R else R(b := R b - 1)) {} t \<Longrightarrow>
      disk t = (disk s)(b := C a) \<Longrightarrow> wlog t = wlog s @ [(b, C a)] \<Longrightarrow> Q () t es"
  shows "wp (doM (bread d a) (\<lambda>lbuf. doM (bread d b) (\<lambda>dbuf. doM (get_buf lbuf) (\<lambda>lb.
     seqM [upd_buf dbuf (\<lambda>d. d\<lparr>bdata := bdata lb\<rparr>), bwrite dbuf, whenM (\<not> rc) (bunpin dbuf),
       brelse lbuf, brelse dbuf])))) s es Q"
proof -
  have clean: "C a = disk s a" if "R a = 0" using cache_okD(7) [OF bstateD(3) [OF bst] that] .
  have fin: "wp (brelse ba) t es (\<lambda>_ u fs. wp (brelse bb) u fs (\<lambda>_. Q ()))"
    if t: "bframe s t" "bstate [] P p d (C(b := C a)) (R(a := R a + 1, b := r + 1)) {b, a} t"
      "at_buf (bufs t) d a ba" "at_buf (bufs t) d b bb" "disk t = (disk s)(b := C a)" "wlog t = wlog s @ [(b, C a)]"
      "r = (if rc then R b else R b - 1)" for t ba bb r
    apply (rule wp_brelse [OF t(2), where n = a and b = ba], simp, simp, rule t(3))
     apply (use ab clean t in auto) [1]
    subgoal for t1
      apply (rule wp_brelse [where n = b and b = bb], assumption, simp, use ab in simp)
        apply (use ab t in auto) [1]
       apply (use ab t in auto) [1]
      subgoal for t2
        apply (rule Q)
           apply (meson bframe_trans t(1))
          apply (erule bstate_eq, simp, use ab t(7) in \<open>auto simp: fun_eq_iff\<close>)
        using t by simp_all
      done
    done
  show ?thesis
    unfolding wp_simps wp_buf(2)
    apply (rule wp_bread [OF bst])
       apply simp
      apply simp
     apply (use ab in simp)
    apply (use ab in simp)
    subgoal for ba s1
      apply (rule wp_bread, assumption, simp)
         apply (use ab in simp)
        apply (use ab in simp)
       apply (use ab in simp)
      subgoal for bb s2
        apply (rule wp_bdata [where n = b and b = bb and x = "C a"], assumption, simp, simp)
        subgoal
          using cache_held(5) [OF bstateD(3), of "[]" P p d C _ "insert b (insert a {})" s2 a ba] by simp
        subgoal for s3
          apply (rule wp_bwrite [where n = b], assumption, simp, simp, assumption)
          subgoal for s4
            apply (split if_split, intro conjI impI)
             apply (rule wp_bunpin [where n = b and b = bb], assumption, simp, simp, assumption)
              apply (use pin ab in simp)
            subgoal for s5
              apply (rule fin [where r = "R b - 1"])
                    apply (meson bframe_trans)
                   apply (erule bstate_eq, simp, use ab pin in \<open>simp add: fun_eq_iff\<close>, simp)
                  apply (use ab in auto)
              done
            apply (rule fin [where r = "R b"])
                  apply (meson bframe_trans)
                 apply (erule bstate_eq, simp, use ab in \<open>simp add: fun_eq_iff\<close>, simp)
                apply (use ab in auto)
            done
          done
        done
      done
    done
qed

end
