(* ===== verification/Recovery.thy ===== *)
theory Recovery
  imports Journal
begin

text \<open>
  Crash safety of the log: the exact sequence of disk writes of \<open>commit\<close> and of recovery.
  If the machine stops after any prefix of those writes, recovery leaves either all the
  blocks of the transaction or none of them on the disk.
\<close>

section \<open>Sequences of writes\<close>

definition redo :: "('a \<times> 'b) list \<Rightarrow> ('a \<Rightarrow> 'b) \<Rightarrow> 'a \<Rightarrow> 'b" where
  "redo ws D = fold (\<lambda>(n, x) D. D(n := x)) ws D"

lemma redo_simps [simp]:
  "redo [] D = D" "redo (w # ws) D = redo ws (D(fst w := snd w))" "redo (ws @ vs) D = redo vs (redo ws D)"
  by (auto simp: redo_def split: prod.splits)

lemma redo_other: "n \<notin> fst ` set ws \<Longrightarrow> redo ws D n = D n"
  by (induction ws arbitrary: D) auto

lemma redo_by_key: "redo (map (\<lambda>i. (f i, g (f i))) is) D n = (if n \<in> f ` set is then g n else D n)"
  by (induction "is" arbitrary: D) auto

lemma redo_by_index:
  assumes "inj_on f (set is)" "i \<in> set is"
  shows "redo (map (\<lambda>i. (f i, g i)) is) D (f i) = g i"
  using assms
proof (induction "is" arbitrary: D)
  case (Cons j js)
  show ?case
  proof (cases "i \<in> set js")
    case True then show ?thesis using Cons by simp
  next
    case False
    then have "i = j" "f i \<notin> f ` set js" using Cons.prems by auto
    then show ?thesis using redo_other [of "f i" "map (\<lambda>i. (f i, g i)) js" "D(f j := g j)"] by (auto simp: image_image)
  qed
qed simp

text \<open>The blocks of the log: block \<open>i\<close> of the log body, and all of them with the header.\<close>

definition log_blk :: "32 word \<Rightarrow> nat \<Rightarrow> 32 word" where
  "log_blk start i = start + of_nat i + 1"

definition log_area :: "32 word \<Rightarrow> 32 word set" where
  "log_area start = insert start (log_blk start ` {..<LOGSIZE})"

lemma LOGSIZE_30: "LOGSIZE = 30"
  by (simp add: LOGSIZE_def MAXOPBLOCKS_def)

lemma of_nat_32_eq: "i < 2 ^ 32 \<Longrightarrow> j < 2 ^ 32 \<Longrightarrow> (of_nat i :: 32 word) = of_nat j \<longleftrightarrow> i = j"
  by (simp add: word_of_nat_eq_iff take_bit_nat_eq_self)

lemma log_blk_inj: "inj_on (log_blk start) {..<LOGSIZE}"
proof (rule inj_onI)
  fix i j assume a: "i \<in> {..<LOGSIZE}" "j \<in> {..<LOGSIZE}" "log_blk start i = log_blk start j"
  then have "(of_nat i :: 32 word) = of_nat j" unfolding log_blk_def add_right_cancel add_left_cancel by -
  moreover have "i < 2 ^ 32" "j < 2 ^ 32" using a(1,2) unfolding LOGSIZE_30 by auto
  ultimately show "i = j" using of_nat_32_eq by blast
qed

lemma log_blk_neq_start:
  assumes "i < LOGSIZE" shows "log_blk start i \<noteq> start"
proof
  assume "log_blk start i = start"
  then have "start + of_nat (Suc i) = start + of_nat 0"
    unfolding log_blk_def of_nat_Suc semiring_1_class.of_nat_0 add_0_right by (simp only: ac_simps of_nat_0 add_0_right)
  then have "(of_nat (Suc i) :: 32 word) = of_nat 0" by (rule add_left_imp_eq)
  moreover have "Suc i < 2 ^ 32" using assms unfolding LOGSIZE_30 by simp
  ultimately show False using of_nat_32_eq [of "Suc i" 0] by simp
qed

lemma log_area_I: "i < LOGSIZE \<Longrightarrow> log_blk start i \<in> log_area start" "start \<in> log_area start"
  by (auto simp: log_area_def)

section \<open>The steps of a commit\<close>

definition log_writes :: "logst \<Rightarrow> (32 word \<Rightarrow> byte list) \<Rightarrow> nat list \<Rightarrow> (32 word \<times> byte list) list" where
  "log_writes l C is = map (\<lambda>i. (log_blk (lstart l) i, C (lh_block l i))) is"

definition home_writes :: "logst \<Rightarrow> (32 word \<Rightarrow> byte list) \<Rightarrow> nat list \<Rightarrow> (32 word \<times> byte list) list" where
  "home_writes l C is = map (\<lambda>i. (lh_block l i, C (log_blk (lstart l) i))) is"

text \<open>
  \<open>log_pre\<close>: the header is within bounds, the blocks it names are outside the log, and a
  buffer is left for reading log blocks.
\<close>

definition log_pre :: "32 word \<Rightarrow> (32 word \<Rightarrow> nat) \<Rightarrow> logst \<Rightarrow> bool" where
  "log_pre d R l \<longleftrightarrow> ldev l = d \<and> nat (lh_n l) \<le> LOGSIZE \<and> (\<forall>i<nat (lh_n l). lh_block l i \<notin> log_area (lstart l)) \<and>
     card {m. R m \<noteq> 0} < NBUF \<and> (\<forall>m. R m < 2 ^ 31)"

lemma wp_write_log:
  assumes bst: "bstate [] P p d C R {} s" and pre: "log_pre d R (log s)"
    and pin: "\<And>i. i < nat (lh_n (log s)) \<Longrightarrow> R (lh_block (log s) i) \<noteq> 0"
    and Q: "\<And>t W. W = log_writes (log s) C [0..<nat (lh_n (log s))] \<Longrightarrow> bframe s t \<Longrightarrow> bstate [] P p d (redo W C) R {} t \<Longrightarrow>
      disk t = redo W (disk s) \<Longrightarrow> wlog t = wlog s @ W \<Longrightarrow> Q () t es"
  shows "wp write_log s es Q"
proof -
  let ?l = "log s" and ?n = "nat (lh_n (log s))"
  define I where "I = (\<lambda>ds t fs. fs = es \<and> bframe s t \<and> bstate [] P p d (redo (log_writes ?l C ds) C) R {} t \<and>
    disk t = redo (log_writes ?l C ds) (disk s) \<and> wlog t = wlog s @ log_writes ?l C ds)"
  have "wp (forM [0..<?n] (\<lambda>tail. doM get_log (\<lambda>l.
      doM (bread (ldev l) (lstart l + of_nat tail + 1)) (\<lambda>to.
      doM (bread (ldev l) (lh_block l tail)) (\<lambda>from.
      doM (get_buf from) (\<lambda>fb. seqM [upd_buf to (\<lambda>d. d\<lparr>bdata := bdata fb\<rparr>), bwrite to, brelse from, brelse to])))))) s es Q"
  proof (rule wp_forM_inv [where I = I])
    show "I [] s es" using bst by (simp add: I_def bframe_refl log_writes_def)
    fix ds i rest t fs assume sp: "[0..<?n] = ds @ i # rest" and I: "I ds t fs"
    have i: "i < ?n" "set ds \<subseteq> {..<?n}" using arg_cong [OF sp, of set] by auto
    have l: "log t = ?l" "fs = es" using I bframe_log by (auto simp: I_def)
    have out: "lh_block ?l i \<notin> log_area (lstart ?l)" "?n \<le> LOGSIZE" using pre i by (auto simp: log_pre_def)
    have same: "redo (log_writes ?l C ds) C (lh_block ?l i) = C (lh_block ?l i)"
      by (rule redo_other) (use out i in \<open>auto simp: log_writes_def log_area_def\<close>)
    have d: "ldev ?l = d" using pre by (simp add: log_pre_def)
    show "wp (doM get_log (\<lambda>l. doM (bread (ldev l) (lstart l + of_nat i + 1)) (\<lambda>to.
      doM (bread (ldev l) (lh_block l i)) (\<lambda>from. doM (get_buf from) (\<lambda>fb. seqM [upd_buf to (\<lambda>d. d\<lparr>bdata := bdata fb\<rparr>),
        bwrite to, brelse from, brelse to]))))) t fs (\<lambda>_ u gs. I (ds @ [i]) u gs)"
      unfolding wp_simps(2)[of get_log] wp_log l d
      apply (rule wp_copy_block [where C = "redo (log_writes ?l C ds) C" and R = R and P = P and p = p])
            apply (use I in \<open>simp add: I_def\<close>)
           apply (use out i log_area_I(1) [of i "lstart ?l"] in \<open>auto simp: log_blk_def\<close>) [1]
          apply (rule pin [OF i(1)])
         apply (use pre in \<open>simp add: log_pre_def\<close>)
        apply (use pre in \<open>simp add: log_pre_def\<close>)
       apply (use pre in \<open>simp add: log_pre_def\<close>)
      subgoal for u
        using I bframe_trans unfolding I_def same by (auto simp: log_writes_def log_blk_def)
      done
  next
    show "Q () t fs" if "I [0..<?n] t fs" for t fs using that unfolding I_def by (auto intro!: Q)
  qed
  then show ?thesis unfolding write_log_def wp_simps wp_log .
qed

text \<open>The counts after the blocks of \<open>is\<close> have been unpinned.\<close>

definition unpinned :: "logst \<Rightarrow> nat list \<Rightarrow> (32 word \<Rightarrow> nat) \<Rightarrow> 32 word \<Rightarrow> nat" where
  "unpinned l is R = (\<lambda>m. if m \<in> lh_block l ` set is then R m - 1 else R m)"

lemma card_support_mono: "(\<And>m. R' m \<le> R m) \<Longrightarrow> card {m :: 32 word. R' m \<noteq> (0 :: nat)} \<le> card {m. R m \<noteq> 0}"
  by (rule card_mono) (auto, metis le_zero_eq gr0I)

lemma wp_install_trans:
  assumes bst: "bstate [] P p d C R {} s" and pre: "log_pre d R (log s)"
    and rc: "rc \<Longrightarrow> card {m. R m \<noteq> 0} + 1 < NBUF"
    and pin: "\<And>i. \<not> rc \<Longrightarrow> i < nat (lh_n (log s)) \<Longrightarrow> R (lh_block (log s) i) \<noteq> 0"
    and inj: "\<not> rc \<Longrightarrow> inj_on (lh_block (log s)) {..<nat (lh_n (log s))}"
    and Q: "\<And>t W. W = home_writes (log s) C [0..<nat (lh_n (log s))] \<Longrightarrow> bframe s t \<Longrightarrow>
      bstate [] P p d (redo W C) (if rc then R else unpinned (log s) [0..<nat (lh_n (log s))] R) {} t \<Longrightarrow>
      disk t = redo W (disk s) \<Longrightarrow> wlog t = wlog s @ W \<Longrightarrow> Q () t es"
  shows "wp (install_trans rc) s es Q"
proof -
  let ?l = "log s" and ?n = "nat (lh_n (log s))"
  define R' where "R' = (\<lambda>ds. if rc then R else unpinned ?l ds R)"
  define I where "I = (\<lambda>ds t fs. fs = es \<and> bframe s t \<and> bstate [] P p d (redo (home_writes ?l C ds) C) (R' ds) {} t \<and>
    disk t = redo (home_writes ?l C ds) (disk s) \<and> wlog t = wlog s @ home_writes ?l C ds)"
  have "wp (forM [0..<?n] (\<lambda>tail. doM get_log (\<lambda>l.
      doM (bread (ldev l) (lstart l + of_nat tail + 1)) (\<lambda>lbuf.
      doM (bread (ldev l) (lh_block l tail)) (\<lambda>dbuf.
      doM (get_buf lbuf) (\<lambda>lb. seqM [upd_buf dbuf (\<lambda>d. d\<lparr>bdata := bdata lb\<rparr>), bwrite dbuf,
        whenM (\<not> rc) (bunpin dbuf), brelse lbuf, brelse dbuf])))))) s es Q"
  proof (rule wp_forM_inv [where I = I])
    show "I [] s es" using bst by (simp add: I_def bframe_refl home_writes_def R'_def unpinned_def)
    fix ds i rest t fs assume sp: "[0..<?n] = ds @ i # rest" and I: "I ds t fs"
    have i: "i < ?n" "set ds \<subseteq> {..<?n}" "i \<notin> set ds"
      using arg_cong [OF sp, of set] arg_cong [OF sp, of distinct] by auto
    have l: "log t = ?l" "fs = es" using I bframe_log by (auto simp: I_def)
    have out: "lh_block ?l i \<notin> log_area (lstart ?l)" "?n \<le> LOGSIZE" using pre i by (auto simp: log_pre_def)
    have same: "redo (home_writes ?l C ds) C (log_blk (lstart ?l) i) = C (log_blk (lstart ?l) i)"
      using i pre log_area_I(1) [of i "lstart ?l"] out(2)
      by (intro redo_other) (force simp: home_writes_def log_pre_def)
    have d: "ldev ?l = d" using pre by (simp add: log_pre_def)
    have Rle: "R' ds m \<le> R m" for m by (simp add: R'_def unpinned_def)
    have c: "card {m. R' ds m \<noteq> 0} < NBUF"
      using card_support_mono [of "R' ds" R] Rle pre by (auto simp: log_pre_def intro: le_less_trans)
    have max: "R' ds m < 2 ^ 31" for m using Rle [of m] pre by (auto simp: log_pre_def intro: le_less_trans)
    have bi: "R' ds (lh_block ?l i) = R (lh_block ?l i)"
      using inj i by (auto simp: R'_def unpinned_def inj_on_def)
    have room: "R' ds (lh_block ?l i) \<noteq> 0 \<or> card {m. ((R' ds)(a := R' ds a + 1)) m \<noteq> 0} < NBUF" for a
    proof (cases rc)
      case True
      have "card {m. ((R' ds)(a := R' ds a + 1)) m \<noteq> 0} \<le> card (insert a {m. R' ds m \<noteq> 0})"
        by (rule card_mono) auto
      also have "\<dots> \<le> card {m. R' ds m \<noteq> 0} + 1" by (simp add: card_insert_if)
      finally show ?thesis using rc True by (simp add: R'_def)
    qed (use pin i bi in auto)
    show "wp (doM get_log (\<lambda>l. doM (bread (ldev l) (lstart l + of_nat i + 1)) (\<lambda>lbuf.
      doM (bread (ldev l) (lh_block l i)) (\<lambda>dbuf. doM (get_buf lbuf) (\<lambda>lb. seqM [upd_buf dbuf (\<lambda>d. d\<lparr>bdata := bdata lb\<rparr>),
        bwrite dbuf, whenM (\<not> rc) (bunpin dbuf), brelse lbuf, brelse dbuf]))))) t fs (\<lambda>_ u gs. I (ds @ [i]) u gs)"
      unfolding wp_simps(2)[of get_log] wp_log l d
    proof (rule wp_install_block [where C = "redo (home_writes ?l C ds) C" and R = "R' ds" and P = P and p = p])
      show "bstate [] P p d (redo (home_writes ?l C ds) C) (R' ds) {} t" using I by (simp add: I_def)
      show "lstart ?l + of_nat i + 1 \<noteq> lh_block ?l i"
        using out i log_area_I(1) [of i "lstart ?l"] by (auto simp: log_blk_def)
      show "R' ds (lh_block ?l i) \<noteq> 0" if "\<not> rc" using pin i bi that by simp
      fix u assume u: "bframe t u" "bstate [] P p d ((redo (home_writes ?l C ds) C)(lh_block ?l i :=
            redo (home_writes ?l C ds) C (lstart ?l + of_nat i + 1)))
          (if rc then R' ds else (R' ds)(lh_block ?l i := R' ds (lh_block ?l i) - 1)) {} u"
        "disk u = (disk t)(lh_block ?l i := redo (home_writes ?l C ds) C (lstart ?l + of_nat i + 1))"
        "wlog u = wlog t @ [(lh_block ?l i, redo (home_writes ?l C ds) C (lstart ?l + of_nat i + 1))]"
      have R: "(if rc then R' ds else (R' ds)(lh_block ?l i := R' ds (lh_block ?l i) - 1)) = R' (ds @ [i])"
        using bi by (auto simp: R'_def unpinned_def fun_eq_iff)
      have W: "home_writes ?l C (ds @ [i]) = home_writes ?l C ds @ [(lh_block ?l i, C (log_blk (lstart ?l) i))]"
        by (simp add: home_writes_def)
      show "I (ds @ [i]) u es"
        using u I bframe_trans [OF _ u(1), of s] unfolding I_def W R same [unfolded log_blk_def] log_blk_def by simp
    qed (use c room max in auto)
  next
    show "Q () t fs" if "I [0..<?n] t fs" for t fs using that unfolding I_def R'_def by (auto intro!: Q)
  qed
  then show ?thesis unfolding install_trans_def wp_simps wp_log .
qed

section \<open>The header\<close>

text \<open>The header block as \<open>write_head\<close> writes it, and the in-memory header \<open>read_head\<close> makes of it.\<close>

definition head_bytes :: "byte list \<Rightarrow> logst \<Rightarrow> byte list" where
  "head_bytes bs l = fold (\<lambda>i b. wr32 b (4 + 4 * i) (lh_block l i)) [0..<nat (lh_n l)] (wr32 bs 0 (of_int (lh_n l)))"

definition head_n :: "byte list \<Rightarrow> nat" where
  "head_n bs = nat (sint (rd32 bs 0))"

definition read_log :: "byte list \<Rightarrow> logst \<Rightarrow> logst" where
  "read_log bs l = l\<lparr>lh_n := sint (rd32 bs 0),
     lh_block := (\<lambda>i. if i < head_n bs then rd32 bs (4 + 4 * i) else lh_block l i)\<rparr>"

lemma wp_forM_upd_log:
  "wp (forM is (\<lambda>i. upd_log (f i))) s es Q = Q () (s\<lparr>log := fold f is (log s)\<rparr>) es"
  by (induction "is" arbitrary: s) (simp, simp only: wp_simps(10) wp_log, simp)

lemma wp_forM_upd_buf:
  "wp (forM is (\<lambda>i. upd_buf b (\<lambda>d. d\<lparr>bdata := f i (bdata d)\<rparr>))) s es Q =
     Q () (s\<lparr>bufs := (bufs s)(b := (bufs s b)\<lparr>bdata := fold f is (bdata (bufs s b))\<rparr>)\<rparr>) es"
proof (induction "is" arbitrary: s)
  case (Cons i js)
  show ?case unfolding wp_simps(10) wp_buf Cons.IH by (simp del: fun_upd_apply add: fun_upd_same)
qed simp

lemma fold_blocks:
  "fold (\<lambda>i l. l\<lparr>lh_block := (lh_block l)(i := g i)\<rparr>) [0..<n] l = l\<lparr>lh_block := (\<lambda>i. if i < n then g i else lh_block l i)\<rparr>"
proof (induction n)
  case (Suc n)
  have "(\<lambda>i. if i < Suc n then g i else lh_block l i) = (\<lambda>i. if i < n then g i else lh_block l i)(n := g n)"
    by (auto simp: fun_eq_iff)
  with Suc show ?case by (simp del: fun_upd_apply)
qed simp

lemma wp_write_head:
  assumes bst: "bstate [] P p d C R {} s" and d: "ldev (log s) = d" and c: "card {m. R m \<noteq> 0} < NBUF" "\<And>m. R m < 2 ^ 31"
    and Q: "\<And>t h. h = head_bytes (C (lstart (log s))) (log s) \<Longrightarrow> bframe s t \<Longrightarrow> bstate [] P p d (C(lstart (log s) := h)) R {} t \<Longrightarrow>
      disk t = (disk s)(lstart (log s) := h) \<Longrightarrow> wlog t = wlog s @ [(lstart (log s), h)] \<Longrightarrow> Q () t es"
  shows "wp write_head s es Q"
proof -
  let ?l = "log s"
  have "wp (doM (bread d (lstart ?l)) (\<lambda>b. seqM [upd_buf b (\<lambda>v. v\<lparr>bdata := head_bytes (bdata v) ?l\<rparr>), bwrite b, brelse b])) s es Q"
    unfolding wp_simps
    apply (rule wp_bread [OF bst], simp, simp, use c in simp, use c(2) [of "lstart ?l"] in simp)
    subgoal for b t
      apply (rule wp_bdata [where n = "lstart ?l" and x = "head_bytes (C (lstart ?l)) ?l"], assumption, simp, assumption)
      subgoal
        using cache_held(5) [OF bstateD(3), of "[]" P p d C _ "insert (lstart ?l) {}" t "lstart ?l" b] by simp
      subgoal for u
        apply (rule wp_bwrite [where n = "lstart ?l"], assumption, simp, simp, assumption)
        subgoal for v
          apply (rule wp_brelse [where n = "lstart ?l" and b = b], assumption, simp, simp, assumption, simp)
          subgoal for w
            apply (rule Q, rule refl, meson bframe_trans, erule bstate_eq, simp, simp add: fun_eq_iff, simp, simp, simp)
            done
          done
        done
      done
    done
  then show ?thesis
    unfolding write_head_def wp_simps wp_log wp_buf d
      wp_forM_upd_buf [where f = "\<lambda>i x. wr32 x (4 + 4 * i) (lh_block ?l i)"]
    by (simp add: head_bytes_def fun_upd_same del: fun_upd_apply)
qed

lemma wp_read_head:
  assumes bst: "bstate [] P p d C R {} s" and d: "ldev (log s) = d" and c: "card {m. R m \<noteq> 0} < NBUF" "\<And>m. R m < 2 ^ 31"
    and Q: "\<And>t. bframe s t \<Longrightarrow> bstate [] P p d C R {} t \<Longrightarrow> disk t = disk s \<Longrightarrow> wlog t = wlog s \<Longrightarrow>
      Q () (t\<lparr>log := read_log (C (lstart (log s))) (log s)\<rparr>) es"
  shows "wp read_head s es Q"
proof -
  let ?l = "log s"
  have clean: "C m = disk s m" if "R m = 0" for m using cache_okD(7) [OF bstateD(3) [OF bst] that] .
  show ?thesis
    unfolding read_head_def wp_simps wp_log wp_buf d
    apply (rule wp_bread [OF bst], simp, simp, use c in simp, use c(2) [of "lstart ?l"] in simp)
    subgoal for b t
      unfolding wp_forM_upd_log
      apply (rule wp_brelse [where n = "lstart ?l" and b = b and C = C and P = P and p = p and R = "R(lstart ?l := R (lstart ?l) + 1)" and H = "{lstart ?l}" and d = d])
          apply simp
         apply simp
        apply simp
       apply simp
      subgoal using clean by auto
      subgoal for u
      proof -
        assume t: "bframe s t" "bstate [] P p d C (R(lstart ?l := R (lstart ?l) + 1)) {lstart ?l} t"
            "at_buf (bufs t) d (lstart ?l) b" "disk t = disk s" "wlog t = wlog s"
          and u: "bframe (t\<lparr>log := log t\<lparr>lh_n := sint (rd32 (bdata (bufs t b)) 0)\<rparr>\<rparr>\<lparr>log :=
              fold (\<lambda>i l. l\<lparr>lh_block := (lh_block l)(i := rd32 (bdata (bufs t b)) (4 + 4 * i))\<rparr>)
                [0..<nat (sint (rd32 (bdata (bufs t b)) 0))] (log (t\<lparr>log := log t\<lparr>lh_n := sint (rd32 (bdata (bufs t b)) 0)\<rparr>\<rparr>))\<rparr>) u"
            "bstate [] P p d C (R(lstart ?l := R (lstart ?l) + 1, lstart ?l := (R(lstart ?l := R (lstart ?l) + 1)) (lstart ?l) - 1))
              ({lstart ?l} - {lstart ?l}) u"
            "disk u = disk (t\<lparr>log := log t\<lparr>lh_n := sint (rd32 (bdata (bufs t b)) 0)\<rparr>\<rparr>\<lparr>log :=
              fold (\<lambda>i l. l\<lparr>lh_block := (lh_block l)(i := rd32 (bdata (bufs t b)) (4 + 4 * i))\<rparr>)
                [0..<nat (sint (rd32 (bdata (bufs t b)) 0))] (log (t\<lparr>log := log t\<lparr>lh_n := sint (rd32 (bdata (bufs t b)) 0)\<rparr>\<rparr>))\<rparr>)"
            "wlog u = wlog (t\<lparr>log := log t\<lparr>lh_n := sint (rd32 (bdata (bufs t b)) 0)\<rparr>\<rparr>\<lparr>log :=
              fold (\<lambda>i l. l\<lparr>lh_block := (lh_block l)(i := rd32 (bdata (bufs t b)) (4 + 4 * i))\<rparr>)
                [0..<nat (sint (rd32 (bdata (bufs t b)) 0))] (log (t\<lparr>log := log t\<lparr>lh_n := sint (rd32 (bdata (bufs t b)) 0)\<rparr>\<rparr>))\<rparr>)"
        have data: "bdata (bufs t b) = C (lstart ?l)" using cache_held(5) [OF bstateD(3) [OF t(2)] _ t(3)] by simp
        have lt: "log t = ?l" by (rule bframe_log [OF t(1)])
        have lg: "fold (\<lambda>i l. l\<lparr>lh_block := (lh_block l)(i := rd32 (C (lstart ?l)) (4 + 4 * i))\<rparr>)
            [0..<nat (sint (rd32 (C (lstart ?l)) 0))] (?l\<lparr>lh_n := sint (rd32 (C (lstart ?l)) 0)\<rparr>) = read_log (C (lstart ?l)) ?l"
          unfolding fold_blocks by (simp add: read_log_def head_n_def cong: if_cong)
        have f: "bframe (t\<lparr>log := read_log (C (lstart ?l)) ?l\<rparr>) u"
          using u(1) unfolding data lt by (simp add: lg del: fun_upd_apply)
        have "Q () (u\<lparr>log := ?l\<rparr>\<lparr>log := read_log (C (lstart ?l)) ?l\<rparr>) es"
        proof (rule Q)
          show "bframe s (u\<lparr>log := ?l\<rparr>)" using bframe_trans [OF t(1) bframe_log_upd [OF f]] by (simp add: lt)
        qed (use t u in simp_all)
        moreover have "u\<lparr>log := ?l\<rparr>\<lparr>log := read_log (C (lstart ?l)) ?l\<rparr> = u" using bframe_log [OF f] by simp
        ultimately show "Q () u es" by simp
      qed
      done
    done
qed

section \<open>The header on disk\<close>

lemma rd32_wr32 [simp]: "off + 4 \<le> length bs \<Longrightarrow> rd32 (wr32 bs off v) off = v"
  by (simp add: rd32_def wr32_def slice_blit_same)

lemma length_wr32 [simp]: "off + 4 \<le> length bs \<Longrightarrow> length (wr32 bs off v) = length bs"
  by (simp add: wr32_def)

lemma rd32_wr32_other:
  assumes "off' + 4 \<le> off \<or> off + 4 \<le> off'" "off' + 4 \<le> length bs" "off + 4 \<le> length bs"
  shows "rd32 (wr32 bs off v) off' = rd32 bs off'"
proof -
  have "slice (wr32 bs off v) off' 4 = slice bs off' 4"
    by (rule nth_equalityI) (use assms in \<open>auto simp: slice_def wr32_def nth_blit\<close>)
  then show ?thesis by (simp add: rd32_def)
qed

lemma fold_wr32:
  assumes "4 + 4 * n \<le> length bs"
  shows "rd32 (fold (\<lambda>i b. wr32 b (4 + 4 * i) (f i)) [0..<n] bs) 0 = rd32 bs 0 \<and>
    (\<forall>i<n. rd32 (fold (\<lambda>i b. wr32 b (4 + 4 * i) (f i)) [0..<n] bs) (4 + 4 * i) = f i) \<and>
    length (fold (\<lambda>i b. wr32 b (4 + 4 * i) (f i)) [0..<n] bs) = length bs"
  using assms
proof (induction n)
  case (Suc n)
  define b where "b = fold (\<lambda>i b. wr32 b (4 + 4 * i) (f i)) [0..<n] bs"
  have IH: "rd32 b 0 = rd32 bs 0" "\<And>i. i < n \<Longrightarrow> rd32 b (4 + 4 * i) = f i" "length b = length bs"
    using Suc unfolding b_def by auto
  have "rd32 (wr32 b (4 + 4 * n) (f n)) 0 = rd32 bs 0" using Suc.prems IH by (subst rd32_wr32_other) auto
  moreover have "rd32 (wr32 b (4 + 4 * n) (f n)) (4 + 4 * i) = f i" if "i < Suc n" for i
  proof (cases "i = n")
    case False
    then show ?thesis using that Suc.prems IH by (subst rd32_wr32_other) auto
  qed (use Suc.prems IH in auto)
  moreover have "length (wr32 b (4 + 4 * n) (f n)) = length bs" using Suc.prems IH(3) by simp
  ultimately show ?case by (simp flip: b_def)
qed simp

lemma length_head_bytes [simp]: "4 + 4 * nat (lh_n l) \<le> length bs \<Longrightarrow> length (head_bytes bs l) = length bs"
  using fold_wr32 [of "nat (lh_n l)" "wr32 bs 0 (of_int (lh_n l))" "lh_block l"] by (simp add: head_bytes_def)

lemma sint_small: "n \<le> 30 \<Longrightarrow> sint (of_int (int n) :: 32 word) = int n"
  unfolding sint_sbintrunc' by (simp add: signed_take_bit_int_eq_self)

text \<open>
  What \<open>read_head\<close> makes of a header that \<open>write_head\<close> wrote.
\<close>

lemma head_roundtrip:
  assumes "0 \<le> lh_n l" "nat (lh_n l) \<le> LOGSIZE" "length bs = BSIZE"
  shows "head_n (head_bytes bs l) = nat (lh_n l)" "sint (rd32 (head_bytes bs l) 0) = lh_n l"
    "i < nat (lh_n l) \<Longrightarrow> rd32 (head_bytes bs l) (4 + 4 * i) = lh_block l i"
proof -
  have le: "4 + 4 * nat (lh_n l) \<le> length (wr32 bs 0 (of_int (lh_n l)))" using assms by (simp add: LOGSIZE_30 BSIZE_def)
  note f = fold_wr32 [OF le, of "lh_block l"]
  have "rd32 (head_bytes bs l) 0 = of_int (lh_n l)"
    using f assms by (simp add: head_bytes_def BSIZE_def)
  then show n: "sint (rd32 (head_bytes bs l) 0) = lh_n l"
    using sint_small [of "nat (lh_n l)"] assms by (simp add: LOGSIZE_30)
  then show "head_n (head_bytes bs l) = nat (lh_n l)" by (simp add: head_n_def)
  show "i < nat (lh_n l) \<Longrightarrow> rd32 (head_bytes bs l) (4 + 4 * i) = lh_block l i"
    using f by (simp add: head_bytes_def)
qed

section \<open>Recovery and commit\<close>

text \<open>The frame of an operation that may also change the in-memory log.\<close>

definition lframe :: "'x logs_scheme \<Rightarrow> 'x logs_scheme \<Rightarrow> bool" where
  "lframe s t \<longleftrightarrow> bframe s (t\<lparr>log := log s\<rparr>)"

lemma bframe_upd_log: "bframe a b \<Longrightarrow> bframe (a\<lparr>log := l\<rparr>) (b\<lparr>log := l\<rparr>)"
  using bframe_log_upd [where t = "a\<lparr>log := l\<rparr>" and l = "log a" and u = b] by simp

lemma lframe_simps: "bframe s t \<Longrightarrow> lframe s t" "lframe s (s\<lparr>log := l\<rparr>)"
proof -
  assume "bframe s t"
  moreover from this have "t\<lparr>log := log s\<rparr> = t" by (simp flip: bframe_log)
  ultimately show "lframe s t" by (simp add: lframe_def)
qed (simp add: lframe_def bframe_refl)

lemma lframe_trans: "lframe s t \<Longrightarrow> lframe t u \<Longrightarrow> lframe s u"
  unfolding lframe_def using bframe_trans bframe_upd_log [of t "u\<lparr>log := log t\<rparr>" "log s"] by fastforce

text \<open>The writes of recovery from a disk with contents \<open>C\<close>, and the writes of a commit.\<close>

definition rec_writes :: "logst \<Rightarrow> (32 word \<Rightarrow> byte list) \<Rightarrow> (32 word \<times> byte list) list" where
  "rec_writes l C = home_writes (read_log (C (lstart l)) l) C [0..<head_n (C (lstart l))] @
     [(lstart l, wr32 (C (lstart l)) 0 0)]"

definition commit_writes :: "logst \<Rightarrow> (32 word \<Rightarrow> byte list) \<Rightarrow> (32 word \<times> byte list) list" where
  "commit_writes l C = log_writes l C [0..<nat (lh_n l)] @ [(lstart l, head_bytes (C (lstart l)) l)] @
     map (\<lambda>i. (lh_block l i, C (lh_block l i))) [0..<nat (lh_n l)] @
     [(lstart l, wr32 (head_bytes (C (lstart l)) l) 0 0)]"

lemma read_log_simps [simp]:
  "lstart (read_log bs l) = lstart l" "ldev (read_log bs l) = ldev l" "nat (lh_n (read_log bs l)) = head_n bs"
  "lsize (read_log bs l) = lsize l" "outstanding (read_log bs l) = outstanding l" "committing (read_log bs l) = committing l"
  by (simp_all add: read_log_def head_n_def)

lemma head_bytes_0 [simp]: "head_bytes bs (l\<lparr>lh_n := 0\<rparr>) = wr32 bs 0 0"
  by (simp add: head_bytes_def)

lemma home_writes_start:
  assumes "log_pre d R l" shows "redo (home_writes l C [0..<nat (lh_n l)]) D (lstart l) = D (lstart l)"
  by (rule redo_other) (use assms log_area_I(2) [of "lstart l"] in \<open>force simp: log_pre_def home_writes_def\<close>)

lemma wp_recover_from_log:
  assumes bst: "bstate [] P p d C R {} s" and pre: "log_pre d R (read_log (C (lstart (log s))) (log s))"
    and room: "card {m. R m \<noteq> 0} + 1 < NBUF"
    and Q: "\<And>t W. W = rec_writes (log s) C \<Longrightarrow> lframe s t \<Longrightarrow> log t = (read_log (C (lstart (log s))) (log s))\<lparr>lh_n := 0\<rparr> \<Longrightarrow>
      bstate [] P p d (redo W C) R {} t \<Longrightarrow> disk t = redo W (disk s) \<Longrightarrow> wlog t = wlog s @ W \<Longrightarrow> Q () t es"
  shows "wp recover_from_log s es Q"
proof -
  let ?l = "read_log (C (lstart (log s))) (log s)"
  have c: "card {m. R m \<noteq> 0} < NBUF" "\<And>m. R m < 2 ^ 31" "ldev (log s) = d" using pre by (auto simp: log_pre_def)
  note st = home_writes_start [OF pre, unfolded read_log_simps]
  show ?thesis
    unfolding recover_from_log_def wp_simps
    apply (rule wp_read_head [OF bst c(3) c(1,2)])
    subgoal for t
      apply (rule wp_install_trans [where R = R and C = C and P = P and p = p and d = d])
           apply simp
          apply (simp add: pre)
         apply (rule room)
        apply simp
       apply simp
      subgoal for u W
        unfolding wp_log
        apply (rule wp_write_head [where R = R and P = P and p = p and d = d])
            apply simp
           apply (use c bframe_log [of "t\<lparr>log := ?l\<rparr>" u] in simp)
          apply (rule c)
         apply (rule c)
        subgoal for v h
          apply (rule Q [OF refl])
              apply (metis lframe_simps lframe_trans)
             apply (use bframe_log [of "t\<lparr>log := ?l\<rparr>" u] bframe_log [of _ v] in simp)
            apply (use bframe_log [of "t\<lparr>log := ?l\<rparr>" u] in \<open>simp add: rec_writes_def st\<close>)
           apply (use bframe_log [of "t\<lparr>log := ?l\<rparr>" u] in \<open>simp add: rec_writes_def st\<close>)
          apply (use bframe_log [of "t\<lparr>log := ?l\<rparr>" u] in \<open>simp add: rec_writes_def st\<close>)
          done
        done
      done
    done
qed

lemma log_writes_start:
  assumes "log_pre d R l" shows "redo (log_writes l C [0..<nat (lh_n l)]) D (lstart l) = D (lstart l)"
proof (rule redo_other)
  have "log_blk (lstart l) i \<noteq> lstart l" if "i < nat (lh_n l)" for i
    using assms that log_blk_neq_start [of i "lstart l"] by (simp add: log_pre_def)
  then show "lstart l \<notin> fst ` set (log_writes l C [0..<nat (lh_n l)])" by (force simp: log_writes_def)
qed

lemma log_writes_at:
  assumes "log_pre d R l" "i < nat (lh_n l)"
  shows "redo (log_writes l C [0..<nat (lh_n l)]) D (log_blk (lstart l) i) = C (lh_block l i)"
  unfolding log_writes_def
  by (rule redo_by_index) (use assms log_blk_inj [of "lstart l"] in \<open>auto simp: log_pre_def elim: inj_on_subset\<close>)

lemma log_pre_mono: "log_pre d R l \<Longrightarrow> (\<And>m. R' m \<le> R m) \<Longrightarrow> log_pre d R' l"
  using card_support_mono [of R' R] unfolding log_pre_def by (meson le_less_trans)

lemma wp_commit:
  assumes bst: "bstate [] P p d C R {} s" and pre: "log_pre d R (log s)" and n: "lh_n (log s) > 0"
    and pin: "\<And>i. i < nat (lh_n (log s)) \<Longrightarrow> R (lh_block (log s) i) \<noteq> 0"
    and inj: "inj_on (lh_block (log s)) {..<nat (lh_n (log s))}"
    and Q: "\<And>t W. W = commit_writes (log s) C \<Longrightarrow> lframe s t \<Longrightarrow> log t = (log s)\<lparr>lh_n := 0\<rparr> \<Longrightarrow>
      bstate [] P p d (redo W C) (unpinned (log s) [0..<nat (lh_n (log s))] R) {} t \<Longrightarrow>
      disk t = redo W (disk s) \<Longrightarrow> wlog t = wlog s @ W \<Longrightarrow> Q () t es"
  shows "wp commit s es Q"
proof -
  let ?l = "log s" and ?n = "nat (lh_n (log s))"
  define W1 where "W1 = log_writes ?l C [0..<?n]"
  define h where "h = head_bytes (C (lstart ?l)) ?l"
  define C2 where "C2 = (redo W1 C)(lstart ?l := h)"
  have c: "card {m. R m \<noteq> 0} < NBUF" "\<And>m. R m < 2 ^ 31" "ldev ?l = d" using pre by (auto simp: log_pre_def)
  note pre' = log_pre_mono [OF pre, of "unpinned ?l [0..<?n] R"]
  have c': "card {m. unpinned ?l [0..<?n] R m \<noteq> 0} < NBUF" "\<And>m. unpinned ?l [0..<?n] R m < 2 ^ 31"
    using pre' by (simp_all add: log_pre_def unpinned_def)
  have s1: "redo W1 C (lstart ?l) = C (lstart ?l)" unfolding W1_def by (rule log_writes_start [OF pre])
  have "C2 (log_blk (lstart ?l) i) = C (lh_block ?l i)" if "i < ?n" for i
    using log_writes_at [OF pre that] log_blk_neq_start [of i "lstart ?l"] that pre
    by (simp add: C2_def W1_def log_pre_def)
  then have W3: "home_writes ?l C2 [0..<?n] = map (\<lambda>i. (lh_block ?l i, C (lh_block ?l i))) [0..<?n]"
    by (simp add: home_writes_def)
  have s3: "redo (home_writes ?l C2 [0..<?n]) C2 (lstart ?l) = h"
    using home_writes_start [OF pre, of C2 C2] by (simp add: C2_def)
  show ?thesis
    unfolding commit_def wp_simps wp_log if_P [OF n]
    apply (rule wp_write_log [OF bst pre pin], assumption)
    subgoal for t W
      apply (rule wp_write_head [where C = "redo W1 C" and R = R and P = P and p = p and d = d])
          apply (simp add: W1_def)
         apply (simp add: bframe_log c)
        apply (rule c)
       apply (rule c)
      subgoal for u h'
        apply (rule wp_install_trans [where C = C2 and R = R and P = P and p = p and d = d])
             apply (simp add: bframe_log C2_def h_def s1)
            apply (simp add: bframe_log pre)
           apply simp
          apply (simp add: bframe_log pin)
         apply (simp add: bframe_log inj)
        subgoal for v W'
          apply (rule wp_write_head [where C = "redo (home_writes ?l C2 [0..<?n]) C2" and R = "unpinned ?l [0..<?n] R" and P = P and p = p and d = d])
              apply (simp add: bframe_log)
             apply (simp add: bframe_log c)
            apply (rule c')
           apply (rule c')
          subgoal for w h''
            apply (rule Q [OF refl])
                apply (metis lframe_simps lframe_trans)
               apply (simp add: bframe_log)
              apply (simp add: bframe_log s3 commit_writes_def flip: W3 h_def W1_def)
              apply (simp add: C2_def)
             apply (simp add: bframe_log s3 s1 commit_writes_def flip: W3 h_def W1_def)
            apply (simp add: bframe_log s3 s1 commit_writes_def flip: W3 h_def W1_def)
            done
          done
        done
      done
    done
qed

end
