(* ===== verification/Crash.thy ===== *)
theory Crash
  imports Recovery
begin

text \<open>
  Crash safety of the log.  A crash stops the machine after some prefix of the disk writes
  of \<open>commit\<close> (or of an interrupted recovery); what is left is the disk.  Recovery then
  makes the disk that of before the transaction or that of after it, never a mixture.
\<close>

section \<open>What recovery will make of a disk\<close>

definition head_writes :: "32 word \<Rightarrow> (32 word \<Rightarrow> byte list) \<Rightarrow> (32 word \<times> byte list) list" where
  "head_writes start E = map (\<lambda>i. (rd32 (E start) (4 + 4 * i), E (log_blk start i))) [0..<head_n (E start)]"

definition recovers :: "32 word \<Rightarrow> (32 word \<Rightarrow> byte list) \<Rightarrow> (32 word \<Rightarrow> byte list) \<Rightarrow> bool" where
  "recovers start E H \<longleftrightarrow> length (E start) = BSIZE \<and> head_n (E start) \<le> LOGSIZE \<and>
     (\<forall>i<head_n (E start). rd32 (E start) (4 + 4 * i) \<notin> log_area start) \<and>
     (\<forall>m. m \<notin> log_area start \<longrightarrow> redo (head_writes start E) E m = H m)"

lemma rec_writes_head: "rec_writes l E = head_writes (lstart l) E @ [(lstart l, wr32 (E (lstart l)) 0 0)]"
  by (auto simp: rec_writes_def head_writes_def home_writes_def read_log_def)

lemma redo_determined: "m \<in> fst ` set ws \<Longrightarrow> redo ws D m = redo ws D' m"
proof (induction ws arbitrary: D D')
  case (Cons w ws)
  show ?case
  proof (cases "m \<in> fst ` set ws")
    case True then show ?thesis using Cons.IH by simp
  next
    case False then show ?thesis using Cons.prems by (simp add: redo_other)
  qed
qed simp

lemma redo_idem: "fst ` set vs \<subseteq> fst ` set ws \<Longrightarrow> redo ws (redo vs D) m = redo ws D m"
proof (cases "m \<in> fst ` set ws")
  case False
  moreover assume "fst ` set vs \<subseteq> fst ` set ws"
  ultimately have "m \<notin> fst ` set vs" by blast
  with False show ?thesis by (simp add: redo_other)
qed (rule redo_determined)

lemma redo_cleared:
  assumes "length (E start) = BSIZE"
  shows "head_n (wr32 (E start) 0 0) = 0"
  using assms by (simp add: head_n_def BSIZE_def)

lemma recovers_empty:
  assumes "length (E start) = BSIZE" "head_n (E start) = 0" "\<And>m. m \<notin> log_area start \<Longrightarrow> E m = H m"
  shows "recovers start E H"
  using assms by (simp add: recovers_def head_writes_def)

lemma keys_outside:
  assumes "recovers start E H" "m \<in> log_area start" shows "m \<notin> fst ` set (head_writes start E)"
  using assms by (force simp: recovers_def head_writes_def)

text \<open>An interrupted recovery leaves a disk that recovers to the same contents.\<close>

lemma recovers_again:
  assumes rec: "recovers start E H" and "lstart l = start"
  shows "recovers start (redo (take j (rec_writes l E)) E) H"
proof -
  let ?h = "head_writes start E"
  have st: "start \<notin> fst ` set ?h" by (rule keys_outside [OF rec log_area_I(2)])
  have len: "length (E start) = BSIZE" using rec by (simp add: recovers_def)
  show ?thesis
  proof (cases "j \<le> length ?h")
    case True
    let ?E = "redo (take j ?h) E"
    have k: "fst ` set (take j ?h) \<subseteq> fst ` set ?h" by (auto dest: in_set_takeD)
    have "?E m = E m" if "m \<in> log_area start" for m
      by (rule redo_other) (use keys_outside [OF rec that] k in blast)
    then have E: "?E start = E start" "\<And>i. i < LOGSIZE \<Longrightarrow> ?E (log_blk start i) = E (log_blk start i)"
      using log_area_I by auto
    then have "head_writes start ?E = ?h" using rec by (auto simp: head_writes_def recovers_def)
    then show ?thesis
      using rec True assms(2) by (simp add: recovers_def rec_writes_head E redo_idem [OF k])
  next
    case False
    have all: "take j (rec_writes l E) = rec_writes l E" using False assms(2) by (simp add: rec_writes_head)
    show ?thesis unfolding all
    proof (rule recovers_empty)
      fix m assume "m \<notin> log_area start"
      then show "redo (rec_writes l E) E m = H m"
        using rec assms(2) log_area_I(2) [of start] by (auto simp: rec_writes_head recovers_def)
    qed (use assms(2) len redo_cleared in \<open>simp_all add: rec_writes_head BSIZE_def\<close>)
  qed
qed

section \<open>Crashes during a commit\<close>

lemma recovers_before:
  assumes pre: "log_pre d R l" and k: "k \<le> nat (lh_n l)"
    and D: "length (D (lstart l)) = BSIZE" "head_n (D (lstart l)) = 0"
  shows "recovers (lstart l) (redo (take k (commit_writes l C)) D) D"
proof -
  have t: "take k (commit_writes l C) = log_writes l C [0..<k]"
    using k by (simp add: commit_writes_def log_writes_def take_map)
  have n: "nat (lh_n l) \<le> LOGSIZE" using pre by (simp add: log_pre_def)
  have out: "redo (log_writes l C [0..<k]) D m = D m" if "m = lstart l \<or> m \<notin> log_area (lstart l)" for m
    by (rule redo_other) (use that k n log_blk_neq_start log_area_I(1) in \<open>force simp: log_writes_def\<close>)
  show ?thesis unfolding t by (rule recovers_empty) (use D out in simp_all)
qed

text \<open>The contents the transaction makes durable.\<close>

definition after :: "logst \<Rightarrow> (32 word \<Rightarrow> byte list) \<Rightarrow> (32 word \<Rightarrow> byte list) \<Rightarrow> 32 word \<Rightarrow> byte list" where
  "after l C D m = (if m \<in> lh_block l ` {..<nat (lh_n l)} then C m else D m)"

lemma redo_home: "redo (map (\<lambda>i. (lh_block l i, C (lh_block l i))) [0..<n]) D m = (if m \<in> lh_block l ` {..<n} then C m else D m)"
  by (simp add: redo_by_key atLeast0LessThan)

lemma recovers_after:
  assumes pre: "log_pre d R l" and k: "nat (lh_n l) < k" "0 \<le> lh_n l"
    and D: "length (D (lstart l)) = BSIZE" "C (lstart l) = D (lstart l)"
  shows "recovers (lstart l) (redo (take k (commit_writes l C)) D) (after l C D)"
proof -
  let ?n = "nat (lh_n l)" and ?st = "lstart l"
  define h where "h = head_bytes (C ?st) l"
  define V where "V = map (\<lambda>i. (lh_block l i, C (lh_block l i))) [0..<?n]"
  define D1 where "D1 = (redo (log_writes l C [0..<?n]) D)(?st := h)"
  have n: "?n \<le> LOGSIZE" and out: "\<And>i. i < ?n \<Longrightarrow> lh_block l i \<notin> log_area ?st" using pre by (auto simp: log_pre_def)
  note hr = head_roundtrip [OF k(2) n, of "C ?st", folded h_def]
  have len: "length h = BSIZE" using D n by (simp add: h_def LOGSIZE_30 BSIZE_def)
  have D1_log: "D1 (log_blk ?st i) = C (lh_block l i)" if "i < ?n" for i
    using log_writes_at [OF pre that] log_blk_neq_start [of i ?st] that n by (simp add: D1_def)
  have D1_out: "D1 m = D m" if "m \<notin> log_area ?st" for m
  proof -
    have "m \<notin> fst ` set (log_writes l C [0..<?n])" using that n log_area_I(1) by (force simp: log_writes_def)
    then show ?thesis using that log_area_I(2) [of ?st] redo_other by (auto simp: D1_def)
  qed
  have V_log: "redo (take j V) D1 m = D1 m" if "m \<in> log_area ?st" for j m
    by (rule redo_other) (use that out in \<open>force simp: V_def dest: in_set_takeD\<close>)
  have new: "redo V D1 m = after l C D m" if "m \<notin> log_area ?st" for m
    using D1_out [OF that] by (simp add: V_def redo_home after_def)
  obtain j where j: "k = ?n + 1 + j" using k(1) by (metis Suc_eq_plus1 add.assoc less_iff_Suc_add add.commute)
  have W: "redo (take k (commit_writes l C)) D = redo (take j (V @ [(?st, wr32 h 0 0)])) D1"
    by (simp add: commit_writes_def j D1_def log_writes_def flip: h_def V_def)
  show ?thesis
  proof (cases "j \<le> ?n")
    case True
    let ?E = "redo (take j V) D1"
    have E: "?E ?st = h" "\<And>i. i < ?n \<Longrightarrow> ?E (log_blk ?st i) = C (lh_block l i)"
      using V_log log_area_I n D1_log by (auto simp: D1_def)
    have hw: "head_writes ?st ?E = V" using E hr D by (auto simp: head_writes_def V_def)
    have "redo V ?E m = redo V D1 m" for m by (rule redo_idem) (auto dest: in_set_takeD)
    then have "recovers ?st ?E (after l C D)"
      using new n hr D out len by (simp add: recovers_def hw E)
    then show ?thesis unfolding W using True by (simp add: V_def)
  next
    case False
    have "recovers ?st ((redo V D1)(?st := wr32 h 0 0)) (after l C D)"
      by (rule recovers_empty) (use len new redo_cleared [of "\<lambda>_. h"] log_area_I(2) [of ?st] in \<open>auto simp: BSIZE_def\<close>)
    moreover have "take j (V @ [(?st, wr32 h 0 0)]) = V @ [(?st, wr32 h 0 0)]" using False by (simp add: V_def)
    ultimately show ?thesis unfolding W by simp
  qed
qed

section \<open>Booting after a crash\<close>

text \<open>
  A state in which recovery starts: the buffer cache is empty, as \<open>binit\<close> leaves it, no
  lock is held, and a process is running (\<open>forkret\<close> calls \<open>fsinit\<close>).
\<close>

definition booted :: "32 word \<Rightarrow> 'x logs_scheme \<Rightarrow> bool" where
  "booted d s \<longleftrightarrow> (\<exists>P p. bstate [] P p d (disk s) (\<lambda>_. 0) {} s)"

lemma recovers_log_pre:
  assumes "recovers start E H" "lstart l = start" "ldev l = d"
  shows "log_pre d (\<lambda>_. 0) (read_log (E start) l)"
  using assms by (simp add: log_pre_def recovers_def NBUF_30) (simp add: read_log_def)

lemma wp_initlog:
  assumes bt: "booted d s" and rec: "recovers (sb_logstart sb) (disk s) H"
    and Q: "\<And>t l. lstart l = sb_logstart sb \<Longrightarrow> booted d t \<Longrightarrow> disk t = redo (rec_writes l (disk s)) (disk s) \<Longrightarrow>
      wlog t = wlog s @ rec_writes l (disk s) \<Longrightarrow> Q () t es"
  shows "wp (initlog d sb) s es Q"
proof -
  obtain P p where b: "bstate [] P p d (disk s) (\<lambda>_. 0) {} s" using bt by (auto simp: booted_def)
  have sz: "\<not> sizeof_logheader \<ge> BSIZE" by (simp add: sizeof_logheader_def LOGSIZE_30 BSIZE_def)
  show ?thesis
    unfolding initlog_def wp_simps if_not_P [OF sz]
    apply (rule wp_initlock [OF bstateD(1) [OF b]], simp)
    subgoal for k
      unfolding wp_log
      apply (rule wp_recover_from_log [where C = "disk s" and R = "\<lambda>_. 0" and P = P and p = p and d = d])
         apply (use b in \<open>simp add: bstate_def\<close>)
        apply (rule recovers_log_pre [where H = H], use rec in simp, simp, simp)
       apply (simp add: NBUF_30)
      subgoal for t W
        apply (rule Q [where l = "(log s)\<lparr>lstart := sb_logstart sb, lsize := sint (sb_nlog sb), ldev := d\<rparr>"])
           apply simp
          apply (simp add: booted_def, blast)
         apply simp
        apply simp
        done
      done
    done
qed

text \<open>
  A crash during recovery: the kernel booted on a disk, ran \<open>initlog\<close>, and stopped after
  \<open>k\<close> of its writes.
\<close>

inductive crash :: "32 word \<Rightarrow> superblock \<Rightarrow> (32 word \<Rightarrow> byte list) \<Rightarrow> (32 word \<Rightarrow> byte list) \<Rightarrow> bool" for d sb where
  crash: "booted d (r :: logs) \<Longrightarrow> initlog d sb r es = Done () t es \<Longrightarrow> wlog t = wlog r @ V \<Longrightarrow>
    crash d sb (disk r) (redo (take k V) (disk r))"

lemma crash_recovers:
  assumes "(crash d sb)\<^sup>*\<^sup>* E F" "recovers (sb_logstart sb) E H" shows "recovers (sb_logstart sb) F H"
  using assms
proof (induction rule: rtranclp_induct)
  case (step F G)
  note rec = step.IH [OF step.prems]
  from step.hyps(2) show ?case
  proof cases
    case (crash r es t V k)
    have "wp (initlog d sb) r es (\<lambda>_ t fs. \<exists>l. lstart l = sb_logstart sb \<and> wlog t = wlog r @ rec_writes l (disk r))"
      by (rule wp_initlog [OF crash(3), where H = H]) (use rec crash in auto)
    then obtain l where "lstart l = sb_logstart sb" "V = rec_writes l F" using crash by (auto simp: wp_iff)
    with recovers_again [OF rec] crash show ?thesis by simp
  qed
qed

section \<open>Recording blocks in a transaction\<close>

text \<open>The blocks of the current transaction, in the order they were first written.\<close>

definition logged :: "logst \<Rightarrow> 32 word list" where
  "logged l = map (lh_block l) [0..<nat (lh_n l)]"

definition log_add :: "32 word \<Rightarrow> logst \<Rightarrow> logst" where
  "log_add n l = (if n \<in> set (logged l) then l
     else l\<lparr>lh_n := lh_n l + 1, lh_block := (lh_block l)(nat (lh_n l) := n)\<rparr>)"

lemma logged_add: "0 \<le> lh_n l \<Longrightarrow> logged (log_add n l) = (if n \<in> set (logged l) then logged l else logged l @ [n])"
  by (auto simp: log_add_def logged_def nat_add_distrib)

lemma log_slot_cases:
  "(log_slot blk bn k i = i + k \<and> bn \<notin> blk ` {i..<i + k}) \<or>
   (i \<le> log_slot blk bn k i \<and> log_slot blk bn k i < i + k \<and> blk (log_slot blk bn k i) = bn)"
proof (induction k arbitrary: i)
  case (Suc k)
  have "{i..<i + Suc k} = insert i {Suc i..<Suc i + k}" by auto
  then show ?case using Suc [of "Suc i"] by auto
qed simp

lemma set_logged: "set (logged l) = lh_block l ` {..<nat (lh_n l)}"
  by (simp add: logged_def atLeast0LessThan)

lemma wp_log_write:
  assumes bst: "bstate [] P p d C R H s" and n: "n \<in> H" "at_buf (bufs s) d n b" "R n < 2 ^ 32 - 1"
    and l: "0 \<le> lh_n (log s)" "lh_n (log s) < int LOGSIZE" "lh_n (log s) < lsize (log s) - 1" "1 \<le> outstanding (log s)"
    and Q: "\<And>t. lframe s t \<Longrightarrow> log t = log_add n (log s) \<Longrightarrow>
      bstate [] P p d C (if n \<in> set (logged (log s)) then R else R(n := R n + 1)) H t \<Longrightarrow> same_bufs d R s t \<Longrightarrow>
      at_buf (bufs t) d n b \<Longrightarrow> disk t = disk s \<Longrightarrow> wlog t = wlog s \<Longrightarrow> Q () t es"
  shows "wp (log_write b) s es Q"
proof -
  let ?l = "log s"
  define i where "i = log_slot (lh_block ?l) n (nat (lh_n ?l)) 0"
  have bn: "blockno (bufs s b) = n" using n by (simp add: at_buf_def)
  have g: "\<not> (lh_n ?l \<ge> int LOGSIZE \<or> lh_n ?l \<ge> lsize ?l - 1)" "\<not> outstanding ?l < 1" using l by auto
  show ?thesis
  proof (cases "n \<in> set (logged ?l)")
    case True
    then have i: "int i \<noteq> lh_n ?l" "(lh_block ?l)(i := n) = lh_block ?l"
      using log_slot_cases [of "lh_block ?l" n "nat (lh_n ?l)" 0] l unfolding i_def set_logged by (auto simp: lessThan_atLeast0)
    show ?thesis
      unfolding log_write_def Let_def wp_simps
      apply (rule wp_acquire [OF bstateD(1) [OF bst]], simp)
      subgoal for c st k
        unfolding wp_log wp_buf
        apply (simp add: g bn i flip: i_def del: fun_upd_apply)
        apply (rule wp_release, simp, simp)
        apply (rule Q)
              apply (simp add: lframe_def bframe_def)
             apply (simp add: log_add_def True)
            apply (use bst True in \<open>simp add: bstate_def\<close>)
           apply (use n in simp_all)
        done
      done
  next
    case False
    then have i: "i = nat (lh_n ?l)"
      using log_slot_cases [of "lh_block ?l" n "nat (lh_n ?l)" 0] l unfolding i_def set_logged by (force simp: lessThan_atLeast0)
    then have i': "int i = lh_n ?l" using l by simp
    show ?thesis
      unfolding log_write_def Let_def wp_simps
      apply (rule wp_acquire [OF bstateD(1) [OF bst]], simp)
      subgoal for c st k
        unfolding wp_log wp_buf
        apply (simp add: g bn i' flip: i_def del: fun_upd_apply)
        apply (rule wp_bpin [where P = P and p = p and d = d and C = C and R = R and H = H and n = n and L = "[LogLock]"])
             apply (use bst in \<open>simp add: bstate_def\<close>)
            apply simp
           apply (rule n)
          apply (use n in simp)
         apply (use n in simp)
        subgoal for u
          apply (rule wp_release [where L = "[LogLock]" and P = P], simp add: bstate_def, simp)
          apply (rule Q)
                apply (rule lframe_trans [of _ u])
                 apply (rule lframe_trans [OF _ lframe_simps(1)], rule lframe_trans [OF lframe_simps(2)], rule lframe_simps(1))
                  prefer 2 apply assumption
                 apply (simp add: bframe_def)
                apply (simp add: lframe_def bframe_def)
               apply (simp add: bframe_log log_add_def False i)
              apply (use False in \<open>simp add: bstate_def\<close>)
             apply simp_all
          done
        done
      done
  qed
qed

section \<open>Atomicity\<close>

text \<open>
  The state at the start of \<open>commit\<close>: \<open>C\<close> gives the contents of every block as the file
  system sees them, \<open>R\<close> the references to them; the blocks of the transaction are distinct,
  outside the log, pinned in the cache, and the header on disk is empty.
\<close>

definition txn_ok :: "(nat \<Rightarrow> nat option) \<Rightarrow> nat \<Rightarrow> 32 word \<Rightarrow> (32 word \<Rightarrow> byte list) \<Rightarrow> (32 word \<Rightarrow> nat) \<Rightarrow>
    'x logs_scheme \<Rightarrow> bool" where
  "txn_ok P p d C R s \<longleftrightarrow> bstate [] P p d C R {} s \<and> log_pre d R (log s) \<and> 0 \<le> lh_n (log s) \<and> distinct (logged (log s)) \<and>
     (\<forall>m\<in>set (logged (log s)). R m \<noteq> 0) \<and> R (lstart (log s)) = 0 \<and>
     length (disk s (lstart (log s))) = BSIZE \<and> head_n (disk s (lstart (log s))) = 0"

lemma inj_logged: "distinct (logged l) \<longleftrightarrow> inj_on (lh_block l) {..<nat (lh_n l)}"
  by (simp add: logged_def distinct_map atLeast0LessThan)

text \<open>
  C1.  A transaction is atomic.  \<open>commit\<close> returns; let \<open>W\<close> be the disk writes it issued.  If the
  machine stops after any number \<open>k\<close> of them, and then any number of times during recovery
  from that crash, and \<open>initlog\<close> at last runs to its end, then outside the log area the disk
  has the contents of before the transaction, if the crash came before the header was
  written, and otherwise all the blocks of the transaction with their new contents.
\<close>

theorem commit_crash_atomic:
  fixes s :: logs
  assumes "txn_ok P p d C R s" "lh_n (log s) > 0" "sb_logstart sb = lstart (log s)"
  shows "\<exists>t W. commit s es = Done () t es \<and> wlog t = wlog s @ W \<and> disk t = redo W (disk s) \<and>
    (\<forall>k E (r :: logs) fs. (crash d sb)\<^sup>*\<^sup>* (redo (take k W) (disk s)) E \<longrightarrow> booted d r \<longrightarrow> disk r = E \<longrightarrow>
      (\<exists>v. initlog d sb r fs = Done () v fs \<and>
        (\<forall>m. m \<notin> log_area (lstart (log s)) \<longrightarrow> disk v m =
          (if k \<le> length (logged (log s)) then disk s m else if m \<in> set (logged (log s)) then C m else disk s m))))"
proof -
  let ?l = "log s" and ?W = "commit_writes (log s) C"
  have bst: "bstate [] P p d C R {} s" and pre: "log_pre d R ?l" and st: "length (disk s (lstart ?l)) = BSIZE"
      "head_n (disk s (lstart ?l)) = 0" "C (lstart ?l) = disk s (lstart ?l)"
    and inj: "inj_on (lh_block ?l) {..<nat (lh_n ?l)}" and pin: "\<And>i. i < nat (lh_n ?l) \<Longrightarrow> R (lh_block ?l i) \<noteq> 0"
    using assms(1) cache_okD(7) [OF bstateD(3)] by (auto simp: txn_ok_def inj_logged set_logged)
  have "wp commit s es (\<lambda>_ t fs. fs = es \<and> wlog t = wlog s @ ?W \<and> disk t = redo ?W (disk s))"
    by (rule wp_commit [OF bst pre assms(2) pin inj]) auto
  from wp_unitD [OF this] obtain t where t: "commit s es = Done () t es" "wlog t = wlog s @ ?W" "disk t = redo ?W (disk s)"
    by blast
  have rec: "\<exists>v. initlog d sb r fs = Done () v fs \<and> (\<forall>m. m \<notin> log_area (lstart ?l) \<longrightarrow> disk v m =
          (if k \<le> length (logged ?l) then disk s m else if m \<in> set (logged ?l) then C m else disk s m))"
    if r: "(crash d sb)\<^sup>*\<^sup>* (redo (take k ?W) (disk s)) E" "booted d r" "disk r = E" for k E and r :: logs and fs
  proof -
    let ?H = "if k \<le> nat (lh_n ?l) then disk s else after ?l C (disk s)"
    have "recovers (lstart ?l) (redo (take k ?W) (disk s)) ?H"
      using recovers_before [OF pre, where D = "disk s"] recovers_after [OF pre, where D = "disk s" and C = C] st assms(2) by simp
    then have H: "recovers (sb_logstart sb) E ?H" using crash_recovers [OF r(1)] assms(3) by simp
    have "wp (initlog d sb) r fs (\<lambda>_ v gs. gs = fs \<and> (\<forall>m. m \<notin> log_area (lstart ?l) \<longrightarrow> disk v m = ?H m))"
    proof (rule wp_initlog [OF r(2), where H = ?H])
      show "recovers (sb_logstart sb) (disk r) ?H" using H r(3) by simp
      fix t l assume "lstart l = sb_logstart sb" "disk t = redo (rec_writes l (disk r)) (disk r)"
      then show "fs = fs \<and> (\<forall>m. m \<notin> log_area (lstart ?l) \<longrightarrow> disk t m = ?H m)"
        using H r(3) assms(3) log_area_I(2) [of "lstart ?l"] by (auto simp: recovers_def rec_writes_head)
    qed
    then show ?thesis by (auto simp: wp_iff after_def set_logged logged_def)
  qed
  show ?thesis
    by (rule exI [of _ t], rule exI [of _ ?W], intro conjI allI impI) (rule t rec; assumption)+
qed

text \<open>A transaction of one block: block 40 is read, changed, logged and released.\<close>

definition demo_logst :: logst where
  "demo_logst = \<lparr>lstart = 2, lsize = 30, outstanding = 1, committing = False, ldev = 1, lh_n = 0, lh_block = (\<lambda>_. 0)\<rparr>"

definition demo_logs :: logs where
  "demo_logs = bio.extend (demo_bio\<lparr>disk := (\<lambda>n. replicate 1024 (if n < 32 then 0 else ucast n))\<rparr>) (logs.fields demo_logst)"

lemma demo_logs_fields [simp]:
  "log demo_logs = demo_logst" "disk demo_logs = (\<lambda>n. replicate 1024 (if n < 32 then 0 else ucast n))"
  "hart demo_logs = 0" "cpus demo_logs = cpus demo_bio" "sstatus demo_logs = sstatus demo_bio" "locks demo_logs = locks demo_bio"
  "bufs demo_logs = demo_bufs" "slocks demo_logs = slocks demo_bio" "procs demo_logs = demo_proc"
  using demo_bio_fields by (simp_all add: demo_logs_def bio.defs logs.defs)

lemma demo_logs_bstate: "bstate [] demo_P 1 1 (disk demo_logs) (\<lambda>_. 0) {} demo_logs"
  using fresh_cache_ok [OF demo_lru, of 1 "slocks demo_bio" "disk demo_logs" "pid (demo_proc 1)"] demo_bio_lkst
  by (simp add: bstate_def demo_bufs_def)

lemma demo_home: "40 \<notin> log_area 2"
proof
  assume "(40 :: 32 word) \<in> log_area 2"
  then obtain i where i: "i < 30" "(40 :: 32 word) = 2 + of_nat i + 1" by (auto simp: log_area_def log_blk_def LOGSIZE_30)
  then have "(of_nat 37 :: 32 word) = of_nat i" by (simp add: algebra_simps eq_diff_eq)
  then show False using of_nat_32_eq [of 37 i] i(1) by simp
qed

lemma demo_booted: "booted 1 (demo_logs\<lparr>disk := D\<rparr>)"
  using fresh_cache_ok [OF demo_lru, of 1 "slocks demo_bio" D "pid (demo_proc 1)"] demo_bio_lkst
  by (auto simp: booted_def bstate_def demo_bufs_def)

lemma demo_txn:
  "\<exists>s :: logs. txn_ok demo_P 1 1 ((disk demo_logs)(40 := replicate 1024 7)) ((\<lambda>_. 0)(40 := 1)) s \<and>
     disk s = disk demo_logs \<and> logged (log s) = [40] \<and> lh_n (log s) = 1 \<and> lstart (log s) = 2 \<and>
     outstanding (log s) = 1 \<and> \<not> committing (log s)"
proof -
  let ?C = "(disk demo_logs)(40 := replicate 1024 7)"
  have "wp (doM (bread 1 40) (\<lambda>b. seqM [upd_buf b (\<lambda>v. v\<lparr>bdata := replicate 1024 7\<rparr>), log_write b, brelse b])) demo_logs []
    (\<lambda>_ t fs. bstate [] demo_P 1 1 ?C ((\<lambda>_. 0)(40 := 1)) {} t \<and> disk t = disk demo_logs \<and> log t = log_add 40 demo_logst)"
    unfolding wp_simps
    apply (rule wp_bread [OF demo_logs_bstate], simp, simp, simp add: NBUF_30, simp)
    subgoal for b t
      apply (rule wp_bdata [where n = 40 and x = "replicate 1024 7"], assumption, simp, assumption, simp)
      subgoal for u
        apply (rule wp_log_write [where n = 40], assumption, simp, assumption, simp)
            apply (simp_all add: bframe_log demo_logst_def LOGSIZE_30) [4]
        subgoal for v
          apply (rule wp_brelse [where n = 40 and b = b], assumption, simp, simp, assumption)
           apply (simp add: bframe_log logged_def demo_logst_def)
          apply (simp add: bframe_log)
          apply (erule bstate_eq, simp, simp add: logged_def demo_logst_def fun_eq_iff, simp)
          done
        done
      done
    done
  from wp_unitD [OF this] obtain s :: logs where s: "bstate [] demo_P 1 1 ?C ((\<lambda>_. 0)(40 := 1)) {} s" "disk s = disk demo_logs"
      "log s = log_add 40 demo_logst"
    by blast
  have l: "logged (log s) = [40]" "lh_n (log s) = 1" "lstart (log s) = 2" "ldev (log s) = 1"
      "outstanding (log s) = 1" "\<not> committing (log s)"
    using s(3) by (simp_all add: log_add_def logged_def demo_logst_def)
  have pre: "log_pre 1 ((\<lambda>_. 0)(40 := 1)) (log s)"
    using demo_home l s(3) by (auto simp: log_pre_def LOGSIZE_30 NBUF_30 log_add_def logged_def demo_logst_def)
  have z: "(le_word (replicate 4 0) :: 32 word) = 0" by (simp add: eval_nat_numeral)
  show ?thesis
    apply (rule exI [of _ s])
    using s l pre z by (simp add: txn_ok_def BSIZE_def head_n_def rd32_def slice_def)
qed

lemma commit_crash_atomic_witness:
  "\<exists>(s :: logs) t W v. txn_ok demo_P 1 1 ((disk demo_logs)(40 := replicate 1024 7)) ((\<lambda>_. 0)(40 := 1)) s \<and>
     commit s [] = Done () t [] \<and> wlog t = wlog s @ W \<and>
     initlog 1 \<lparr>sb_magic = 0, sb_size = 0, sb_nblocks = 0, sb_ninodes = 0, sb_nlog = 30, sb_logstart = 2, sb_inodestart = 0, sb_bmapstart = 0\<rparr>
       (demo_logs\<lparr>disk := redo (take 2 W) (disk demo_logs)\<rparr>) [] = Done () v [] \<and> disk v 40 = replicate 1024 7"
proof -
  obtain s :: logs where s: "txn_ok demo_P 1 1 ((disk demo_logs)(40 := replicate 1024 7)) ((\<lambda>_. 0)(40 := 1)) s"
    "disk s = disk demo_logs" "logged (log s) = [40]" "lh_n (log s) = 1" "lstart (log s) = 2" using demo_txn by blast
  let ?sb = "\<lparr>sb_magic = 0, sb_size = 0, sb_nblocks = 0, sb_ninodes = 0, sb_nlog = 30, sb_logstart = 2, sb_inodestart = 0, sb_bmapstart = 0\<rparr> :: superblock"
  obtain t W where t: "commit s [] = Done () t []" "wlog t = wlog s @ W" and
    r: "\<forall>k E (r :: logs) fs. (crash 1 ?sb)\<^sup>*\<^sup>* (redo (take k W) (disk s)) E \<longrightarrow> booted 1 r \<longrightarrow> disk r = E \<longrightarrow>
      (\<exists>v. initlog 1 ?sb r fs = Done () v fs \<and> (\<forall>m. m \<notin> log_area (lstart (log s)) \<longrightarrow> disk v m =
          (if k \<le> length (logged (log s)) then disk s m
           else if m \<in> set (logged (log s)) then ((disk demo_logs)(40 := replicate 1024 7)) m else disk s m)))"
    using commit_crash_atomic [OF s(1), of ?sb "[]"] s(4,5) by auto
  from r [rule_format, of 2 "redo (take 2 W) (disk s)" "demo_logs\<lparr>disk := redo (take 2 W) (disk s)\<rparr>" "[]"] demo_booted
  obtain v where v: "initlog 1 ?sb (demo_logs\<lparr>disk := redo (take 2 W) (disk s)\<rparr>) [] = Done () v []"
    "\<forall>m. m \<notin> log_area (lstart (log s)) \<longrightarrow> disk v m = (if 2 \<le> length (logged (log s)) then disk s m
           else if m \<in> set (logged (log s)) then ((disk demo_logs)(40 := replicate 1024 7)) m else disk s m)"
    by auto
  have "disk v 40 = replicate 1024 7" using v(2) [rule_format, of 40] demo_home s(3,5) by simp
  with t v(1) s(1,2) show ?thesis by (intro exI conjI) auto
qed

end
