(* ===== verification/Transact.thy ===== *)
theory Transact
  imports Crash
begin

text \<open>
  The bracket of a file system operation: \<open>begin_op\<close> reserves room in the log, \<open>log_write\<close>
  records the blocks, and \<open>end_op\<close> of the last outstanding operation commits them all.
\<close>

section \<open>Reserving room\<close>

definition has_room :: "logst \<Rightarrow> bool" where
  "has_room l \<longleftrightarrow> \<not> committing l \<and> lh_n l + (outstanding l + 1) * int MAXOPBLOCKS \<le> int LOGSIZE"

definition op_begun :: "logst \<Rightarrow> logst" where
  "op_begun l = l\<lparr>outstanding := outstanding l + 1\<rparr>"

text \<open>An interference that leaves the sleeping process \<open>p\<close> on its hart with its lock, when it runs again.\<close>

definition resumes :: "(nat \<Rightarrow> nat option) \<Rightarrow> nat \<Rightarrow> nat \<Rightarrow> ('x logs_scheme \<Rightarrow> 'x logs_scheme) \<Rightarrow> bool" where
  "resumes P p h e \<longleftrightarrow> (\<forall>t. lkst [ProcLock p] P t \<and> hart t = h \<longrightarrow> lkst [ProcLock p] P (e t) \<and> hart (e t) = h)"

lemma wp_begin_op_sleep:
  assumes lk: "lkst [LogLock] P s" "P (hart s) = Some p" and e: "resumes P p (hart s) e"
    and Q: "\<And>u. lkst [LogLock] P u \<Longrightarrow> hart u = hart s \<Longrightarrow> \<exists>t. lkst [ProcLock p] P t \<and> hart t = hart s \<and> log u = log (e t) \<Longrightarrow> Q () u es"
  shows "wp (sleep ChanLog LogLock) s (e # es) Q"
  apply (rule wp_sleep [OF lk], simp)
  subgoal premises prems for c st l t
  proof -
    have t: "lkst [ProcLock p] P t" "hart t = hart s" using prems by simp_all
    then have et: "lkst [ProcLock p] P (e t)" "hart (e t) = hart s" using e unfolding resumes_def by blast+
    show ?thesis
      by (intro exI conjI allI impI, rule refl, rule et(1), rule Q) (use t et in \<open>auto intro!: exI [of _ t]\<close>)
  qed
  done

text \<open>
  \<open>found P p s es k l\<close>: \<open>l\<close> is the log as the process finds it after \<open>k\<close> waits, that of the caller
  or the one the last interference leaves.  It waits at all only if there was no room.
\<close>

definition found :: "(nat \<Rightarrow> nat option) \<Rightarrow> nat \<Rightarrow> 'x logs_scheme \<Rightarrow> ('x logs_scheme \<Rightarrow> 'x logs_scheme) list \<Rightarrow> nat \<Rightarrow> logst \<Rightarrow> bool" where
  "found P p s es k l \<longleftrightarrow> k \<le> length es \<and> (if k = 0 then l = log s
     else \<not> has_room (log s) \<and> (\<exists>v. lkst [ProcLock p] P v \<and> hart v = hart s \<and> l = log ((es ! (k - 1)) v)))"

lemma found_Suc:
  assumes "found P p s es k l" "\<not> has_room l" "drop k es = e # gs" "lkst [ProcLock p] P v" "hart v = hart s" "l' = log (e v)"
  shows "found P p s es (Suc k) l' \<and> drop (Suc k) es = gs"
proof -
  have "k < length es" using assms(3) by (metis drop_eq_Nil leI list.distinct(1))
  moreover have "es ! k = e" using assms(3) by (metis calculation hd_drop_conv_nth list.sel(1))
  moreover have "drop (Suc k) es = gs" using assms(3) by (metis drop_Suc list.sel(3) tl_drop)
  moreover have "\<not> has_room (log s)" using assms(1,2) by (auto simp: found_def split: if_splits)
  ultimately show ?thesis using assms(4-6) by (auto simp: found_def intro!: exI [of _ v])
qed

lemma wp_begin_op:
  fixes s :: "'x logs_scheme"
  assumes lk: "lkst [] P s" "P (hart s) = Some p"
    and es: "\<And>e. e \<in> set es \<Longrightarrow> resumes P p (hart s) e"
    and room: "has_room (log s) \<or> (\<exists>e\<in>set es. \<forall>t. lkst [ProcLock p] P t \<longrightarrow> hart t = hart s \<longrightarrow> has_room (log (e t)))"
    and Q: "\<And>t l k. lkst [] P t \<Longrightarrow> has_room l \<Longrightarrow> found P p s es k l \<Longrightarrow> log t = op_begun l \<Longrightarrow> Q () t (drop k es)"
  shows "wp begin_op s es Q"
proof -
  define G :: "('x logs_scheme \<Rightarrow> 'x logs_scheme) \<Rightarrow> bool" where "G = (\<lambda>e. \<forall>t. lkst [ProcLock p] P t \<longrightarrow> hart t = hart s \<longrightarrow> has_room (log (e t)))"
  define I where "I = (\<lambda>(_ :: unit) (t :: 'x logs_scheme) fs. lkst [LogLock] P t \<and> hart t = hart s \<and> set fs \<subseteq> set es \<and>
    (has_room (log t) \<or> (\<exists>e\<in>set fs. G e)) \<and> (\<exists>k. found P p s es k (log t) \<and> fs = drop k es))"
  show ?thesis
    unfolding begin_op_def wp_simps(2)
    apply (rule wp_acquire [OF lk(1)], simp)
    subgoal for c st l
      apply (rule wp_waitM [where I = I and \<mu> = "\<lambda>_ _ fs. length fs"])
        apply (use room in \<open>auto simp: I_def G_def found_def intro!: exI [of _ 0]\<close>) [1]
       apply simp
      subgoal premises prems for x t fs
      proof -
        note I = prems(2) [unfolded I_def]
        show ?thesis
        proof (cases "has_room (log t)")
          case True
          then have r: "\<not> committing (log t)" "\<not> lh_n (log t) + (outstanding (log t) + 1) * int MAXOPBLOCKS > int LOGSIZE"
            by (auto simp: has_room_def)
          show ?thesis
            unfolding wp_simps wp_log wp_if if_not_P [OF r(1)] if_not_P [OF r(2)]
            by (rule wp_release [where L = "[LogLock]" and P = P])
               (use I in \<open>auto simp: op_begun_def intro!: Q [OF _ True]\<close>)
        next
          case False
          then obtain e gs where fs: "fs = e # gs" using I by (cases fs) auto
          have e: "resumes P p (hart t) e" using I es fs by auto
          have sl: "wp (sleep ChanLog LogLock) t fs (\<lambda>_ u fs'. I x u fs' \<and> length fs' < length fs)"
            unfolding fs
          proof (rule wp_begin_op_sleep [OF _ _ e], goal_cases)
            case (3 u)
            obtain k where k: "found P p s es k (log t)" "drop k es = e # gs" using I fs by auto
            obtain v where v: "lkst [ProcLock p] P v" "hart v = hart s" "log u = log (e v)" using 3(3) I by auto
            have "(\<exists>k. found P p s es k (log u) \<and> gs = drop k es)" using found_Suc [OF k(1) False k(2) v] by blast
            moreover have "has_room (log u) \<or> (\<exists>e\<in>set gs. G e)" using I False fs v by (auto simp: G_def)
            ultimately show ?case using I 3(1,2) fs by (simp add: I_def)
          qed (use I lk in auto)
          have c: "committing (log t) \<or> lh_n (log t) + (outstanding (log t) + 1) * int MAXOPBLOCKS > int LOGSIZE"
            using False by (auto simp: has_room_def)
          show ?thesis
            unfolding wp_simps wp_log wp_if using sl c by (auto elim!: wp_mono)
        qed
      qed
      done
    done
qed

section \<open>Committing\<close>

lemma commit_writes_start:
  assumes "log_pre d R l"
  shows "redo (commit_writes l C) D (lstart l) = wr32 (head_bytes (C (lstart l)) l) 0 0"
  by (simp add: commit_writes_def)

lemma commit_writes_home:
  assumes "log_pre d R l" "m \<notin> log_area (lstart l)"
  shows "redo (commit_writes l C) D m = after l C D m"
proof -
  have "m \<notin> fst ` set (log_writes l C [0..<nat (lh_n l)])" "m \<noteq> lstart l"
    using assms log_area_I by (force simp: log_writes_def log_pre_def)+
  then show ?thesis by (simp add: commit_writes_def redo_home redo_other after_def)
qed

lemma wp_commit_txn:
  assumes txn: "txn_ok P p d C R s"
    and Q: "\<And>t C' R'. lframe s t \<Longrightarrow> log t = (log s)\<lparr>lh_n := 0\<rparr> \<Longrightarrow> txn_ok P p d C' R' t \<Longrightarrow>
      (\<And>m. m \<notin> log_area (lstart (log s)) \<Longrightarrow> C' m = C m \<and> disk t m = after (log s) C (disk s) m) \<Longrightarrow> Q () t es"
  shows "wp commit s es Q"
proof (cases "lh_n (log s) > 0")
  case False
  then have l: "lh_n (log s) = 0" "log s = (log s)\<lparr>lh_n := 0\<rparr>" using txn by (auto simp: txn_ok_def)
  have "Q () s es"
    by (rule Q) (use l txn in \<open>auto simp: lframe_simps(1) bframe_refl after_def\<close>)
  then show ?thesis using l(1) by (simp add: commit_def)
next
  case True
  let ?l = "log s" and ?W = "commit_writes (log s) C"
  have bst: "bstate [] P p d C R {} s" and pre: "log_pre d R ?l" and st: "length (disk s (lstart ?l)) = BSIZE"
      "head_n (disk s (lstart ?l)) = 0" "C (lstart ?l) = disk s (lstart ?l)" "R (lstart ?l) = 0"
    and inj: "inj_on (lh_block ?l) {..<nat (lh_n ?l)}" and pin: "\<And>i. i < nat (lh_n ?l) \<Longrightarrow> R (lh_block ?l i) \<noteq> 0"
    using txn cache_okD(7) [OF bstateD(3)] by (auto simp: txn_ok_def inj_logged set_logged)
  let ?R = "unpinned ?l [0..<nat (lh_n ?l)] R"
  have pre': "log_pre d ?R (?l\<lparr>lh_n := 0\<rparr>)"
    using log_pre_mono [OF pre, of ?R] by (simp add: log_pre_def unpinned_def)
  show ?thesis
  proof (rule wp_commit [OF bst pre True pin inj])
    fix t W assume t: "W = ?W" "lframe s t" "log t = ?l\<lparr>lh_n := 0\<rparr>" "bstate [] P p d (redo W C) ?R {} t"
      "disk t = redo W (disk s)"
    have "length (head_bytes (C (lstart ?l)) ?l) = BSIZE" "0 + 4 \<le> BSIZE"
      using pre st(1,3) by (simp_all add: log_pre_def LOGSIZE_30 BSIZE_def)
    then have "txn_ok P p d (redo ?W C) ?R t"
      using t pre' st redo_cleared [of "\<lambda>_. head_bytes (C (lstart ?l)) ?l"]
      by (simp add: txn_ok_def logged_def commit_writes_start [OF pre] unpinned_def)
    then show "Q () t es"
      by (rule Q [OF t(2,3)]) (use commit_writes_home [OF pre] t in \<open>simp add: after_def\<close>)
  qed
qed

lemma txn_ok_same:
  assumes "txn_ok P p d C R s" "lkst [] P t" "hart t = hart s" "bufs t = bufs s" "disk t = disk s" "slocks t = slocks s"
    "pid (procs t p) = pid (procs s p)" "lstart (log t) = lstart (log s)" "ldev (log t) = ldev (log s)"
    "lh_n (log t) = lh_n (log s)" "lh_block (log t) = lh_block (log s)"
  shows "txn_ok P p d C R t"
  using assms by (simp add: txn_ok_def bstate_def log_pre_def logged_def)

lemma pid_wake [simp]: "pid (wake ch A mp ps p) = pid (ps p)"
  by (simp add: wake_def)

lemma wp_end_op_last:
  assumes txn: "txn_ok P p d C R s" and l: "outstanding (log s) = 1" "\<not> committing (log s)"
    and Q: "\<And>t C' R'. log t = (log s)\<lparr>outstanding := 0, lh_n := 0\<rparr> \<Longrightarrow> txn_ok P p d C' R' t \<Longrightarrow>
      (\<And>m. m \<notin> log_area (lstart (log s)) \<Longrightarrow> C' m = C m \<and> disk t m = after (log s) C (disk s) m) \<Longrightarrow> Q () t es"
  shows "wp end_op s es Q"
proof -
  have lk: "lkst [] P s" using txn by (simp add: txn_ok_def bstate_def)
  show ?thesis
    unfolding end_op_def wp_simps
    apply (rule wp_acquire [OF lk], simp)
    unfolding wp_log wp_if
    apply (simp add: l)
    apply (rule wp_release, simp, simp)
    subgoal for c st k c' st' k'
      apply (rule wp_commit_txn [where P = P and p = p and d = d and C = C and R = R])
       apply (rule txn_ok_same [OF txn], simp_all) [1]
      subgoal for t C' R'
        apply (rule wp_acquire [where L = "[]" and P = P], simp add: txn_ok_def bstate_def, simp)
        apply simp
        apply (rule wp_wakeup [where L = "[LogLock]" and P = P], simp, simp)
        apply (rule wp_release [where L = "[LogLock]" and P = P], simp, simp)
        subgoal for c1 st1 k1 c2 st2 k2 c3 st3 k3
          apply (rule Q [where C' = C' and R' = R'])
            apply (simp add: l)
           apply (rule txn_ok_same [where s = t], assumption, simp_all) [1]
          apply (simp add: after_def)
          done
        done
      done
    done
qed

lemma wp_end_op_more:
  assumes lk: "lkst [] P s" and l: "outstanding (log s) > 1" "\<not> committing (log s)"
    and Q: "\<And>t. log t = (log s)\<lparr>outstanding := outstanding (log s) - 1\<rparr> \<Longrightarrow> lkst [] P t \<Longrightarrow>
      disk t = disk s \<Longrightarrow> wlog t = wlog s \<Longrightarrow> bufs t = bufs s \<Longrightarrow> Q () t es"
  shows "wp end_op s es Q"
proof -
  have o: "outstanding (log s) \<noteq> 1" using l by simp
  show ?thesis
    unfolding end_op_def wp_simps
    apply (rule wp_acquire [OF lk], simp)
    unfolding wp_log wp_if
    apply (simp add: l o)
    apply (rule wp_wakeup [where L = "[LogLock]" and P = P], simp, simp)
    apply (rule wp_release [where L = "[LogLock]" and P = P], simp, simp)
    by (rule Q) simp_all
qed

lemma fails_log_write:
  assumes "lkst [] P s" "lh_n (log s) \<ge> int LOGSIZE \<or> lh_n (log s) \<ge> lsize (log s) - 1"
  shows "fails (log_write b) s es ''too big a transaction''"
  unfolding log_write_def
  apply (rule fails_doM(2), rule wp_acquire [OF assms(1)], simp)
  apply (rule fails_doM(2), simp)
  apply (rule fails_doM(1), simp add: assms(2))
  done

section \<open>Properties\<close>

text \<open>
  C32.  Log absorption.  Within a transaction and with room in the log, \<open>log_write\<close> of a
  held buffer adds its block to the transaction once, however often it is called, pins the
  buffer the first time, and writes nothing to the disk.
\<close>

theorem log_write_absorbs:
  fixes s :: "'x logs_scheme"
  assumes "bstate [] P p d C R H s" "n \<in> H" "at_buf (bufs s) d n b" "R n < 2 ^ 32 - 1"
    and "0 \<le> lh_n (log s)" "lh_n (log s) < int LOGSIZE" "lh_n (log s) < lsize (log s) - 1" "1 \<le> outstanding (log s)"
  shows "\<exists>t. log_write b s es = Done () t es \<and>
    logged (log t) = (if n \<in> set (logged (log s)) then logged (log s) else logged (log s) @ [n]) \<and>
    bstate [] P p d C (if n \<in> set (logged (log s)) then R else R(n := R n + 1)) H t \<and> disk t = disk s \<and> wlog t = wlog s"
proof -
  have "wp (log_write b) s es (\<lambda>_ t fs. fs = es \<and>
    logged (log t) = (if n \<in> set (logged (log s)) then logged (log s) else logged (log s) @ [n]) \<and>
    bstate [] P p d C (if n \<in> set (logged (log s)) then R else R(n := R n + 1)) H t \<and> disk t = disk s \<and> wlog t = wlog s)"
    by (rule wp_log_write [OF assms]) (simp add: logged_add assms(5))
  from wp_unitD [OF this] show ?thesis by blast
qed

lemma log_write_absorbs_witness:
  "\<exists>(s :: logs) b t. bstate [] demo_P 1 1 (disk demo_logs) ((\<lambda>_. 0)(40 := 1)) {40} s \<and> log_write b s [] = Done () t [] \<and> logged (log t) = [40]"
proof -
  have "wp (bread 1 40) demo_logs [] (\<lambda>b t fs. bstate [] demo_P 1 1 (disk demo_logs) ((\<lambda>_. 0)(40 := 1)) {40} t \<and>
      at_buf (bufs t) 1 40 b \<and> log t = demo_logst)"
    by (rule wp_bread [OF demo_logs_bstate]) (auto simp: NBUF_30 bframe_log)
  then obtain b and s :: logs where s: "bstate [] demo_P 1 1 (disk demo_logs) ((\<lambda>_. 0)(40 := 1)) {40} s" "at_buf (bufs s) 1 40 b"
    "log s = demo_logst" unfolding wp_iff by blast
  have l: "logged demo_logst = []" by (simp add: logged_def demo_logst_def)
  from log_write_absorbs [OF s(1) _ s(2), of "[]"] obtain t where "log_write b s [] = Done () t []" "logged (log t) = [40]"
    using s(3) by (auto simp: l) (simp add: demo_logst_def LOGSIZE_30, blast)
  with s(1) show ?thesis by blast
qed

text \<open>
  C11.  Group commit.  While other operations are outstanding \<open>end_op\<close> only gives back its
  reservation; the last one commits: the disk then has the contents the file system sees for
  every block of the transaction, the log is empty in memory and on disk, and nobody else's
  view of a block changes.
\<close>

theorem end_op_group_commit:
  fixes s :: "'x logs_scheme"
  assumes "txn_ok P p d C R s" "1 \<le> outstanding (log s)" "\<not> committing (log s)"
  shows "\<exists>t. end_op s es = Done () t es \<and> outstanding (log t) = outstanding (log s) - 1 \<and> \<not> committing (log t) \<and>
    (outstanding (log s) > 1 \<longrightarrow> disk t = disk s \<and> wlog t = wlog s \<and> logged (log t) = logged (log s)) \<and>
    (outstanding (log s) = 1 \<longrightarrow> logged (log t) = [] \<and> (\<exists>C' R'. txn_ok P p d C' R' t \<and>
      (\<forall>m. m \<notin> log_area (lstart (log s)) \<longrightarrow> C' m = C m \<and> disk t m = (if m \<in> set (logged (log s)) then C m else disk s m))))"
proof (cases "outstanding (log s) = 1")
  case True
  have "wp end_op s es (\<lambda>_ t fs. fs = es \<and> log t = (log s)\<lparr>outstanding := 0, lh_n := 0\<rparr> \<and> (\<exists>C' R'. txn_ok P p d C' R' t \<and>
      (\<forall>m. m \<notin> log_area (lstart (log s)) \<longrightarrow> C' m = C m \<and> disk t m = (if m \<in> set (logged (log s)) then C m else disk s m))))"
    by (rule wp_end_op_last [OF assms(1) True assms(3)]) (auto simp: after_def set_logged)
  from wp_unitD [OF this] obtain t where "end_op s es = Done () t es" "log t = (log s)\<lparr>outstanding := 0, lh_n := 0\<rparr>"
    "\<exists>C' R'. txn_ok P p d C' R' t \<and>
      (\<forall>m. m \<notin> log_area (lstart (log s)) \<longrightarrow> C' m = C m \<and> disk t m = (if m \<in> set (logged (log s)) then C m else disk s m))"
    by blast
  with True assms(3) show ?thesis by (intro exI [of _ t]) (simp add: logged_def)
next
  case False
  have lk: "lkst [] P s" using assms(1) by (simp add: txn_ok_def bstate_def)
  have "wp end_op s es (\<lambda>_ t fs. fs = es \<and> log t = (log s)\<lparr>outstanding := outstanding (log s) - 1\<rparr> \<and> disk t = disk s \<and> wlog t = wlog s)"
    by (rule wp_end_op_more [OF lk _ assms(3)]) (use False assms(2) in simp_all)
  from wp_unitD [OF this] obtain t where "end_op s es = Done () t es" "log t = (log s)\<lparr>outstanding := outstanding (log s) - 1\<rparr>"
    "disk t = disk s" "wlog t = wlog s" by blast
  with False assms(3) show ?thesis by (intro exI [of _ t]) (simp add: logged_def)
qed

lemma end_op_group_commit_witness:
  "\<exists>(s :: logs) t. txn_ok demo_P 1 1 ((disk demo_logs)(40 := replicate 1024 7)) ((\<lambda>_. 0)(40 := 1)) s \<and>
     end_op s [] = Done () t [] \<and> disk t 40 = replicate 1024 7"
proof -
  obtain s :: logs where s: "txn_ok demo_P 1 1 ((disk demo_logs)(40 := replicate 1024 7)) ((\<lambda>_. 0)(40 := 1)) s"
    "logged (log s) = [40]" "lstart (log s) = 2" "outstanding (log s) = 1" "\<not> committing (log s)" using demo_txn by blast
  from end_op_group_commit [OF s(1) _ s(5), of "[]"] obtain t where t: "end_op s [] = Done () t []" and
    m: "\<exists>C' R'. txn_ok demo_P 1 1 C' R' t \<and> (\<forall>m. m \<notin> log_area (lstart (log s)) \<longrightarrow>
      C' m = ((disk demo_logs)(40 := replicate 1024 7)) m \<and>
      disk t m = (if m \<in> set (logged (log s)) then ((disk demo_logs)(40 := replicate 1024 7)) m else disk s m))"
    using s(4) by auto
  from m obtain C' where "\<forall>m. m \<notin> log_area (lstart (log s)) \<longrightarrow> C' m = ((disk demo_logs)(40 := replicate 1024 7)) m \<and>
      disk t m = (if m \<in> set (logged (log s)) then ((disk demo_logs)(40 := replicate 1024 7)) m else disk s m)" by blast
  then have "disk t 40 = replicate 1024 7" using demo_home s(2,3) by simp
  with s(1) t show ?thesis by blast
qed

text \<open>
  C18.  An operation is admitted, and counted, as soon as there is room.  If during the waits of
  \<open>begin_op\<close> some interference leaves the log with room for one more operation and no
  commit in progress, \<open>begin_op\<close> returns, at once when there is room from the start.  It has then
  added exactly one to the number of outstanding operations of the log it found, changed nothing
  else of it, and with the reservations that are now counted the log cannot outgrow \<open>LOGSIZE\<close> blocks.
\<close>

theorem begin_op_progress:
  fixes s :: "'x logs_scheme"
  assumes "lkst [] P s" "P (hart s) = Some p" "\<And>e. e \<in> set es \<Longrightarrow> resumes P p (hart s) e"
    and "has_room (log s) \<or> (\<exists>e\<in>set es. \<forall>t. lkst [ProcLock p] P t \<longrightarrow> hart t = hart s \<longrightarrow> has_room (log (e t)))"
  shows "\<exists>t k l. begin_op s es = Done () t (drop k es) \<and> lkst [] P t \<and> found P p s es k l \<and> \<not> committing l \<and>
    log t = l\<lparr>outstanding := outstanding l + 1\<rparr> \<and> lh_n (log t) + outstanding (log t) * int MAXOPBLOCKS \<le> int LOGSIZE"
proof -
  have "wp begin_op s es (\<lambda>_ t fs. \<exists>k l. fs = drop k es \<and> lkst [] P t \<and> found P p s es k l \<and> \<not> committing l \<and>
    log t = l\<lparr>outstanding := outstanding l + 1\<rparr> \<and> lh_n (log t) + outstanding (log t) * int MAXOPBLOCKS \<le> int LOGSIZE)"
    by (rule wp_begin_op [OF assms]) (auto simp: op_begun_def has_room_def)
  from wp_unitD [OF this] show ?thesis by blast
qed

lemma begin_op_progress_witness:
  "committing (log (demo_logs\<lparr>log := demo_logst\<lparr>committing := True\<rparr>\<rparr>)) \<and>
   (\<exists>t fs. begin_op (demo_logs\<lparr>log := demo_logst\<lparr>committing := True\<rparr>\<rparr>) [\<lambda>t. t\<lparr>log := demo_logst\<lparr>outstanding := 1\<rparr>\<rparr>] = Done () t fs \<and>
     outstanding (log t) = 2)"
proof -
  let ?s = "demo_logs\<lparr>log := demo_logst\<lparr>committing := True\<rparr>\<rparr>" and ?es = "[\<lambda>t :: logs. t\<lparr>log := demo_logst\<lparr>outstanding := 1\<rparr>\<rparr>]"
  have "\<exists>t k l. begin_op ?s ?es = Done () t (drop k ?es) \<and> lkst [] demo_P t \<and> found demo_P 1 ?s ?es k l \<and> \<not> committing l \<and>
    log t = l\<lparr>outstanding := outstanding l + 1\<rparr> \<and> lh_n (log t) + outstanding (log t) * int MAXOPBLOCKS \<le> int LOGSIZE"
    by (rule begin_op_progress [where p = 1])
       (use demo_bio_lkst in \<open>auto simp: resumes_def has_room_def demo_logst_def LOGSIZE_30 MAXOPBLOCKS_def\<close>)
  then show ?thesis by (auto simp: found_def demo_logst_def split: if_splits)
qed

text \<open>
  C20.  The reservation is one block too generous.  On a file system made by \<^verbatim>\<open>mkfs\<close> the log
  has 30 blocks, one of them the header.  \<open>begin_op\<close> admits a third operation although each
  of the three may write \<open>MAXOPBLOCKS\<close> blocks, and the \<open>log_write\<close> that finds 29 blocks
  recorded panics.
\<close>

theorem log_reservation_short:
  fixes s :: "'x logs_scheme"
  assumes "lkst [] P s" "P (hart s) = Some p" "outstanding (log s) = 2" "lh_n (log s) = 0" "\<not> committing (log s)"
  shows "(\<exists>t. begin_op s [] = Done () t [] \<and> outstanding (log t) = 3) \<and>
    (\<forall>(u :: 'x logs_scheme) b. lkst [] P u \<and> lsize (log u) = 30 \<and> lh_n (log u) = 3 * int MAXOPBLOCKS - 1 \<longrightarrow>
       log_write b u [] = Panic ''too big a transaction'')"
proof
  have "wp begin_op s [] (\<lambda>_ t fs. fs = [] \<and> outstanding (log t) = 3)"
    unfolding begin_op_def wp_simps
    apply (rule wp_acquire [OF assms(1)], simp)
    unfolding wp_waitM_iff wp_iterM_Suc wp_simps wp_log
    apply (simp add: assms LOGSIZE_30 MAXOPBLOCKS_def)
    by (rule wp_release [where L = "[LogLock]" and P = P]) simp_all
  from wp_unitD [OF this] show "\<exists>t. begin_op s [] = Done () t [] \<and> outstanding (log t) = 3" by blast
  show "\<forall>(u :: 'x logs_scheme) b. lkst [] P u \<and> lsize (log u) = 30 \<and> lh_n (log u) = 3 * int MAXOPBLOCKS - 1 \<longrightarrow>
       log_write b u [] = Panic ''too big a transaction''"
    by (auto simp: MAXOPBLOCKS_def intro!: fails_log_write [of P, unfolded fails_def])
qed

lemma log_reservation_short_witness:
  "\<exists>t. begin_op (demo_logs\<lparr>log := demo_logst\<lparr>outstanding := 2\<rparr>\<rparr>) [] = Done () t [] \<and> outstanding (log t) = 3"
  using log_reservation_short [of demo_P "demo_logs\<lparr>log := demo_logst\<lparr>outstanding := 2\<rparr>\<rparr>" 1] demo_bio_lkst
  by (simp add: demo_logst_def)

end
