(* ===== verification/Fs.thy ===== *)
theory Fs
  imports Transact
begin

text \<open>
  The file system, \<^verbatim>\<open>kernel/fs.c\<close> over the format of \<^verbatim>\<open>kernel/fs.h\<close>: block allocation, the
  inode table, inode contents, directories and path names.  In-memory inode \<open>i\<close> of the
  table is \<open>inodes s i\<close>, with sleep-lock \<open>InodeLock i\<close>.  On-disk structures are read from
  and written to the bytes of buffers at the offsets of the C structures.  Path names are
  the bytes of the string before its NUL.
\<close>

section \<open>State and format\<close>

record inode =
  idev :: "32 word"
  inum :: "32 word"
  iref :: int
  ivalid :: bool
  itype :: "16 word"
  imajor :: "16 word"
  iminor :: "16 word"
  nlink :: "16 word"
  isize :: "32 word"
  addrs :: "nat \<Rightarrow> 32 word"

record dinode =
  d_type :: "16 word"
  d_major :: "16 word"
  d_minor :: "16 word"
  d_nlink :: "16 word"
  d_size :: "32 word"
  d_addrs :: "32 word list"

record stat =
  st_dev :: "32 word"
  st_ino :: "32 word"
  st_type :: "16 word"
  st_nlink :: "16 word"
  st_size :: "64 word"

record fs = logs +
  sb :: superblock
  inodes :: "nat \<Rightarrow> inode"

definition ROOTINO :: "32 word" where "ROOTINO = 1"
definition ROOTDEV :: "32 word" where "ROOTDEV = 1"
definition FSMAGIC :: "32 word" where "FSMAGIC = 0x10203040"
definition NDIRECT :: nat where "NDIRECT = 12"
definition NINDIRECT :: nat where "NINDIRECT = BSIZE div 4"
definition MAXFILE :: nat where "MAXFILE = NDIRECT + NINDIRECT"
definition NINODE :: nat where "NINODE = 50"
definition DIRSIZ :: nat where "DIRSIZ = 14"
definition T_DIR :: "16 word" where "T_DIR = 1"
definition T_FILE :: "16 word" where "T_FILE = 2"
definition T_DEVICE :: "16 word" where "T_DEVICE = 3"

definition sizeof_dinode :: nat where "sizeof_dinode = 12 + 4 * (NDIRECT + 1)"
definition sizeof_dirent :: nat where "sizeof_dirent = 2 + DIRSIZ"

definition IPB :: nat where "IPB = BSIZE div sizeof_dinode"
definition BPB :: nat where "BPB = BSIZE * 8"

definition IBLOCK :: "32 word \<Rightarrow> superblock \<Rightarrow> 32 word" where
  "IBLOCK i sblk = of_nat (unat i div IPB) + sb_inodestart sblk"

definition BBLOCK :: "32 word \<Rightarrow> superblock \<Rightarrow> 32 word" where
  "BBLOCK b sblk = of_nat (unat b div BPB) + sb_bmapstart sblk"

definition rd16 :: "byte list \<Rightarrow> nat \<Rightarrow> 16 word" where
  "rd16 bs off = le_word (slice bs off 2)"

definition wr16 :: "byte list \<Rightarrow> nat \<Rightarrow> 16 word \<Rightarrow> byte list" where
  "wr16 bs off v = blit bs off (le_bytes 2 v)"

text \<open>The fields of the on-disk inode at a byte offset of a block.\<close>

definition get_dinode :: "byte list \<Rightarrow> nat \<Rightarrow> dinode" where
  "get_dinode bs off = \<lparr>
     d_type = rd16 bs off, d_major = rd16 bs (off + 2), d_minor = rd16 bs (off + 4),
     d_nlink = rd16 bs (off + 6), d_size = rd32 bs (off + 8),
     d_addrs = map (\<lambda>i. rd32 bs (off + 12 + 4 * i)) [0..<NDIRECT + 1]\<rparr>"

definition put_dinode :: "byte list \<Rightarrow> nat \<Rightarrow> dinode \<Rightarrow> byte list" where
  "put_dinode bs off d =
     (let b1 = wr16 bs off (d_type d);
          b2 = wr16 b1 (off + 2) (d_major d);
          b3 = wr16 b2 (off + 4) (d_minor d);
          b4 = wr16 b3 (off + 6) (d_nlink d);
          b5 = wr32 b4 (off + 8) (d_size d)
      in blit b5 (off + 12) (concat (map (le_bytes 4) (d_addrs d))))"

definition upd_inode :: "nat \<Rightarrow> (inode \<Rightarrow> inode) \<Rightarrow> ('x fs_scheme, unit) M" where
  "upd_inode i f = modifyM (\<lambda>s. s\<lparr>inodes := (inodes s)(i := f (inodes s i))\<rparr>)"

definition get_inode :: "nat \<Rightarrow> ('x fs_scheme, inode) M" where
  "get_inode i = getsM (\<lambda>s. inodes s i)"

definition get_sb :: "('x fs_scheme, superblock) M" where
  "get_sb = getsM sb"

section \<open>Blocks\<close>

definition get_superblock :: "byte list \<Rightarrow> superblock" where
  "get_superblock bs = \<lparr>
     sb_magic = rd32 bs 0, sb_size = rd32 bs 4, sb_nblocks = rd32 bs 8, sb_ninodes = rd32 bs 12,
     sb_nlog = rd32 bs 16, sb_logstart = rd32 bs 20, sb_inodestart = rd32 bs 24, sb_bmapstart = rd32 bs 28\<rparr>"

definition readsb :: "32 word \<Rightarrow> ('x fs_scheme, unit) M" where
  "readsb dev =
     doM (bread dev 1) (\<lambda>bp.
     doM (get_buf bp) (\<lambda>d.
     doM (modifyM (\<lambda>s. s\<lparr>sb := get_superblock (bdata d)\<rparr>)) (\<lambda>_.
     brelse bp)))"

definition fsinit :: "32 word \<Rightarrow> ('x fs_scheme, unit) M" where
  "fsinit dev =
     doM (readsb dev) (\<lambda>_.
     doM get_sb (\<lambda>k.
     doM (whenM (sb_magic k \<noteq> FSMAGIC) (panic ''invalid file system'')) (\<lambda>_.
     initlog dev k)))"

definition bzero :: "32 word \<Rightarrow> 32 word \<Rightarrow> ('x fs_scheme, unit) M" where
  "bzero dev bno =
     doM (bread dev bno) (\<lambda>bp. seqM [
       upd_buf bp (\<lambda>d. d\<lparr>bdata := replicate BSIZE 0\<rparr>),
       log_write bp,
       brelse bp])"

text \<open>Bit \<open>bi\<close> of a bitmap block.\<close>

definition bm_mask :: "nat \<Rightarrow> byte" where
  "bm_mask bi = push_bit (bi mod 8) 1"

definition bm_free :: "byte list \<Rightarrow> nat \<Rightarrow> bool" where
  "bm_free bs bi \<longleftrightarrow> bs ! (bi div 8) AND bm_mask bi = 0"

definition bm_set :: "byte list \<Rightarrow> nat \<Rightarrow> byte list" where
  "bm_set bs bi = bs[bi div 8 := bs ! (bi div 8) OR bm_mask bi]"

definition bm_clear :: "byte list \<Rightarrow> nat \<Rightarrow> byte list" where
  "bm_clear bs bi = bs[bi div 8 := bs ! (bi div 8) AND NOT (bm_mask bi)]"

text \<open>
  \<open>balloc\<close>: the outer loop runs over the bitmap blocks, \<open>b\<close> being the first block number
  each describes; the inner one over the bits of one block.
\<close>

definition balloc_scan :: "32 word \<Rightarrow> superblock \<Rightarrow> nat \<Rightarrow> nat \<Rightarrow> ('x fs_scheme, 32 word option) M" where
  "balloc_scan dev k b bp = exitM [0..<min BPB (unat (sb_size k) - b)] (\<lambda>bi.
     doM (get_buf bp) (\<lambda>d.
     if bm_free (bdata d) bi then
       doM (upd_buf bp (\<lambda>d. d\<lparr>bdata := bm_set (bdata d) bi\<rparr>)) (\<lambda>_.
       doM (log_write bp) (\<lambda>_.
       doM (brelse bp) (\<lambda>_.
       doM (bzero dev (of_nat (b + bi))) (\<lambda>_.
       returnM (Some (of_nat (b + bi)))))))
     else returnM None))"

definition balloc :: "32 word \<Rightarrow> ('x fs_scheme, 32 word) M" where
  "balloc dev =
     doM get_sb (\<lambda>k.
     doM (exitM (map (\<lambda>j. j * BPB) [0..<(unat (sb_size k) + BPB - 1) div BPB]) (\<lambda>b.
       doM (bread dev (BBLOCK (of_nat b) k)) (\<lambda>bp.
       doM (balloc_scan dev k b bp) (\<lambda>r.
       case r of Some x \<Rightarrow> returnM (Some x)
       | None \<Rightarrow> doM (brelse bp) (\<lambda>_. returnM None))))) (\<lambda>r.
     case r of Some x \<Rightarrow> returnM x | None \<Rightarrow> panic ''balloc: out of blocks''))"

definition bfree :: "32 word \<Rightarrow> 32 word \<Rightarrow> ('x fs_scheme, unit) M" where
  "bfree dev b =
     doM get_sb (\<lambda>k.
     doM (bread dev (BBLOCK b k)) (\<lambda>bp.
     let bi = unat b mod BPB in
     doM (get_buf bp) (\<lambda>d.
     seqM [
       whenM (bm_free (bdata d) bi) (panic ''freeing free block''),
       upd_buf bp (\<lambda>d. d\<lparr>bdata := bm_clear (bdata d) bi\<rparr>),
       log_write bp,
       brelse bp])))"

section \<open>Inodes\<close>

definition iinit :: "('x fs_scheme, unit) M" where
  "iinit = seqM [
     initlock ItableLock ''itable'',
     forM [0..<NINODE] (\<lambda>i. initsleeplock (InodeLock i) ''inode'')]"

text \<open>\<open>iget\<close>: the search remembers the first empty slot.\<close>

definition iget :: "32 word \<Rightarrow> 32 word \<Rightarrow> ('x fs_scheme, nat) M" where
  "iget dev i =
     doM (acquire ItableLock) (\<lambda>_.
     doM (iterM (Suc NINODE) (\<lambda>(ip, empty).
       if ip < NINODE then
         doM (get_inode ip) (\<lambda>d.
         if iref d > 0 \<and> idev d = dev \<and> inum d = i then
           doM (upd_inode ip (\<lambda>d. d\<lparr>iref := iref d + 1\<rparr>)) (\<lambda>_.
           doM (release ItableLock) (\<lambda>_.
           returnM (Inr (Inl ip))))
         else returnM (Inl (Suc ip, if empty = None \<and> iref d = 0 then Some ip else empty)))
       else returnM (Inr (Inr empty))) (0, None)) (\<lambda>r.
     case r of Inl ip \<Rightarrow> returnM ip
     | Inr None \<Rightarrow> panic ''iget: no inodes''
     | Inr (Some ip) \<Rightarrow>
         doM (seqM [
           upd_inode ip (\<lambda>d. d\<lparr>idev := dev\<rparr>),
           upd_inode ip (\<lambda>d. d\<lparr>inum := i\<rparr>),
           upd_inode ip (\<lambda>d. d\<lparr>iref := 1\<rparr>),
           upd_inode ip (\<lambda>d. d\<lparr>ivalid := False\<rparr>),
           release ItableLock]) (\<lambda>_.
         returnM ip)))"

text \<open>The byte offset of inode \<open>i\<close> in its block.\<close>

definition dinode_off :: "32 word \<Rightarrow> nat" where
  "dinode_off i = unat i mod IPB * sizeof_dinode"

definition ialloc :: "32 word \<Rightarrow> 16 word \<Rightarrow> ('x fs_scheme, nat) M" where
  "ialloc dev type =
     doM get_sb (\<lambda>k.
     doM (exitM (map of_nat [1..<unat (sb_ninodes k)]) (\<lambda>i.
       doM (bread dev (IBLOCK i k)) (\<lambda>bp.
       doM (get_buf bp) (\<lambda>d.
       if d_type (get_dinode (bdata d) (dinode_off i)) = 0 then
         doM (upd_buf bp (\<lambda>d. d\<lparr>bdata := wr16 (blit (bdata d) (dinode_off i) (replicate sizeof_dinode 0)) (dinode_off i) type\<rparr>)) (\<lambda>_.
         doM (log_write bp) (\<lambda>_.
         doM (brelse bp) (\<lambda>_.
         doM (iget dev i) (\<lambda>ip. returnM (Some ip)))))
       else doM (brelse bp) (\<lambda>_. returnM None))))) (\<lambda>r.
     case r of Some ip \<Rightarrow> returnM ip | None \<Rightarrow> panic ''ialloc: no inodes''))"

definition iupdate :: "nat \<Rightarrow> ('x fs_scheme, unit) M" where
  "iupdate ip =
     doM get_sb (\<lambda>k.
     doM (get_inode ip) (\<lambda>d.
     doM (bread (idev d) (IBLOCK (inum d) k)) (\<lambda>bp.
     seqM [
       upd_buf bp (\<lambda>b. b\<lparr>bdata := put_dinode (bdata b) (dinode_off (inum d))
         \<lparr>d_type = itype d, d_major = imajor d, d_minor = iminor d, d_nlink = nlink d,
          d_size = isize d, d_addrs = map (addrs d) [0..<NDIRECT + 1]\<rparr>\<rparr>),
       log_write bp,
       brelse bp])))"

definition idup :: "nat \<Rightarrow> ('x fs_scheme, nat) M" where
  "idup ip = doM (seqM [
     acquire ItableLock,
     upd_inode ip (\<lambda>d. d\<lparr>iref := iref d + 1\<rparr>),
     release ItableLock]) (\<lambda>_. returnM ip)"

definition ilock :: "nat option \<Rightarrow> ('x fs_scheme, unit) M" where
  "ilock ipo = (case ipo of None \<Rightarrow> panic ''ilock'' | Some ip \<Rightarrow>
     doM (get_inode ip) (\<lambda>d0.
     if iref d0 < 1 then panic ''ilock''
     else
       doM (acquiresleep (InodeLock ip)) (\<lambda>_.
       doM (get_inode ip) (\<lambda>d.
       whenM (\<not> ivalid d) (
         doM get_sb (\<lambda>k.
         doM (bread (idev d) (IBLOCK (inum d) k)) (\<lambda>bp.
         doM (get_buf bp) (\<lambda>b.
         let di = get_dinode (bdata b) (dinode_off (inum d)) in
         seqM [
           upd_inode ip (\<lambda>d. d\<lparr>itype := d_type di\<rparr>),
           upd_inode ip (\<lambda>d. d\<lparr>imajor := d_major di\<rparr>),
           upd_inode ip (\<lambda>d. d\<lparr>iminor := d_minor di\<rparr>),
           upd_inode ip (\<lambda>d. d\<lparr>nlink := d_nlink di\<rparr>),
           upd_inode ip (\<lambda>d. d\<lparr>isize := d_size di\<rparr>),
           upd_inode ip (\<lambda>d. d\<lparr>addrs := (\<lambda>i. if i \<le> NDIRECT then d_addrs di ! i else addrs d i)\<rparr>),
           brelse bp,
           upd_inode ip (\<lambda>d. d\<lparr>ivalid := True\<rparr>),
           doM (get_inode ip) (\<lambda>d. whenM (itype d = 0) (panic ''ilock: no type''))]))))))))"

definition iunlock :: "nat option \<Rightarrow> ('x fs_scheme, unit) M" where
  "iunlock ipo = (case ipo of None \<Rightarrow> panic ''iunlock'' | Some ip \<Rightarrow>
     doM (holdingsleep (InodeLock ip)) (\<lambda>h.
     doM (get_inode ip) (\<lambda>d.
     if \<not> h \<or> iref d < 1 then panic ''iunlock''
     else releasesleep (InodeLock ip))))"

section \<open>Inode contents\<close>

definition bmap :: "nat \<Rightarrow> 32 word \<Rightarrow> ('x fs_scheme, 32 word) M" where
  "bmap ip bn =
     (if unat bn < NDIRECT then
        doM (get_inode ip) (\<lambda>d.
        if addrs d (unat bn) = 0 then
          doM (balloc (idev d)) (\<lambda>a.
          doM (upd_inode ip (\<lambda>d. d\<lparr>addrs := (addrs d)(unat bn := a)\<rparr>)) (\<lambda>_.
          returnM a))
        else returnM (addrs d (unat bn)))
      else
        let bi = unat bn - NDIRECT in
        if bi < NINDIRECT then
          doM (get_inode ip) (\<lambda>d.
          doM (if addrs d NDIRECT = 0 then
                 doM (balloc (idev d)) (\<lambda>a.
                 doM (upd_inode ip (\<lambda>d. d\<lparr>addrs := (addrs d)(NDIRECT := a)\<rparr>)) (\<lambda>_.
                 returnM a))
               else returnM (addrs d NDIRECT)) (\<lambda>ia.
          doM (bread (idev d) ia) (\<lambda>bp.
          doM (get_buf bp) (\<lambda>b.
          doM (if rd32 (bdata b) (4 * bi) = 0 then
                 doM (balloc (idev d)) (\<lambda>a.
                 doM (upd_buf bp (\<lambda>b. b\<lparr>bdata := wr32 (bdata b) (4 * bi) a\<rparr>)) (\<lambda>_.
                 doM (log_write bp) (\<lambda>_.
                 returnM a)))
               else returnM (rd32 (bdata b) (4 * bi))) (\<lambda>a.
          doM (brelse bp) (\<lambda>_.
          returnM a))))))
        else panic ''bmap: out of range'')"

definition itrunc :: "nat \<Rightarrow> ('x fs_scheme, unit) M" where
  "itrunc ip = seqM [
     forM [0..<NDIRECT] (\<lambda>i.
       doM (get_inode ip) (\<lambda>d. whenM (addrs d i \<noteq> 0) (seqM [
         bfree (idev d) (addrs d i),
         upd_inode ip (\<lambda>d. d\<lparr>addrs := (addrs d)(i := 0)\<rparr>)]))),
     doM (get_inode ip) (\<lambda>d. whenM (addrs d NDIRECT \<noteq> 0) (
       doM (bread (idev d) (addrs d NDIRECT)) (\<lambda>bp. seqM [
         forM [0..<NINDIRECT] (\<lambda>j.
           doM (get_buf bp) (\<lambda>b.
           whenM (rd32 (bdata b) (4 * j) \<noteq> 0) (bfree (idev d) (rd32 (bdata b) (4 * j))))),
         brelse bp,
         bfree (idev d) (addrs d NDIRECT),
         upd_inode ip (\<lambda>d. d\<lparr>addrs := (addrs d)(NDIRECT := 0)\<rparr>)]))),
     upd_inode ip (\<lambda>d. d\<lparr>isize := 0\<rparr>),
     iupdate ip]"

definition iput :: "nat \<Rightarrow> ('x fs_scheme, unit) M" where
  "iput ip = seqM [
     acquire ItableLock,
     doM (get_inode ip) (\<lambda>d. whenM (iref d = 1 \<and> ivalid d \<and> nlink d = 0) (seqM [
       acquiresleep (InodeLock ip),
       release ItableLock,
       itrunc ip,
       upd_inode ip (\<lambda>d. d\<lparr>itype := 0\<rparr>),
       iupdate ip,
       upd_inode ip (\<lambda>d. d\<lparr>ivalid := False\<rparr>),
       releasesleep (InodeLock ip),
       acquire ItableLock])),
     upd_inode ip (\<lambda>d. d\<lparr>iref := iref d - 1\<rparr>),
     release ItableLock]"

definition iunlockput :: "nat \<Rightarrow> ('x fs_scheme, unit) M" where
  "iunlockput ip = seqM [iunlock (Some ip), iput ip]"

definition stati :: "nat \<Rightarrow> ('x fs_scheme, stat) M" where
  "stati ip = doM (get_inode ip) (\<lambda>d. returnM
     \<lparr>st_dev = idev d, st_ino = inum d, st_type = itype d, st_nlink = nlink d, st_size = ucast (isize d)\<rparr>)"

text \<open>
  The loops of \<open>readi\<close> and \<open>writei\<close> move at least one byte per iteration, so \<open>n + 1\<close>
  iterations are enough.  All sizes and offsets are \<open>uint\<close>.
\<close>

definition chunk :: "32 word \<Rightarrow> 32 word \<Rightarrow> 32 word \<Rightarrow> 32 word" where
  "chunk n tot off = min (n - tot) (of_nat BSIZE - off mod of_nat BSIZE)"

definition readi :: "nat \<Rightarrow> loc \<Rightarrow> 32 word \<Rightarrow> 32 word \<Rightarrow> ('x fs_scheme, int) M" where
  "readi ip dst off n =
     doM (get_inode ip) (\<lambda>d.
     if off > isize d \<or> off + n < off then returnM 0
     else
       let n = (if off + n > isize d then isize d - off else n) in
       iterM (Suc (unat n)) (\<lambda>(tot, off, dst).
         if tot < n then
           doM (bmap ip (off div of_nat BSIZE)) (\<lambda>a.
           doM (bread (idev d) a) (\<lambda>bp.
           let m = chunk n tot off in
           doM (get_buf bp) (\<lambda>b.
           doM (either_copyout dst (slice (bdata b) (unat off mod BSIZE) (unat m))) (\<lambda>r.
           if r = - 1 then doM (brelse bp) (\<lambda>_. returnM (Inr (- 1)))
           else doM (brelse bp) (\<lambda>_. returnM (Inl (tot + m, off + m, loc_plus dst (unat m))))))))
         else returnM (Inr (sint tot))) (0, off, dst))"

definition writei :: "nat \<Rightarrow> loc \<Rightarrow> 32 word \<Rightarrow> 32 word \<Rightarrow> ('x fs_scheme, int) M" where
  "writei ip src off n =
     doM (get_inode ip) (\<lambda>d.
     if off > isize d \<or> off + n < off then returnM (- 1)
     else if unat (off + n) > MAXFILE * BSIZE then returnM (- 1)
     else
       doM (iterM (Suc (unat n)) (\<lambda>(tot, off, src).
         if tot < n then
           doM (bmap ip (off div of_nat BSIZE)) (\<lambda>a.
           doM (bread (idev d) a) (\<lambda>bp.
           let m = chunk n tot off in
           doM (either_copyin src (unat m)) (\<lambda>r.
           case r of None \<Rightarrow> doM (brelse bp) (\<lambda>_. returnM (Inr (tot, off)))
           | Some xs \<Rightarrow>
               doM (upd_buf bp (\<lambda>b. b\<lparr>bdata := blit (bdata b) (unat off mod BSIZE) xs\<rparr>)) (\<lambda>_.
               doM (log_write bp) (\<lambda>_.
               doM (brelse bp) (\<lambda>_.
               returnM (Inl (tot + m, off + m, loc_plus src (unat m)))))))))
         else returnM (Inr (tot, off))) (0, off, src)) (\<lambda>(tot, off).
       doM (get_inode ip) (\<lambda>d.
       doM (whenM (off > isize d) (upd_inode ip (\<lambda>d. d\<lparr>isize := off\<rparr>))) (\<lambda>_.
       doM (iupdate ip) (\<lambda>_.
       returnM (sint tot))))))"

section \<open>Directories\<close>

text \<open>
  Names are compared and copied by the functions of \<^verbatim>\<open>string.c\<close>, on an image that holds the
  two buffers at different addresses.
\<close>

definition two_bufs :: "byte list \<Rightarrow> byte list \<Rightarrow> memory" where
  "two_bufs s t = put (put (\<lambda>_. 0) 0 s) 0x1000 t"

definition namecmp :: "byte list \<Rightarrow> byte list \<Rightarrow> int" where
  "namecmp s t = strncmp (two_bufs s t) 0 0x1000 DIRSIZ"

definition de_inum :: "byte list \<Rightarrow> 16 word" where
  "de_inum de = rd16 de 0"

definition de_name :: "byte list \<Rightarrow> byte list" where
  "de_name de = slice de 2 DIRSIZ"

text \<open>
  The local \<open>struct dirent de\<close> is the stack buffer of the process; reading an entry fills
  it, and a short read panics with the caller's message.
\<close>

definition read_dirent :: "nat \<Rightarrow> 32 word \<Rightarrow> string \<Rightarrow> ('x fs_scheme, byte list) M" where
  "read_dirent dp off msg =
     doM curproc (\<lambda>p.
     doM (upd_pp p (\<lambda>q. q\<lparr>kbuf := replicate sizeof_dirent 0\<rparr>)) (\<lambda>_.
     doM (readi dp (StackLoc 0) off (of_nat sizeof_dirent)) (\<lambda>r.
     doM (whenM (r \<noteq> int sizeof_dirent) (panic msg)) (\<lambda>_.
     doM (get_pp p) (\<lambda>q.
     returnM (kbuf q))))))"

definition dirlookup :: "nat \<Rightarrow> byte list \<Rightarrow> ('x fs_scheme, (nat \<times> 32 word) option) M" where
  "dirlookup dp name =
     doM (get_inode dp) (\<lambda>d.
     doM (whenM (itype d \<noteq> T_DIR) (panic ''dirlookup not DIR'')) (\<lambda>_.
     iterM (Suc (unat (isize d))) (\<lambda>off.
       if off < isize d then
         doM (read_dirent dp off ''dirlookup read'') (\<lambda>de.
         if de_inum de = 0 then returnM (Inl (off + of_nat sizeof_dirent))
         else if namecmp name (de_name de) = 0 then
           doM (iget (idev d) (ucast (de_inum de))) (\<lambda>ip. returnM (Inr (Some (ip, off))))
         else returnM (Inl (off + of_nat sizeof_dirent)))
       else returnM (Inr None)) 0))"

definition dirlink :: "nat \<Rightarrow> byte list \<Rightarrow> 32 word \<Rightarrow> ('x fs_scheme, int) M" where
  "dirlink dp name i =
     doM (dirlookup dp name) (\<lambda>r.
     case r of Some (ip, _) \<Rightarrow> doM (iput ip) (\<lambda>_. returnM (- 1))
     | None \<Rightarrow>
         doM (get_inode dp) (\<lambda>d.
         doM (iterM (Suc (unat (isize d))) (\<lambda>off.
           if off < isize d then
             doM (read_dirent dp off ''dirlink read'') (\<lambda>de.
             if de_inum de = 0 then returnM (Inr off)
             else returnM (Inl (off + of_nat sizeof_dirent)))
           else returnM (Inr off)) 0) (\<lambda>off.
         doM curproc (\<lambda>p.
         doM (upd_pp p (\<lambda>q. q\<lparr>kbuf := le_bytes 2 i @ bytes (strncpy (two_bufs [] name) 0 0x1000 DIRSIZ) 0 DIRSIZ\<rparr>)) (\<lambda>_.
         doM (writei dp (StackLoc 0) off (of_nat sizeof_dirent)) (\<lambda>r.
         doM (whenM (r \<noteq> int sizeof_dirent) (panic ''dirlink'')) (\<lambda>_.
         returnM 0)))))))"

section \<open>Paths\<close>

definition SLASH :: byte where "SLASH = 47"

text \<open>
  \<open>skipelem path name\<close>: the rest of the path and the new contents of the buffer \<open>name\<close>.
  The three loops over the path are \<open>dropWhile\<close> and \<open>takeWhile\<close>.
\<close>

definition skipelem :: "byte list \<Rightarrow> byte list \<Rightarrow> (byte list \<times> byte list) option" where
  "skipelem path name =
     (let s = dropWhile (\<lambda>c. c = SLASH) path in
      if s = [] then None
      else
        let elem = takeWhile (\<lambda>c. c \<noteq> SLASH) s;
            rest = dropWhile (\<lambda>c. c \<noteq> SLASH) s;
            name' = (if length elem \<ge> DIRSIZ then blit name 0 (take DIRSIZ elem)
                     else blit name 0 (elem @ [0]))
        in Some (dropWhile (\<lambda>c. c = SLASH) rest, name'))"

text \<open>\<open>namex\<close>: every element read shortens the path.\<close>

definition namex :: "byte list \<Rightarrow> bool \<Rightarrow> byte list \<Rightarrow> ('x fs_scheme, (nat \<times> byte list) option) M" where
  "namex path want nm0 =
     doM (if path \<noteq> [] \<and> hd path = SLASH then iget ROOTDEV ROOTINO
          else doM curproc (\<lambda>p. doM (get_pp p) (\<lambda>q.
            case cwd q of None \<Rightarrow> panic ''kerneltrap'' | Some i \<Rightarrow> idup i))) (\<lambda>ip0.
     iterM (Suc (length path)) (\<lambda>(path, name, ip).
       case skipelem path name of
         None \<Rightarrow>
           if want then doM (iput ip) (\<lambda>_. returnM (Inr None))
           else returnM (Inr (Some (ip, name)))
       | Some (path', name') \<Rightarrow>
           doM (ilock (Some ip)) (\<lambda>_.
           doM (get_inode ip) (\<lambda>d.
           if itype d \<noteq> T_DIR then doM (iunlockput ip) (\<lambda>_. returnM (Inr None))
           else if want \<and> path' = [] then
             doM (iunlock (Some ip)) (\<lambda>_. returnM (Inr (Some (ip, name'))))
           else
             doM (dirlookup ip name') (\<lambda>r.
             case r of None \<Rightarrow> doM (iunlockput ip) (\<lambda>_. returnM (Inr None))
             | Some (next, _) \<Rightarrow>
                 doM (iunlockput ip) (\<lambda>_. returnM (Inl (path', name', next))))))) (path, nm0, ip0))"

definition namei :: "byte list \<Rightarrow> ('x fs_scheme, nat option) M" where
  "namei path = doM (namex path False (replicate DIRSIZ 0)) (\<lambda>r. returnM (map_option fst r))"

definition nameiparent :: "byte list \<Rightarrow> byte list \<Rightarrow> ('x fs_scheme, (nat \<times> byte list) option) M" where
  "nameiparent path name = namex path True name"

section \<open>A concrete state\<close>

definition demo_fs :: fs where
  "demo_fs = logs.extend demo_logs (fs.fields
     \<lparr>sb_magic = FSMAGIC, sb_size = 1000, sb_nblocks = 954, sb_ninodes = 200, sb_nlog = 30, sb_logstart = 2,
      sb_inodestart = 32, sb_bmapstart = 45\<rparr>
     (\<lambda>_. \<lparr>idev = 0, inum = 0, iref = 0, ivalid = False, itype = 0, imajor = 0, iminor = 0, nlink = 0, isize = 0, addrs = (\<lambda>_. 0)\<rparr>))"

lemma demo_fs_fields [simp]:
  "log demo_fs = demo_logst" "disk demo_fs = disk demo_logs" "hart demo_fs = 0" "cpus demo_fs = cpus demo_bio"
  "sstatus demo_fs = sstatus demo_bio" "locks demo_fs = locks demo_bio" "bufs demo_fs = demo_bufs"
  "slocks demo_fs = slocks demo_bio" "procs demo_fs = demo_proc" "wlog demo_fs = wlog demo_logs"
  using demo_logs_fields by (simp_all add: demo_fs_def logs.defs fs.defs)

end
