(* ===== verification/Uart.thy ===== *)
theory Uart
  imports Fs
begin

text \<open>
  Device registers and the 16550 UART driver, \<^verbatim>\<open>kernel/uart.c\<close>, without \<open>uartintr\<close>, which
  is with the console.  A device is a parameter: \<open>dev_resp\<close> gives the value a register
  reads as after a history of register accesses, and \<open>io\<close> is that history, oldest first.
  \<open>dev_burst\<close> bounds the number of input bytes the UART delivers during one interrupt.
\<close>

section \<open>Device registers\<close>

datatype mmio = MRead addr "64 word" | MWrite addr "64 word"

record devs = fs +
  io :: "mmio list"
  dev_resp :: "mmio list \<Rightarrow> addr \<Rightarrow> 64 word"
  dev_burst :: nat

definition reg_read :: "addr \<Rightarrow> ('x devs_scheme, 64 word) M" where
  "reg_read a =
     doM (getsM (\<lambda>s. dev_resp s (io s) a)) (\<lambda>v.
     doM (modifyM (\<lambda>s. s\<lparr>io := io s @ [MRead a v]\<rparr>)) (\<lambda>_.
     returnM v))"

definition reg_write :: "addr \<Rightarrow> 64 word \<Rightarrow> ('x devs_scheme, unit) M" where
  "reg_write a v = modifyM (\<lambda>s. s\<lparr>io := io s @ [MWrite a v]\<rparr>)"

text \<open>
  An iteration of a loop that polls memory or a device: the rest of the system makes a
  step.  A loop \<open>for(;;);\<close> never ends.
\<close>

fun spin :: "('s, unit) M" where
  "spin s [] = Stuck s"
| "spin s (e # es) = Done () (e s) es"

definition forever :: "('s, 'a) M" where
  "forever = (\<lambda>s es. Stuck s)"

section \<open>State\<close>

record uart = devs +
  uart_tx_buf :: "byte list"
  uart_tx_w :: "64 word"
  uart_tx_r :: "64 word"
  panicked :: bool

definition RHR :: addr where "RHR = 0"
definition THR :: addr where "THR = 0"
definition IER :: addr where "IER = 1"
definition IER_RX_ENABLE :: byte where "IER_RX_ENABLE = 1"
definition IER_TX_ENABLE :: byte where "IER_TX_ENABLE = 2"
definition FCR :: addr where "FCR = 2"
definition FCR_FIFO_ENABLE :: byte where "FCR_FIFO_ENABLE = 1"
definition FCR_FIFO_CLEAR :: byte where "FCR_FIFO_CLEAR = 6"
definition LCR :: addr where "LCR = 3"
definition LCR_EIGHT_BITS :: byte where "LCR_EIGHT_BITS = 3"
definition LCR_BAUD_LATCH :: byte where "LCR_BAUD_LATCH = 128"
definition LSR :: addr where "LSR = 5"
definition LSR_RX_READY :: byte where "LSR_RX_READY = 1"
definition LSR_TX_IDLE :: byte where "LSR_TX_IDLE = 32"
definition UART_TX_BUF_SIZE :: nat where "UART_TX_BUF_SIZE = 32"

definition ReadReg :: "addr \<Rightarrow> ('x devs_scheme, byte) M" where
  "ReadReg r = doM (reg_read (UART0 + r)) (\<lambda>v. returnM (ucast v))"

definition WriteReg :: "addr \<Rightarrow> byte \<Rightarrow> ('x devs_scheme, unit) M" where
  "WriteReg r v = reg_write (UART0 + r) (ucast v)"

section \<open>Operations\<close>

definition uartinit :: "('x uart_scheme, unit) M" where
  "uartinit = seqM [
     WriteReg IER 0x00,
     WriteReg LCR LCR_BAUD_LATCH,
     WriteReg 0 0x03,
     WriteReg 1 0x00,
     WriteReg LCR LCR_EIGHT_BITS,
     WriteReg FCR (FCR_FIFO_ENABLE OR FCR_FIFO_CLEAR),
     WriteReg IER (IER_TX_ENABLE OR IER_RX_ENABLE),
     initlock UartTxLock ''uart'']"

text \<open>Every iteration of \<open>uartstart\<close> takes one byte, so the number of bytes bounds the loop.\<close>

definition uartstart :: "('x uart_scheme, unit) M" where
  "uartstart =
     doM (getsM (\<lambda>s. unat (uart_tx_w s - uart_tx_r s))) (\<lambda>k.
     iterM (Suc k) (\<lambda>_.
       doM (getsM (\<lambda>s. uart_tx_w s = uart_tx_r s)) (\<lambda>emp.
       if emp then returnM (Inr ())
       else
         doM (ReadReg LSR) (\<lambda>v.
         if v AND LSR_TX_IDLE = 0 then returnM (Inr ())
         else
           doM (getsM (\<lambda>s. uart_tx_buf s ! (unat (uart_tx_r s) mod UART_TX_BUF_SIZE))) (\<lambda>c.
           doM (modifyM (\<lambda>s. s\<lparr>uart_tx_r := uart_tx_r s + 1\<rparr>)) (\<lambda>_.
           doM (wakeup ChanUart) (\<lambda>_.
           doM (WriteReg THR c) (\<lambda>_.
           returnM (Inl ())))))))) ())"

definition uartputc :: "byte \<Rightarrow> ('x uart_scheme, unit) M" where
  "uartputc c =
     doM (acquire UartTxLock) (\<lambda>_.
     doM (getsM panicked) (\<lambda>pk.
     if pk then forever
     else
       waitM 0 (\<lambda>_.
         doM (getsM (\<lambda>s. uart_tx_w s = uart_tx_r s + of_nat UART_TX_BUF_SIZE)) (\<lambda>full.
         if full then doM (sleep ChanUart UartTxLock) (\<lambda>_. returnM (Inl ()))
         else
           doM (modifyM (\<lambda>s. s\<lparr>uart_tx_buf := (uart_tx_buf s)[unat (uart_tx_w s) mod UART_TX_BUF_SIZE := c]\<rparr>)) (\<lambda>_.
           doM (modifyM (\<lambda>s. s\<lparr>uart_tx_w := uart_tx_w s + 1\<rparr>)) (\<lambda>_.
           doM uartstart (\<lambda>_.
           doM (release UartTxLock) (\<lambda>_.
           returnM (Inr ()))))))) ()))"

definition uartputc_sync :: "byte \<Rightarrow> ('x uart_scheme, unit) M" where
  "uartputc_sync c =
     doM push_off (\<lambda>_.
     doM (getsM panicked) (\<lambda>pk.
     if pk then forever
     else
       doM (waitM 0 (\<lambda>_.
         doM (ReadReg LSR) (\<lambda>v.
         if v AND LSR_TX_IDLE = 0 then doM spin (\<lambda>_. returnM (Inl ()))
         else returnM (Inr ()))) ()) (\<lambda>_.
       doM (WriteReg THR c) (\<lambda>_.
       pop_off))))"

definition uartgetc :: "('x devs_scheme, byte option) M" where
  "uartgetc =
     doM (ReadReg LSR) (\<lambda>v.
     if v AND 0x01 \<noteq> 0 then doM (ReadReg RHR) (\<lambda>c. returnM (Some c))
     else returnM None)"

end
