(* ===== verification/Printf.thy ===== *)
theory Printf
  imports Uart
begin

text \<open>
  Formatted kernel output, \<^verbatim>\<open>kernel/printf.c\<close>, with \<open>consputc\<close> of \<^verbatim>\<open>kernel/console.c\<close> and
  \<open>procdump\<close> of \<^verbatim>\<open>kernel/proc.c\<close>.  The variable arguments are a list of values.  In C the
  use of a missing argument or of one of the wrong kind is undefined; here it is a fault.
\<close>

section \<open>State\<close>

datatype arg = AInt "32 word" | APtr "64 word" | AStr "byte list option"

record pr = uart +
  pr_locking :: bool

text \<open>String literals of the source as bytes.\<close>

definition ascii :: "string \<Rightarrow> byte list" where
  "ascii cs = map (\<lambda>c. of_nat (of_char c)) cs"

definition PERCENT :: byte where "PERCENT = 37"

section \<open>Operations\<close>

text \<open>\<open>consputc(BACKSPACE)\<close> is \<open>consputc None\<close>.\<close>

definition consputc :: "byte option \<Rightarrow> ('x uart_scheme, unit) M" where
  "consputc co = (case co of
      None \<Rightarrow> seqM [uartputc_sync 8, uartputc_sync 32, uartputc_sync 8]
    | Some c \<Rightarrow> uartputc_sync c)"

definition digits :: "byte list" where
  "digits = ascii ''0123456789abcdef''"

text \<open>
  The loop that fills \<open>buf\<close> with digits, least significant first.  32 divisions make any
  32-bit number zero for a base of at least 2.
\<close>

fun digit_loop :: "nat \<Rightarrow> 32 word \<Rightarrow> 32 word \<Rightarrow> byte list option" where
  "digit_loop 0 x base = None"
| "digit_loop (Suc k) x base =
     (let c = digits ! unat (x mod base); x' = x div base in
      if x' \<noteq> 0 then map_option ((#) c) (digit_loop k x' base) else Some [c])"

text \<open>The contents of \<open>buf\<close> when the output loop starts.\<close>

definition printint_buf :: "32 word \<Rightarrow> 32 word \<Rightarrow> bool \<Rightarrow> byte list option" where
  "printint_buf xx base sign =
     (let neg = (sign \<and> sint xx < 0);
          x = (if neg then - xx else xx)
      in map_option (\<lambda>buf. if neg then buf @ [45] else buf) (digit_loop 32 x base))"

definition printint :: "32 word \<Rightarrow> 32 word \<Rightarrow> bool \<Rightarrow> ('x uart_scheme, unit) M" where
  "printint xx base sign = (case printint_buf xx base sign of
      None \<Rightarrow> forever
    | Some buf \<Rightarrow> forM (rev buf) (\<lambda>c. consputc (Some c)))"

fun ptr_digits :: "nat \<Rightarrow> 64 word \<Rightarrow> byte list" where
  "ptr_digits 0 x = []"
| "ptr_digits (Suc k) x = digits ! unat (drop_bit 60 x) # ptr_digits k (push_bit 4 x)"

definition printptr :: "64 word \<Rightarrow> ('x uart_scheme, unit) M" where
  "printptr x = seqM [
     consputc (Some 48),
     consputc (Some 120),
     forM (ptr_digits 16 x) (\<lambda>c. consputc (Some c))]"

fun printf_loop :: "byte list \<Rightarrow> arg list \<Rightarrow> ('x uart_scheme, unit) M" where
  "printf_loop [] ap = returnM ()"
| "printf_loop [c] ap = (if c \<noteq> PERCENT then consputc (Some c) else returnM ())"
| "printf_loop (c # d # cs) ap =
     (if c \<noteq> PERCENT then doM (consputc (Some c)) (\<lambda>_. printf_loop (d # cs) ap)
      else if d = 100 then
        (case ap of AInt v # ap' \<Rightarrow> doM (printint v 10 True) (\<lambda>_. printf_loop cs ap')
         | _ \<Rightarrow> panic ''kerneltrap'')
      else if d = 120 then
        (case ap of AInt v # ap' \<Rightarrow> doM (printint v 16 True) (\<lambda>_. printf_loop cs ap')
         | _ \<Rightarrow> panic ''kerneltrap'')
      else if d = 112 then
        (case ap of APtr v # ap' \<Rightarrow> doM (printptr v) (\<lambda>_. printf_loop cs ap')
         | _ \<Rightarrow> panic ''kerneltrap'')
      else if d = 115 then
        (case ap of AStr so # ap' \<Rightarrow>
           doM (forM (case so of None \<Rightarrow> ascii ''(null)'' | Some s \<Rightarrow> s) (\<lambda>c. consputc (Some c))) (\<lambda>_.
           printf_loop cs ap')
         | _ \<Rightarrow> panic ''kerneltrap'')
      else if d = PERCENT then doM (consputc (Some PERCENT)) (\<lambda>_. printf_loop cs ap)
      else
        doM (consputc (Some PERCENT)) (\<lambda>_.
        doM (consputc (Some d)) (\<lambda>_.
        printf_loop cs ap)))"

definition printf :: "byte list option \<Rightarrow> arg list \<Rightarrow> ('x pr_scheme, unit) M" where
  "printf fmt ap =
     doM (getsM pr_locking) (\<lambda>locking. seqM [
       whenM locking (acquire PrLock),
       (case fmt of None \<Rightarrow> panic ''null fmt'' | Some cs \<Rightarrow> printf_loop cs ap),
       whenM locking (release PrLock)])"

text \<open>
  The function \<open>panic\<close> itself.  It never returns; where the other operations call it, the
  run of the model ends with \<open>Panic\<close>.
\<close>

definition panic_fn :: "byte list \<Rightarrow> ('x pr_scheme, unit) M" where
  "panic_fn msg = seqM [
     modifyM (\<lambda>s. s\<lparr>pr_locking := False\<rparr>),
     printf (Some (ascii ''panic: '')) [],
     printf (Some msg) [],
     printf (Some [10]) [],
     modifyM (\<lambda>s. s\<lparr>panicked := True\<rparr>),
     forever]"

definition printfinit :: "('x pr_scheme, unit) M" where
  "printfinit = seqM [
     initlock PrLock ''pr'',
     modifyM (\<lambda>s. s\<lparr>pr_locking := True\<rparr>)]"

section \<open>The process listing\<close>

fun state_name :: "procstate \<Rightarrow> byte list" where
  "state_name UNUSED = ascii ''unused''"
| "state_name USED = ascii ''???''"
| "state_name SLEEPING = ascii ''sleep ''"
| "state_name RUNNABLE = ascii ''runble''"
| "state_name RUNNING = ascii ''run   ''"
| "state_name ZOMBIE = ascii ''zombie''"

definition procdump :: "('x pr_scheme, unit) M" where
  "procdump = seqM [
     printf (Some [10]) [],
     forM [0..<NPROC] (\<lambda>p.
       doM (get_proc p) (\<lambda>q.
       doM (get_pp p) (\<lambda>r.
       whenM (pstate q \<noteq> UNUSED) (seqM [
         printf (Some (ascii ''%d %s %s'')) [AInt (of_int (pid q)), AStr (Some (state_name (pstate q))), AStr (Some (takeWhile (\<lambda>c. c \<noteq> 0) (pname r)))],
         printf (Some [10]) []]))))]"

end
