(* ===== verification/Console.thy ===== *)
theory Console
  imports Printf
begin

text \<open>
  The console, \<^verbatim>\<open>kernel/console.c\<close>, and \<open>uartintr\<close> of \<^verbatim>\<open>kernel/uart.c\<close>.  The device switch
  \<open>devsw\<close> is a pair of tables from major numbers to the driver functions the kernel has.
\<close>

section \<open>State\<close>

datatype devread = Consoleread
datatype devwrite = Consolewrite

record console = pr +
  cons_buf :: "byte list"
  cons_r :: "32 word"
  cons_w :: "32 word"
  cons_e :: "32 word"
  devsw_read :: "nat \<Rightarrow> devread option"
  devsw_write :: "nat \<Rightarrow> devwrite option"

definition INPUT_BUF :: nat where "INPUT_BUF = 128"
definition CONSOLE :: nat where "CONSOLE = 1"
definition NDEV :: nat where "NDEV = 10"

text \<open>Control-x.\<close>

definition Ctrl :: "char \<Rightarrow> byte" where
  "Ctrl x = of_nat (of_char x) - 64"

section \<open>Operations\<close>

definition consolewrite :: "loc \<Rightarrow> 32 word \<Rightarrow> ('x console_scheme, int) M" where
  "consolewrite src n =
     iterM (Suc (nat (sint n))) (\<lambda>i.
       if int i < sint n then
         doM (either_copyin (loc_plus src i) 1) (\<lambda>r.
         case r of None \<Rightarrow> returnM (Inr (int i))
         | Some cs \<Rightarrow> doM (uartputc (cs ! 0)) (\<lambda>_. returnM (Inl (Suc i))))
       else returnM (Inr (int i))) 0"

text \<open>
  The inner loop of \<open>consoleread\<close> waits for input; \<open>False\<close> means the process was killed.
\<close>

definition cons_wait :: "('x console_scheme, bool) M" where
  "cons_wait = waitM 0 (\<lambda>_.
     doM (getsM (\<lambda>s. cons_r s = cons_w s)) (\<lambda>emp.
     if emp then
       doM curproc (\<lambda>p.
       doM (get_proc p) (\<lambda>q.
       if killed q then doM (release ConsLock) (\<lambda>_. returnM (Inr False))
       else doM (sleep ChanCons ConsLock) (\<lambda>_. returnM (Inl ()))))
     else returnM (Inr True))) ()"

definition consoleread :: "loc \<Rightarrow> 32 word \<Rightarrow> ('x console_scheme, int) M" where
  "consoleread dst n0 =
     doM (acquire ConsLock) (\<lambda>_.
     doM (iterM (Suc (nat (sint n0))) (\<lambda>(n, dst).
       if sint n > 0 then
         doM cons_wait (\<lambda>ok.
         if \<not> ok then returnM (Inr None)
         else
           doM (getsM (\<lambda>s. cons_buf s ! (unat (cons_r s) mod INPUT_BUF))) (\<lambda>c.
           doM (modifyM (\<lambda>s. s\<lparr>cons_r := cons_r s + 1\<rparr>)) (\<lambda>_.
           if c = Ctrl CHR ''D'' then
             doM (whenM (n < n0) (modifyM (\<lambda>s. s\<lparr>cons_r := cons_r s - 1\<rparr>))) (\<lambda>_.
             returnM (Inr (Some n)))
           else
             doM (either_copyout dst [c]) (\<lambda>r.
             if r = - 1 then returnM (Inr (Some n))
             else if c = 10 then returnM (Inr (Some (n - 1)))
             else returnM (Inl (n - 1, loc_plus dst 1))))))
       else returnM (Inr (Some n))) (n0, dst)) (\<lambda>r.
     case r of None \<Rightarrow> returnM (- 1)
     | Some n \<Rightarrow> doM (release ConsLock) (\<lambda>_. returnM (sint (n0 - n)))))"

text \<open>\<open>^U\<close> erases back to the start of the line; every iteration removes a character.\<close>

definition cons_kill_line :: "('x console_scheme, unit) M" where
  "cons_kill_line =
     doM (getsM (\<lambda>s. unat (cons_e s - cons_w s))) (\<lambda>k.
     iterM (Suc k) (\<lambda>_.
       doM (getsM (\<lambda>s. cons_e s \<noteq> cons_w s \<and> cons_buf s ! (unat (cons_e s - 1) mod INPUT_BUF) \<noteq> 10)) (\<lambda>more.
       if more then
         doM (modifyM (\<lambda>s. s\<lparr>cons_e := cons_e s - 1\<rparr>)) (\<lambda>_.
         doM (consputc None) (\<lambda>_.
         returnM (Inl ())))
       else returnM (Inr ()))) ())"

definition cons_backspace :: "('x console_scheme, unit) M" where
  "cons_backspace =
     doM (getsM (\<lambda>s. cons_e s \<noteq> cons_w s)) (\<lambda>ne.
     whenM ne (seqM [
       modifyM (\<lambda>s. s\<lparr>cons_e := cons_e s - 1\<rparr>),
       consputc None]))"

definition cons_char :: "byte \<Rightarrow> ('x console_scheme, unit) M" where
  "cons_char c0 =
     doM (getsM (\<lambda>s. c0 \<noteq> 0 \<and> cons_e s - cons_r s < of_nat INPUT_BUF)) (\<lambda>room.
     whenM room (
       let c = (if c0 = 13 then 10 else c0) in seqM [
         consputc (Some c),
         modifyM (\<lambda>s. s\<lparr>cons_buf := (cons_buf s)[unat (cons_e s) mod INPUT_BUF := c]\<rparr>),
         modifyM (\<lambda>s. s\<lparr>cons_e := cons_e s + 1\<rparr>),
         doM (getsM (\<lambda>s. c = 10 \<or> c = Ctrl CHR ''D'' \<or> cons_e s = cons_r s + of_nat INPUT_BUF)) (\<lambda>wake.
         whenM wake (seqM [
           modifyM (\<lambda>s. s\<lparr>cons_w := cons_e s\<rparr>),
           wakeup ChanCons]))]))"

definition consoleintr :: "byte \<Rightarrow> ('x console_scheme, unit) M" where
  "consoleintr c = seqM [
     acquire ConsLock,
     (if c = Ctrl CHR ''P'' then procdump
      else if c = Ctrl CHR ''U'' then cons_kill_line
      else if c = Ctrl CHR ''H'' \<or> c = 127 then cons_backspace
      else cons_char c),
     release ConsLock]"

definition consoleinit :: "('x console_scheme, unit) M" where
  "consoleinit = seqM [
     initlock ConsLock ''cons'',
     uartinit,
     modifyM (\<lambda>s. s\<lparr>devsw_read := (devsw_read s)(CONSOLE := Some Consoleread)\<rparr>),
     modifyM (\<lambda>s. s\<lparr>devsw_write := (devsw_write s)(CONSOLE := Some Consolewrite)\<rparr>)]"

text \<open>
  The first loop of \<open>uartintr\<close> runs as long as the device has input.
\<close>

definition uartintr :: "('x console_scheme, unit) M" where
  "uartintr = seqM [
     doM (getsM dev_burst) (\<lambda>k.
     iterM (Suc k) (\<lambda>_.
       doM uartgetc (\<lambda>co.
       case co of None \<Rightarrow> returnM (Inr ())
       | Some c \<Rightarrow> doM (consoleintr c) (\<lambda>_. returnM (Inl ())))) ()),
     acquire UartTxLock,
     uartstart,
     release UartTxLock]"

end
