(* ===== verification/Virtio.thy ===== *)
theory Virtio
  imports Console
begin

text \<open>
  The disk driver, \<^verbatim>\<open>kernel/virtio_disk.c\<close> over the structures of \<^verbatim>\<open>kernel/virtio.h\<close>.  The
  descriptor table, the two rings and the request headers, which the driver and the device
  share, are fields of the state; an address given to the device names the structure it
  points to.  Memory barriers order nothing in the model, whose steps are sequential.
\<close>

section \<open>State\<close>

datatype vaddr = VNull | VReq nat | VData nat | VStatus nat

record virtq_desc =
  vd_addr :: vaddr
  vd_len :: "32 word"
  vd_flags :: "16 word"
  vd_next :: "16 word"

record virtio_blk_req =
  vr_type :: "32 word"
  vr_reserved :: "32 word"
  vr_sector :: "64 word"

record vinfo =
  vi_b :: "nat option"
  vi_status :: byte

record virtio = console +
  vdesc :: "nat \<Rightarrow> virtq_desc"
  avail_idx :: "16 word"
  avail_ring :: "nat \<Rightarrow> 16 word"
  used_ring_idx :: "16 word"
  used_ring :: "nat \<Rightarrow> 32 word"
  vfree :: "nat \<Rightarrow> bool"
  used_idx :: "16 word"
  vinfo :: "nat \<Rightarrow> vinfo"
  vops :: "nat \<Rightarrow> virtio_blk_req"
  disk_pages :: addr

definition NUM :: nat where "NUM = 8"
definition VRING_DESC_F_NEXT :: "16 word" where "VRING_DESC_F_NEXT = 1"
definition VRING_DESC_F_WRITE :: "16 word" where "VRING_DESC_F_WRITE = 2"
definition VIRTIO_BLK_T_IN :: "32 word" where "VIRTIO_BLK_T_IN = 0"
definition VIRTIO_BLK_T_OUT :: "32 word" where "VIRTIO_BLK_T_OUT = 1"
definition VIRTIO_MMIO_MAGIC_VALUE :: addr where "VIRTIO_MMIO_MAGIC_VALUE = 0x000"
definition VIRTIO_MMIO_VERSION :: addr where "VIRTIO_MMIO_VERSION = 0x004"
definition VIRTIO_MMIO_DEVICE_ID :: addr where "VIRTIO_MMIO_DEVICE_ID = 0x008"
definition VIRTIO_MMIO_VENDOR_ID :: addr where "VIRTIO_MMIO_VENDOR_ID = 0x00c"
definition VIRTIO_MMIO_DEVICE_FEATURES :: addr where "VIRTIO_MMIO_DEVICE_FEATURES = 0x010"
definition VIRTIO_MMIO_DRIVER_FEATURES :: addr where "VIRTIO_MMIO_DRIVER_FEATURES = 0x020"
definition VIRTIO_MMIO_GUEST_PAGE_SIZE :: addr where "VIRTIO_MMIO_GUEST_PAGE_SIZE = 0x028"
definition VIRTIO_MMIO_QUEUE_SEL :: addr where "VIRTIO_MMIO_QUEUE_SEL = 0x030"
definition VIRTIO_MMIO_QUEUE_NUM_MAX :: addr where "VIRTIO_MMIO_QUEUE_NUM_MAX = 0x034"
definition VIRTIO_MMIO_QUEUE_NUM :: addr where "VIRTIO_MMIO_QUEUE_NUM = 0x038"
definition VIRTIO_MMIO_QUEUE_PFN :: addr where "VIRTIO_MMIO_QUEUE_PFN = 0x040"
definition VIRTIO_MMIO_QUEUE_NOTIFY :: addr where "VIRTIO_MMIO_QUEUE_NOTIFY = 0x050"
definition VIRTIO_MMIO_INTERRUPT_STATUS :: addr where "VIRTIO_MMIO_INTERRUPT_STATUS = 0x060"
definition VIRTIO_MMIO_INTERRUPT_ACK :: addr where "VIRTIO_MMIO_INTERRUPT_ACK = 0x064"
definition VIRTIO_MMIO_STATUS :: addr where "VIRTIO_MMIO_STATUS = 0x070"

definition VIRTIO_CONFIG_S_ACKNOWLEDGE :: "32 word" where "VIRTIO_CONFIG_S_ACKNOWLEDGE = 1"
definition VIRTIO_CONFIG_S_DRIVER :: "32 word" where "VIRTIO_CONFIG_S_DRIVER = 2"
definition VIRTIO_CONFIG_S_DRIVER_OK :: "32 word" where "VIRTIO_CONFIG_S_DRIVER_OK = 4"
definition VIRTIO_CONFIG_S_FEATURES_OK :: "32 word" where "VIRTIO_CONFIG_S_FEATURES_OK = 8"

text \<open>The feature bits the driver does not accept.\<close>

definition features_off :: "nat list" where
  "features_off = [5, 7, 11, 12, 27, 29, 28]"

definition rdR :: "addr \<Rightarrow> ('x devs_scheme, 32 word) M" where
  "rdR r = doM (reg_read (VIRTIO0 + r)) (\<lambda>v. returnM (ucast v))"

definition wrR :: "addr \<Rightarrow> 32 word \<Rightarrow> ('x devs_scheme, unit) M" where
  "wrR r v = reg_write (VIRTIO0 + r) (ucast v)"

definition upd_desc :: "nat \<Rightarrow> (virtq_desc \<Rightarrow> virtq_desc) \<Rightarrow> ('x virtio_scheme, unit) M" where
  "upd_desc i f = modifyM (\<lambda>s. s\<lparr>vdesc := (vdesc s)(i := f (vdesc s i))\<rparr>)"

definition upd_info :: "nat \<Rightarrow> (vinfo \<Rightarrow> vinfo) \<Rightarrow> ('x virtio_scheme, unit) M" where
  "upd_info i f = modifyM (\<lambda>s. s\<lparr>vinfo := (vinfo s)(i := f (vinfo s i))\<rparr>)"

definition upd_ops :: "nat \<Rightarrow> (virtio_blk_req \<Rightarrow> virtio_blk_req) \<Rightarrow> ('x virtio_scheme, unit) M" where
  "upd_ops i f = modifyM (\<lambda>s. s\<lparr>vops := (vops s)(i := f (vops s i))\<rparr>)"

definition upd_free :: "nat \<Rightarrow> bool \<Rightarrow> ('x virtio_scheme, unit) M" where
  "upd_free i b = modifyM (\<lambda>s. s\<lparr>vfree := (vfree s)(i := b)\<rparr>)"

section \<open>Initialisation\<close>

definition null_desc :: virtq_desc where
  "null_desc = \<lparr>vd_addr = VNull, vd_len = 0, vd_flags = 0, vd_next = 0\<rparr>"

text \<open>\<open>memset(disk.pages, 0, \<dots>)\<close>: the descriptor table and both rings.\<close>

definition clear_pages :: "('x virtio_scheme, unit) M" where
  "clear_pages = modifyM (\<lambda>s. s\<lparr>vdesc := (\<lambda>_. null_desc), avail_idx := 0, avail_ring := (\<lambda>_. 0),
     used_ring_idx := 0, used_ring := (\<lambda>_. 0)\<rparr>)"

definition virtio_disk_init :: "('x virtio_scheme, unit) M" where
  "virtio_disk_init =
     doM (initlock VdiskLock ''virtio_disk'') (\<lambda>_.
     doM (rdR VIRTIO_MMIO_MAGIC_VALUE) (\<lambda>mg.
     if mg \<noteq> 0x74726976 then panic ''could not find virtio disk'' else
     doM (rdR VIRTIO_MMIO_VERSION) (\<lambda>ver.
     if ver \<noteq> 1 then panic ''could not find virtio disk'' else
     doM (rdR VIRTIO_MMIO_DEVICE_ID) (\<lambda>did.
     if did \<noteq> 2 then panic ''could not find virtio disk'' else
     doM (rdR VIRTIO_MMIO_VENDOR_ID) (\<lambda>vid.
     if vid \<noteq> 0x554d4551 then panic ''could not find virtio disk'' else
     let s1 = VIRTIO_CONFIG_S_ACKNOWLEDGE; s2 = s1 OR VIRTIO_CONFIG_S_DRIVER;
         s3 = s2 OR VIRTIO_CONFIG_S_FEATURES_OK; s4 = s3 OR VIRTIO_CONFIG_S_DRIVER_OK in
     doM (wrR VIRTIO_MMIO_STATUS s1) (\<lambda>_.
     doM (wrR VIRTIO_MMIO_STATUS s2) (\<lambda>_.
     doM (rdR VIRTIO_MMIO_DEVICE_FEATURES) (\<lambda>feat.
     doM (wrR VIRTIO_MMIO_DRIVER_FEATURES (fold (\<lambda>k x. x AND NOT (push_bit k 1)) features_off feat)) (\<lambda>_.
     doM (wrR VIRTIO_MMIO_STATUS s3) (\<lambda>_.
     doM (wrR VIRTIO_MMIO_STATUS s4) (\<lambda>_.
     doM (wrR VIRTIO_MMIO_GUEST_PAGE_SIZE (ucast PGSIZE)) (\<lambda>_.
     doM (wrR VIRTIO_MMIO_QUEUE_SEL 0) (\<lambda>_.
     doM (rdR VIRTIO_MMIO_QUEUE_NUM_MAX) (\<lambda>mx.
     if mx = 0 then panic ''virtio disk has no queue 0'' else
     if mx < of_nat NUM then panic ''virtio disk max queue too short'' else
     doM (wrR VIRTIO_MMIO_QUEUE_NUM (of_nat NUM)) (\<lambda>_.
     doM clear_pages (\<lambda>_.
     doM (getsM disk_pages) (\<lambda>pg.
     doM (wrR VIRTIO_MMIO_QUEUE_PFN (ucast (drop_bit 12 pg))) (\<lambda>_.
     forM [0..<NUM] (\<lambda>i. upd_free i True)))))))))))))))))))"

section \<open>Descriptors\<close>

definition alloc_desc :: "('x virtio_scheme, nat option) M" where
  "alloc_desc = exitM [0..<NUM] (\<lambda>i.
     doM (getsM (\<lambda>s. vfree s i)) (\<lambda>fr.
     if fr then doM (upd_free i False) (\<lambda>_. returnM (Some i))
     else returnM None))"

definition free_desc :: "nat \<Rightarrow> ('x virtio_scheme, unit) M" where
  "free_desc i = seqM [
     whenM (i \<ge> NUM) (panic ''free_desc 1''),
     doM (getsM (\<lambda>s. vfree s i)) (\<lambda>fr. whenM fr (panic ''free_desc 2'')),
     upd_desc i (\<lambda>d. d\<lparr>vd_addr := VNull\<rparr>),
     upd_desc i (\<lambda>d. d\<lparr>vd_len := 0\<rparr>),
     upd_desc i (\<lambda>d. d\<lparr>vd_flags := 0\<rparr>),
     upd_desc i (\<lambda>d. d\<lparr>vd_next := 0\<rparr>),
     upd_free i True,
     wakeup ChanDiskFree]"

text \<open>\<open>free_chain\<close> frees each descriptor at most once, so \<open>NUM + 1\<close> rounds are enough.\<close>

definition free_chain :: "nat \<Rightarrow> ('x virtio_scheme, unit) M" where
  "free_chain i0 = iterM (Suc NUM) (\<lambda>i.
     doM (getsM (\<lambda>s. vdesc s i)) (\<lambda>d.
     doM (free_desc i) (\<lambda>_.
     if vd_flags d AND VRING_DESC_F_NEXT \<noteq> 0 then returnM (Inl (unat (vd_next d)))
     else returnM (Inr ())))) i0"

definition alloc3_desc :: "('x virtio_scheme, (nat \<times> nat \<times> nat) option) M" where
  "alloc3_desc =
     doM alloc_desc (\<lambda>r0.
     case r0 of None \<Rightarrow> returnM None
     | Some i0 \<Rightarrow>
     doM alloc_desc (\<lambda>r1.
     case r1 of None \<Rightarrow> doM (free_desc i0) (\<lambda>_. returnM None)
     | Some i1 \<Rightarrow>
     doM alloc_desc (\<lambda>r2.
     case r2 of None \<Rightarrow> doM (free_desc i0) (\<lambda>_. doM (free_desc i1) (\<lambda>_. returnM None))
     | Some i2 \<Rightarrow> returnM (Some (i0, i1, i2)))))"

section \<open>Requests\<close>

definition alloc3_wait :: "('x virtio_scheme, nat \<times> nat \<times> nat) M" where
  "alloc3_wait = waitM 0 (\<lambda>_.
     doM alloc3_desc (\<lambda>r.
     case r of Some idx \<Rightarrow> returnM (Inr idx)
     | None \<Rightarrow> doM (sleep ChanDiskFree VdiskLock) (\<lambda>_. returnM (Inl ())))) ()"

text \<open>The three descriptors of a request and its entry in the avail ring.\<close>

definition format_request :: "nat \<Rightarrow> bool \<Rightarrow> 64 word \<Rightarrow> nat \<Rightarrow> nat \<Rightarrow> nat \<Rightarrow> ('x virtio_scheme, unit) M" where
  "format_request b wr sector i0 i1 i2 = seqM [
     upd_ops i0 (\<lambda>r. r\<lparr>vr_type := (if wr then VIRTIO_BLK_T_OUT else VIRTIO_BLK_T_IN)\<rparr>),
     upd_ops i0 (\<lambda>r. r\<lparr>vr_reserved := 0\<rparr>),
     upd_ops i0 (\<lambda>r. r\<lparr>vr_sector := sector\<rparr>),
     upd_desc i0 (\<lambda>d. d\<lparr>vd_addr := VReq i0\<rparr>),
     upd_desc i0 (\<lambda>d. d\<lparr>vd_len := 16\<rparr>),
     upd_desc i0 (\<lambda>d. d\<lparr>vd_flags := VRING_DESC_F_NEXT\<rparr>),
     upd_desc i0 (\<lambda>d. d\<lparr>vd_next := of_nat i1\<rparr>),
     upd_desc i1 (\<lambda>d. d\<lparr>vd_addr := VData b\<rparr>),
     upd_desc i1 (\<lambda>d. d\<lparr>vd_len := of_nat BSIZE\<rparr>),
     upd_desc i1 (\<lambda>d. d\<lparr>vd_flags := (if wr then 0 else VRING_DESC_F_WRITE)\<rparr>),
     upd_desc i1 (\<lambda>d. d\<lparr>vd_flags := vd_flags d OR VRING_DESC_F_NEXT\<rparr>),
     upd_desc i1 (\<lambda>d. d\<lparr>vd_next := of_nat i2\<rparr>),
     upd_info i0 (\<lambda>r. r\<lparr>vi_status := 0xff\<rparr>),
     upd_desc i2 (\<lambda>d. d\<lparr>vd_addr := VStatus i0\<rparr>),
     upd_desc i2 (\<lambda>d. d\<lparr>vd_len := 1\<rparr>),
     upd_desc i2 (\<lambda>d. d\<lparr>vd_flags := VRING_DESC_F_WRITE\<rparr>),
     upd_desc i2 (\<lambda>d. d\<lparr>vd_next := 0\<rparr>),
     upd_buf b (\<lambda>d. d\<lparr>bdisk := True\<rparr>),
     upd_info i0 (\<lambda>r. r\<lparr>vi_b := Some b\<rparr>),
     modifyM (\<lambda>s. s\<lparr>avail_ring := (avail_ring s)(unat (avail_idx s) mod NUM := of_nat i0)\<rparr>),
     modifyM (\<lambda>s. s\<lparr>avail_idx := avail_idx s + 1\<rparr>)]"

definition disk_wait :: "nat \<Rightarrow> ('x virtio_scheme, unit) M" where
  "disk_wait b = waitM 0 (\<lambda>_.
     doM (get_buf b) (\<lambda>d.
     if bdisk d then doM (sleep (ChanBuf b) VdiskLock) (\<lambda>_. returnM (Inl ()))
     else returnM (Inr ()))) ()"

definition virtio_disk_rw :: "nat \<Rightarrow> bool \<Rightarrow> ('x virtio_scheme, unit) M" where
  "virtio_disk_rw b wr =
     doM (get_buf b) (\<lambda>d.
     let sector = ucast (blockno d * of_nat (BSIZE div 512)) in
     doM (acquire VdiskLock) (\<lambda>_.
     doM alloc3_wait (\<lambda>(i0, i1, i2).
     seqM [
       format_request b wr sector i0 i1 i2,
       wrR VIRTIO_MMIO_QUEUE_NOTIFY 0,
       disk_wait b,
       upd_info i0 (\<lambda>r. r\<lparr>vi_b := None\<rparr>),
       free_chain i0,
       release VdiskLock])))"

text \<open>
  The completion interrupt.  The loop runs until the driver's index has reached the
  device's; both are 16 bits wide, so it makes fewer than \<open>2 ^ 16\<close> iterations.
\<close>

definition virtio_disk_intr :: "('x virtio_scheme, unit) M" where
  "virtio_disk_intr =
     doM (acquire VdiskLock) (\<lambda>_.
     doM (rdR VIRTIO_MMIO_INTERRUPT_STATUS) (\<lambda>st.
     doM (wrR VIRTIO_MMIO_INTERRUPT_ACK (st AND 0x3)) (\<lambda>_.
     doM (iterM (2 ^ 16) (\<lambda>_.
       doM (getsM (\<lambda>s. used_idx s \<noteq> used_ring_idx s)) (\<lambda>more.
       if more then
         doM (getsM (\<lambda>s. unat (used_ring s (unat (used_idx s) mod NUM)))) (\<lambda>i.
         doM (getsM (\<lambda>s. vinfo s i)) (\<lambda>r.
         doM (whenM (vi_status r \<noteq> 0) (panic ''virtio_disk_intr status'')) (\<lambda>_.
         case vi_b r of None \<Rightarrow> panic ''kerneltrap''
         | Some b \<Rightarrow>
             doM (upd_buf b (\<lambda>d. d\<lparr>bdisk := False\<rparr>)) (\<lambda>_.
             doM (wakeup (ChanBuf b)) (\<lambda>_.
             doM (modifyM (\<lambda>s. s\<lparr>used_idx := used_idx s + 1\<rparr>)) (\<lambda>_.
             returnM (Inl ())))))))
       else returnM (Inr ()))) ()) (\<lambda>_.
     release VdiskLock))))"

end
