(* ===== verification/File.thy ===== *)
theory File
  imports Virtio
begin

text \<open>
  Pipes, \<^verbatim>\<open>kernel/pipe.c\<close>, and open files, \<^verbatim>\<open>kernel/file.c\<close>.  A pipe lives in a page of the
  memory image and is named by its address; its fields are at the offsets of
  \<open>struct pipe\<close>, after the spinlock, which is \<open>PipeLock pi\<close>.  File \<open>f\<close> of the file table is
  \<open>files s f\<close>.
\<close>

section \<open>State\<close>

datatype ftype = FD_NONE | FD_PIPE | FD_INODE | FD_DEVICE

record filest =
  ftype :: ftype
  fref :: int
  readable :: bool
  writable :: bool
  fpipe :: addr
  fip :: "nat option"
  foff :: "32 word"
  fmajor :: "16 word"

record ft = virtio +
  files :: "nat \<Rightarrow> filest"

definition NFILE :: nat where "NFILE = 100"
definition PIPESIZE :: nat where "PIPESIZE = 512"

text \<open>Offsets in \<open>struct pipe\<close>.\<close>

definition pi_data :: addr where "pi_data = 24"
definition pi_nread :: addr where "pi_nread = 536"
definition pi_nwrite :: addr where "pi_nwrite = 540"
definition pi_readopen :: addr where "pi_readopen = 544"
definition pi_writeopen :: addr where "pi_writeopen = 548"

definition ld32 :: "memory \<Rightarrow> addr \<Rightarrow> 32 word" where
  "ld32 m a = le_word (bytes m a 4)"

definition st32 :: "memory \<Rightarrow> addr \<Rightarrow> 32 word \<Rightarrow> memory" where
  "st32 m a v = put m a (le_bytes 4 v)"

definition load32 :: "addr \<Rightarrow> ('x kmem_scheme, 32 word) M" where
  "load32 a = getsM (\<lambda>s. ld32 (mem s) a)"

definition store32 :: "addr \<Rightarrow> 32 word \<Rightarrow> ('x kmem_scheme, unit) M" where
  "store32 a v = upd_mem (\<lambda>m. st32 m a v)"

definition upd_file :: "nat \<Rightarrow> (filest \<Rightarrow> filest) \<Rightarrow> ('x ft_scheme, unit) M" where
  "upd_file f g = modifyM (\<lambda>s. s\<lparr>files := (files s)(f := g (files s f))\<rparr>)"

definition get_file :: "nat \<Rightarrow> ('x ft_scheme, filest) M" where
  "get_file f = getsM (\<lambda>s. files s f)"

section \<open>Pipes\<close>

definition pipeclose :: "addr \<Rightarrow> bool \<Rightarrow> ('x kmem_scheme, unit) M" where
  "pipeclose pi wr =
     doM (acquire (PipeLock pi)) (\<lambda>_.
     doM (if wr then seqM [store32 (pi + pi_writeopen) 0, wakeup (ChanPipeRead pi)]
          else seqM [store32 (pi + pi_readopen) 0, wakeup (ChanPipeWrite pi)]) (\<lambda>_.
     doM (load32 (pi + pi_readopen)) (\<lambda>ro.
     doM (load32 (pi + pi_writeopen)) (\<lambda>wo.
     if ro = 0 \<and> wo = 0 then seqM [release (PipeLock pi), kfree pi]
     else release (PipeLock pi)))))"

text \<open>An iteration of \<open>pipewrite\<close> either moves a byte or sleeps.\<close>

definition pipewrite :: "addr \<Rightarrow> addr \<Rightarrow> 32 word \<Rightarrow> ('x proc_scheme, int) M" where
  "pipewrite pi a n =
     doM curproc (\<lambda>pr.
     doM (acquire (PipeLock pi)) (\<lambda>_.
     doM (waitM (nat (sint n)) (\<lambda>i.
       if int i < sint n then
         doM (load32 (pi + pi_readopen)) (\<lambda>ro.
         doM (get_proc pr) (\<lambda>q.
         if ro = 0 \<or> killed q then doM (release (PipeLock pi)) (\<lambda>_. returnM (Inr (- 1)))
         else
           doM (load32 (pi + pi_nwrite)) (\<lambda>nw.
           doM (load32 (pi + pi_nread)) (\<lambda>nr.
           if nw = nr + of_nat PIPESIZE then
             doM (wakeup (ChanPipeRead pi)) (\<lambda>_.
             doM (sleep (ChanPipeWrite pi) (PipeLock pi)) (\<lambda>_.
             returnM (Inl i)))
           else
             doM (get_pp pr) (\<lambda>r.
             doM (copyin (pagetable r) (a + of_nat i) 1) (\<lambda>co.
             case co of None \<Rightarrow> returnM (Inr (int i))
             | Some cs \<Rightarrow>
                 doM (store32 (pi + pi_nwrite) (nw + 1)) (\<lambda>_.
                 doM (upd_mem (\<lambda>m. m(pi + pi_data + of_nat (unat nw mod PIPESIZE) := cs ! 0))) (\<lambda>_.
                 returnM (Inl (Suc i))))))))))
       else returnM (Inr (int i))) 0) (\<lambda>r.
     if r = - 1 then returnM (- 1)
     else
       doM (wakeup (ChanPipeRead pi)) (\<lambda>_.
       doM (release (PipeLock pi)) (\<lambda>_.
       returnM r)))))"

text \<open>The wait of \<open>piperead\<close>; \<open>False\<close> means the process was killed.\<close>

definition piperead_wait :: "addr \<Rightarrow> nat \<Rightarrow> ('x kmem_scheme, bool) M" where
  "piperead_wait pi pr = waitM 0 (\<lambda>_.
     doM (load32 (pi + pi_nread)) (\<lambda>nr.
     doM (load32 (pi + pi_nwrite)) (\<lambda>nw.
     doM (load32 (pi + pi_writeopen)) (\<lambda>wo.
     if nr = nw \<and> wo \<noteq> 0 then
       doM (get_proc pr) (\<lambda>q.
       if killed q then doM (release (PipeLock pi)) (\<lambda>_. returnM (Inr False))
       else doM (sleep (ChanPipeRead pi) (PipeLock pi)) (\<lambda>_. returnM (Inl ())))
     else returnM (Inr True))))) ()"

definition piperead :: "addr \<Rightarrow> addr \<Rightarrow> 32 word \<Rightarrow> ('x proc_scheme, int) M" where
  "piperead pi a n =
     doM curproc (\<lambda>pr.
     doM (acquire (PipeLock pi)) (\<lambda>_.
     doM (piperead_wait pi pr) (\<lambda>ok.
     if \<not> ok then returnM (- 1)
     else
       doM (iterM (Suc (nat (sint n))) (\<lambda>i.
         if int i < sint n then
           doM (load32 (pi + pi_nread)) (\<lambda>nr.
           doM (load32 (pi + pi_nwrite)) (\<lambda>nw.
           if nr = nw then returnM (Inr (int i))
           else
             doM (getsM (\<lambda>s. mem s (pi + pi_data + of_nat (unat nr mod PIPESIZE)))) (\<lambda>ch.
             doM (store32 (pi + pi_nread) (nr + 1)) (\<lambda>_.
             doM (get_pp pr) (\<lambda>r.
             doM (copyout (pagetable r) (a + of_nat i) [ch]) (\<lambda>e.
             if e = - 1 then returnM (Inr (int i))
             else returnM (Inl (Suc i))))))))
         else returnM (Inr (int i))) 0) (\<lambda>i.
       doM (wakeup (ChanPipeWrite pi)) (\<lambda>_.
       doM (release (PipeLock pi)) (\<lambda>_.
       returnM i))))))"

section \<open>Files\<close>

definition fileinit :: "('x ft_scheme, unit) M" where
  "fileinit = initlock FtableLock ''ftable''"

definition filealloc :: "('x ft_scheme, nat option) M" where
  "filealloc =
     doM (acquire FtableLock) (\<lambda>_.
     doM (exitM [0..<NFILE] (\<lambda>f.
       doM (get_file f) (\<lambda>d.
       if fref d = 0 then
         doM (upd_file f (\<lambda>d. d\<lparr>fref := 1\<rparr>)) (\<lambda>_.
         doM (release FtableLock) (\<lambda>_.
         returnM (Some f)))
       else returnM None))) (\<lambda>r.
     case r of Some f \<Rightarrow> returnM (Some f)
     | None \<Rightarrow> doM (release FtableLock) (\<lambda>_. returnM None)))"

definition filedup :: "nat \<Rightarrow> ('x ft_scheme, nat) M" where
  "filedup f =
     doM (acquire FtableLock) (\<lambda>_.
     doM (get_file f) (\<lambda>d.
     doM (whenM (fref d < 1) (panic ''filedup'')) (\<lambda>_.
     doM (upd_file f (\<lambda>d. d\<lparr>fref := fref d + 1\<rparr>)) (\<lambda>_.
     doM (release FtableLock) (\<lambda>_.
     returnM f)))))"

text \<open>A null inode pointer is a fault where the code dereferences it.\<close>

definition deref :: "'a option \<Rightarrow> ('s, 'a) M" where
  "deref po = (case po of None \<Rightarrow> panic ''kerneltrap'' | Some p \<Rightarrow> returnM p)"

definition fileclose :: "nat \<Rightarrow> ('x ft_scheme, unit) M" where
  "fileclose f =
     doM (acquire FtableLock) (\<lambda>_.
     doM (get_file f) (\<lambda>d0.
     doM (whenM (fref d0 < 1) (panic ''fileclose'')) (\<lambda>_.
     doM (upd_file f (\<lambda>d. d\<lparr>fref := fref d - 1\<rparr>)) (\<lambda>_.
     doM (get_file f) (\<lambda>ff.
     if fref ff > 0 then release FtableLock
     else
       doM (upd_file f (\<lambda>d. d\<lparr>fref := 0\<rparr>)) (\<lambda>_.
       doM (upd_file f (\<lambda>d. d\<lparr>ftype := FD_NONE\<rparr>)) (\<lambda>_.
       doM (release FtableLock) (\<lambda>_.
       if ftype ff = FD_PIPE then pipeclose (fpipe ff) (writable ff)
       else if ftype ff = FD_INODE \<or> ftype ff = FD_DEVICE then seqM [
         begin_op,
         doM (deref (fip ff)) iput,
         end_op]
       else returnM ()))))))))"

text \<open>The bytes of \<open>struct stat\<close>, with zeros as its padding (C leaves it unspecified).\<close>

definition stat_bytes :: "stat \<Rightarrow> byte list" where
  "stat_bytes st = le_bytes 4 (st_dev st) @ le_bytes 4 (st_ino st) @ le_bytes 2 (st_type st)
     @ le_bytes 2 (st_nlink st) @ replicate 4 0 @ le_bytes 8 (st_size st)"

definition filestat :: "nat \<Rightarrow> addr \<Rightarrow> ('x ft_scheme, int) M" where
  "filestat f a =
     doM curproc (\<lambda>p.
     doM (get_file f) (\<lambda>d.
     if ftype d = FD_INODE \<or> ftype d = FD_DEVICE then
       doM (ilock (fip d)) (\<lambda>_.
       doM (doM (deref (fip d)) stati) (\<lambda>st.
       doM (iunlock (fip d)) (\<lambda>_.
       doM (get_pp p) (\<lambda>q.
       doM (copyout (pagetable q) a (stat_bytes st)) (\<lambda>r.
       if r < 0 then returnM (- 1) else returnM 0)))))
     else returnM (- 1)))"

definition fileread :: "nat \<Rightarrow> addr \<Rightarrow> 32 word \<Rightarrow> ('x ft_scheme, int) M" where
  "fileread f a n =
     doM (get_file f) (\<lambda>d.
     if \<not> readable d then returnM (- 1)
     else case ftype d of
       FD_PIPE \<Rightarrow> piperead (fpipe d) a n
     | FD_DEVICE \<Rightarrow>
         if sint (fmajor d) < 0 \<or> sint (fmajor d) \<ge> int NDEV then returnM (- 1)
         else doM (getsM (\<lambda>s. devsw_read s (unat (fmajor d)))) (\<lambda>h.
           case h of None \<Rightarrow> returnM (- 1)
           | Some Consoleread \<Rightarrow> consoleread (UserLoc a) n)
     | FD_INODE \<Rightarrow>
         doM (ilock (fip d)) (\<lambda>_.
         doM (deref (fip d)) (\<lambda>ip.
         doM (get_file f) (\<lambda>d.
         doM (readi ip (UserLoc a) (foff d) n) (\<lambda>r.
         doM (whenM (r > 0) (upd_file f (\<lambda>d. d\<lparr>foff := foff d + of_int r\<rparr>))) (\<lambda>_.
         doM (iunlock (fip d)) (\<lambda>_.
         returnM r))))))
     | FD_NONE \<Rightarrow> panic ''fileread'')"

text \<open>
  \<open>filewrite\<close> to an inode goes in transactions of at most \<open>WRITE_MAX\<close> bytes, each of at
  least one byte.
\<close>

definition WRITE_MAX :: int where
  "WRITE_MAX = int ((MAXOPBLOCKS - 1 - 1 - 2) div 2 * BSIZE)"

definition filewrite_inode :: "nat \<Rightarrow> addr \<Rightarrow> 32 word \<Rightarrow> ('x ft_scheme, int) M" where
  "filewrite_inode f a n =
     doM (iterM (Suc (nat (sint n))) (\<lambda>i.
       if i < sint n then
         let n1 = min (sint n - i) WRITE_MAX in
         doM begin_op (\<lambda>_.
         doM (get_file f) (\<lambda>d.
         doM (ilock (fip d)) (\<lambda>_.
         doM (deref (fip d)) (\<lambda>ip.
         doM (get_file f) (\<lambda>d.
         doM (writei ip (UserLoc (a + of_int i)) (foff d) (of_int n1)) (\<lambda>r.
         doM (whenM (r > 0) (upd_file f (\<lambda>d. d\<lparr>foff := foff d + of_int r\<rparr>))) (\<lambda>_.
         doM (iunlock (fip d)) (\<lambda>_.
         doM end_op (\<lambda>_.
         if r \<noteq> n1 then returnM (Inr i)
         else returnM (Inl (i + r)))))))))))
       else returnM (Inr i)) 0) (\<lambda>i.
     returnM (if i = sint n then sint n else - 1))"

definition filewrite :: "nat \<Rightarrow> addr \<Rightarrow> 32 word \<Rightarrow> ('x ft_scheme, int) M" where
  "filewrite f a n =
     doM (get_file f) (\<lambda>d.
     if \<not> writable d then returnM (- 1)
     else case ftype d of
       FD_PIPE \<Rightarrow> pipewrite (fpipe d) a n
     | FD_DEVICE \<Rightarrow>
         if sint (fmajor d) < 0 \<or> sint (fmajor d) \<ge> int NDEV then returnM (- 1)
         else doM (getsM (\<lambda>s. devsw_write s (unat (fmajor d)))) (\<lambda>h.
           case h of None \<Rightarrow> returnM (- 1)
           | Some Consolewrite \<Rightarrow> consolewrite (UserLoc a) n)
     | FD_INODE \<Rightarrow> filewrite_inode f a n
     | FD_NONE \<Rightarrow> panic ''filewrite'')"

section \<open>Creation of pipes\<close>

definition pipealloc_bad :: "addr \<Rightarrow> nat option \<Rightarrow> nat option \<Rightarrow> ('x ft_scheme, (nat \<times> nat) option) M" where
  "pipealloc_bad pi f0 f1 =
     doM (whenM (pi \<noteq> 0) (kfree pi)) (\<lambda>_.
     doM (case f0 of None \<Rightarrow> returnM () | Some f \<Rightarrow> fileclose f) (\<lambda>_.
     doM (case f1 of None \<Rightarrow> returnM () | Some f \<Rightarrow> fileclose f) (\<lambda>_.
     returnM None)))"

definition pipealloc :: "('x ft_scheme, (nat \<times> nat) option) M" where
  "pipealloc =
     doM filealloc (\<lambda>f0o.
     case f0o of None \<Rightarrow> pipealloc_bad 0 None None
     | Some f0 \<Rightarrow>
     doM filealloc (\<lambda>f1o.
     case f1o of None \<Rightarrow> pipealloc_bad 0 (Some f0) None
     | Some f1 \<Rightarrow>
     doM kalloc (\<lambda>pi.
     if pi = 0 then pipealloc_bad 0 (Some f0) (Some f1)
     else
       doM (seqM [
         store32 (pi + pi_readopen) 1,
         store32 (pi + pi_writeopen) 1,
         store32 (pi + pi_nwrite) 0,
         store32 (pi + pi_nread) 0,
         initlock (PipeLock pi) ''pipe'',
         upd_file f0 (\<lambda>d. d\<lparr>ftype := FD_PIPE\<rparr>),
         upd_file f0 (\<lambda>d. d\<lparr>readable := True\<rparr>),
         upd_file f0 (\<lambda>d. d\<lparr>writable := False\<rparr>),
         upd_file f0 (\<lambda>d. d\<lparr>fpipe := pi\<rparr>),
         upd_file f1 (\<lambda>d. d\<lparr>ftype := FD_PIPE\<rparr>),
         upd_file f1 (\<lambda>d. d\<lparr>readable := False\<rparr>),
         upd_file f1 (\<lambda>d. d\<lparr>writable := True\<rparr>),
         upd_file f1 (\<lambda>d. d\<lparr>fpipe := pi\<rparr>)]) (\<lambda>_.
       returnM (Some (f0, f1))))))"

end
