(* ===== verification/Proc.thy ===== *)
theory Proc
  imports File
begin

text \<open>
  The life cycle of processes in \<^verbatim>\<open>kernel/proc.c\<close>: the first process, \<open>fork\<close>, \<open>exit\<close> and
  \<open>wait\<close>.  The fields of a trapframe are words of the trapframe page.
\<close>

section \<open>Operations\<close>

definition initcode :: "byte list" where
  "initcode = [
     0x17, 0x05, 0x00, 0x00, 0x13, 0x05, 0x45, 0x02,
     0x97, 0x05, 0x00, 0x00, 0x93, 0x85, 0x35, 0x02,
     0x93, 0x08, 0x70, 0x00, 0x73, 0x00, 0x00, 0x00,
     0x93, 0x08, 0x20, 0x00, 0x73, 0x00, 0x00, 0x00,
     0xef, 0xf0, 0x9f, 0xff, 0x2f, 0x69, 0x6e, 0x69,
     0x74, 0x00, 0x00, 0x24, 0x00, 0x00, 0x00, 0x00,
     0x00, 0x00, 0x00, 0x00]"

text \<open>\<open>p->name\<close> has 16 bytes; it is always set by \<open>safestrcpy\<close>.\<close>

definition PNAME_SIZE :: nat where "PNAME_SIZE = 16"

definition copy_name :: "byte list \<Rightarrow> byte list \<Rightarrow> byte list" where
  "copy_name old new = bytes (safestrcpy (two_bufs old (new @ [0])) 0 0x1000 (int PNAME_SIZE)) 0 PNAME_SIZE"

text \<open>Fields of the trapframe of process \<open>p\<close>.\<close>

definition set_tf :: "nat \<Rightarrow> addr \<Rightarrow> 64 word \<Rightarrow> ('x proc_scheme, unit) M" where
  "set_tf p off v = doM (get_pp p) (\<lambda>q. doM (nonnull (trapframe q)) (\<lambda>_. store64 (trapframe q + off) v))"

definition get_tf :: "nat \<Rightarrow> addr \<Rightarrow> ('x proc_scheme, 64 word) M" where
  "get_tf p off = doM (get_pp p) (\<lambda>q. doM (nonnull (trapframe q)) (\<lambda>_. load64 (trapframe q + off)))"

definition userinit :: "('x ft_scheme, unit) M" where
  "userinit =
     doM allocproc (\<lambda>po.
     doM (modifyM (\<lambda>s. s\<lparr>initproc := po\<rparr>)) (\<lambda>_.
     doM (deref po) (\<lambda>p.
     doM (get_pp p) (\<lambda>q.
     doM (uvminit (pagetable q) initcode) (\<lambda>_.
     doM (upd_pp p (\<lambda>q. q\<lparr>psz := PGSIZE\<rparr>)) (\<lambda>_.
     doM (set_tf p TF_epc 0) (\<lambda>_.
     doM (set_tf p TF_sp PGSIZE) (\<lambda>_.
     doM (upd_pp p (\<lambda>q. q\<lparr>pname := copy_name (pname q) (ascii ''initcode'')\<rparr>)) (\<lambda>_.
     doM (namei [SLASH]) (\<lambda>ip.
     doM (upd_pp p (\<lambda>q. q\<lparr>cwd := ip\<rparr>)) (\<lambda>_.
     doM (upd_proc p (\<lambda>q. q\<lparr>pstate := RUNNABLE\<rparr>)) (\<lambda>_.
     release (ProcLock p)))))))))))))"

definition fork_files :: "nat \<Rightarrow> nat \<Rightarrow> ('x ft_scheme, unit) M" where
  "fork_files p np = forM [0..<NOFILE] (\<lambda>i.
     doM (get_pp p) (\<lambda>q. case ofile q i of None \<Rightarrow> returnM ()
       | Some f \<Rightarrow> doM (filedup f) (\<lambda>f'. upd_pp np (\<lambda>r. r\<lparr>ofile := (ofile r)(i := Some f')\<rparr>))))"

definition fork :: "('x ft_scheme, int) M" where
  "fork =
     doM curproc (\<lambda>p.
     doM allocproc (\<lambda>npo.
     case npo of None \<Rightarrow> returnM (- 1)
     | Some np \<Rightarrow>
       doM (get_pp p) (\<lambda>q.
       doM (get_pp np) (\<lambda>r.
       doM (uvmcopy (pagetable q) (pagetable r) (psz q)) (\<lambda>e.
       if e < 0 then
         doM (freeproc np) (\<lambda>_.
         doM (release (ProcLock np)) (\<lambda>_.
         returnM (- 1)))
       else
         doM (seqM [
           upd_pp np (\<lambda>r. r\<lparr>psz := psz q\<rparr>),
           upd_mem (\<lambda>m. put m (trapframe r) (bytes m (trapframe q) TF_size)),
           set_tf np (TF_a 0) 0,
           fork_files p np,
           doM (deref (cwd q)) (\<lambda>ip. doM (idup ip) (\<lambda>ip'. upd_pp np (\<lambda>r. r\<lparr>cwd := Some ip'\<rparr>))),
           upd_pp np (\<lambda>r. r\<lparr>pname := copy_name (pname r) (pname q)\<rparr>)]) (\<lambda>_.
         doM (get_proc np) (\<lambda>nq.
         doM (seqM [
           release (ProcLock np),
           acquire WaitLock,
           upd_proc np (\<lambda>r. r\<lparr>parent := Some p\<rparr>),
           release WaitLock,
           acquire (ProcLock np),
           upd_proc np (\<lambda>r. r\<lparr>pstate := RUNNABLE\<rparr>),
           release (ProcLock np)]) (\<lambda>_.
         returnM (pid nq)))))))))"

definition exit_files :: "nat \<Rightarrow> ('x ft_scheme, unit) M" where
  "exit_files p = forM [0..<NOFILE] (\<lambda>fd.
     doM (get_pp p) (\<lambda>q. case ofile q fd of None \<Rightarrow> returnM ()
       | Some f \<Rightarrow> doM (fileclose f) (\<lambda>_. upd_pp p (\<lambda>q. q\<lparr>ofile := (ofile q)(fd := None)\<rparr>))))"

definition exit :: "32 word \<Rightarrow> ('x ft_scheme, unit) M" where
  "exit status =
     doM curproc (\<lambda>p.
     doM (getsM initproc) (\<lambda>ip.
     seqM [
       whenM (Some p = ip) (panic ''init exiting''),
       exit_files p,
       begin_op,
       doM (get_pp p) (\<lambda>q. doM (deref (cwd q)) iput),
       end_op,
       upd_pp p (\<lambda>q. q\<lparr>cwd := None\<rparr>),
       acquire WaitLock,
       reparent p,
       doM (get_proc p) (\<lambda>q. case parent q of None \<Rightarrow> returnM () | Some par \<Rightarrow> wakeup (ChanProc par)),
       acquire (ProcLock p),
       upd_proc p (\<lambda>q. q\<lparr>xstate := status\<rparr>),
       upd_proc p (\<lambda>q. q\<lparr>pstate := ZOMBIE\<rparr>),
       release WaitLock,
       sched,
       panic ''zombie exit'']))"

text \<open>
  One scan of the process table by \<open>wait\<close>: \<open>Inl r\<close> if \<open>wait\<close> returns \<open>r\<close>, else \<open>Inr\<close> with
  whether there are children.
\<close>

definition wait_scan :: "nat \<Rightarrow> addr \<Rightarrow> ('x proc_scheme, int + bool) M" where
  "wait_scan p a = iterM (Suc NPROC) (\<lambda>(np, havekids).
     if np < NPROC then
       doM (get_proc np) (\<lambda>q0.
       if parent q0 = Some p then
         doM (acquire (ProcLock np)) (\<lambda>_.
         doM (get_proc np) (\<lambda>q.
         if pstate q = ZOMBIE then
           doM (if a \<noteq> 0 then doM (get_pp p) (\<lambda>r. copyout (pagetable r) a (le_bytes 4 (xstate q)))
                else returnM 0) (\<lambda>e.
           if e < 0 then
             doM (release (ProcLock np)) (\<lambda>_.
             doM (release WaitLock) (\<lambda>_.
             returnM (Inr (Inl (- 1)))))
           else
             doM (freeproc np) (\<lambda>_.
             doM (release (ProcLock np)) (\<lambda>_.
             doM (release WaitLock) (\<lambda>_.
             returnM (Inr (Inl (pid q)))))))
         else
           doM (release (ProcLock np)) (\<lambda>_.
           returnM (Inl (Suc np, True)))))
       else returnM (Inl (Suc np, havekids)))
     else returnM (Inr (Inr havekids))) (0, False)"

definition wait :: "addr \<Rightarrow> ('x proc_scheme, int) M" where
  "wait a =
     doM curproc (\<lambda>p.
     doM (acquire WaitLock) (\<lambda>_.
     waitM 0 (\<lambda>_.
       doM (wait_scan p a) (\<lambda>r.
       case r of Inl x \<Rightarrow> returnM (Inr x)
       | Inr havekids \<Rightarrow>
           doM (get_proc p) (\<lambda>q.
           if \<not> havekids \<or> killed q then doM (release WaitLock) (\<lambda>_. returnM (Inr (- 1)))
           else doM (sleep (ChanProc p) WaitLock) (\<lambda>_. returnM (Inl ()))))) ()))"

end
