(* ===== verification/Exec.thy ===== *)
theory Exec
  imports Proc
begin

text \<open>
  System-call arguments, \<^verbatim>\<open>kernel/syscall.c\<close>, and program loading, \<^verbatim>\<open>kernel/exec.c\<close> over
  the ELF structures of \<^verbatim>\<open>kernel/elf.h\<close>.
\<close>

section \<open>System-call arguments\<close>

definition fetchaddr :: "addr \<Rightarrow> ('x proc_scheme, 64 word option) M" where
  "fetchaddr a =
     doM curproc (\<lambda>p.
     doM (get_pp p) (\<lambda>q.
     if a \<ge> psz q \<or> a + 8 > psz q then returnM None
     else doM (copyin (pagetable q) a 8) (\<lambda>r. returnM (map_option le_word r))))"

text \<open>The bytes copied, with the terminating zero; the length \<open>fetchstr\<close> returns is one less.\<close>

definition fetchstr :: "addr \<Rightarrow> nat \<Rightarrow> ('x proc_scheme, byte list option) M" where
  "fetchstr a mx =
     doM curproc (\<lambda>p.
     doM (get_pp p) (\<lambda>q.
     copyinstr (pagetable q) a mx))"

definition argraw :: "nat \<Rightarrow> ('x proc_scheme, 64 word) M" where
  "argraw n =
     doM curproc (\<lambda>p.
     if n \<le> 5 then get_tf p (TF_a n)
     else panic ''argraw'')"

text \<open>\<open>argint\<close> and \<open>argaddr\<close> always succeed.\<close>

definition argint :: "nat \<Rightarrow> ('x proc_scheme, 32 word) M" where
  "argint n = doM (argraw n) (\<lambda>v. returnM (ucast v))"

definition argaddr :: "nat \<Rightarrow> ('x proc_scheme, addr) M" where
  "argaddr n = argraw n"

text \<open>The string read by \<open>argstr\<close>, without its terminating zero.\<close>

definition argstr :: "nat \<Rightarrow> nat \<Rightarrow> ('x proc_scheme, byte list option) M" where
  "argstr n mx =
     doM (argaddr n) (\<lambda>a.
     doM (fetchstr a mx) (\<lambda>r.
     returnM (map_option butlast r)))"

section \<open>ELF files\<close>

definition ELF_MAGIC :: "32 word" where "ELF_MAGIC = 0x464C457F"
definition ELF_PROG_LOAD :: "32 word" where "ELF_PROG_LOAD = 1"
definition MAXARG :: nat where "MAXARG = 32"

definition rd64 :: "byte list \<Rightarrow> nat \<Rightarrow> 64 word" where
  "rd64 bs off = le_word (slice bs off 8)"

record elfhdr =
  e_magic :: "32 word"
  e_entry :: "64 word"
  e_phoff :: "64 word"
  e_phnum :: "16 word"

record proghdr =
  ph_type :: "32 word"
  ph_off :: "64 word"
  ph_vaddr :: "64 word"
  ph_filesz :: "64 word"
  ph_memsz :: "64 word"

definition sizeof_elfhdr :: nat where "sizeof_elfhdr = 64"
definition sizeof_proghdr :: nat where "sizeof_proghdr = 56"

text \<open>The fields \<open>exec\<close> uses, at their offsets.\<close>

definition get_elfhdr :: "byte list \<Rightarrow> elfhdr" where
  "get_elfhdr bs = \<lparr>e_magic = rd32 bs 0, e_entry = rd64 bs 24, e_phoff = rd64 bs 32, e_phnum = rd16 bs 56\<rparr>"

definition get_proghdr :: "byte list \<Rightarrow> proghdr" where
  "get_proghdr bs = \<lparr>ph_type = rd32 bs 0, ph_off = rd64 bs 8, ph_vaddr = rd64 bs 16,
     ph_filesz = rd64 bs 32, ph_memsz = rd64 bs 40\<rparr>"

text \<open>Read a structure of \<open>n\<close> bytes into a local variable; \<open>None\<close> on a short read.\<close>

definition read_struct :: "nat \<Rightarrow> 32 word \<Rightarrow> nat \<Rightarrow> ('x fs_scheme, byte list option) M" where
  "read_struct ip off n =
     doM curproc (\<lambda>p.
     doM (upd_pp p (\<lambda>q. q\<lparr>kbuf := replicate n 0\<rparr>)) (\<lambda>_.
     doM (readi ip (StackLoc 0) off (of_nat n)) (\<lambda>r.
     doM (get_pp p) (\<lambda>q.
     returnM (if r = int n then Some (kbuf q) else None)))))"

section \<open>Program loading\<close>

text \<open>\<open>i\<close>, \<open>n\<close> and \<open>sz\<close> of \<open>loadseg\<close> are \<open>uint\<close>; every iteration covers a page of \<open>sz\<close>.\<close>

definition loadseg :: "addr \<Rightarrow> addr \<Rightarrow> nat \<Rightarrow> 32 word \<Rightarrow> 32 word \<Rightarrow> ('x fs_scheme, int) M" where
  "loadseg pt va ip offset sz =
     iterM (Suc (unat sz)) (\<lambda>i.
       if i < sz then
         doM (walkaddr pt (va + ucast i)) (\<lambda>pa.
         doM (whenM (pa = 0) (panic ''loadseg: address should exist'')) (\<lambda>_.
         let n = (if sz - i < ucast PGSIZE then sz - i else ucast PGSIZE) in
         doM (readi ip (KernLoc pa) (offset + i) n) (\<lambda>r.
         if r \<noteq> sint n then returnM (Inr (- 1))
         else returnM (Inl (i + ucast PGSIZE)))))
       else returnM (Inr 0)) 0"

text \<open>The code after the label \<open>bad\<close>.\<close>

definition exec_bad :: "addr \<Rightarrow> addr \<Rightarrow> nat option \<Rightarrow> ('x fs_scheme, int) M" where
  "exec_bad pt sz ipo =
     doM (whenM (pt \<noteq> 0) (proc_freepagetable pt sz)) (\<lambda>_.
     doM (case ipo of None \<Rightarrow> returnM () | Some ip \<Rightarrow> seqM [iunlockput ip, end_op]) (\<lambda>_.
     returnM (- 1)))"

text \<open>
  The loop over the program headers: the new size, and whether the loop ended without
  jumping to \<open>bad\<close>.
\<close>

definition exec_load :: "addr \<Rightarrow> nat \<Rightarrow> elfhdr \<Rightarrow> ('x fs_scheme, addr \<times> bool) M" where
  "exec_load pt ip elf =
     iterM (Suc (unat (e_phnum elf))) (\<lambda>(i, off, sz).
       if i < unat (e_phnum elf) then
         doM (read_struct ip off sizeof_proghdr) (\<lambda>r.
         case r of None \<Rightarrow> returnM (Inr (sz, False))
         | Some bs \<Rightarrow>
             let ph = get_proghdr bs; next = (Suc i, off + of_nat sizeof_proghdr) in
             if ph_type ph \<noteq> ELF_PROG_LOAD then returnM (Inl (fst next, snd next, sz))
             else if ph_memsz ph < ph_filesz ph then returnM (Inr (sz, False))
             else if ph_vaddr ph + ph_memsz ph < ph_vaddr ph then returnM (Inr (sz, False))
             else
               doM (uvmalloc pt sz (ph_vaddr ph + ph_memsz ph)) (\<lambda>sz1.
               if sz1 = 0 then returnM (Inr (sz, False))
               else if ph_vaddr ph mod PGSIZE \<noteq> 0 then returnM (Inr (sz1, False))
               else
                 doM (loadseg pt (ph_vaddr ph) ip (ucast (ph_off ph)) (ucast (ph_filesz ph))) (\<lambda>e.
                 if e < 0 then returnM (Inr (sz1, False))
                 else returnM (Inl (fst next, snd next, sz1)))))
       else returnM (Inr (sz, True))) (0, ucast (e_phoff elf), 0)"

text \<open>
  The loop that pushes the argument strings.  The arguments are the non-null pointers of
  \<open>argv\<close>; the result is the stack pointer and the contents of \<open>ustack\<close>, or \<open>None\<close> for a
  jump to \<open>bad\<close>.
\<close>

definition exec_args :: "addr \<Rightarrow> addr \<Rightarrow> addr \<Rightarrow> addr list \<Rightarrow> ('x kmem_scheme, (addr \<times> addr list) option) M" where
  "exec_args pt sp0 stackbase argv =
     iterM (Suc (length argv)) (\<lambda>(sp, ustack).
       if length ustack < length argv then
         if length ustack \<ge> MAXARG then returnM (Inr None)
         else
           let arg = argv ! length ustack in
           doM (getsM (\<lambda>s. strlen (mem s) arg)) (\<lambda>lo.
           case lo of None \<Rightarrow> (\<lambda>s es. Stuck s)
           | Some l \<Rightarrow>
               let sp1 = sp - of_nat (l + 1); sp2 = sp1 - sp1 mod 16 in
               if sp2 < stackbase then returnM (Inr None)
               else
                 doM (getsM (\<lambda>s. bytes (mem s) arg (l + 1))) (\<lambda>bs.
                 doM (copyout pt sp2 bs) (\<lambda>e.
                 if e < 0 then returnM (Inr None)
                 else returnM (Inl (sp2, ustack @ [sp2])))))
       else returnM (Inr (Some (sp, ustack @ [0])))) (sp0, [])"

text \<open>The last element of the path, the program's name.\<close>

definition last_elem :: "byte list \<Rightarrow> byte list" where
  "last_elem path = rev (takeWhile (\<lambda>c. c \<noteq> SLASH) (rev path))"

text \<open>From the release of the inode to the switch to the new image.\<close>

definition exec_commit :: "nat \<Rightarrow> byte list \<Rightarrow> addr list \<Rightarrow> elfhdr \<Rightarrow> addr \<Rightarrow> addr \<Rightarrow> ('x fs_scheme, int) M" where
  "exec_commit p path argv elf pt sz0 =
     doM (get_pp p) (\<lambda>q0.
     let sz = PGROUNDUP sz0 in
     doM (uvmalloc pt sz (sz + 2 * PGSIZE)) (\<lambda>sz1.
     if sz1 = 0 then exec_bad pt sz None
     else
       doM (uvmclear pt (sz1 - 2 * PGSIZE)) (\<lambda>_.
       doM (exec_args pt sz1 (sz1 - PGSIZE) argv) (\<lambda>r.
       case r of None \<Rightarrow> exec_bad pt sz1 None
       | Some (sp, ustack) \<Rightarrow>
           let sp1 = sp - of_nat (length ustack) * 8; sp2 = sp1 - sp1 mod 16 in
           if sp2 < sz1 - PGSIZE then exec_bad pt sz1 None
           else
             doM (copyout pt sp2 (concat (map (le_bytes 8) ustack))) (\<lambda>e.
             if e < 0 then exec_bad pt sz1 None
             else
               doM (seqM [
                 set_tf p (TF_a 1) sp2,
                 upd_pp p (\<lambda>q. q\<lparr>pname := copy_name (pname q) (last_elem path)\<rparr>),
                 upd_pp p (\<lambda>q. q\<lparr>pagetable := pt\<rparr>),
                 upd_pp p (\<lambda>q. q\<lparr>psz := sz1\<rparr>),
                 set_tf p TF_epc (e_entry elf),
                 set_tf p TF_sp sp2,
                 proc_freepagetable (pagetable q0) (psz q0)]) (\<lambda>_.
               returnM (int (length argv))))))))"

definition exec :: "byte list \<Rightarrow> addr list \<Rightarrow> ('x fs_scheme, int) M" where
  "exec path argv =
     doM curproc (\<lambda>p.
     doM begin_op (\<lambda>_.
     doM (namei path) (\<lambda>ipo.
     case ipo of None \<Rightarrow> doM end_op (\<lambda>_. returnM (- 1))
     | Some ip \<Rightarrow>
       doM (ilock (Some ip)) (\<lambda>_.
       doM (read_struct ip 0 sizeof_elfhdr) (\<lambda>r.
       case r of None \<Rightarrow> exec_bad 0 0 (Some ip)
       | Some bs \<Rightarrow>
         let elf = get_elfhdr bs in
         if e_magic elf \<noteq> ELF_MAGIC then exec_bad 0 0 (Some ip)
         else
           doM (proc_pagetable p) (\<lambda>pt.
           if pt = 0 then exec_bad 0 0 (Some ip)
           else
             doM (exec_load pt ip elf) (\<lambda>(sz, ok).
             if \<not> ok then exec_bad pt sz (Some ip)
             else
               doM (iunlockput ip) (\<lambda>_.
               doM end_op (\<lambda>_.
               exec_commit p path argv elf pt sz)))))))))"

end
