(* ===== verification/Sysfile.thy ===== *)
theory Sysfile
  imports Exec
begin

text \<open>
  The file-system calls, \<^verbatim>\<open>kernel/sysfile.c\<close>.  A call returns an \<open>int\<close>, which is
  sign-extended into register \<open>a0\<close>.
\<close>

section \<open>Descriptors\<close>

definition MAXPATH :: nat where "MAXPATH = 128"
definition O_RDONLY :: "32 word" where "O_RDONLY = 0x000"
definition O_WRONLY :: "32 word" where "O_WRONLY = 0x001"
definition O_RDWR :: "32 word" where "O_RDWR = 0x002"
definition O_CREATE :: "32 word" where "O_CREATE = 0x200"
definition O_TRUNC :: "32 word" where "O_TRUNC = 0x400"

definition argfd :: "nat \<Rightarrow> ('x ft_scheme, (nat \<times> nat) option) M" where
  "argfd n =
     doM (argint n) (\<lambda>fd.
     if sint fd < 0 \<or> sint fd \<ge> int NOFILE then returnM None
     else
       doM curproc (\<lambda>p.
       doM (get_pp p) (\<lambda>q.
       returnM (map_option (\<lambda>f. (unat fd, f)) (ofile q (unat fd))))))"

definition fdalloc :: "nat \<Rightarrow> ('x proc_scheme, nat option) M" where
  "fdalloc f =
     doM curproc (\<lambda>p.
     exitM [0..<NOFILE] (\<lambda>fd.
       doM (get_pp p) (\<lambda>q.
       if ofile q fd = None then
         doM (upd_pp p (\<lambda>q. q\<lparr>ofile := (ofile q)(fd := Some f)\<rparr>)) (\<lambda>_. returnM (Some fd))
       else returnM None)))"

definition sys_dup :: "('x ft_scheme, int) M" where
  "sys_dup =
     doM (argfd 0) (\<lambda>r.
     case r of None \<Rightarrow> returnM (- 1)
     | Some (_, f) \<Rightarrow>
         doM (fdalloc f) (\<lambda>fdo.
         case fdo of None \<Rightarrow> returnM (- 1)
         | Some fd \<Rightarrow> doM (filedup f) (\<lambda>_. returnM (int fd))))"

definition sys_read :: "('x ft_scheme, int) M" where
  "sys_read =
     doM (argfd 0) (\<lambda>r.
     case r of None \<Rightarrow> returnM (- 1)
     | Some (_, f) \<Rightarrow>
         doM (argint 2) (\<lambda>n.
         doM (argaddr 1) (\<lambda>p.
         fileread f p n)))"

definition sys_write :: "('x ft_scheme, int) M" where
  "sys_write =
     doM (argfd 0) (\<lambda>r.
     case r of None \<Rightarrow> returnM (- 1)
     | Some (_, f) \<Rightarrow>
         doM (argint 2) (\<lambda>n.
         doM (argaddr 1) (\<lambda>p.
         filewrite f p n)))"

definition sys_close :: "('x ft_scheme, int) M" where
  "sys_close =
     doM (argfd 0) (\<lambda>r.
     case r of None \<Rightarrow> returnM (- 1)
     | Some (fd, f) \<Rightarrow>
         doM curproc (\<lambda>p.
         doM (upd_pp p (\<lambda>q. q\<lparr>ofile := (ofile q)(fd := None)\<rparr>)) (\<lambda>_.
         doM (fileclose f) (\<lambda>_.
         returnM 0))))"

definition sys_fstat :: "('x ft_scheme, int) M" where
  "sys_fstat =
     doM (argfd 0) (\<lambda>r.
     case r of None \<Rightarrow> returnM (- 1)
     | Some (_, f) \<Rightarrow> doM (argaddr 1) (\<lambda>st. filestat f st))"

section \<open>Links\<close>

definition end_return :: "int \<Rightarrow> ('x logs_scheme, int) M" where
  "end_return r = doM end_op (\<lambda>_. returnM r)"

text \<open>The code after the label \<open>bad\<close> of \<open>sys_link\<close>.\<close>

definition link_bad :: "nat \<Rightarrow> ('x fs_scheme, int) M" where
  "link_bad ip = doM (seqM [
     ilock (Some ip),
     upd_inode ip (\<lambda>d. d\<lparr>nlink := nlink d - 1\<rparr>),
     iupdate ip,
     iunlockput ip]) (\<lambda>_. end_return (- 1))"

definition sys_link :: "('x fs_scheme, int) M" where
  "sys_link =
     doM (argstr 0 MAXPATH) (\<lambda>oldo.
     case oldo of None \<Rightarrow> returnM (- 1)
     | Some old \<Rightarrow>
     doM (argstr 1 MAXPATH) (\<lambda>newo.
     case newo of None \<Rightarrow> returnM (- 1)
     | Some new \<Rightarrow>
     doM begin_op (\<lambda>_.
     doM (namei old) (\<lambda>ipo.
     case ipo of None \<Rightarrow> end_return (- 1)
     | Some ip \<Rightarrow>
     doM (ilock (Some ip)) (\<lambda>_.
     doM (get_inode ip) (\<lambda>d.
     if itype d = T_DIR then doM (iunlockput ip) (\<lambda>_. end_return (- 1))
     else
       doM (seqM [
         upd_inode ip (\<lambda>d. d\<lparr>nlink := nlink d + 1\<rparr>),
         iupdate ip,
         iunlock (Some ip)]) (\<lambda>_.
       doM (nameiparent new (replicate DIRSIZ 0)) (\<lambda>dpo.
       case dpo of None \<Rightarrow> link_bad ip
       | Some (dp, name) \<Rightarrow>
       doM (ilock (Some dp)) (\<lambda>_.
       doM (get_inode dp) (\<lambda>dd.
       doM (get_inode ip) (\<lambda>di.
       doM (if idev dd \<noteq> idev di then returnM (- 1) else dirlink dp name (inum di)) (\<lambda>r.
       if r < 0 then doM (iunlockput dp) (\<lambda>_. link_bad ip)
       else
         doM (iunlockput dp) (\<lambda>_.
         doM (iput ip) (\<lambda>_.
         end_return 0))))))))))))))"

definition isdirempty :: "nat \<Rightarrow> ('x fs_scheme, bool) M" where
  "isdirempty dp =
     doM (get_inode dp) (\<lambda>d.
     iterM (Suc (unat (isize d))) (\<lambda>off.
       if off < isize d then
         doM (read_dirent dp off ''isdirempty: readi'') (\<lambda>de.
         if de_inum de \<noteq> 0 then returnM (Inr False)
         else returnM (Inl (off + of_nat sizeof_dirent)))
       else returnM (Inr True)) (of_nat (2 * sizeof_dirent)))"

text \<open>The code after the label \<open>bad\<close> of \<open>sys_unlink\<close>.\<close>

definition unlink_bad :: "nat \<Rightarrow> ('x fs_scheme, int) M" where
  "unlink_bad dp = doM (iunlockput dp) (\<lambda>_. end_return (- 1))"

definition sys_unlink :: "('x fs_scheme, int) M" where
  "sys_unlink =
     doM (argstr 0 MAXPATH) (\<lambda>po.
     case po of None \<Rightarrow> returnM (- 1)
     | Some path \<Rightarrow>
     doM begin_op (\<lambda>_.
     doM (nameiparent path (replicate DIRSIZ 0)) (\<lambda>dpo.
     case dpo of None \<Rightarrow> end_return (- 1)
     | Some (dp, name) \<Rightarrow>
     doM (ilock (Some dp)) (\<lambda>_.
     if namecmp name (ascii ''.'') = 0 \<or> namecmp name (ascii ''..'') = 0 then unlink_bad dp
     else
       doM (dirlookup dp name) (\<lambda>r.
       case r of None \<Rightarrow> unlink_bad dp
       | Some (ip, off) \<Rightarrow>
       doM (ilock (Some ip)) (\<lambda>_.
       doM (get_inode ip) (\<lambda>d.
       doM (whenM (sint (nlink d) < 1) (panic ''unlink: nlink < 1'')) (\<lambda>_.
       doM (if itype d = T_DIR then isdirempty ip else returnM True) (\<lambda>ok.
       if \<not> ok then doM (iunlockput ip) (\<lambda>_. unlink_bad dp)
       else
         doM curproc (\<lambda>p.
         doM (upd_pp p (\<lambda>q. q\<lparr>kbuf := replicate sizeof_dirent 0\<rparr>)) (\<lambda>_.
         doM (writei dp (StackLoc 0) off (of_nat sizeof_dirent)) (\<lambda>w.
         doM (seqM [
           whenM (w \<noteq> int sizeof_dirent) (panic ''unlink: writei''),
           doM (get_inode ip) (\<lambda>d. whenM (itype d = T_DIR) (seqM [
             upd_inode dp (\<lambda>d. d\<lparr>nlink := nlink d - 1\<rparr>),
             iupdate dp])),
           iunlockput dp,
           upd_inode ip (\<lambda>d. d\<lparr>nlink := nlink d - 1\<rparr>),
           iupdate ip,
           iunlockput ip]) (\<lambda>_.
         end_return 0)))))))))))))"

section \<open>Creation and opening\<close>

definition create :: "byte list \<Rightarrow> 16 word \<Rightarrow> 16 word \<Rightarrow> 16 word \<Rightarrow> ('x fs_scheme, nat option) M" where
  "create path type maj mnr =
     doM (nameiparent path (replicate DIRSIZ 0)) (\<lambda>dpo.
     case dpo of None \<Rightarrow> returnM None
     | Some (dp, name) \<Rightarrow>
     doM (ilock (Some dp)) (\<lambda>_.
     doM (dirlookup dp name) (\<lambda>r.
     case r of Some (ip, _) \<Rightarrow>
       doM (iunlockput dp) (\<lambda>_.
       doM (ilock (Some ip)) (\<lambda>_.
       doM (get_inode ip) (\<lambda>d.
       if type = T_FILE \<and> (itype d = T_FILE \<or> itype d = T_DEVICE) then returnM (Some ip)
       else doM (iunlockput ip) (\<lambda>_. returnM None))))
     | None \<Rightarrow>
       doM (get_inode dp) (\<lambda>dd.
       doM (ialloc (idev dd) type) (\<lambda>ip.
       doM (seqM [
         ilock (Some ip),
         upd_inode ip (\<lambda>d. d\<lparr>imajor := maj\<rparr>),
         upd_inode ip (\<lambda>d. d\<lparr>iminor := mnr\<rparr>),
         upd_inode ip (\<lambda>d. d\<lparr>nlink := 1\<rparr>),
         iupdate ip,
         whenM (type = T_DIR) (seqM [
           upd_inode dp (\<lambda>d. d\<lparr>nlink := nlink d + 1\<rparr>),
           iupdate dp,
           doM (get_inode ip) (\<lambda>di.
           doM (dirlink ip (ascii ''.'') (inum di)) (\<lambda>r1.
           doM (if r1 < 0 then returnM r1
                else doM (get_inode dp) (\<lambda>dd. dirlink ip (ascii ''..'') (inum dd))) (\<lambda>r2.
           whenM (r2 < 0) (panic ''create dots''))))]),
         doM (get_inode ip) (\<lambda>di.
         doM (dirlink dp name (inum di)) (\<lambda>r.
         whenM (r < 0) (panic ''create: dirlink''))),
         iunlockput dp]) (\<lambda>_.
       returnM (Some ip)))))))"

text \<open>The inode to open, locked.\<close>

definition open_inode :: "byte list \<Rightarrow> 32 word \<Rightarrow> ('x fs_scheme, nat option) M" where
  "open_inode path omode =
     (if omode AND O_CREATE \<noteq> 0 then create path T_FILE 0 0
      else
        doM (namei path) (\<lambda>ipo.
        case ipo of None \<Rightarrow> returnM None
        | Some ip \<Rightarrow>
            doM (ilock (Some ip)) (\<lambda>_.
            doM (get_inode ip) (\<lambda>d.
            if itype d = T_DIR \<and> omode \<noteq> O_RDONLY then
              doM (iunlockput ip) (\<lambda>_. returnM None)
            else returnM (Some ip)))))"

definition sys_open :: "('x ft_scheme, int) M" where
  "sys_open =
     doM (argstr 0 MAXPATH) (\<lambda>po.
     case po of None \<Rightarrow> returnM (- 1)
     | Some path \<Rightarrow>
     doM (argint 1) (\<lambda>omode.
     doM begin_op (\<lambda>_.
     doM (open_inode path omode) (\<lambda>ipo.
     case ipo of None \<Rightarrow> end_return (- 1)
     | Some ip \<Rightarrow>
     doM (get_inode ip) (\<lambda>d.
     if itype d = T_DEVICE \<and> (sint (imajor d) < 0 \<or> sint (imajor d) \<ge> int NDEV) then
       doM (iunlockput ip) (\<lambda>_. end_return (- 1))
     else
       doM filealloc (\<lambda>fo.
       case fo of None \<Rightarrow> doM (iunlockput ip) (\<lambda>_. end_return (- 1))
       | Some f \<Rightarrow>
       doM (fdalloc f) (\<lambda>fdo.
       case fdo of None \<Rightarrow>
         doM (fileclose f) (\<lambda>_.
         doM (iunlockput ip) (\<lambda>_.
         end_return (- 1)))
       | Some fd \<Rightarrow>
         doM (seqM [
           (if itype d = T_DEVICE then seqM [
              upd_file f (\<lambda>g. g\<lparr>ftype := FD_DEVICE\<rparr>),
              upd_file f (\<lambda>g. g\<lparr>fmajor := imajor d\<rparr>)]
            else seqM [
              upd_file f (\<lambda>g. g\<lparr>ftype := FD_INODE\<rparr>),
              upd_file f (\<lambda>g. g\<lparr>foff := 0\<rparr>)]),
           upd_file f (\<lambda>g. g\<lparr>fip := Some ip\<rparr>),
           upd_file f (\<lambda>g. g\<lparr>readable := (omode AND O_WRONLY = 0)\<rparr>),
           upd_file f (\<lambda>g. g\<lparr>writable := (omode AND O_WRONLY \<noteq> 0 \<or> omode AND O_RDWR \<noteq> 0)\<rparr>),
           whenM (omode AND O_TRUNC \<noteq> 0 \<and> itype d = T_FILE) (itrunc ip),
           iunlock (Some ip)]) (\<lambda>_.
         end_return (int fd)))))))))"

definition sys_mkdir :: "('x fs_scheme, int) M" where
  "sys_mkdir =
     doM begin_op (\<lambda>_.
     doM (argstr 0 MAXPATH) (\<lambda>po.
     case po of None \<Rightarrow> end_return (- 1)
     | Some path \<Rightarrow>
         doM (create path T_DIR 0 0) (\<lambda>ipo.
         case ipo of None \<Rightarrow> end_return (- 1)
         | Some ip \<Rightarrow> doM (iunlockput ip) (\<lambda>_. end_return 0))))"

definition sys_mknod :: "('x fs_scheme, int) M" where
  "sys_mknod =
     doM begin_op (\<lambda>_.
     doM (argstr 0 MAXPATH) (\<lambda>po.
     case po of None \<Rightarrow> end_return (- 1)
     | Some path \<Rightarrow>
         doM (argint 1) (\<lambda>maj.
         doM (argint 2) (\<lambda>mnr.
         doM (create path T_DEVICE (ucast maj) (ucast mnr)) (\<lambda>ipo.
         case ipo of None \<Rightarrow> end_return (- 1)
         | Some ip \<Rightarrow> doM (iunlockput ip) (\<lambda>_. end_return 0))))))"

definition sys_chdir :: "('x fs_scheme, int) M" where
  "sys_chdir =
     doM curproc (\<lambda>p.
     doM begin_op (\<lambda>_.
     doM (argstr 0 MAXPATH) (\<lambda>po.
     case po of None \<Rightarrow> end_return (- 1)
     | Some path \<Rightarrow>
         doM (namei path) (\<lambda>ipo.
         case ipo of None \<Rightarrow> end_return (- 1)
         | Some ip \<Rightarrow>
             doM (ilock (Some ip)) (\<lambda>_.
             doM (get_inode ip) (\<lambda>d.
             if itype d \<noteq> T_DIR then doM (iunlockput ip) (\<lambda>_. end_return (- 1))
             else
               doM (seqM [
                 iunlock (Some ip),
                 doM (get_pp p) (\<lambda>q. doM (deref (cwd q)) iput),
                 end_op,
                 upd_pp p (\<lambda>q. q\<lparr>cwd := Some ip\<rparr>)]) (\<lambda>_.
               returnM 0)))))))"

text \<open>
  \<open>sys_exec\<close>: the loop returns the pages allocated for the arguments, and whether it ended
  at a null pointer.
\<close>

definition fetch_argv :: "addr \<Rightarrow> ('x proc_scheme, addr list \<times> bool) M" where
  "fetch_argv uargv = iterM (Suc MAXARG) (\<lambda>argv.
     if length argv \<ge> MAXARG then returnM (Inr (argv, False))
     else
       doM (fetchaddr (uargv + 8 * of_nat (length argv))) (\<lambda>r.
       case r of None \<Rightarrow> returnM (Inr (argv, False))
       | Some uarg \<Rightarrow>
           if uarg = 0 then returnM (Inr (argv, True))
           else
             doM kalloc (\<lambda>pg.
             if pg = 0 then returnM (Inr (argv, False))
             else
               doM (fetchstr uarg (unat PGSIZE)) (\<lambda>so.
               case so of None \<Rightarrow> returnM (Inr (argv @ [pg], False))
               | Some bs \<Rightarrow>
                   doM (upd_mem (\<lambda>m. put m pg bs)) (\<lambda>_.
                   returnM (Inl (argv @ [pg]))))))) []"

definition sys_exec :: "('x fs_scheme, int) M" where
  "sys_exec =
     doM (argstr 0 MAXPATH) (\<lambda>po.
     case po of None \<Rightarrow> returnM (- 1)
     | Some path \<Rightarrow>
         doM (argaddr 1) (\<lambda>uargv.
         doM (fetch_argv uargv) (\<lambda>(argv, ok).
         doM (if ok then exec path argv else returnM (- 1)) (\<lambda>ret.
         doM (forM argv kfree) (\<lambda>_.
         returnM ret)))))"

definition sys_pipe :: "('x ft_scheme, int) M" where
  "sys_pipe =
     doM curproc (\<lambda>p.
     doM (argaddr 0) (\<lambda>fdarray.
     doM pipealloc (\<lambda>r.
     case r of None \<Rightarrow> returnM (- 1)
     | Some (rfile, wfile) \<Rightarrow>
     doM (fdalloc rfile) (\<lambda>fd0o.
     case fd0o of None \<Rightarrow>
       doM (fileclose rfile) (\<lambda>_. doM (fileclose wfile) (\<lambda>_. returnM (- 1)))
     | Some fd0 \<Rightarrow>
     doM (fdalloc wfile) (\<lambda>fd1o.
     case fd1o of None \<Rightarrow>
       doM (upd_pp p (\<lambda>q. q\<lparr>ofile := (ofile q)(fd0 := None)\<rparr>)) (\<lambda>_.
       doM (fileclose rfile) (\<lambda>_. doM (fileclose wfile) (\<lambda>_. returnM (- 1))))
     | Some fd1 \<Rightarrow>
     doM (get_pp p) (\<lambda>q.
     doM (copyout (pagetable q) fdarray (le_bytes 4 (of_nat fd0 :: 32 word))) (\<lambda>e0.
     doM (if e0 < 0 then returnM e0
          else copyout (pagetable q) (fdarray + 4) (le_bytes 4 (of_nat fd1 :: 32 word))) (\<lambda>e1.
     if e1 < 0 then
       doM (seqM [
         upd_pp p (\<lambda>q. q\<lparr>ofile := (ofile q)(fd0 := None)\<rparr>),
         upd_pp p (\<lambda>q. q\<lparr>ofile := (ofile q)(fd1 := None)\<rparr>),
         fileclose rfile,
         fileclose wfile]) (\<lambda>_.
       returnM (- 1))
     else returnM 0))))))))"

end
