(* ===== verification/Trap.thy ===== *)
theory Trap
  imports Sysfile
begin

text \<open>
  Process system calls, \<^verbatim>\<open>kernel/sysproc.c\<close>, the system-call table of \<^verbatim>\<open>kernel/syscall.c\<close>,
  the interrupt controller, \<^verbatim>\<open>kernel/plic.c\<close>, traps, \<^verbatim>\<open>kernel/trap.c\<close>, and \<open>forkret\<close>.  The
  supervisor registers are per hart.  Addresses of code (\<open>kernelvec\<close>, \<open>usertrap\<close>, and the
  offsets of \<open>uservec\<close> and \<open>userret\<close> in the trampoline page) are parameters of the state.
\<close>

section \<open>State\<close>

record trap = ft +
  ticks :: "32 word"
  scause :: "nat \<Rightarrow> 64 word"
  sepc :: "nat \<Rightarrow> 64 word"
  stval :: "nat \<Rightarrow> 64 word"
  stvec :: "nat \<Rightarrow> 64 word"
  sip :: "nat \<Rightarrow> 64 word"
  forkret_first :: bool
  kernelvec_addr :: addr
  usertrap_addr :: addr
  uservec_off :: addr
  userret_off :: addr

definition r_scause :: "('x trap_scheme, 64 word) M" where
  "r_scause = getsM (\<lambda>s. scause s (hart s))"

definition r_sepc :: "('x trap_scheme, 64 word) M" where
  "r_sepc = getsM (\<lambda>s. sepc s (hart s))"

definition w_sepc :: "64 word \<Rightarrow> ('x trap_scheme, unit) M" where
  "w_sepc v = modifyM (\<lambda>s. s\<lparr>sepc := (sepc s)(hart s := v)\<rparr>)"

definition r_stval :: "('x trap_scheme, 64 word) M" where
  "r_stval = getsM (\<lambda>s. stval s (hart s))"

definition w_stvec :: "64 word \<Rightarrow> ('x trap_scheme, unit) M" where
  "w_stvec v = modifyM (\<lambda>s. s\<lparr>stvec := (stvec s)(hart s := v)\<rparr>)"

definition r_sip :: "('x trap_scheme, 64 word) M" where
  "r_sip = getsM (\<lambda>s. sip s (hart s))"

definition w_sip :: "64 word \<Rightarrow> ('x trap_scheme, unit) M" where
  "w_sip v = modifyM (\<lambda>s. s\<lparr>sip := (sip s)(hart s := v)\<rparr>)"

definition r_satp :: "('x vm_scheme, 64 word) M" where
  "r_satp = getsM (\<lambda>s. satp s (hart s))"

definition r_tp :: "('x base_scheme, 64 word) M" where
  "r_tp = getsM (\<lambda>s. of_nat (hart s))"

section \<open>Process system calls\<close>

definition sys_exit :: "('x ft_scheme, int) M" where
  "sys_exit = doM (argint 0) (\<lambda>n. doM (exit n) (\<lambda>_. returnM 0))"

definition sys_getpid :: "('x sched_scheme, int) M" where
  "sys_getpid = doM curproc (\<lambda>p. doM (get_proc p) (\<lambda>q. returnM (pid q)))"

definition sys_fork :: "('x ft_scheme, int) M" where
  "sys_fork = fork"

definition sys_wait :: "('x proc_scheme, int) M" where
  "sys_wait = doM (argaddr 0) wait"

definition sys_sbrk :: "('x proc_scheme, int) M" where
  "sys_sbrk =
     doM (argint 0) (\<lambda>n.
     doM curproc (\<lambda>p.
     doM (get_pp p) (\<lambda>q.
     doM (growproc n) (\<lambda>r.
     if r < 0 then returnM (- 1)
     else returnM (sint (ucast (psz q) :: 32 word))))))"

text \<open>\<open>ticks - ticks0 < n\<close> compares \<open>uint\<close> values: \<open>n\<close> is converted.\<close>

definition sys_sleep :: "('x trap_scheme, int) M" where
  "sys_sleep =
     doM (argint 0) (\<lambda>n.
     doM (acquire TicksLock) (\<lambda>_.
     doM (getsM ticks) (\<lambda>ticks0.
     doM (waitM 0 (\<lambda>_.
       doM (getsM ticks) (\<lambda>t.
       if t - ticks0 < n then
         doM curproc (\<lambda>p.
         doM (get_proc p) (\<lambda>q.
         if killed q then doM (release TicksLock) (\<lambda>_. returnM (Inr (- 1)))
         else doM (sleep ChanTicks TicksLock) (\<lambda>_. returnM (Inl ()))))
       else doM (release TicksLock) (\<lambda>_. returnM (Inr 0)))) ()) returnM)))"

definition sys_kill :: "('x proc_scheme, int) M" where
  "sys_kill = doM (argint 0) (\<lambda>i. kill (sint i))"

definition sys_uptime :: "('x trap_scheme, int) M" where
  "sys_uptime =
     doM (acquire TicksLock) (\<lambda>_.
     doM (getsM ticks) (\<lambda>x.
     doM (release TicksLock) (\<lambda>_.
     returnM (uint x))))"

section \<open>System-call dispatch\<close>

definition syscall_table :: "nat \<Rightarrow> ('x trap_scheme, int) M option" where
  "syscall_table n =
     (if n = 1 then Some sys_fork else if n = 2 then Some sys_exit
      else if n = 3 then Some sys_wait else if n = 4 then Some sys_pipe
      else if n = 5 then Some sys_read else if n = 6 then Some sys_kill
      else if n = 7 then Some sys_exec else if n = 8 then Some sys_fstat
      else if n = 9 then Some sys_chdir else if n = 10 then Some sys_dup
      else if n = 11 then Some sys_getpid else if n = 12 then Some sys_sbrk
      else if n = 13 then Some sys_sleep else if n = 14 then Some sys_uptime
      else if n = 15 then Some sys_open else if n = 16 then Some sys_write
      else if n = 17 then Some sys_mknod else if n = 18 then Some sys_unlink
      else if n = 19 then Some sys_link else if n = 20 then Some sys_mkdir
      else if n = 21 then Some sys_close else None)"

definition syscall :: "('x trap_scheme, unit) M" where
  "syscall =
     doM curproc (\<lambda>p.
     doM (get_tf p (TF_a 7)) (\<lambda>a7.
     let num = ucast a7 :: 32 word in
     case (if sint num > 0 \<and> unat num < 22 then syscall_table (unat num) else None) of
       Some f \<Rightarrow> doM f (\<lambda>r. set_tf p (TF_a 0) (of_int r))
     | None \<Rightarrow>
         doM (get_proc p) (\<lambda>q.
         doM (get_pp p) (\<lambda>r.
         doM (printf (Some (ascii ''%d %s: unknown sys call %d'' @ [10]))
           [AInt (of_int (pid q)), AStr (Some (takeWhile (\<lambda>c. c \<noteq> 0) (pname r))), AInt num]) (\<lambda>_.
         set_tf p (TF_a 0) (- 1))))))"

section \<open>The interrupt controller\<close>

definition UART0_IRQ :: "32 word" where "UART0_IRQ = 10"
definition VIRTIO0_IRQ :: "32 word" where "VIRTIO0_IRQ = 1"

definition PLIC_SENABLE :: "nat \<Rightarrow> addr" where
  "PLIC_SENABLE h = PLIC + 0x2080 + of_nat h * 0x100"

definition PLIC_SPRIORITY :: "nat \<Rightarrow> addr" where
  "PLIC_SPRIORITY h = PLIC + 0x201000 + of_nat h * 0x2000"

definition PLIC_SCLAIM :: "nat \<Rightarrow> addr" where
  "PLIC_SCLAIM h = PLIC + 0x201004 + of_nat h * 0x2000"

definition plicinit :: "('x devs_scheme, unit) M" where
  "plicinit = seqM [
     reg_write (PLIC + ucast UART0_IRQ * 4) 1,
     reg_write (PLIC + ucast VIRTIO0_IRQ * 4) 1]"

definition plicinithart :: "('x devs_scheme, unit) M" where
  "plicinithart =
     doM cpuid (\<lambda>h. seqM [
       reg_write (PLIC_SENABLE h) (push_bit (unat UART0_IRQ) 1 OR push_bit (unat VIRTIO0_IRQ) 1),
       reg_write (PLIC_SPRIORITY h) 0])"

definition plic_claim :: "('x devs_scheme, 32 word) M" where
  "plic_claim = doM cpuid (\<lambda>h. doM (reg_read (PLIC_SCLAIM h)) (\<lambda>v. returnM (ucast v)))"

definition plic_complete :: "32 word \<Rightarrow> ('x devs_scheme, unit) M" where
  "plic_complete irq = doM cpuid (\<lambda>h. reg_write (PLIC_SCLAIM h) (ucast irq))"

section \<open>Traps\<close>

definition trapinit :: "('x trap_scheme, unit) M" where
  "trapinit = initlock TicksLock ''time''"

definition trapinithart :: "('x trap_scheme, unit) M" where
  "trapinithart = doM (getsM kernelvec_addr) w_stvec"

definition clockintr :: "('x trap_scheme, unit) M" where
  "clockintr = seqM [
     acquire TicksLock,
     modifyM (\<lambda>s. s\<lparr>ticks := ticks s + 1\<rparr>),
     wakeup ChanTicks,
     release TicksLock]"

definition devintr :: "('x trap_scheme, nat) M" where
  "devintr =
     doM r_scause (\<lambda>sc.
     if sc AND 0x8000000000000000 \<noteq> 0 \<and> sc AND 0xff = 9 then
       doM plic_claim (\<lambda>irq.
       doM (if irq = UART0_IRQ then uartintr
            else if irq = VIRTIO0_IRQ then virtio_disk_intr
            else whenM (irq \<noteq> 0) (printf (Some (ascii ''unexpected interrupt irq=%d'' @ [10])) [AInt irq])) (\<lambda>_.
       doM (whenM (irq \<noteq> 0) (plic_complete irq)) (\<lambda>_.
       returnM 1)))
     else if sc = 0x8000000000000001 then
       doM cpuid (\<lambda>h.
       doM (whenM (h = 0) clockintr) (\<lambda>_.
       doM r_sip (\<lambda>v.
       doM (w_sip (v AND NOT 2)) (\<lambda>_.
       returnM 2))))
     else returnM 0)"

text \<open>
  \<open>usertrapret\<close> ends in the trampoline: the result is the address it jumps to and the two
  arguments it passes.
\<close>

definition usertrapret :: "('x trap_scheme, addr \<times> addr \<times> 64 word) M" where
  "usertrapret =
     doM curproc (\<lambda>p.
     doM intr_off (\<lambda>_.
     doM (doM (getsM uservec_off) (\<lambda>o'. w_stvec (TRAMPOLINE + o'))) (\<lambda>_.
     doM (doM r_satp (set_tf p TF_kernel_satp)) (\<lambda>_.
     doM (doM (get_pp p) (\<lambda>q. set_tf p TF_kernel_sp (kstack q + PGSIZE))) (\<lambda>_.
     doM (doM (getsM usertrap_addr) (set_tf p TF_kernel_trap)) (\<lambda>_.
     doM (doM r_tp (set_tf p TF_kernel_hartid)) (\<lambda>_.
     doM r_sstatus (\<lambda>x.
     doM (w_sstatus ((x AND NOT SSTATUS_SPP) OR SSTATUS_SPIE)) (\<lambda>_.
     doM (doM (get_tf p TF_epc) w_sepc) (\<lambda>_.
     doM (get_pp p) (\<lambda>q.
     doM (getsM userret_off) (\<lambda>o'.
     returnM (TRAMPOLINE + o', TRAPFRAME, MAKE_SATP (pagetable q))))))))))))))"

definition usertrap :: "('x trap_scheme, addr \<times> addr \<times> 64 word) M" where
  "usertrap =
     doM r_sstatus (\<lambda>x.
     doM (whenM (x AND SSTATUS_SPP \<noteq> 0) (panic ''usertrap: not from user mode'')) (\<lambda>_.
     doM (doM (getsM kernelvec_addr) w_stvec) (\<lambda>_.
     doM curproc (\<lambda>p.
     doM (doM r_sepc (set_tf p TF_epc)) (\<lambda>_.
     doM r_scause (\<lambda>sc.
     doM (if sc = 8 then
            doM (get_proc p) (\<lambda>q.
            doM (whenM (killed q) (exit (- 1))) (\<lambda>_.
            doM (doM (get_tf p TF_epc) (\<lambda>e. set_tf p TF_epc (e + 4))) (\<lambda>_.
            doM intr_on (\<lambda>_.
            doM syscall (\<lambda>_.
            returnM 0)))))
          else
            doM devintr (\<lambda>w.
            if w \<noteq> 0 then returnM w
            else
              doM (get_proc p) (\<lambda>q.
              doM r_sepc (\<lambda>pc.
              doM r_stval (\<lambda>tv.
              doM (seqM [
                printf (Some (ascii ''usertrap(): unexpected scause %p pid=%d'' @ [10])) [APtr sc, AInt (of_int (pid q))],
                printf (Some (ascii ''            sepc=%p stval=%p'' @ [10])) [APtr pc, APtr tv],
                upd_proc p (\<lambda>q. q\<lparr>killed := True\<rparr>)]) (\<lambda>_.
              returnM 0)))))) (\<lambda>which_dev.
     doM (get_proc p) (\<lambda>q.
     doM (whenM (killed q) (exit (- 1))) (\<lambda>_.
     doM (whenM (which_dev = 2) yield) (\<lambda>_.
     usertrapret))))))))))"

definition kerneltrap :: "('x trap_scheme, unit) M" where
  "kerneltrap =
     doM r_sepc (\<lambda>pc.
     doM r_sstatus (\<lambda>x.
     doM r_scause (\<lambda>sc.
     doM (whenM (x AND SSTATUS_SPP = 0) (panic ''kerneltrap: not from supervisor mode'')) (\<lambda>_.
     doM intr_get (\<lambda>on.
     doM (whenM on (panic ''kerneltrap: interrupts enabled'')) (\<lambda>_.
     doM devintr (\<lambda>which_dev.
     doM (whenM (which_dev = 0)
       (doM r_sepc (\<lambda>pc'.
        doM r_stval (\<lambda>tv.
        seqM [
          printf (Some (ascii ''scause %p'' @ [10])) [APtr sc],
          printf (Some (ascii ''sepc=%p stval=%p'' @ [10])) [APtr pc', APtr tv],
          panic ''kerneltrap''])))) (\<lambda>_.
     doM (whenM (which_dev = 2)
       (doM myproc (\<lambda>po. case po of None \<Rightarrow> returnM ()
         | Some _ \<Rightarrow> doM curproc (\<lambda>p. doM (get_proc p) (\<lambda>q. whenM (pstate q = RUNNING) yield))))) (\<lambda>_.
     doM (w_sepc pc) (\<lambda>_.
     w_sstatus x))))))))))"

text \<open>The first thing a new process runs.\<close>

definition forkret :: "('x trap_scheme, addr \<times> addr \<times> 64 word) M" where
  "forkret =
     doM curproc (\<lambda>p.
     doM (release (ProcLock p)) (\<lambda>_.
     doM (getsM forkret_first) (\<lambda>first.
     doM (whenM first (seqM [
       modifyM (\<lambda>s. s\<lparr>forkret_first := False\<rparr>),
       fsinit ROOTDEV])) (\<lambda>_.
     usertrapret))))"

end
