(* ===== verification/Boot.thy ===== *)
theory Boot
  imports Trap
begin

text \<open>
  Booting: \<open>start\<close> and \<open>timerinit\<close> of \<^verbatim>\<open>kernel/start.c\<close> and \<open>main\<close> of \<^verbatim>\<open>kernel/main.c\<close>.  The
  machine-mode registers of a hart are a record.
\<close>

section \<open>State\<close>

record mregs =
  mstatus :: "64 word"
  mepc :: "64 word"
  medeleg :: "64 word"
  mideleg :: "64 word"
  sie :: "64 word"
  pmpaddr0 :: "64 word"
  pmpcfg0 :: "64 word"
  mscratch :: "64 word"
  mtvec :: "64 word"
  mie :: "64 word"

record boot = trap +
  mr :: "nat \<Rightarrow> mregs"
  timer_scratch :: "nat \<Rightarrow> nat \<Rightarrow> 64 word"
  started :: bool
  main_addr :: addr
  timervec_addr :: addr
  timer_scratch_addr :: addr

definition MSTATUS_MPP_MASK :: "64 word" where "MSTATUS_MPP_MASK = push_bit 11 3"
definition MSTATUS_MPP_S :: "64 word" where "MSTATUS_MPP_S = push_bit 11 1"
definition MSTATUS_MIE :: "64 word" where "MSTATUS_MIE = push_bit 3 1"
definition SIE_SEIE :: "64 word" where "SIE_SEIE = push_bit 9 1"
definition SIE_STIE :: "64 word" where "SIE_STIE = push_bit 5 1"
definition SIE_SSIE :: "64 word" where "SIE_SSIE = push_bit 1 1"
definition MIE_MTIE :: "64 word" where "MIE_MTIE = push_bit 7 1"
definition CLINT :: addr where "CLINT = 0x2000000"

definition CLINT_MTIMECMP :: "nat \<Rightarrow> addr" where
  "CLINT_MTIMECMP h = CLINT + 0x4000 + 8 * of_nat h"

definition CLINT_MTIME :: addr where "CLINT_MTIME = CLINT + 0xBFF8"

definition upd_mr :: "(mregs \<Rightarrow> mregs) \<Rightarrow> ('x boot_scheme, unit) M" where
  "upd_mr f = modifyM (\<lambda>s. s\<lparr>mr := (mr s)(hart s := f (mr s (hart s)))\<rparr>)"

section \<open>Operations\<close>

text \<open>\<open>r_mhartid\<close> reads the number of the hart, which \<open>start\<close> keeps in \<open>tp\<close>.\<close>

definition timerinit :: "('x boot_scheme, unit) M" where
  "timerinit =
     doM (getsM hart) (\<lambda>i.
     doM (reg_read CLINT_MTIME) (\<lambda>t.
     doM (reg_write (CLINT_MTIMECMP i) (t + 1000000)) (\<lambda>_.
     doM (getsM timer_scratch_addr) (\<lambda>base.
     doM (getsM timervec_addr) (\<lambda>tv.
     seqM [
       modifyM (\<lambda>s. s\<lparr>timer_scratch := (timer_scratch s)(i := (timer_scratch s i)(3 := CLINT_MTIMECMP i))\<rparr>),
       modifyM (\<lambda>s. s\<lparr>timer_scratch := (timer_scratch s)(i := (timer_scratch s i)(4 := 1000000))\<rparr>),
       upd_mr (\<lambda>r. r\<lparr>mscratch := base + 40 * of_nat i\<rparr>),
       upd_mr (\<lambda>r. r\<lparr>mtvec := tv\<rparr>),
       upd_mr (\<lambda>r. r\<lparr>mstatus := mstatus r OR MSTATUS_MIE\<rparr>),
       upd_mr (\<lambda>r. r\<lparr>mie := mie r OR MIE_MTIE\<rparr>)])))))"

definition start :: "('x boot_scheme, unit) M" where
  "start =
     doM (getsM main_addr) (\<lambda>ma. seqM [
       upd_mr (\<lambda>r. r\<lparr>mstatus := (mstatus r AND NOT MSTATUS_MPP_MASK) OR MSTATUS_MPP_S\<rparr>),
       upd_mr (\<lambda>r. r\<lparr>mepc := ma\<rparr>),
       modifyM (\<lambda>s. s\<lparr>satp := (satp s)(hart s := 0)\<rparr>),
       upd_mr (\<lambda>r. r\<lparr>medeleg := 0xffff\<rparr>),
       upd_mr (\<lambda>r. r\<lparr>mideleg := 0xffff\<rparr>),
       upd_mr (\<lambda>r. r\<lparr>sie := sie r OR SIE_SEIE OR SIE_STIE OR SIE_SSIE\<rparr>),
       upd_mr (\<lambda>r. r\<lparr>pmpaddr0 := 0x3fffffffffffff\<rparr>),
       upd_mr (\<lambda>r. r\<lparr>pmpcfg0 := 0xf\<rparr>),
       timerinit])"

text \<open>\<open>main\<close> up to the call of \<open>scheduler\<close>, of which \<open>n\<close> sweeps over the table follow.\<close>

definition kmain :: "nat \<Rightarrow> ('x boot_scheme, unit) M" where
  "kmain n =
     doM cpuid (\<lambda>h.
     doM (if h = 0 then seqM [
            consoleinit,
            printfinit,
            printf (Some [10]) [],
            printf (Some (ascii ''xv6 kernel is booting'' @ [10])) [],
            printf (Some [10]) [],
            kinit,
            kvminit,
            kvminithart,
            procinit,
            trapinit,
            trapinithart,
            plicinit,
            plicinithart,
            binit,
            iinit,
            fileinit,
            virtio_disk_init,
            userinit,
            modifyM (\<lambda>s. s\<lparr>started := True\<rparr>)]
          else seqM [
            waitM 0 (\<lambda>_.
              doM (getsM started) (\<lambda>b. if b then returnM (Inr ()) else doM spin (\<lambda>_. returnM (Inl ())))) (),
            printf (Some (ascii ''hart %d starting'' @ [10])) [AInt (of_nat h)],
            kvminithart,
            trapinithart,
            plicinithart]) (\<lambda>_.
     scheduler n))"

end
