(* ===== verification/Ring.thy ===== *)
theory Ring
  imports Prelude
begin

text \<open>
  Circular buffers.  Three parts of the kernel keep bytes in an array indexed by free-running
  machine-word counters modulo the size of the array: the UART transmit buffer, the console
  input buffer and pipes.  The counters wrap around; this is harmless because the size of the
  array divides \<open>2 ^ w\<close>.  The locale states what such a buffer promises and shows once
  that it is a bounded FIFO queue.
\<close>

lemma unat_Suc_mod:
  fixes x :: "'w::len word"
  assumes "cap dvd 2 ^ LENGTH('w)"
  shows "unat (x + of_nat k) mod cap = (unat x + k) mod cap"
proof -
  have "unat (x + of_nat k) = (unat x + k) mod 2 ^ LENGTH('w)"
    by (simp add: unat_word_ariths unat_of_nat mod_add_right_eq)
  then show ?thesis using assms by (simp add: mod_mod_cancel)
qed

lemma unat_succ_diff:
  fixes r w :: "'w::len word"
  assumes "unat (w - r) < c" "c < 2 ^ LENGTH('w)"
  shows "unat (w + 1 - r) = Suc (unat (w - r))"
proof -
  define x where "x = w - r"
  have e: "w + 1 - r = x + 1" by (simp add: x_def)
  have "unat x + 1 < 2 ^ LENGTH('w)" using assms unfolding x_def by linarith
  then have "unat (x + 1) = Suc (unat x)" by (simp add: unat_word_ariths)
  then show ?thesis unfolding e by (simp add: x_def)
qed

lemma unat_diff_succ:
  fixes r w :: "'w::len word"
  assumes "w \<noteq> r" shows "unat (w - r) = Suc (unat (w - (r + 1)))"
proof -
  define x where "x = w - r"
  have e: "w - (r + 1) = x - 1" by (simp add: x_def)
  have x: "x \<noteq> 0" using assms by (simp add: x_def)
  then have "unat x \<noteq> 0" by (simp add: unat_eq_0)
  then have "unat x = Suc (unat (x - 1))" using x by (simp add: unat_minus_one)
  then show ?thesis unfolding e by (simp add: x_def)
qed

lemma mod_shift_inj:
  fixes a k m c :: nat
  assumes "(a + k) mod c = (a + m) mod c" "k \<le> m" "m < k + c" shows "k = m"
proof -
  have "c dvd (a + m) - (a + k)" using assms(1,2) by (metis mod_eq_dvd_iff_nat nat_add_left_cancel_le)
  then have "c dvd m - k" by simp
  then show ?thesis using assms(2,3) by (auto dest!: dvd_imp_le)
qed

locale ring =
  fixes cap :: nat and ok :: "'s \<Rightarrow> bool" and rd wr :: "'s \<Rightarrow> 'w::len word" and slot :: "'s \<Rightarrow> nat \<Rightarrow> 'b"
    and take_one :: "'s \<Rightarrow> 's" and put_one :: "'b \<Rightarrow> 's \<Rightarrow> 's"
  assumes cap: "0 < cap" "cap dvd 2 ^ LENGTH('w)" "cap < 2 ^ LENGTH('w)"
    and take_one: "ok s \<Longrightarrow> ok (take_one s)" "ok s \<Longrightarrow> rd (take_one s) = rd s + 1" "ok s \<Longrightarrow> wr (take_one s) = wr s"
      "ok s \<Longrightarrow> i < cap \<Longrightarrow> slot (take_one s) i = slot s i"
    and put_one: "ok s \<Longrightarrow> ok (put_one c s)" "ok s \<Longrightarrow> wr (put_one c s) = wr s + 1" "ok s \<Longrightarrow> rd (put_one c s) = rd s"
      "ok s \<Longrightarrow> i < cap \<Longrightarrow> slot (put_one c s) i = (if i = unat (wr s) mod cap then c else slot s i)"
begin

text \<open>The bytes put in and not yet taken out, oldest first.\<close>

definition queue :: "'s \<Rightarrow> 'b list" where
  "queue s = map (\<lambda>k. slot s ((unat (rd s) + k) mod cap)) [0..<unat (wr s - rd s)]"

definition bounded :: "'s \<Rightarrow> bool" where
  "bounded s \<longleftrightarrow> ok s \<and> unat (wr s - rd s) \<le> cap"

lemma length_queue: "length (queue s) = unat (wr s - rd s)"
  by (simp add: queue_def)

lemma empty_iff: "queue s = [] \<longleftrightarrow> wr s = rd s"
  by (simp add: queue_def unat_eq_0)

lemma full_iff:
  assumes "bounded s" shows "wr s = rd s + of_nat cap \<longleftrightarrow> length (queue s) = cap"
proof
  assume "wr s = rd s + of_nat cap"
  then show "length (queue s) = cap" using cap(3) by (simp add: length_queue unat_of_nat)
next
  assume "length (queue s) = cap"
  then have "wr s - rd s = of_nat cap" using cap(3) by (simp add: length_queue word_unat_eq_iff unat_of_nat)
  then show "wr s = rd s + of_nat cap" by (simp add: algebra_simps)
qed

lemma take_queue:
  assumes "bounded s" "queue s \<noteq> []"
  shows "queue s = slot s (unat (rd s) mod cap) # queue (take_one s)" "bounded (take_one s)"
proof -
  have ok: "ok s" and ne: "wr s \<noteq> rd s" using assms empty_iff by (auto simp: bounded_def)
  note n = unat_diff_succ [OF ne]
  have u: "unat (rd s + 1) mod cap = (unat (rd s) + 1) mod cap" using unat_Suc_mod [OF cap(2), of "rd s" 1] by simp
  have "slot (take_one s) ((unat (rd s + 1) + k) mod cap) = slot s ((unat (rd s) + Suc k) mod cap)" for k
    using take_one(4) [OF ok, of "(unat (rd s + 1) + k) mod cap"] cap(1) mod_add_left_eq [of "unat (rd s + 1)" cap k]
      mod_add_left_eq [of "unat (rd s) + 1" cap k] u by simp
  then show "queue s = slot s (unat (rd s) mod cap) # queue (take_one s)"
    unfolding queue_def n using take_one(2,3) [OF ok] by (simp add: upt_conv_Cons del: upt_Suc flip: map_Suc_upt)
  show "bounded (take_one s)" using assms n take_one(1-3) [OF ok] by (simp add: bounded_def)
qed

lemma put_queue:
  assumes "bounded s" "length (queue s) < cap"
  shows "queue (put_one c s) = queue s @ [c]" "bounded (put_one c s)"
proof -
  have ok: "ok s" and room: "unat (wr s - rd s) < cap" using assms by (auto simp: bounded_def length_queue)
  note n = unat_succ_diff [OF room cap(3)]
  have w: "unat (wr s) mod cap = (unat (rd s) + unat (wr s - rd s)) mod cap"
    using unat_Suc_mod [OF cap(2), of "rd s" "unat (wr s - rd s)"] by simp
  have old: "slot (put_one c s) ((unat (rd s) + k) mod cap) = slot s ((unat (rd s) + k) mod cap)" if "k < unat (wr s - rd s)" for k
  proof -
    have "(unat (rd s) + k) mod cap \<noteq> unat (wr s) mod cap"
      using mod_shift_inj [of "unat (rd s)" k cap "unat (wr s - rd s)"] that room by (auto simp: w)
    then show ?thesis using put_one(4) [OF ok] cap(1) by simp
  qed
  have new: "slot (put_one c s) ((unat (rd s) + unat (wr s - rd s)) mod cap) = c"
    using put_one(4) [OF ok] cap(1) by (simp add: w)
  show "queue (put_one c s) = queue s @ [c]"
    unfolding queue_def put_one(2,3) [OF ok] n using old new by simp
  show "bounded (put_one c s)" using n room put_one(1-3) [OF ok] by (simp add: bounded_def)
qed

end

text \<open>A buffer from which the byte put in last can be taken back, as line editing does.\<close>

locale editable_ring = ring cap ok rd wr slot take_one put_one
  for cap :: nat and ok :: "'s \<Rightarrow> bool" and rd wr :: "'s \<Rightarrow> 'w::len word" and slot :: "'s \<Rightarrow> nat \<Rightarrow> 'b"
    and take_one :: "'s \<Rightarrow> 's" and put_one :: "'b \<Rightarrow> 's \<Rightarrow> 's" +
  fixes drop_one :: "'s \<Rightarrow> 's"
  assumes drop_one: "ok s \<Longrightarrow> ok (drop_one s)" "ok s \<Longrightarrow> wr (drop_one s) = wr s - 1" "ok s \<Longrightarrow> rd (drop_one s) = rd s"
      "ok s \<Longrightarrow> i < cap \<Longrightarrow> slot (drop_one s) i = slot s i"
begin

lemma drop_queue:
  assumes "bounded s" "queue s \<noteq> []"
  shows "queue (drop_one s) = butlast (queue s)" "bounded (drop_one s)"
    "last (queue s) = slot s (unat (wr s - 1) mod cap)"
proof -
  have ok: "ok s" and ne: "wr s \<noteq> rd s" using assms empty_iff by (auto simp: bounded_def)
  have n: "unat (wr s - rd s) = Suc (unat (wr s - 1 - rd s))"
    using unat_diff_succ [OF ne] by (simp add: algebra_simps)
  have "slot (drop_one s) ((unat (rd s) + k) mod cap) = slot s ((unat (rd s) + k) mod cap)" for k
    using drop_one(4) [OF ok] cap(1) by simp
  then show "queue (drop_one s) = butlast (queue s)"
    unfolding queue_def drop_one(2,3) [OF ok] n by (simp add: butlast_append)
  show "bounded (drop_one s)" using assms n drop_one(1-3) [OF ok] by (simp add: bounded_def)
  have "unat (wr s - 1) mod cap = (unat (rd s) + unat (wr s - 1 - rd s)) mod cap"
    using unat_Suc_mod [OF cap(2), of "rd s" "unat (wr s - 1 - rd s)"] by simp
  then show "last (queue s) = slot s (unat (wr s - 1) mod cap)" unfolding queue_def n by simp
qed

end

end
