(* ===== verification/Terminal.thy ===== *)
theory Terminal
  imports Console Ring
begin

text \<open>
  Correctness of the UART output path and of the console's line editing: both are circular
  buffers in the sense of theory \<open>Ring\<close>.
\<close>

section \<open>Interrupts off\<close>

text \<open>The bookkeeping of \<open>lkb\<close> with one more \<open>push_off\<close> outstanding.\<close>

definition lkoff :: "lockid list \<Rightarrow> (nat \<Rightarrow> nat option) \<Rightarrow> nat \<Rightarrow> (nat \<Rightarrow> cpu) \<Rightarrow> (nat \<Rightarrow> 64 word) \<Rightarrow>
    (lockid \<Rightarrow> spinlock) \<Rightarrow> bool" where
  "lkoff L P h c st l \<longleftrightarrow> distinct L \<and> noff (c h) = int (length L) + 1 \<and> st h AND SSTATUS_SIE = 0 \<and>
     (\<forall>h'. cproc (c h') = P h') \<and>
     (\<forall>k. if k \<in> set L then locked (l k) = 1 \<and> lcpu (l k) = Some h else locked (l k) = 0 \<and> lcpu (l k) = None)"

lemma wp_push_off:
  assumes "lkst L P s"
    and Q: "\<And>c st. lkoff L P (hart s) c st (locks s) \<Longrightarrow> Q () (s\<lparr>cpus := c, sstatus := st\<rparr>) es"
  shows "wp push_off s es Q"
proof (rule wp_DoneI [OF push_off_eq])
  have "lkoff L P (hart s) (cpus (pushed s)) (sstatus (pushed s)) (locks s)"
    using assms(1) by (auto simp: lkoff_def lkb_def pushed_def)
  moreover have e: "pushed s = s\<lparr>cpus := cpus (pushed s), sstatus := sstatus (pushed s)\<rparr>"
    by (rule base.equality) (simp_all add: pushed_def)
  ultimately show "Q () (pushed s) es" by (subst e) (rule Q)
qed

lemma wp_pop_off:
  assumes "lkoff L P (hart s) (cpus s) (sstatus s) (locks s)"
    and Q: "\<And>c st. lkb L P (hart s) c st (locks s) \<Longrightarrow> Q () (s\<lparr>cpus := c, sstatus := st\<rparr>) es"
  shows "wp pop_off s es Q"
proof (rule wp_DoneI)
  show "pop_off s es = Done () (popped s) es" using assms(1) by (simp add: pop_off_eq lkoff_def)
  have "lkb L P (hart s) (cpus (popped s)) (sstatus (popped s)) (locks s)"
    using assms(1) by (auto simp: lkoff_def lkb_def popped_def)
  moreover have e: "popped s = s\<lparr>cpus := cpus (popped s), sstatus := sstatus (popped s)\<rparr>"
    by (rule base.equality) (simp_all add: popped_def)
  ultimately show "Q () (popped s) es" by (subst e) (rule Q)
qed

section \<open>The UART\<close>

text \<open>The bytes the driver has handed to the device, oldest first.\<close>

fun sent_bytes :: "mmio list \<Rightarrow> byte list" where
  "sent_bytes [] = []"
| "sent_bytes (MWrite a v # h) = (if a = UART0 + THR then ucast v # sent_bytes h else sent_bytes h)"
| "sent_bytes (MRead a v # h) = sent_bytes h"

lemma sent_append [simp]: "sent_bytes (h @ h') = sent_bytes h @ sent_bytes h'"
  by (induction h rule: sent_bytes.induct) auto

definition tx_idle :: "'x devs_scheme \<Rightarrow> bool" where
  "tx_idle s \<longleftrightarrow> (\<forall>h. (ucast (dev_resp s h (UART0 + LSR)) :: byte) AND LSR_TX_IDLE \<noteq> 0)"

lemma wp_reg [simp]:
  "wp (reg_read a) s es Q = Q (dev_resp s (io s) a) (s\<lparr>io := io s @ [MRead a (dev_resp s (io s) a)]\<rparr>) es"
  "wp (reg_write a v) s es R = R () (s\<lparr>io := io s @ [MWrite a v]\<rparr>) es"
  "wp (ReadReg r) s es T = T (ucast (dev_resp s (io s) (UART0 + r))) (s\<lparr>io := io s @ [MRead (UART0 + r) (dev_resp s (io s) (UART0 + r))]\<rparr>) es"
  "wp (WriteReg r b) s es R = R () (s\<lparr>io := io s @ [MWrite (UART0 + r) (ucast b)]\<rparr>) es"
  by (simp_all add: reg_read_def reg_write_def ReadReg_def WriteReg_def)

definition uart_take :: "'x uart_scheme \<Rightarrow> 'x uart_scheme" where
  "uart_take s = s\<lparr>uart_tx_r := uart_tx_r s + 1\<rparr>"

definition uart_put :: "byte \<Rightarrow> 'x uart_scheme \<Rightarrow> 'x uart_scheme" where
  "uart_put c s = s\<lparr>uart_tx_buf := (uart_tx_buf s)[unat (uart_tx_w s) mod UART_TX_BUF_SIZE := c], uart_tx_w := uart_tx_w s + 1\<rparr>"

interpretation txq: ring UART_TX_BUF_SIZE "\<lambda>s. length (uart_tx_buf s) = UART_TX_BUF_SIZE" uart_tx_r uart_tx_w
  "\<lambda>s i. uart_tx_buf s ! i" uart_take uart_put
proof
  show "UART_TX_BUF_SIZE dvd 2 ^ LENGTH(64)"
  proof -
    have "(2 :: nat) ^ 64 = 32 * 2 ^ 59" by simp
    then show ?thesis unfolding UART_TX_BUF_SIZE_def by (simp del: power_numeral) 
  qed
qed (simp_all add: UART_TX_BUF_SIZE_def uart_take_def uart_put_def nth_list_update)

lemma ucast_byte [simp]: "(ucast (ucast (b :: byte) :: 64 word) :: byte) = b"
  by (rule bit_word_eqI) (auto simp: bit_ucast_iff)

lemma txq_cong:
  assumes "uart_tx_buf t = uart_tx_buf s" "uart_tx_r t = uart_tx_r s" "uart_tx_w t = uart_tx_w s"
  shows "txq.queue t = txq.queue s" "txq.bounded t = txq.bounded s"
  using assms by (simp_all add: txq.queue_def txq.bounded_def)

lemma txq_upd [simp]:
  "txq.queue (cpus_update f s) = txq.queue s" "txq.queue (sstatus_update g s) = txq.queue s"
  "txq.queue (locks_update h s) = txq.queue s" "txq.queue (procs_update k s) = txq.queue s" "txq.queue (io_update i s) = txq.queue s"
  "txq.bounded (cpus_update f s) = txq.bounded s" "txq.bounded (sstatus_update g s) = txq.bounded s"
  "txq.bounded (locks_update h s) = txq.bounded s" "txq.bounded (procs_update k s) = txq.bounded s"
  "txq.bounded (io_update i s) = txq.bounded s"
  by (simp_all add: txq.queue_def txq.bounded_def)

text \<open>
  \<open>uartstart\<close> moves bytes from the front of the queue to the device and loses none; a
  device that is always ready takes them all.
\<close>

lemma wp_uartstart:
  fixes s :: "'x uart_scheme"
  assumes lk: "lkst L P s" "\<And>p. ProcLock p \<notin> set L" and b: "txq.bounded s"
    and Q: "\<And>t. lkst L P t \<Longrightarrow> hart t = hart s \<Longrightarrow> woken (procs s) (procs t) \<Longrightarrow> dev_resp t = dev_resp s \<Longrightarrow> txq.bounded t \<Longrightarrow>
      sent_bytes (io t) @ txq.queue t = sent_bytes (io s) @ txq.queue s \<Longrightarrow> (tx_idle s \<Longrightarrow> txq.queue t = []) \<Longrightarrow> Q () t es"
  shows "wp uartstart s es Q"
proof -
  define I where "I = (\<lambda>(_ :: unit) (t :: 'x uart_scheme) fs. fs = es \<and> lkst L P t \<and> hart t = hart s \<and> woken (procs s) (procs t) \<and>
    dev_resp t = dev_resp s \<and> txq.bounded t \<and> sent_bytes (io t) @ txq.queue t = sent_bytes (io s) @ txq.queue s)"
  show ?thesis
    unfolding uartstart_def wp_simps
    apply (rule wp_iterM [where I = I and \<mu> = "\<lambda>_ t _. length (txq.queue t)"])
      apply (use lk b in \<open>simp add: I_def\<close>)
     apply (simp add: txq.length_queue)
    subgoal for x t fs
    proof -
      assume I: "I x t fs"
      have b: "txq.bounded t" and lk': "lkst L P t" using I by (auto simp: I_def)
      show ?thesis
      proof (cases "uart_tx_w t = uart_tx_r t")
        case True
        then have "Q () t fs" using I by (auto simp: I_def txq.empty_iff intro!: Q)
        then show ?thesis using True by simp
      next
        case False
        then have ne: "txq.queue t \<noteq> []" by (simp add: txq.empty_iff)
        note tq = txq.take_queue [OF b ne]
        let ?v = "dev_resp t (io t) (UART0 + LSR)"
        let ?t = "t\<lparr>io := io t @ [MRead (UART0 + LSR) ?v]\<rparr>"
        have q: "txq.queue ?t = txq.queue t" "txq.bounded ?t" using txq_cong [of ?t t] b by auto
        show ?thesis
        proof (cases "(ucast ?v :: byte) AND LSR_TX_IDLE = 0")
          case True
          have "Q () ?t fs" using I True q by (auto simp: I_def tx_idle_def intro!: Q)
          then show ?thesis using False True by simp
        next
          case ready: False
          show ?thesis
            unfolding wp_simps wp_if wp_reg if_not_P [OF False] if_not_P [OF ready]
            apply (rule wp_wakeup [where L = L and P = P], use lk' in simp, rule lk(2))
            subgoal for c st l
              unfolding wp_simps wp_reg sum.case
              subgoal premises prems
              proof -
                let ?u = "t\<lparr>io := io t @ [MRead (UART0 + LSR) ?v]\<rparr>\<lparr>uart_tx_r := uart_tx_r t + 1\<rparr>\<lparr>procs := wake ChanUart {p. p < NPROC} (P (hart t)) (procs t),
                  cpus := c, sstatus := st, locks := l\<rparr>\<lparr>io := (io t @ [MRead (UART0 + LSR) ?v]) @ [MWrite (UART0 + THR)
                    (ucast (uart_tx_buf t ! (unat (uart_tx_r t) mod UART_TX_BUF_SIZE)))]\<rparr>"
                have u: "txq.queue ?u = txq.queue (uart_take t)" "txq.bounded ?u = txq.bounded (uart_take t)"
                  by (rule txq_cong; simp add: uart_take_def)+
                have "I x ?u fs" using I u tq prems woken_trans [OF _ woken_wake] by (auto simp: I_def)
                moreover have "length (txq.queue ?u) < length (txq.queue t)" using u tq(1) by simp
                ultimately show ?thesis by simp
              qed
              done
            done
        qed
      qed
    qed
    done
qed

lemma wp_uartputc:
  fixes s :: "'x uart_scheme"
  assumes lk: "lkst [] P s" and s: "\<not> panicked s" "txq.bounded s" "length (txq.queue s) < UART_TX_BUF_SIZE"
    and Q: "\<And>t. lkst [] P t \<Longrightarrow> txq.bounded t \<Longrightarrow> sent_bytes (io t) @ txq.queue t = sent_bytes (io s) @ txq.queue s @ [b] \<Longrightarrow>
      (tx_idle s \<Longrightarrow> txq.queue t = []) \<Longrightarrow> Q () t es"
  shows "wp (uartputc b) s es Q"
proof -
  have nf: "\<not> uart_tx_w s = uart_tx_r s + of_nat UART_TX_BUF_SIZE" using txq.full_iff [OF s(2)] s(3) by simp
  note pq = txq.put_queue [OF s(2,3), of b]
  show ?thesis
    unfolding uartputc_def wp_simps
    apply (rule wp_acquire [OF lk], simp)
    subgoal for c st l
      apply (simp add: s(1))
      unfolding wp_waitM_iff wp_iterM_Suc wp_simps wp_if
      apply (simp add: nf)
      subgoal premises prems
      proof -
        let ?s = "s\<lparr>cpus := c, sstatus := st, locks := l,
          uart_tx_buf := (uart_tx_buf s)[unat (uart_tx_w s) mod UART_TX_BUF_SIZE := b], uart_tx_w := uart_tx_w s + 1\<rparr>"
        have q: "txq.queue ?s = txq.queue s @ [b]" "txq.bounded ?s"
          using pq txq_cong [of ?s "uart_put b s"] by (simp_all add: uart_put_def)
        have i: "tx_idle ?s = tx_idle s" by (simp add: tx_idle_def)
        show ?thesis
        proof (rule wp_uartstart [where L = "[UartTxLock]" and P = P])
          fix t :: "'x uart_scheme"
          assume t: "lkst [UartTxLock] P t" "txq.bounded t" "tx_idle ?s \<Longrightarrow> txq.queue t = []"
            "sent_bytes (io t) @ txq.queue t = sent_bytes (io ?s) @ txq.queue ?s"
          show "wp (release UartTxLock) t es Q"
          proof (rule wp_release [OF t(1)])
            fix c st l assume "lkb (remove1 UartTxLock [UartTxLock]) P (hart t) c st l"
            then show "Q () (t\<lparr>cpus := c, sstatus := st, locks := l\<rparr>) es"
              by (intro Q) (use t q i in simp_all)
          qed simp
        qed (use prems q in simp_all)
      qed
      done
    done
qed

section \<open>Line editing\<close>

definition cons_take :: "'x console_scheme \<Rightarrow> 'x console_scheme" where
  "cons_take s = s\<lparr>cons_r := cons_r s + 1\<rparr>"

definition cons_put :: "byte \<Rightarrow> 'x console_scheme \<Rightarrow> 'x console_scheme" where
  "cons_put c s = s\<lparr>cons_buf := (cons_buf s)[unat (cons_e s) mod INPUT_BUF := c], cons_e := cons_e s + 1\<rparr>"

definition cons_drop :: "'x console_scheme \<Rightarrow> 'x console_scheme" where
  "cons_drop s = s\<lparr>cons_e := cons_e s - 1\<rparr>"

interpretation cin: editable_ring INPUT_BUF "\<lambda>s. length (cons_buf s) = INPUT_BUF" cons_r cons_e
  "\<lambda>s i. cons_buf s ! i" cons_take cons_put cons_drop
proof
  have "(2 :: nat) ^ 32 = 128 * 2 ^ 25" by simp
  then show "INPUT_BUF dvd 2 ^ LENGTH(32)" unfolding INPUT_BUF_def by (simp del: power_numeral)
qed (simp_all add: INPUT_BUF_def cons_take_def cons_put_def cons_drop_def nth_list_update)

text \<open>
  The abstract state: the input that \<open>consoleread\<close> may take, and the line being typed.
\<close>

definition lines :: "'x console_scheme \<Rightarrow> byte list" where
  "lines s = take (unat (cons_w s - cons_r s)) (cin.queue s)"

definition typed :: "'x console_scheme \<Rightarrow> byte list" where
  "typed s = drop (unat (cons_w s - cons_r s)) (cin.queue s)"

definition cons_ok :: "'x console_scheme \<Rightarrow> bool" where
  "cons_ok s \<longleftrightarrow> cin.bounded s \<and> unat (cons_w s - cons_r s) \<le> length (cin.queue s)"

text \<open>What a key does to it.\<close>

definition key_spec :: "byte \<Rightarrow> byte list \<times> byte list \<Rightarrow> byte list \<times> byte list" where
  "key_spec c le = (case le of (l, e) \<Rightarrow>
     if c = Ctrl CHR ''U'' then (l, rev (dropWhile (\<lambda>x. x \<noteq> 10) (rev e)))
     else if c = Ctrl CHR ''H'' \<or> c = 127 then (l, butlast e)
     else if c \<noteq> 0 \<and> length l + length e < INPUT_BUF then
       let e' = e @ [if c = 13 then 10 else c] in
       if last e' = 10 \<or> last e' = Ctrl CHR ''D'' \<or> length l + length e' = INPUT_BUF then (l @ e', []) else (l, e')
     else (l, e))"

lemma cin_upd [simp]:
  "cin.queue (cpus_update f s) = cin.queue s" "cin.queue (sstatus_update g s) = cin.queue s"
  "cin.queue (locks_update h s) = cin.queue s" "cin.queue (procs_update k s) = cin.queue s" "cin.queue (io_update i s) = cin.queue s"
  "cin.queue (cons_w_update w s) = cin.queue s"
  "cin.bounded (cpus_update f s) = cin.bounded s" "cin.bounded (sstatus_update g s) = cin.bounded s"
  "cin.bounded (locks_update h s) = cin.bounded s" "cin.bounded (procs_update k s) = cin.bounded s"
  "cin.bounded (io_update i s) = cin.bounded s" "cin.bounded (cons_w_update w s) = cin.bounded s"
  by (simp_all add: cin.queue_def cin.bounded_def)

lemma cons_upd [simp]:
  "lines (cpus_update f s) = lines s" "lines (sstatus_update g s) = lines s" "lines (locks_update h s) = lines s"
  "lines (procs_update k s) = lines s" "lines (io_update i s) = lines s"
  "typed (cpus_update f s) = typed s" "typed (sstatus_update g s) = typed s" "typed (locks_update h s) = typed s"
  "typed (procs_update k s) = typed s" "typed (io_update i s) = typed s"
  "cons_ok (cpus_update f s) = cons_ok s" "cons_ok (sstatus_update g s) = cons_ok s" "cons_ok (locks_update h s) = cons_ok s"
  "cons_ok (procs_update k s) = cons_ok s" "cons_ok (io_update i s) = cons_ok s"
  by (simp_all add: lines_def typed_def cons_ok_def)

lemma queue_split: "cin.queue s = lines s @ typed s"
  by (simp add: lines_def typed_def)

lemma length_lines: "cons_ok s \<Longrightarrow> length (lines s) = unat (cons_w s - cons_r s)"
  by (simp add: lines_def cons_ok_def)

lemma typed_empty_iff:
  assumes "cons_ok s" shows "typed s = [] \<longleftrightarrow> cons_e s = cons_w s"
proof -
  have "typed s = [] \<longleftrightarrow> unat (cons_e s - cons_r s) = unat (cons_w s - cons_r s)"
    using assms by (auto simp: typed_def cons_ok_def cin.length_queue)
  then show ?thesis unfolding word_unat_eq_iff [symmetric] by auto
qed

lemma cons_drop_abs:
  assumes "cons_ok s" "typed s \<noteq> []"
  shows "lines (cons_drop s) = lines s" "typed (cons_drop s) = butlast (typed s)" "cons_ok (cons_drop s)"
    "last (typed s) = cons_buf s ! (unat (cons_e s - 1) mod INPUT_BUF)"
proof -
  have b: "cin.bounded s" "cin.queue s \<noteq> []" using assms by (auto simp: cons_ok_def queue_split)
  note d = cin.drop_queue [OF b]
  have k: "unat (cons_w s - cons_r s) < length (cin.queue s)" using assms(2) by (simp add: typed_def)
  have w: "cons_w (cons_drop s) = cons_w s" "cons_r (cons_drop s) = cons_r s" by (simp_all add: cons_drop_def)
  show "lines (cons_drop s) = lines s" unfolding lines_def w d(1) using k by (simp add: take_butlast)
  show "typed (cons_drop s) = butlast (typed s)" unfolding typed_def w d(1) by (simp add: drop_butlast)
  show "cons_ok (cons_drop s)" unfolding cons_ok_def w d(1) using k d(2) by simp
  show "last (typed s) = cons_buf s ! (unat (cons_e s - 1) mod INPUT_BUF)"
    unfolding typed_def last_drop [OF k] by (rule d(3))
qed

lemma cons_put_abs:
  assumes "cons_ok s" "length (lines s) + length (typed s) < INPUT_BUF"
  shows "lines (cons_put c s) = lines s" "typed (cons_put c s) = typed s @ [c]" "cons_ok (cons_put c s)"
proof -
  have b: "cin.bounded s" "length (cin.queue s) < INPUT_BUF" using assms by (simp_all add: cons_ok_def queue_split)
  note p = cin.put_queue [OF b, of c]
  have w: "cons_w (cons_put c s) = cons_w s" "cons_r (cons_put c s) = cons_r s" by (simp_all add: cons_put_def)
  show "lines (cons_put c s) = lines s" "typed (cons_put c s) = typed s @ [c]" "cons_ok (cons_put c s)"
    using p assms(1) by (simp_all add: lines_def typed_def cons_ok_def w)
qed

lemma cons_commit_abs:
  assumes "cons_ok s"
  shows "lines (s\<lparr>cons_w := cons_e s\<rparr>) = lines s @ typed s" "typed (s\<lparr>cons_w := cons_e s\<rparr>) = []" "cons_ok (s\<lparr>cons_w := cons_e s\<rparr>)"
  using assms by (simp_all add: lines_def typed_def cons_ok_def cin.length_queue)

section \<open>Synchronous output\<close>

text \<open>
  Polling the line status register: \<open>polls r m h\<close> is the history \<open>h\<close> followed by \<open>m\<close> reads of it.  The
  holding register of a 16550 may be full, and empties by itself: \<open>tx_ready n r\<close> says that
  after any history the device is idle after at most \<open>n\<close> polls.
\<close>

fun polls :: "(mmio list \<Rightarrow> addr \<Rightarrow> 64 word) \<Rightarrow> nat \<Rightarrow> mmio list \<Rightarrow> mmio list" where
  "polls r 0 h = h"
| "polls r (Suc m) h = polls r m (h @ [MRead (UART0 + LSR) (r h (UART0 + LSR))])"

definition lsr_idle :: "(mmio list \<Rightarrow> addr \<Rightarrow> 64 word) \<Rightarrow> mmio list \<Rightarrow> bool" where
  "lsr_idle r h \<longleftrightarrow> (ucast (r h (UART0 + LSR)) :: byte) AND LSR_TX_IDLE \<noteq> 0"

definition tx_ready :: "nat \<Rightarrow> (mmio list \<Rightarrow> addr \<Rightarrow> 64 word) \<Rightarrow> bool" where
  "tx_ready n r \<longleftrightarrow> (\<forall>h. \<exists>m\<le>n. lsr_idle r (polls r m h))"

text \<open>
  What the rest of the system does while the driver polls: it leaves the console, the device, the
  locks and the per-hart state alone; processes, memory and files may change.
\<close>

definition same_cons :: "'x console_scheme \<Rightarrow> 'x console_scheme \<Rightarrow> bool" where
  "same_cons s t \<longleftrightarrow> hart t = hart s \<and> dev_resp t = dev_resp s \<and> panicked t = panicked s \<and>
     cons_buf t = cons_buf s \<and> cons_r t = cons_r s \<and> cons_w t = cons_w s \<and> cons_e t = cons_e s"

definition undisturbed :: "('x console_scheme \<Rightarrow> 'x console_scheme) \<Rightarrow> bool" where
  "undisturbed e \<longleftrightarrow> (\<forall>t. same_cons t (e t) \<and> io (e t) = io t \<and> cpus (e t) = cpus t \<and> sstatus (e t) = sstatus t \<and> locks (e t) = locks t)"

lemma same_cons_refl [simp]: "same_cons s s"
  by (simp add: same_cons_def)

lemma same_cons_trans: "same_cons s t \<Longrightarrow> same_cons t u \<Longrightarrow> same_cons s u"
  by (simp add: same_cons_def)

lemma same_cons_upd [simp]:
  "same_cons s (cpus_update f t) = same_cons s t" "same_cons s (sstatus_update g t) = same_cons s t"
  "same_cons s (locks_update h t) = same_cons s t" "same_cons s (io_update i t) = same_cons s t"
  by (simp_all add: same_cons_def)

lemma same_cons_abs:
  assumes "same_cons s t" shows "lines t = lines s" "typed t = typed s" "cons_ok t = cons_ok s"
  using assms by (simp_all add: same_cons_def lines_def typed_def cons_ok_def cin.queue_def cin.bounded_def)

definition lsr_turn :: "unit \<Rightarrow> ('x console_scheme, unit + unit) M" where
  "lsr_turn = (\<lambda>_. doM (ReadReg LSR) (\<lambda>v. if v AND LSR_TX_IDLE = 0 then doM spin (\<lambda>_. returnM (Inl ())) else returnM (Inr ())))"

lemma wp_spin: "wp spin s es Q \<longleftrightarrow> (\<exists>e fs. es = e # fs \<and> Q () (e s) fs)"
  by (cases es) (auto simp: wp_def)

lemma wp_lsr_turn:
  fixes s :: "'x console_scheme"
  shows "wp (lsr_turn ()) s es R \<longleftrightarrow> (let u = s\<lparr>io := io s @ [MRead (UART0 + LSR) (dev_resp s (io s) (UART0 + LSR))]\<rparr> in
    if lsr_idle (dev_resp s) (io s) then R (Inr ()) u es else (\<exists>e fs. es = e # fs \<and> R (Inl ()) (e u) fs))"
  unfolding lsr_turn_def wp_simps wp_reg wp_if wp_spin by (simp add: lsr_idle_def Let_def)

lemma wp_lsr_wait:
  fixes s :: "'x console_scheme"
  assumes "lsr_idle (dev_resp s) (polls (dev_resp s) m (io s))" "m \<le> length es" "m < f" "\<forall>e\<in>set es. undisturbed e"
    and "\<And>j t. j \<le> m \<Longrightarrow> same_cons s t \<Longrightarrow> cpus t = cpus s \<Longrightarrow> sstatus t = sstatus s \<Longrightarrow> locks t = locks s \<Longrightarrow>
      sent_bytes (io t) = sent_bytes (io s) \<Longrightarrow> Q () t (drop j es)"
  shows "wp (iterM f lsr_turn ()) s es Q"
  using assms
proof (induction m arbitrary: s es f)
  case 0
  obtain g where f: "f = Suc g" using 0 by (cases f) auto
  have "Q () (s\<lparr>io := io s @ [MRead (UART0 + LSR) (dev_resp s (io s) (UART0 + LSR))]\<rparr>) es" using 0(5) [of 0] by simp
  then show ?case using 0(1) unfolding f wp_iterM_Suc wp_lsr_turn by (simp add: Let_def)
next
  case (Suc m)
  obtain g where f: "f = Suc g" "m < g" using Suc.prems(3) by (cases f) auto
  obtain e fs where es: "es = e # fs" using Suc.prems(2) by (cases es) auto
  let ?u = "s\<lparr>io := io s @ [MRead (UART0 + LSR) (dev_resp s (io s) (UART0 + LSR))]\<rparr>"
  show ?case
  proof (cases "lsr_idle (dev_resp s) (io s)")
    case True
    have "Q () ?u es" using Suc.prems(5) [of 0 ?u] by simp
    then show ?thesis using True unfolding f(1) wp_iterM_Suc wp_lsr_turn by (simp add: Let_def)
  next
    case False
    have e: "same_cons ?u (e ?u)" "io (e ?u) = io ?u" "cpus (e ?u) = cpus s" "sstatus (e ?u) = sstatus s" "locks (e ?u) = locks s"
      using Suc.prems(4) by (simp_all add: es undisturbed_def)
    have se: "same_cons s (e ?u)" using same_cons_trans [of s ?u "e ?u"] e(1) by simp
    have "wp (iterM g lsr_turn ()) (e ?u) fs Q"
    proof (rule Suc.IH)
      show "lsr_idle (dev_resp (e ?u)) (polls (dev_resp (e ?u)) m (io (e ?u)))"
        using Suc.prems(1) se e(2) by (simp add: same_cons_def)
      show "Q () t (drop j fs)" if "j \<le> m" "same_cons (e ?u) t" "cpus t = cpus (e ?u)" "sstatus t = sstatus (e ?u)" "locks t = locks (e ?u)"
          "sent_bytes (io t) = sent_bytes (io (e ?u))" for j t
        using Suc.prems(5) [of "Suc j" t] that e same_cons_trans [OF se that(2)] by (simp add: es)
    qed (use Suc.prems es f in auto)
    then show ?thesis using False unfolding f(1) es wp_iterM_Suc wp_lsr_turn by (simp add: Let_def)
  qed
qed

text \<open>
  The states in which the console code runs: the device becomes ready within \<open>n\<close> polls, the
  kernel has not panicked, and the rest of the system lets the console alone.
\<close>

definition cst :: "lockid list \<Rightarrow> (nat \<Rightarrow> nat option) \<Rightarrow> nat \<Rightarrow> 'x console_scheme \<Rightarrow> ('x console_scheme \<Rightarrow> 'x console_scheme) list \<Rightarrow> bool" where
  "cst L P n s es \<longleftrightarrow> lkst L P s \<and> tx_ready n (dev_resp s) \<and> \<not> panicked s \<and> cons_ok s \<and> (\<forall>e\<in>set es. undisturbed e)"

lemma cst_same:
  assumes "cst L P n s es" "same_cons s t" "lkst L P t" "\<forall>e\<in>set fs. e \<in> set es" shows "cst L P n t fs"
  using assms same_cons_abs(3) [OF assms(2)] by (auto simp: cst_def same_cons_def)

lemma wp_uartputc_sync:
  fixes s :: "'x console_scheme"
  assumes c: "cst L P n s es" "n \<le> length es"
    and Q: "\<And>j t. j \<le> n \<Longrightarrow> same_cons s t \<Longrightarrow> cst L P n t (drop j es) \<Longrightarrow> sent_bytes (io t) = sent_bytes (io s) @ [b] \<Longrightarrow> Q () t (drop j es)"
  shows "wp (uartputc_sync b) s es Q"
proof -
  have k: "lkst L P s" "\<not> panicked s" "\<forall>e\<in>set es. undisturbed e" using c by (auto simp: cst_def)
  obtain m where m: "m \<le> n" "lsr_idle (dev_resp s) (polls (dev_resp s) m (io s))" using c(1) unfolding cst_def tx_ready_def by blast
  show ?thesis
    unfolding uartputc_sync_def wp_simps
    apply (rule wp_push_off [OF k(1)])
    apply (simp add: k(2))
    unfolding wp_waitM_iff lsr_turn_def [symmetric]
    apply (rule wp_lsr_wait [where m = m], use m in simp, use m c(2) in simp, use m c(2) in simp, rule k(3))
    subgoal for c st j t
      apply simp
      apply (rule wp_pop_off [where L = L and P = P], simp add: same_cons_def)
      apply (rule Q, use m in simp)
        apply (simp add: same_cons_def)
       apply (rule cst_same [OF assms(1)], simp add: same_cons_def, simp add: same_cons_def, auto dest: in_set_dropD) [1]
      by simp
    done
qed

lemma wp_consputc:
  fixes s :: "'x console_scheme"
  assumes c: "cst L P n s es" "3 * n \<le> length es"
    and Q: "\<And>j t. j \<le> n * length (case co of None \<Rightarrow> [8, 32, 8] | Some b \<Rightarrow> [b]) \<Longrightarrow> same_cons s t \<Longrightarrow> cst L P n t (drop j es) \<Longrightarrow>
      sent_bytes (io t) = sent_bytes (io s) @ (case co of None \<Rightarrow> [8, 32, 8] | Some b \<Rightarrow> [b]) \<Longrightarrow> Q () t (drop j es)"
  shows "wp (consputc co) s es Q"
proof (cases co)
  case None
  have tr: "drop i (drop j es) = drop (j + i) es" for i j by (simp add: add.commute)
  show ?thesis
    unfolding consputc_def None option.case wp_simps
    apply (rule wp_uartputc_sync [OF c(1)], use c(2) in simp)
    subgoal for j1 t1
      apply (rule wp_uartputc_sync, assumption, use c(2) in simp)
      subgoal for j2 t2
        apply (rule wp_uartputc_sync, assumption, use c(2) in simp)
        subgoal for j3 t3
          using Q [of "j1 + j2 + j3" t3] same_cons_trans [OF same_cons_trans, of s t1 t2 t3] None by (simp add: add.commute add.assoc)
        done
      done
    done
next
  case (Some b)
  show ?thesis
    unfolding consputc_def Some option.case
    by (rule wp_uartputc_sync [OF c(1)]) (use c(2) Q Some in auto)
qed

section \<open>Editing\<close>

text \<open>What the driver prints for a key.\<close>

definition key_echo :: "byte \<Rightarrow> byte list \<times> byte list \<Rightarrow> byte list" where
  "key_echo c le = (case le of (l, e) \<Rightarrow>
     if c = Ctrl CHR ''U'' then concat (replicate (length (takeWhile (\<lambda>x. x \<noteq> 10) (rev e))) [8, 32, 8])
     else if c = Ctrl CHR ''H'' \<or> c = 127 then (if e = [] then [] else [8, 32, 8])
     else if c \<noteq> 0 \<and> length l + length e < INPUT_BUF then [if c = 13 then 10 else c]
     else [])"

text \<open>One character of the line being typed is erased, on the screen and in the buffer.\<close>

lemma wp_erase:
  fixes s :: "'x console_scheme"
  assumes c: "cst L P n s es" "3 * n \<le> length es" "typed s \<noteq> []"
    and Q: "\<And>j t. j \<le> 3 * n \<Longrightarrow> cst L P n t (drop j es) \<Longrightarrow> lines t = lines s \<Longrightarrow> typed t = butlast (typed s) \<Longrightarrow>
      sent_bytes (io t) = sent_bytes (io s) @ [8, 32, 8] \<Longrightarrow> Q () t (drop j es)"
  shows "wp (doM (modifyM (\<lambda>s. s\<lparr>cons_e := cons_e s - 1\<rparr>)) (\<lambda>_. consputc None)) s es Q"
proof -
  have k: "cons_ok s" "lkst L P s" using c by (auto simp: cst_def)
  note d = cons_drop_abs [OF k(1) c(3)]
  have cd: "cst L P n (cons_drop s) es" using c(1) d(3) by (simp add: cst_def cons_drop_def)
  have "wp (consputc None) (cons_drop s) es Q"
  proof (rule wp_consputc [OF cd c(2)], goal_cases)
    case (1 j t)
    then show ?case using same_cons_abs [OF 1(2)] d by (intro Q) (simp_all add: cons_drop_def mult.commute)
  qed
  then show ?thesis by (simp add: cons_drop_def)
qed

lemma wp_cons_backspace:
  fixes s :: "'x console_scheme"
  assumes c: "cst L P n s es" "3 * n \<le> length es" and k: "k \<noteq> Ctrl CHR ''U''" "k = Ctrl CHR ''H'' \<or> k = 127"
    and Q: "\<And>j t. j \<le> n * length (key_echo k (lines s, typed s)) \<Longrightarrow> cst L P n t (drop j es) \<Longrightarrow> (lines t, typed t) = key_spec k (lines s, typed s) \<Longrightarrow>
      sent_bytes (io t) = sent_bytes (io s) @ key_echo k (lines s, typed s) \<Longrightarrow> Q () t (drop j es)"
  shows "wp cons_backspace s es Q"
proof -
  have ok: "cons_ok s" using c by (simp add: cst_def)
  show ?thesis
  proof (cases "typed s = []")
    case True
    then have "Q () s (drop 0 es)" using c k by (intro Q) (auto simp: key_echo_def key_spec_def)
    then show ?thesis using True typed_empty_iff [OF ok] by (simp add: cons_backspace_def)
  next
    case False
    have e: "cons_e s \<noteq> cons_w s" using False typed_empty_iff [OF ok] by simp
    have "wp (doM (modifyM (\<lambda>s. s\<lparr>cons_e := cons_e s - 1\<rparr>)) (\<lambda>_. consputc None)) s es (\<lambda>_. Q ())"
      by (rule wp_erase [OF c False], rule Q) (use k False in \<open>auto simp: key_echo_def key_spec_def\<close>)
    then show ?thesis unfolding cons_backspace_def wp_simps if_P [OF e] .
  qed
qed

lemma erase_last:
  assumes "e \<noteq> []" "last e \<noteq> (10 :: byte)"
  shows "dropWhile (\<lambda>x. x \<noteq> 10) (rev (butlast e)) = dropWhile (\<lambda>x. x \<noteq> 10) (rev e)"
    "length (takeWhile (\<lambda>x. x \<noteq> 10) (rev e)) = Suc (length (takeWhile (\<lambda>x. x \<noteq> 10) (rev (butlast e))))"
  using assms by (cases e rule: rev_cases, auto)+

lemma concat_replicate_snoc: "concat (replicate n xs) @ xs = concat (replicate (Suc n) xs)"
  by (induction n) simp_all

lemma wp_cons_kill_line:
  fixes s :: "'x console_scheme"
  assumes c: "cst L P n s es" "3 * n * length (typed s) \<le> length es"
    and Q: "\<And>j t. j \<le> n * length (key_echo (Ctrl CHR ''U'') (lines s, typed s)) \<Longrightarrow> cst L P n t (drop j es) \<Longrightarrow>
      (lines t, typed t) = key_spec (Ctrl CHR ''U'') (lines s, typed s) \<Longrightarrow>
      sent_bytes (io t) = sent_bytes (io s) @ key_echo (Ctrl CHR ''U'') (lines s, typed s) \<Longrightarrow> Q () t (drop j es)"
  shows "wp cons_kill_line s es Q"
proof -
  let ?w = "\<lambda>e. length (takeWhile (\<lambda>x. x \<noteq> (10 :: byte)) (rev e))"
  define I where "I = (\<lambda>(_ :: unit) (t :: 'x console_scheme) fs. \<exists>i j. fs = drop j es \<and> j \<le> 3 * n * i \<and> cst L P n t fs \<and> lines t = lines s \<and>
    i + length (typed t) = length (typed s) \<and> i + ?w (typed t) = ?w (typed s) \<and>
    dropWhile (\<lambda>x. x \<noteq> 10) (rev (typed t)) = dropWhile (\<lambda>x. x \<noteq> 10) (rev (typed s)) \<and>
    sent_bytes (io t) = sent_bytes (io s) @ concat (replicate i [8, 32, 8]))"
  have len: "length (typed s) \<le> unat (cons_e s - cons_w s)"
  proof -
    have ok: "unat (cons_w s - cons_r s) \<le> unat (cons_e s - cons_r s)" using c by (simp add: cst_def cons_ok_def cin.length_queue)
    have "cons_e s - cons_w s = (cons_e s - cons_r s) - (cons_w s - cons_r s)" by simp
    then have "unat (cons_e s - cons_w s) = unat (cons_e s - cons_r s) - unat (cons_w s - cons_r s)"
      using ok unat_sub [of "cons_w s - cons_r s" "cons_e s - cons_r s"] by (simp only: word_le_nat_alt)
    then show ?thesis by (simp add: typed_def cin.length_queue)
  qed
  show ?thesis
    unfolding cons_kill_line_def wp_simps
    apply (rule wp_iterM [where I = I and \<mu> = "\<lambda>_ t _. length (typed t)"])
      apply (use c in \<open>auto simp: I_def intro!: exI [of _ 0]\<close>) [1]
     apply (use len in simp)
    subgoal premises prems for x t fs
    proof -
      obtain i j where I: "fs = drop j es" "j \<le> 3 * n * i" "cst L P n t fs" "lines t = lines s" "i + length (typed t) = length (typed s)"
          "i + ?w (typed t) = ?w (typed s)" "dropWhile (\<lambda>x. x \<noteq> 10) (rev (typed t)) = dropWhile (\<lambda>x. x \<noteq> 10) (rev (typed s))"
          "sent_bytes (io t) = sent_bytes (io s) @ concat (replicate i [8, 32, 8])" using prems unfolding I_def by blast
      have t: "cons_ok t" using I(3) by (simp add: cst_def)
      let ?more = "cons_e t \<noteq> cons_w t \<and> cons_buf t ! (unat (cons_e t - 1) mod INPUT_BUF) \<noteq> 10"
      show ?thesis
      proof (cases ?more)
        case True
        then have ne: "typed t \<noteq> []" using typed_empty_iff [OF t] by simp
        have la: "last (typed t) \<noteq> 10" using True cons_drop_abs(4) [OF t ne] by simp
        note el = erase_last [OF ne la]
        have bl: "Suc i + length (butlast (typed t)) = length (typed s)" using I(5) ne by (cases "typed t") auto
        have "Suc i \<le> length (typed s)" using I(5) ne by (cases "typed t") auto
        then have "3 * n * Suc i \<le> length es" using c(2) mult_le_mono2 [of "Suc i" "length (typed s)" "3 * n"] by linarith
        then have room: "3 * n \<le> length fs" using I(1,2) by simp
        have "wp (doM (modifyM (\<lambda>s. s\<lparr>cons_e := cons_e s - 1\<rparr>)) (\<lambda>_. consputc None)) t fs
           (\<lambda>_ u gs. I x u gs \<and> length (typed u) < length (typed t))"
        proof (rule wp_erase [OF I(3) room ne], goal_cases)
          case (1 k u)
          have "I x u (drop k fs)" unfolding I_def
            by (rule exI [of _ "Suc i"], rule exI [of _ "j + k"])
               (use 1 I ne el bl in \<open>auto simp: add.commute concat_replicate_snoc simp del: replicate_Suc\<close>)
          then show ?case using 1 ne by simp
        qed
        then show ?thesis unfolding wp_simps wp_if if_P [OF True] by simp
      next
        case False
        have st: "?w (typed t) = 0"
        proof (cases "typed t = []")
          case ne: False
          then have "last (typed t) = 10" using False typed_empty_iff [OF t] cons_drop_abs(4) [OF t ne] by simp
          then show ?thesis using ne by (cases "typed t" rule: rev_cases) auto
        qed simp
        then have "dropWhile (\<lambda>x. x \<noteq> 10) (rev (typed t)) = rev (typed t)"
          by (metis append_Nil length_0_conv takeWhile_dropWhile_id)
        then have ty: "typed t = rev (dropWhile (\<lambda>x. x \<noteq> 10) (rev (typed s)))" using I(7) by simp
        have i: "i = ?w (typed s)" using I(6) st by simp
        have "length (concat (replicate i [8 :: byte, 32, 8])) = 3 * i" by (induction i) simp_all
        then have "Q () t (drop j es)"
          by (intro Q) (use I ty i in \<open>auto simp: key_echo_def key_spec_def mult.commute mult.left_commute\<close>)
        then show ?thesis unfolding wp_simps wp_if if_not_P [OF False] using I(1) by simp
      qed
    qed
    done
qed

lemma wp_cons_char:
  fixes s :: "'x console_scheme"
  assumes c: "cst L P n s es" "3 * n \<le> length es" "\<And>p. ProcLock p \<notin> set L"
    and k: "k \<noteq> Ctrl CHR ''U''" "\<not> (k = Ctrl CHR ''H'' \<or> k = 127)"
    and Q: "\<And>j t. j \<le> n * length (key_echo k (lines s, typed s)) \<Longrightarrow> cst L P n t (drop j es) \<Longrightarrow> (lines t, typed t) = key_spec k (lines s, typed s) \<Longrightarrow>
      sent_bytes (io t) = sent_bytes (io s) @ key_echo k (lines s, typed s) \<Longrightarrow> Q () t (drop j es)"
  shows "wp (cons_char k) s es Q"
proof -
  have s: "cons_ok s" using c by (auto simp: cst_def)
  have n: "cons_e s - cons_r s < of_nat INPUT_BUF \<longleftrightarrow> length (lines s) + length (typed s) < INPUT_BUF"
  proof -
    have "length (lines s) + length (typed s) = unat (cons_e s - cons_r s)"
      using arg_cong [OF queue_split [of s], of length] by (simp add: cin.length_queue)
    then show ?thesis by (simp add: word_less_nat_alt INPUT_BUF_def)
  qed
  show ?thesis
  proof (cases "k \<noteq> 0 \<and> length (lines s) + length (typed s) < INPUT_BUF")
    case False
    then have "Q () s (drop 0 es)" using k c by (intro Q) (auto simp: key_spec_def key_echo_def)
    moreover have nr: "\<not> (k \<noteq> 0 \<and> cons_e s - cons_r s < of_nat INPUT_BUF)" using False by (simp add: n)
    ultimately show ?thesis unfolding cons_char_def Let_def wp_simps if_not_P [OF nr] by simp
  next
    case True
    define x where "x = (if k = 13 then 10 else k)"
    define e where "e = typed s @ [x]"
    have echo: "key_echo k (lines s, typed s) = [x]" using True k by (auto simp: key_echo_def x_def)
    have spec: "key_spec k (lines s, typed s) = (if x = 10 \<or> x = Ctrl CHR ''D'' \<or> length (lines s) + length e = INPUT_BUF
        then (lines s @ e, []) else (lines s, e))"
      using True k by (auto simp: key_spec_def e_def x_def Let_def)
    have room: "k \<noteq> 0 \<and> cons_e s - cons_r s < of_nat INPUT_BUF" using True by (simp add: n)
    show ?thesis
      unfolding cons_char_def Let_def wp_simps if_P [OF room] x_def [symmetric]
    proof (rule wp_consputc [OF c(1,2)], goal_cases)
      case (1 j t)
      have ab: "lines t = lines s" "typed t = typed s" "cons_ok t" using same_cons_abs [OF 1(2)] s by simp_all
      note p = cons_put_abs [OF ab(3), of x, unfolded ab(1,2), OF conjunct2 [OF True], folded e_def]
      let ?u = "t\<lparr>cons_buf := (cons_buf t)[unat (cons_e t) mod INPUT_BUF := x]\<rparr>\<lparr>cons_e := cons_e t + 1\<rparr>"
      have u: "?u = cons_put x t" by (simp add: cons_put_def)
      have full: "cons_e ?u = cons_r ?u + of_nat INPUT_BUF \<longleftrightarrow> length (lines s) + length e = INPUT_BUF"
        unfolding u using cin.full_iff [of "cons_put x t"] p by (simp add: cons_ok_def queue_split)
      have ok: "cst L P n ?u (drop j es)" using 1(3) p(3) unfolding cst_def u by (simp add: cons_put_def)
      have sent: "sent_bytes (io ?u) = sent_bytes (io s) @ key_echo k (lines s, typed s)" "j \<le> n * length (key_echo k (lines s, typed s))"
        using 1(1,4) by (simp_all add: echo)
      have fin: "Q () v (drop j es)" if "cst L P n v (drop j es)" "(lines v, typed v) = key_spec k (lines s, typed s)" "io v = io t" for v
        using Q [OF sent(2) that(1,2)] sent(1) that(3) by simp
      show ?case
      proof (cases "x = 10 \<or> x = Ctrl CHR ''D'' \<or> cons_e ?u = cons_r ?u + of_nat INPUT_BUF")
        case True
        then have sp: "key_spec k (lines s, typed s) = (lines s @ e, [])" using spec full by auto
        define w where "w = ?u\<lparr>cons_w := cons_e ?u\<rparr>"
        have "io w = io t" by (simp add: w_def)
        moreover have "lines w = lines s @ e" "typed w = []" "cst L P n w (drop j es)"
          unfolding w_def using cons_commit_abs [of ?u] p ok u by (auto simp: cst_def)
        ultimately have w: "lines w = lines s @ e" "typed w = []" "cst L P n w (drop j es)" "io w = io t" by blast+
        have "wp (wakeup ChanCons) w (drop j es) (\<lambda>_. Q ())"
          by (rule wp_wakeup [where L = L and P = P]) (use w sp c(3) in \<open>auto simp: cst_def intro!: fin\<close>)
        then have "wp (wakeup ChanCons) (?u\<lparr>cons_w := cons_e ?u\<rparr>) (drop j es) (\<lambda>_. Q ())" unfolding w_def .
        then show ?thesis using True by simp
      next
        case False
        then have "key_spec k (lines s, typed s) = (lines s, e)" using spec full by auto
        then have "Q () (cons_put x t) (drop j es)" using ok p unfolding u by (intro fin) (auto simp: cons_put_def)
        then have "Q () ?u (drop j es)" unfolding u .
        then show ?thesis using False by simp
      qed
    qed
  qed
qed

text \<open>
  C14.  What the user types is edited as a line and echoed.  The device may be busy, and is ready again
  after at most \<open>n\<close> polls; while the driver polls, the rest of the system may change processes,
  memory and files, but leaves the console, the device, the locks and the per-hart state
  alone.  Every key other than control-P, which prints the process table, takes the console from its
  abstract state, the completed input and the line being typed, to the one the line discipline
  gives: \<open>^U\<close> erases the line, backspace and delete its last character, newline, \<open>^D\<close> and a
  full buffer complete it, a carriage return counts as a newline, and what does not fit is
  dropped.  The bytes given to the device are those of the echo: the character, or backspace,
  blank, backspace for each one erased; waiting for it takes at most \<open>n\<close> polls for each byte.
\<close>

theorem console_line_discipline:
  fixes s :: "'x console_scheme"
  assumes "cst [] P n s es" "3 * n * INPUT_BUF \<le> length es" "k \<noteq> Ctrl CHR ''P''"
  shows "\<exists>t j. consoleintr k s es = Done () t (drop j es) \<and> j \<le> n * length (key_echo k (lines s, typed s)) \<and> cst [] P n t (drop j es) \<and>
    (lines t, typed t) = key_spec k (lines s, typed s) \<and> sent_bytes (io t) = sent_bytes (io s) @ key_echo k (lines s, typed s)"
proof -
  define R where "R = (\<lambda>(_ :: unit) (t :: 'x console_scheme) fs. \<exists>j. fs = drop j es \<and> j \<le> n * length (key_echo k (lines s, typed s)) \<and> cst [] P n t fs \<and>
    (lines t, typed t) = key_spec k (lines s, typed s) \<and> sent_bytes (io t) = sent_bytes (io s) @ key_echo k (lines s, typed s))"
  have fin: "wp (release ConsLock) t (drop j es) R"
    if "j \<le> n * length (key_echo k (lines s, typed s))" "cst [ConsLock] P n t (drop j es)" "(lines t, typed t) = key_spec k (lines s, typed s)"
      "sent_bytes (io t) = sent_bytes (io s) @ key_echo k (lines s, typed s)" for j t
    by (rule wp_release [where L = "[ConsLock]" and P = P]) (use that in \<open>auto simp: cst_def R_def\<close>)
  have lk: "lkst [] P s" "cons_ok s" using assms(1) by (simp_all add: cst_def)
  have "length (typed s) \<le> INPUT_BUF"
    using lk(2) arg_cong [OF queue_split [of s], of length] cin.length_queue [of s] by (simp add: cons_ok_def cin.bounded_def)
  then have len: "3 * n * length (typed s) \<le> length es" "3 * n \<le> length es"
    using assms(2) mult_le_mono2 [of "length (typed s)" INPUT_BUF "3 * n"] by (linarith, simp add: INPUT_BUF_def)
  have "wp (consoleintr k) s es R"
    unfolding consoleintr_def wp_simps
    apply (rule wp_acquire [OF lk(1)], simp)
    subgoal for c st l
    proof -
      assume l: "lkb [ConsLock] P (hart s) c st l"
      let ?s = "s\<lparr>cpus := c, sstatus := st, locks := l\<rparr>"
      have a: "cst [ConsLock] P n ?s es" "lines ?s = lines s" "typed ?s = typed s" "io ?s = io s" using assms(1) l by (simp_all add: cst_def)
      consider "k = Ctrl CHR ''U''" | "k \<noteq> Ctrl CHR ''U''" "k = Ctrl CHR ''H'' \<or> k = 127"
        | "k \<noteq> Ctrl CHR ''U''" "\<not> (k = Ctrl CHR ''H'' \<or> k = 127)" by blast
      then show ?thesis
      proof cases
        case 1
        show ?thesis unfolding wp_if if_not_P [OF assms(3)] if_P [OF 1]
          by (rule wp_cons_kill_line [OF a(1)]) (use a len 1 in \<open>auto intro!: fin\<close>)
      next
        case 2
        show ?thesis unfolding wp_if if_not_P [OF assms(3)] if_not_P [OF 2(1)] if_P [OF 2(2)]
          by (rule wp_cons_backspace [OF a(1) len(2) 2]) (use a in \<open>auto intro!: fin\<close>)
      next
        case 3
        show ?thesis unfolding wp_if if_not_P [OF assms(3)] if_not_P [OF 3(1)] if_not_P [OF 3(2)]
          by (rule wp_cons_char [OF a(1) len(2) _ 3]) (use a in \<open>auto intro!: fin\<close>)
      qed
    qed
    done
  from wp_unitD [OF this [unfolded R_def]] show ?thesis by blast
qed

definition demo_console :: console where
  "demo_console = pr.extend (uart.extend (devs.extend (fs.extend demo_fs (devs.fields [] (\<lambda>_ _. 0x60) 0))
     (uart.fields (replicate 32 0) 0 0 False)) (pr.fields True)) (console.fields (replicate 128 0) 0xffffffff 0xffffffff 0xffffffff (\<lambda>_. None) (\<lambda>_. None))"

lemma demo_console_fields [simp]:
  "hart demo_console = 0" "cpus demo_console = cpus demo_bio" "sstatus demo_console = sstatus demo_bio" "locks demo_console = locks demo_bio"
  "cons_buf demo_console = replicate 128 0" "cons_r demo_console = 0xffffffff" "cons_w demo_console = 0xffffffff" "cons_e demo_console = 0xffffffff"
  "panicked demo_console = False" "dev_resp demo_console = (\<lambda>_ _. 0x60)" "io demo_console = []" "procs demo_console = demo_proc"
  "uart_tx_buf demo_console = replicate 32 0" "uart_tx_r demo_console = 0" "uart_tx_w demo_console = 0"
  using demo_fs_fields by (simp_all add: demo_console_def fs.defs devs.defs uart.defs pr.defs console.defs)

text \<open>A device that needs one poll after each byte it is given.\<close>

definition slow_uart :: "mmio list \<Rightarrow> addr \<Rightarrow> 64 word" where
  "slow_uart h a = (case rev h of MWrite _ _ # _ \<Rightarrow> 0 | _ \<Rightarrow> 0x60)"

definition demo_slow :: console where
  "demo_slow = demo_console\<lparr>dev_resp := slow_uart, io := [MWrite (UART0 + THR) 62]\<rparr>"

lemma demo_cst: "cst [] demo_P 1 demo_slow (replicate 384 id)"
proof -
  have "tx_ready 1 slow_uart"
    unfolding tx_ready_def
  proof
    fix h
    show "\<exists>m\<le>1. lsr_idle slow_uart (polls slow_uart m h)"
      by (cases "lsr_idle slow_uart h") (rule exI [of _ 0], simp, rule exI [of _ 1], simp add: lsr_idle_def slow_uart_def LSR_TX_IDLE_def)
  qed
  then show ?thesis
    unfolding cst_def cons_ok_def cin.bounded_def cin.queue_def demo_slow_def
    using demo_bio_lkst by (simp add: INPUT_BUF_def undisturbed_def)
qed

lemma console_line_discipline_witness:
  "\<exists>t j. consoleintr 65 demo_slow (replicate 384 id) = Done () t (drop j (replicate 384 id)) \<and> j \<le> 1 \<and>
    typed t = [65] \<and> sent_bytes (io t) = [62, 65]"
proof -
  have "lines demo_slow = []" "typed demo_slow = []" "sent_bytes (io demo_slow) = [62]"
    by (simp_all add: lines_def typed_def cin.queue_def demo_slow_def)
  with console_line_discipline [OF demo_cst, of 65] show ?thesis
    by (auto simp: key_spec_def key_echo_def Ctrl_def INPUT_BUF_def)
qed

text \<open>
  C26.  Output leaves in order.  When the transmit buffer has room, \<open>uartputc\<close> returns, and
  what the device has been given followed by what is still buffered is what it was before
  followed by the new byte; a device that is always ready has then been given everything.
  The 64-bit positions may wrap around.
\<close>

theorem uart_output_in_order:
  fixes s :: "'x uart_scheme"
  assumes "lkst [] P s" "\<not> panicked s" "txq.bounded s" "length (txq.queue s) < UART_TX_BUF_SIZE"
  shows "\<exists>t. uartputc b s es = Done () t es \<and> lkst [] P t \<and> txq.bounded t \<and>
    sent_bytes (io t) @ txq.queue t = sent_bytes (io s) @ txq.queue s @ [b] \<and> (tx_idle s \<longrightarrow> txq.queue t = [])"
proof -
  have "wp (uartputc b) s es (\<lambda>_ t fs. fs = es \<and> lkst [] P t \<and> txq.bounded t \<and>
    sent_bytes (io t) @ txq.queue t = sent_bytes (io s) @ txq.queue s @ [b] \<and> (tx_idle s \<longrightarrow> txq.queue t = []))"
    by (rule wp_uartputc [OF assms]) auto
  from wp_unitD [OF this] show ?thesis by blast
qed

lemma uart_output_in_order_witness:
  "\<exists>t. uartputc 65 demo_console [] = Done () t [] \<and> sent_bytes (io t) = [65]"
proof -
  have q: "txq.queue demo_console = []" "txq.bounded demo_console"
    unfolding txq.queue_def txq.bounded_def by (simp_all add: UART_TX_BUF_SIZE_def)
  have "lkst [] demo_P demo_console" using demo_bio_lkst by simp
  from uart_output_in_order [OF this _ q(2), of 65 "[]"] show ?thesis
    using q by (auto simp: UART_TX_BUF_SIZE_def tx_idle_def LSR_TX_IDLE_def)
qed

end
