(* ===== verification/Pipes.thy ===== *)
theory Pipes
  imports File Ring
begin

text \<open>
  Pipes are bounded FIFO queues: \<open>pipewrite\<close> appends the writer's bytes to the queue and
  \<open>piperead\<close> moves bytes from its front to the reader, across the wrap-around of the 32-bit
  positions.
\<close>

section \<open>The pipe as a circular buffer\<close>

definition pipe_take :: "addr \<Rightarrow> memory \<Rightarrow> memory" where
  "pipe_take pi m = st32 m (pi + pi_nread) (ld32 m (pi + pi_nread) + 1)"

definition pipe_put :: "addr \<Rightarrow> byte \<Rightarrow> memory \<Rightarrow> memory" where
  "pipe_put pi c m = (let nw = ld32 m (pi + pi_nwrite) in
     (st32 m (pi + pi_nwrite) (nw + 1))(pi + pi_data + of_nat (unat nw mod PIPESIZE) := c))"

lemma ld32_st32 [simp]: "ld32 (st32 m a v) a = v"
  using bytes_put_same [of "le_bytes 4 v" m a] by (simp add: ld32_def st32_def)

lemma st32_outside: "unat (x - a) \<ge> 4 \<Longrightarrow> st32 m a v x = m x"
  by (simp add: st32_def put_outside)

lemma ld32_cong: "(\<And>i. i < 4 \<Longrightarrow> m (a + of_nat i) = m' (a + of_nat i)) \<Longrightarrow> ld32 m a = ld32 m' a"
  unfolding ld32_def by (intro arg_cong [of _ _ le_word] bytes_cong) blast

lemma offset_apart:
  assumes "k < 4096" "d < 4096" "n \<le> 4096" "k < d \<or> d + n \<le> k"
  shows "n \<le> unat ((pi + of_nat k) - (pi + of_nat d) :: addr)"
proof (rule ccontr)
  define i where "i = unat ((of_nat k - of_nat d) :: addr)"
  assume "\<not> ?thesis"
  then have i: "i < n" by (simp add: i_def)
  have "(of_nat k :: addr) = of_nat d + of_nat i" by (simp add: i_def)
  then have "(of_nat k :: addr) = of_nat (d + i)" by simp
  then have "unat (of_nat k :: addr) = unat (of_nat (d + i) :: addr)" by (rule arg_cong)
  moreover have "unat (of_nat k :: addr) = k" "unat (of_nat (d + i) :: addr) = d + i"
    by (rule unat_of_nat_addr, use assms i in simp)+
  ultimately have "k = d + i" by simp
  then show False using assms(4) i by simp
qed

lemma field_frame:
  assumes "k < 4096" "d < 4096" "k < d \<or> d + 4 \<le> k"
  shows "st32 m (pi + of_nat d) v (pi + of_nat k) = m (pi + of_nat k)"
  by (rule st32_outside) (use offset_apart [OF assms(1,2) _ assms(3)] in simp)

lemma field_field:
  assumes "d < 4000" "e < 4000" "d + 4 \<le> e \<or> e + 4 \<le> d"
  shows "ld32 (st32 m (pi + of_nat d) v) (pi + of_nat e) = ld32 m (pi + of_nat e)"
proof (rule ld32_cong)
  fix i :: nat assume "i < 4"
  then have "st32 m (pi + of_nat d) v (pi + of_nat (e + i)) = m (pi + of_nat (e + i))"
    by (intro field_frame) (use assms in auto)
  then show "st32 m (pi + of_nat d) v (pi + of_nat e + of_nat i) = m (pi + of_nat e + of_nat i)" by (simp add: add.assoc)
qed

lemma field_byte:
  assumes "k < 4000" "e < 4000" "k < e \<or> e + 4 \<le> k"
  shows "ld32 (m(pi + of_nat k := c)) (pi + of_nat e) = ld32 m (pi + of_nat e)"
proof (rule ld32_cong)
  fix i :: nat assume i: "i < 4"
  then have "1 \<le> unat ((pi + of_nat k) - (pi + of_nat (e + i)) :: addr)"
    by (intro offset_apart) (use assms in auto)
  then have "pi + of_nat k \<noteq> pi + of_nat (e + i)" by auto
  then show "(m(pi + of_nat k := c)) (pi + of_nat e + of_nat i) = m (pi + of_nat e + of_nat i)" by (auto simp: add.assoc)
qed

lemma pipe_offsets:
  "pi_data = of_nat 24" "pi_nread = of_nat 536" "pi_nwrite = of_nat 540" "pi_readopen = of_nat 544" "pi_writeopen = of_nat 548"
  by (simp_all add: pi_data_def pi_nread_def pi_nwrite_def pi_readopen_def pi_writeopen_def)

lemma data_offset: "pi + pi_data + of_nat k = pi + of_nat (24 + k)"
  by (simp add: pipe_offsets add.assoc)

lemma data_eq: "k < 4000 \<Longrightarrow> l < 4000 \<Longrightarrow> (pi + of_nat k :: addr) = pi + of_nat l \<longleftrightarrow> k = l"
proof
  assume "k < 4000" "l < 4000" "(pi + of_nat k :: addr) = pi + of_nat l"
  then have "unat (of_nat k :: addr) = unat (of_nat l :: addr)" by simp
  then show "k = l" using \<open>k < 4000\<close> \<open>l < 4000\<close> by (simp add: unat_of_nat)
qed simp

interpretation pq: ring PIPESIZE "\<lambda>_. True" "\<lambda>m. ld32 m (pi + pi_nread)" "\<lambda>m. ld32 m (pi + pi_nwrite)"
  "\<lambda>m i. m (pi + pi_data + of_nat i)" "pipe_take pi" "pipe_put pi" for pi
proof
  have "(2 :: nat) ^ 32 = 512 * 2 ^ 23" by simp
  then show "PIPESIZE dvd 2 ^ LENGTH(32)" unfolding PIPESIZE_def by (simp del: power_numeral)
  show "ld32 (pipe_take pi m) (pi + pi_nwrite) = ld32 m (pi + pi_nwrite)" for m
    unfolding pipe_take_def pipe_offsets by (rule field_field) auto
  show "pipe_take pi m (pi + pi_data + of_nat i) = m (pi + pi_data + of_nat i)" if "i < PIPESIZE" for m i
    using that unfolding pipe_take_def data_offset unfolding pipe_offsets PIPESIZE_def by (intro field_frame) auto
  have k: "24 + unat (x :: 32 word) mod PIPESIZE < 4000" "24 + unat x mod PIPESIZE < 536" for x
    using mod_less_divisor [of 512 "unat x"] by (simp_all add: PIPESIZE_def)
  show "ld32 (pipe_put pi c m) (pi + pi_nwrite) = ld32 m (pi + pi_nwrite) + 1" for c m
    unfolding pipe_put_def data_offset Let_def unfolding pipe_offsets
    by (subst field_byte) (use k [of "ld32 m (pi + of_nat 540)"] in auto)
  show "ld32 (pipe_put pi c m) (pi + pi_nread) = ld32 m (pi + pi_nread)" for c m
    unfolding pipe_put_def data_offset Let_def unfolding pipe_offsets
    by (subst field_byte) (use k [of "ld32 m (pi + of_nat 540)"] field_field [of 540 536 m pi] in auto)
  show "pipe_put pi c m (pi + pi_data + of_nat i) =
      (if i = unat (ld32 m (pi + pi_nwrite)) mod PIPESIZE then c else m (pi + pi_data + of_nat i))" if "i < PIPESIZE" for c m i
  proof -
    have i: "24 + i < 536" using that by (simp add: PIPESIZE_def)
    have "st32 m (pi + of_nat 540) v (pi + of_nat (24 + i)) = m (pi + of_nat (24 + i))" for v
      by (rule field_frame) (use i in auto)
    moreover have "(pi + of_nat (24 + i) = (pi + of_nat (24 + unat (ld32 m (pi + of_nat 540)) mod PIPESIZE) :: addr)) \<longleftrightarrow>
        i = unat (ld32 m (pi + of_nat 540)) mod PIPESIZE"
      by (subst data_eq) (use i k [of "ld32 m (pi + of_nat 540)"] in auto)
    ultimately show ?thesis unfolding pipe_put_def data_offset Let_def unfolding pipe_offsets fun_upd_apply by simp
  qed
qed (simp_all add: PIPESIZE_def pipe_take_def)

section \<open>Pipes and user memory\<close>

text \<open>
  The pipe's page is neither a page of the process's page table nor mapped in its address
  space.
\<close>

definition pipe_env :: "addr \<Rightarrow> memory \<Rightarrow> addr \<Rightarrow> addr \<Rightarrow> addr set \<Rightarrow> bool" where
  "pipe_env ke m pi pt A \<longleftrightarrow> user_ok ke m pt A \<and> aligned pi \<and> pi \<notin> A \<and> (\<forall>v. uaddr m pt v \<noteq> pi)"

lemma pipe_env_frame:
  assumes env: "pipe_env ke m pi pt A" and out: "outside {pi} m m'"
  shows "pipe_env ke m' pi pt A" "ubyte m' pt w = ubyte m pt w" "uaddr m' pt v = uaddr m pt v"
proof -
  have ok: "user_ok ke m pt A" "aligned pi" "pi \<notin> A" "\<And>v. uaddr m pt v \<noteq> pi" using env by (auto simp: pipe_env_def)
  have pt: "ptab m ke 2 pt A" using ok by (simp add: user_ok_def)
  have "same_on A m m'"
    by (rule outside_same_on [OF out]) (use ok ptab_valid [OF pt] in \<open>auto intro: valid_page_aligned\<close>)
  then have pt': "ptab m' ke 2 pt A" and p: "pte m' pt w = pte m pt w" for w
    using ptab_frame [OF pt] by (auto simp: pte_def)
  then have u: "uaddr m' pt w = uaddr m pt w" for w by (simp add: uaddr_def)
  then show "uaddr m' pt v = uaddr m pt v" .
  show "pipe_env ke m' pi pt A" using ok pt' u by (simp add: pipe_env_def user_ok_def)
  let ?pa = "uaddr m pt (PGROUNDDOWN w)"
  have "in_page ?pa (?pa + (w - PGROUNDDOWN w))" using page_offset [of w] by (simp add: in_page_def)
  then have "\<not> in_page pi (?pa + (w - PGROUNDDOWN w))" using pages_disjoint [OF uaddr_aligned ok(2) ok(4)] by blast
  then have "m' (?pa + (w - PGROUNDDOWN w)) = m (?pa + (w - PGROUNDDOWN w))" using out by (simp add: outside_def)
  then show "ubyte m' pt w = ubyte m pt w" by (simp add: ubyte_def u Let_def)
qed

lemma st32_outside_page:
  assumes "d + 4 \<le> 4096" shows "outside {pi} m (st32 m (pi + of_nat d) v)"
proof -
  have "st32 m (pi + of_nat d) v x = m x" if "\<not> in_page pi x" for x
  proof (rule st32_outside, rule ccontr)
    assume a: "\<not> 4 \<le> unat (x - (pi + of_nat d))"
    define i where "i = unat (x - (pi + of_nat d))"
    have "x = pi + of_nat (d + i)" by (simp add: i_def add.assoc [symmetric])
    moreover have "in_page pi (pi + of_nat (d + i))" by (rule in_page_offset) (use a assms in \<open>simp add: i_def\<close>)
    ultimately show False using that by simp
  qed
  then show ?thesis by (simp add: outside_def)
qed

lemma pipe_outside: "outside {pi} m (pipe_take pi m)" "outside {pi} m (pipe_put pi c m)"
proof -
  show "outside {pi} m (pipe_take pi m)" unfolding pipe_take_def pipe_offsets by (rule st32_outside_page) simp
  have "in_page pi (pi + pi_data + of_nat (unat (x :: 32 word) mod PIPESIZE))" for x
    unfolding data_offset by (rule in_page_offset) (use mod_less_divisor [of 512 "unat x"] in \<open>simp add: PIPESIZE_def\<close>)
  then show "outside {pi} m (pipe_put pi c m)"
    using st32_outside_page [of 540 pi m] by (auto simp: pipe_put_def Let_def outside_def pipe_offsets)
qed

text \<open>\<open>readopen\<close> and \<open>writeopen\<close> are not touched by moving bytes.\<close>

lemma pipe_open [simp]:
  "ld32 (pipe_take pi m) (pi + pi_readopen) = ld32 m (pi + pi_readopen)"
  "ld32 (pipe_take pi m) (pi + pi_writeopen) = ld32 m (pi + pi_writeopen)"
  "ld32 (pipe_put pi c m) (pi + pi_readopen) = ld32 m (pi + pi_readopen)"
  "ld32 (pipe_put pi c m) (pi + pi_writeopen) = ld32 m (pi + pi_writeopen)"
proof -
  have k: "24 + unat (x :: 32 word) mod PIPESIZE < 536" for x
    using mod_less_divisor [of 512 "unat x"] by (simp add: PIPESIZE_def)
  show "ld32 (pipe_take pi m) (pi + pi_readopen) = ld32 m (pi + pi_readopen)"
    "ld32 (pipe_take pi m) (pi + pi_writeopen) = ld32 m (pi + pi_writeopen)"
    unfolding pipe_take_def pipe_offsets by (rule field_field; simp)+
  show "ld32 (pipe_put pi c m) (pi + pi_readopen) = ld32 m (pi + pi_readopen)"
    unfolding pipe_put_def data_offset Let_def unfolding pipe_offsets
    by (subst field_byte) (use k [of "ld32 m (pi + of_nat 540)"] field_field [of 540 544 m pi] in auto)
  show "ld32 (pipe_put pi c m) (pi + pi_writeopen) = ld32 m (pi + pi_writeopen)"
    unfolding pipe_put_def data_offset Let_def unfolding pipe_offsets
    by (subst field_byte) (use k [of "ld32 m (pi + of_nat 540)"] field_field [of 540 548 m pi] in auto)
qed

lemma wp_mem32 [simp]:
  "wp (load32 a) s es Q = Q (ld32 (mem s) a) s es"
  "wp (store32 a v) s es R = R () (s\<lparr>mem := st32 (mem s) a v\<rparr>) es"
  by (simp_all add: load32_def store32_def upd_mem_def)

lemma wp_pipe_misc [simp]:
  "wp (get_pp p) u es Q = Q (pp u p) u es"
  "wp (upd_mem f) v es R = R () (v\<lparr>mem := f (mem v)\<rparr>) es"
  by (simp_all add: get_pp_def upd_mem_def)

lemma ubytes_1: "ubyte m pt a = Some b \<Longrightarrow> ubytes m pt a 1 = Some [b]"
  by (simp add: ubytes_def)

lemma wp_pipewrite:
  fixes s :: "'x proc_scheme"
  assumes lk: "lkst [] P s" "P (hart s) = Some p" and alive: "\<not> killed (procs s p)" "ld32 (mem s) (pi + pi_readopen) \<noteq> 0"
    and env: "pipe_env ke (mem s) pi (pagetable (pp s p)) A" and b: "pq.bounded pi (mem s)"
    and n: "0 \<le> sint n" "length bs = nat (sint n)" "length (pq.queue pi (mem s)) + length bs \<le> PIPESIZE"
    and user: "\<And>i. i < length bs \<Longrightarrow> ubyte (mem s) (pagetable (pp s p)) (a + of_nat i) = Some (bs ! i)"
    and Q: "\<And>m c st l. lkb [] P (hart s) c st l \<Longrightarrow> pq.bounded pi m \<Longrightarrow> pq.queue pi m = pq.queue pi (mem s) @ bs \<Longrightarrow>
      outside {pi} (mem s) m \<Longrightarrow> ld32 m (pi + pi_readopen) = ld32 (mem s) (pi + pi_readopen) \<Longrightarrow>
      ld32 m (pi + pi_writeopen) = ld32 (mem s) (pi + pi_writeopen) \<Longrightarrow>
      Q (sint n) (s\<lparr>mem := m, procs := wake (ChanPipeRead pi) {p. p < NPROC} (Some p) (procs s), cpus := c, sstatus := st, locks := l\<rparr>) es"
  shows "wp (pipewrite pi a n) s es Q"
proof -
  let ?pt = "pagetable (pp s p)"
  define good where "good i m \<longleftrightarrow> pq.bounded pi m \<and> pq.queue pi m = pq.queue pi (mem s) @ take i bs \<and> outside {pi} (mem s) m \<and>
      ld32 m (pi + pi_readopen) = ld32 (mem s) (pi + pi_readopen) \<and> ld32 m (pi + pi_writeopen) = ld32 (mem s) (pi + pi_writeopen)" for i m
  have good0: "good 0 (mem s)" using b by (simp add: good_def)
  have step: "good (Suc i) (pipe_put pi (bs ! i) m)" "ld32 m (pi + pi_nwrite) \<noteq> ld32 m (pi + pi_nread) + of_nat PIPESIZE"
    "ubytes m ?pt (a + of_nat i) 1 = Some [bs ! i]" "ptab m ke 2 ?pt A"
    if i: "i < length bs" and g: "good i m" for i m
  proof -
    have bq: "pq.bounded pi m" "length (pq.queue pi m) < PIPESIZE" using g i n(3) by (simp_all add: good_def)
    show "ld32 m (pi + pi_nwrite) \<noteq> ld32 m (pi + pi_nread) + of_nat PIPESIZE" using pq.full_iff [OF bq(1)] bq(2) by simp
    have "outside {pi} (mem s) (pipe_put pi (bs ! i) m)"
      using g pipe_outside(2) [of pi m "bs ! i"] by (auto simp: good_def outside_def)
    then show "good (Suc i) (pipe_put pi (bs ! i) m)"
      using pq.put_queue [OF bq, of "bs ! i"] g i by (simp add: good_def take_Suc_conv_app_nth)
    have o: "outside {pi} (mem s) m" using g by (simp add: good_def)
    note e = pipe_env_frame [OF env o]
    show "ubytes m ?pt (a + of_nat i) 1 = Some [bs ! i]" by (rule ubytes_1) (use e(2) user [OF i] in simp)
    show "ptab m ke 2 ?pt A" using e(1) by (simp add: pipe_env_def user_ok_def)
  qed
  show ?thesis
    unfolding pipewrite_def wp_simps
    apply (rule wp_curproc [OF lk])
    apply (rule wp_acquire [where L = "[]" and P = P], simp, simp)
    subgoal for c0 st0 l0 c st l
    proof -
      assume l: "lkb [PipeLock pi] P (hart (s\<lparr>cpus := c0, sstatus := st0, locks := l0\<rparr>)) c st l"
      define I where "I i t fs \<longleftrightarrow> fs = es \<and> i \<le> length bs \<and> (\<exists>m. good i m \<and> t = s\<lparr>mem := m, cpus := c, sstatus := st, locks := l\<rparr>)"
        for i and t :: "'x proc_scheme" and fs
      show ?thesis
        apply (rule wp_waitM [where I = I and \<mu> = "\<lambda>i _ _. length bs - i"])
          apply (use good0 in \<open>auto simp: I_def intro!: exI [of _ "mem s"]\<close>) [1]
         apply (simp add: n)
        subgoal for i t fs
        proof -
          assume "I i t fs"
          then obtain m where g: "good i m" and t: "t = s\<lparr>mem := m, cpus := c, sstatus := st, locks := l\<rparr>" "fs = es" "i \<le> length bs"
            by (auto simp: I_def)
          show ?thesis
          proof (cases "i < length bs")
            case True
            then have lt: "int i < sint n" using n by simp
            note st = step [OF True g]
            have ro: "\<not> (ld32 (mem t) (pi + pi_readopen) = 0 \<or> killed (procs t p))" using g alive t(1) by (simp add: good_def)
            have nf: "\<not> ld32 (mem t) (pi + pi_nwrite) = ld32 (mem t) (pi + pi_nread) + of_nat PIPESIZE" using st(2) t(1) by simp
            have "I (Suc i) (t\<lparr>mem := pipe_put pi (bs ! i) m\<rparr>) fs"
              unfolding I_def using st(1) True t by (intro conjI exI) simp_all
            then show ?thesis
              unfolding wp_if wp_simps wp_mem32 wp_procs if_P [OF lt] if_not_P [OF ro] if_not_P [OF nf] wp_pipe_misc
              apply -
              apply (rule wp_copyin [where ke = ke and A = A])
               apply (use st(4) t in simp)
              using st(3) t True by (simp add: pipe_put_def Let_def)
          next
            case False
            then have e: "i = length bs" using t by simp
            then have nl: "\<not> int i < sint n" "int i = sint n" using n by simp_all
            have g': "good (length bs) m" using g e by simp
            show ?thesis
              unfolding wp_if wp_simps if_not_P [OF nl(1)] sum.case
              apply simp
              apply (rule wp_wakeup [where L = "[PipeLock pi]" and P = P], use l t in simp, simp)
              apply (rule wp_release [where L = "[PipeLock pi]" and P = P], simp, simp)
              subgoal for c1 st1 l1 c2 st2 l2
                using Q [of c2 st2 l2 m] g' t lk(2) nl(2) by (simp add: good_def)
              done
          qed
        qed
        done
    qed
    done
qed

lemma put_single: "put m x [c] = m(x := c)"
  by (auto simp: put_def fun_eq_iff unat_eq_0)

lemma wp_copyout1:
  fixes s :: "'x kmem_scheme"
  assumes pt: "ptab (mem s) ke 2 pt A"
    and Q: "uaddr (mem s) pt (PGROUNDDOWN d) = 0 \<Longrightarrow> Q (- 1) s es"
      "uaddr (mem s) pt (PGROUNDDOWN d) \<noteq> 0 \<Longrightarrow> Q 0 (s\<lparr>mem := (mem s)(uaddr (mem s) pt (PGROUNDDOWN d) + (d - PGROUNDDOWN d) := c)\<rparr>) es"
  shows "wp (copyout pt d [c]) s es Q"
proof -
  have one: "min (unat (PGSIZE - (d - PGROUNDDOWN d))) (length [c]) = 1"
    using chunk_size [of d] page_offset [of d] by simp
  show ?thesis
    unfolding copyout_def list.size One_nat_def add_Suc_right add_0_right wp_iterM_Suc split_conv
    apply simp
    unfolding Let_def
    apply simp
    apply (rule wp_walkaddr [OF pt])
    using Q chunk_size [of d] page_offset [of d] by (auto simp: put_single add.commute min_def numeral_2_eq_2)
qed

lemma pq_cong:
  assumes "\<And>x. in_page pi x \<Longrightarrow> m' x = m x"
  shows "pq.queue pi m' = pq.queue pi m" "pq.bounded pi m' = pq.bounded pi m"
    "ld32 m' (pi + pi_readopen) = ld32 m (pi + pi_readopen)" "ld32 m' (pi + pi_writeopen) = ld32 m (pi + pi_writeopen)"
    "ld32 m' (pi + pi_nread) = ld32 m (pi + pi_nread)" "ld32 m' (pi + pi_nwrite) = ld32 m (pi + pi_nwrite)"
proof -
  have f: "ld32 m' (pi + of_nat d) = ld32 m (pi + of_nat d)" if "d < 4000" for d
    by (rule ld32_cong) (use that assms in_page_offset [of _ pi] in \<open>simp add: add.assoc flip: of_nat_add\<close>)
  show r: "ld32 m' (pi + pi_readopen) = ld32 m (pi + pi_readopen)" "ld32 m' (pi + pi_writeopen) = ld32 m (pi + pi_writeopen)"
    "ld32 m' (pi + pi_nread) = ld32 m (pi + pi_nread)" "ld32 m' (pi + pi_nwrite) = ld32 m (pi + pi_nwrite)"
    unfolding pipe_offsets by (rule f; simp)+
  have "m' (pi + pi_data + of_nat (k mod PIPESIZE)) = m (pi + pi_data + of_nat (k mod PIPESIZE))" for k
    unfolding data_offset by (rule assms, rule in_page_offset) (use mod_less_divisor [of 512 k] in \<open>simp add: PIPESIZE_def\<close>)
  then show "pq.queue pi m' = pq.queue pi m" "pq.bounded pi m' = pq.bounded pi m"
    by (simp_all add: pq.queue_def pq.bounded_def r)
qed

lemma piperead_step:
  assumes env: "pipe_env ke m pi pt A" and b: "pq.bounded pi m" and q: "pq.queue pi m = c # q'"
    and d: "uaddr m pt (PGROUNDDOWN d) \<noteq> 0"
  defines "m' \<equiv> (pipe_take pi m)(uaddr (pipe_take pi m) pt (PGROUNDDOWN d) + (d - PGROUNDDOWN d) := c)"
  shows "pipe_env ke m' pi pt A" "pq.bounded pi m'" "pq.queue pi m' = q'"
    "m (pi + pi_data + of_nat (unat (ld32 m (pi + pi_nread)) mod PIPESIZE)) = c"
    "ubyte m' pt w = (if w = d then Some c else ubyte m pt w)" "uaddr m' pt v = uaddr m pt v"
proof -
  have ne: "pq.queue pi m \<noteq> []" using q by simp
  note t = pq.take_queue [OF b ne]
  show "m (pi + pi_data + of_nat (unat (ld32 m (pi + pi_nread)) mod PIPESIZE)) = c" using t(1) q by simp
  let ?m = "pipe_take pi m" and ?pa = "uaddr (pipe_take pi m) pt (PGROUNDDOWN d)"
  note e = pipe_env_frame [OF env pipe_outside(1)]
  have ok: "user_ok ke ?m pt A" "aligned pi" "pi \<notin> A" "\<And>v. uaddr ?m pt v \<noteq> pi" using e(1) by (auto simp: pipe_env_def)
  note u = e(3)
  have d': "?pa \<noteq> 0" using d u by simp
  have n: "length [c] + unat (d - PGROUNDDOWN d) \<le> 4096" using page_offset [of d] by simp
  note pc = put_chunk [OF ok(1) d' n, unfolded put_single m'_def [symmetric]]
  have pg: "m' x = ?m x" if "in_page pi x" for x
  proof -
    have "in_page ?pa (?pa + (d - PGROUNDDOWN d))" using page_offset [of d] by (simp add: in_page_def)
    then have "\<not> in_page pi (?pa + (d - PGROUNDDOWN d))" using pages_disjoint [OF uaddr_aligned ok(2) ok(4)] by blast
    then show ?thesis using that by (auto simp: m'_def)
  qed
  show "pipe_env ke m' pi pt A" using pc ok by (simp add: pipe_env_def)
  show "pq.bounded pi m'" "pq.queue pi m' = q'" using pq_cong(1,2) [OF pg] t q by simp_all
  show "uaddr m' pt v = uaddr m pt v" using pc u by simp
  have "unat (w - d) < length [c] \<longleftrightarrow> w = d" by (simp add: unat_eq_0)
  then show "ubyte m' pt w = (if w = d then Some c else ubyte m pt w)" using pc [of v w] e(2) [of w] by simp
qed

lemma unat_less_Suc_iff:
  assumes "i < 2 ^ 64" shows "unat (w - a :: addr) < Suc i \<longleftrightarrow> unat (w - a) < i \<or> w = a + of_nat i"
proof -
  have "unat (w - a) = i \<longleftrightarrow> w = a + of_nat i"
  proof
    assume "unat (w - a) = i"
    then have "of_nat (unat (w - a)) = (of_nat i :: addr)" by simp
    then show "w = a + of_nat i" by (simp add: algebra_simps)
  qed (use assms in simp)
  then show ?thesis by (auto simp: less_Suc_eq)
qed

lemma wp_piperead_wait:
  assumes "\<not> (ld32 (mem s) (pi + pi_nread) = ld32 (mem s) (pi + pi_nwrite) \<and> ld32 (mem s) (pi + pi_writeopen) \<noteq> 0)" "Q True s es"
  shows "wp (piperead_wait pi p) s es Q"
  unfolding piperead_wait_def wp_waitM_iff wp_iterM_Suc wp_simps wp_mem32 wp_if if_not_P [OF assms(1)] using assms(2) by simp

lemma wp_piperead:
  fixes s :: "'x proc_scheme"
  assumes lk: "lkst [] P s" "P (hart s) = Some p" and ready: "pq.queue pi (mem s) \<noteq> [] \<or> ld32 (mem s) (pi + pi_writeopen) = 0"
    and env: "pipe_env ke (mem s) pi (pagetable (pp s p)) A" and b: "pq.bounded pi (mem s)"
    and n: "0 \<le> sint n" and k: "k = min (nat (sint n)) (length (pq.queue pi (mem s)))"
    and user: "\<And>i. i < k \<Longrightarrow> uaddr (mem s) (pagetable (pp s p)) (PGROUNDDOWN (a + of_nat i)) \<noteq> 0"
    and Q: "\<And>m c st l. lkb [] P (hart s) c st l \<Longrightarrow> pq.bounded pi m \<Longrightarrow> pq.queue pi m = drop k (pq.queue pi (mem s)) \<Longrightarrow>
      pipe_env ke m pi (pagetable (pp s p)) A \<Longrightarrow>
      (\<And>w. ubyte m (pagetable (pp s p)) w = (if unat (w - a) < k then Some (pq.queue pi (mem s) ! unat (w - a)) else ubyte (mem s) (pagetable (pp s p)) w)) \<Longrightarrow>
      Q (int k) (s\<lparr>mem := m, procs := wake (ChanPipeWrite pi) {p. p < NPROC} (Some p) (procs s), cpus := c, sstatus := st, locks := l\<rparr>) es"
  shows "wp (piperead pi a n) s es Q"
proof -
  let ?pt = "pagetable (pp s p)" and ?q = "pq.queue pi (mem s)"
  define good where "good i m \<longleftrightarrow> pq.bounded pi m \<and> pq.queue pi m = drop i ?q \<and> pipe_env ke m pi ?pt A \<and>
      (\<forall>v. uaddr m ?pt v = uaddr (mem s) ?pt v) \<and>
      (\<forall>w. ubyte m ?pt w = (if unat (w - a) < i then Some (?q ! unat (w - a)) else ubyte (mem s) ?pt w))" for i m
  have good0: "good 0 (mem s)" using b env by (simp add: good_def)
  have "length ?q \<le> PIPESIZE" using b by (simp add: pq.bounded_def pq.length_queue)
  also have "PIPESIZE < 2 ^ 64" by (simp add: PIPESIZE_def)
  finally have k64: "k < 2 ^ 64" by (simp add: k)
  have step: "good (Suc i) ((pipe_take pi m)(uaddr (pipe_take pi m) ?pt (PGROUNDDOWN (a + of_nat i)) + (a + of_nat i - PGROUNDDOWN (a + of_nat i)) :=
        m (pi + pi_data + of_nat (unat (ld32 m (pi + pi_nread)) mod PIPESIZE))))"
    "ld32 m (pi + pi_nread) \<noteq> ld32 m (pi + pi_nwrite)" "ptab (pipe_take pi m) ke 2 ?pt A"
    "uaddr (pipe_take pi m) ?pt (PGROUNDDOWN (a + of_nat i)) \<noteq> 0"
    if i: "i < k" and g: "good i m" for i m
  proof -
    have il: "i < length ?q" using i k by simp
    have q: "pq.queue pi m = ?q ! i # drop (Suc i) ?q" using g il by (simp add: good_def Cons_nth_drop_Suc)
    have e: "pipe_env ke m pi ?pt A" "pq.bounded pi m" using g by (simp_all add: good_def)
    have d: "uaddr m ?pt (PGROUNDDOWN (a + of_nat i)) \<noteq> 0" using g user [OF i] by (simp add: good_def)
    note st = piperead_step [OF e q d]
    show "good (Suc i) ((pipe_take pi m)(uaddr (pipe_take pi m) ?pt (PGROUNDDOWN (a + of_nat i)) + (a + of_nat i - PGROUNDDOWN (a + of_nat i)) :=
        m (pi + pi_data + of_nat (unat (ld32 m (pi + pi_nread)) mod PIPESIZE))))"
      unfolding good_def st(4) using st(1,2,3,5,6) g unat_less_Suc_iff [of i _ a] i k64
      by (auto simp: good_def)
    show "ld32 m (pi + pi_nread) \<noteq> ld32 m (pi + pi_nwrite)" using pq.empty_iff [of pi m] q by auto
    note f = pipe_env_frame(1) [OF e(1) pipe_outside(1)]
    show "ptab (pipe_take pi m) ke 2 ?pt A" using f by (simp add: pipe_env_def user_ok_def)
    show "uaddr (pipe_take pi m) ?pt (PGROUNDDOWN (a + of_nat i)) \<noteq> 0"
      using d pipe_env_frame(3) [OF e(1) pipe_outside(1)] by simp
  qed
  have emp: "\<not> (ld32 (mem s) (pi + pi_nread) = ld32 (mem s) (pi + pi_nwrite) \<and> ld32 (mem s) (pi + pi_writeopen) \<noteq> 0)"
    using ready pq.empty_iff [of pi "mem s"] by auto
  show ?thesis
    unfolding piperead_def wp_simps
    apply (rule wp_curproc [OF lk])
    apply (rule wp_acquire [where L = "[]" and P = P], simp, simp)
    subgoal for c0 st0 l0 c st l
    proof -
      assume l: "lkb [PipeLock pi] P (hart (s\<lparr>cpus := c0, sstatus := st0, locks := l0\<rparr>)) c st l"
      define I where "I i t fs \<longleftrightarrow> fs = es \<and> i \<le> k \<and> (\<exists>m. good i m \<and> t = s\<lparr>mem := m, cpus := c, sstatus := st, locks := l\<rparr>)"
        for i and t :: "'x proc_scheme" and fs
      show ?thesis
        apply (rule wp_piperead_wait, use emp in simp)
        unfolding wp_if not_True_eq_False if_False wp_simps
        apply (rule wp_iterM [where I = I and \<mu> = "\<lambda>i _ _. k - i"])
          apply (use good0 in \<open>auto simp: I_def intro!: exI [of _ "mem s"]\<close>) [1]
         apply (simp add: k)
        subgoal for i t fs
        proof -
          assume "I i t fs"
          then obtain m where g: "good i m" and t: "t = s\<lparr>mem := m, cpus := c, sstatus := st, locks := l\<rparr>" "fs = es" "i \<le> k"
            by (auto simp: I_def)
          show ?thesis
          proof (cases "i < k")
            case True
            then have lt: "int i < sint n" using k by (auto simp: zless_nat_eq_int_zless)
            note st = step [OF True g]
            have ne: "\<not> ld32 (mem t) (pi + pi_nread) = ld32 (mem t) (pi + pi_nwrite)" using st(2) t(1) by simp
            let ?m = "(pipe_take pi m)(uaddr (pipe_take pi m) ?pt (PGROUNDDOWN (a + of_nat i)) + (a + of_nat i - PGROUNDDOWN (a + of_nat i)) :=
              m (pi + pi_data + of_nat (unat (ld32 m (pi + pi_nread)) mod PIPESIZE)))"
            have "I (Suc i) (t\<lparr>mem := ?m\<rparr>) fs" unfolding I_def using st(1) True t by (intro conjI exI) simp_all
            moreover have "k - Suc i < k - i" using True by simp
            ultimately show ?thesis
              unfolding wp_if wp_simps wp_mem32 if_P [OF lt] if_not_P [OF ne] wp_pipe_misc
              apply -
              apply (rule wp_copyout1 [where ke = ke and A = A])
                apply (use st(3) t(1) in \<open>simp add: pipe_take_def\<close>)
               apply (use st(4) t(1) in \<open>simp add: pipe_take_def\<close>)
              using t by (simp add: pipe_take_def)
          next
            case False
            then have e: "i = k" using t by simp
            have fin: "wp (wakeup (ChanPipeWrite pi)) t fs (\<lambda>xa t fs. wp (release (PipeLock pi)) t fs (\<lambda>xa. Q (int k)))"
              apply (rule wp_wakeup [where L = "[PipeLock pi]" and P = P], use l t in simp, simp)
              apply (rule wp_release [where L = "[PipeLock pi]" and P = P], simp, simp)
              subgoal for c1 st1 l1 c2 st2 l2
                using Q [of c2 st2 l2 m] g e t lk(2) by (simp add: good_def)
              done
            show ?thesis
            proof (cases "int i < sint n")
              case True
              then have "length ?q \<le> i" using e k n by linarith
              then have "pq.queue pi m = []" using g by (simp add: good_def)
              then have eq: "ld32 (mem t) (pi + pi_nread) = ld32 (mem t) (pi + pi_nwrite)" using pq.empty_iff [of pi m] t(1) by simp
              show ?thesis unfolding wp_if wp_simps wp_mem32 if_P [OF True] if_P [OF eq] using fin e by simp
            next
              case False
              show ?thesis unfolding wp_if wp_simps if_not_P [OF False] using fin e by simp
            qed
          qed
        qed
        done
    qed
    done
qed

section \<open>Properties\<close>

text \<open>
  C8.  A pipe is a FIFO queue of bytes.  With room for them, \<open>pipewrite\<close> of \<open>n\<close> bytes returns
  \<open>n\<close> and appends the writer's bytes to the queue; \<open>piperead\<close> on a pipe that has bytes, or that no
  writer has open, returns as many bytes as there are, up to \<open>n\<close>, moved from the front of the
  queue to the reader's buffer in the same order, and touches nothing else of the reader's
  memory.
\<close>

theorem pipe_fifo:
  fixes s :: "'x proc_scheme"
  assumes pt_def: "pt = pagetable (pp s p)" and q_def: "q = pq.queue pi (mem s)"
    and "lkst [] P s" "P (hart s) = Some p" "pipe_env ke (mem s) pi (pagetable (pp s p)) A" "pq.bounded pi (mem s)" "0 \<le> sint n"
  shows "(\<not> killed (procs s p) \<and> ld32 (mem s) (pi + pi_readopen) \<noteq> 0 \<and> length q + nat (sint n) \<le> PIPESIZE \<and>
       ubytes (mem s) pt a (nat (sint n)) = Some bs \<longrightarrow>
     (\<exists>t. pipewrite pi a n s es = Done (sint n) t es \<and> pq.bounded pi (mem t) \<and> pq.queue pi (mem t) = q @ bs \<and>
       (\<forall>w. ubyte (mem t) pt w = ubyte (mem s) pt w))) \<and>
    ((q \<noteq> [] \<or> ld32 (mem s) (pi + pi_writeopen) = 0) \<and> k = min (nat (sint n)) (length q) \<and>
       (\<forall>i<k. ubyte (mem s) pt (a + of_nat i) \<noteq> None) \<longrightarrow>
     (\<exists>t. piperead pi a n s es = Done (int k) t es \<and> pq.bounded pi (mem t) \<and> pq.queue pi (mem t) = drop k q \<and>
       (\<forall>w. ubyte (mem t) pt w = (if unat (w - a) < k then Some (q ! unat (w - a)) else ubyte (mem s) pt w))))"
proof (intro conjI impI; elim conjE)
  note a = assms(3-7)
  assume w: "\<not> killed (procs s p)" "ld32 (mem s) (pi + pi_readopen) \<noteq> 0" "length q + nat (sint n) \<le> PIPESIZE"
    "ubytes (mem s) pt a (nat (sint n)) = Some bs"
  have u: "length bs = nat (sint n)" "\<And>i. i < length bs \<Longrightarrow> ubyte (mem s) (pagetable (pp s p)) (a + of_nat i) = Some (bs ! i)"
    using w(4) by (auto simp: ubytes_def pt_def split: if_splits)
  have "wp (pipewrite pi a n) s es (\<lambda>r t fs. r = sint n \<and> fs = es \<and> pq.bounded pi (mem t) \<and> pq.queue pi (mem t) = q @ bs \<and>
       (\<forall>w. ubyte (mem t) pt w = ubyte (mem s) pt w))"
  proof (rule wp_pipewrite [OF a(1,2) w(1,2) a(3,4,5) u(1)])
    fix m c st l assume m: "outside {pi} (mem s) m" "pq.bounded pi m" "pq.queue pi m = pq.queue pi (mem s) @ bs"
    show "sint n = sint n \<and> es = es \<and> pq.bounded pi (mem (s\<lparr>mem := m, procs := wake (ChanPipeRead pi) {p. p < NPROC} (Some p) (procs s),
        cpus := c, sstatus := st, locks := l\<rparr>)) \<and> pq.queue pi (mem (s\<lparr>mem := m, procs := wake (ChanPipeRead pi) {p. p < NPROC} (Some p) (procs s),
        cpus := c, sstatus := st, locks := l\<rparr>)) = q @ bs \<and> (\<forall>w. ubyte (mem (s\<lparr>mem := m, procs := wake (ChanPipeRead pi) {p. p < NPROC} (Some p) (procs s),
        cpus := c, sstatus := st, locks := l\<rparr>)) pt w = ubyte (mem s) pt w)"
      using m pipe_env_frame(2) [OF a(3) m(1)] by (simp add: q_def pt_def)
  qed (use w u in \<open>simp_all add: q_def\<close>)
  then show "\<exists>t. pipewrite pi a n s es = Done (sint n) t es \<and> pq.bounded pi (mem t) \<and> pq.queue pi (mem t) = q @ bs \<and>
       (\<forall>w. ubyte (mem t) pt w = ubyte (mem s) pt w)" unfolding wp_iff by blast
next
  note a = assms(3-7)
  assume r: "q \<noteq> [] \<or> ld32 (mem s) (pi + pi_writeopen) = 0" "k = min (nat (sint n)) (length q)"
    "\<forall>i<k. ubyte (mem s) pt (a + of_nat i) \<noteq> None"
  have u: "uaddr (mem s) (pagetable (pp s p)) (PGROUNDDOWN (a + of_nat i)) \<noteq> 0" if "i < k" for i
    using r(3) that by (auto simp: ubyte_def Let_def pt_def split: if_splits)
  have "wp (piperead pi a n) s es (\<lambda>r t fs. r = int k \<and> fs = es \<and> pq.bounded pi (mem t) \<and> pq.queue pi (mem t) = drop k q \<and>
       (\<forall>w. ubyte (mem t) pt w = (if unat (w - a) < k then Some (q ! unat (w - a)) else ubyte (mem s) pt w)))"
    by (rule wp_piperead [OF a(1,2) r(1) [unfolded q_def] a(3,4,5) r(2) [unfolded q_def] u]) (auto simp: q_def pt_def)
  then show "\<exists>t. piperead pi a n s es = Done (int k) t es \<and> pq.bounded pi (mem t) \<and> pq.queue pi (mem t) = drop k q \<and>
       (\<forall>w. ubyte (mem t) pt w = (if unat (w - a) < k then Some (q ! unat (w - a)) else ubyte (mem s) pt w))"
    unfolding wp_iff by blast
qed

definition demo_pi :: addr where "demo_pi = 0x80000000"

definition demo_pipe :: memory where
  "demo_pipe x = (if in_page demo_pi x then (if x = demo_pi + pi_readopen then 1 else 0) else demo_m3 x)"

lemma demo_pipe_env:
  "\<exists>A. pipe_env 0x87ff0000 demo_pipe demo_pi 0x87fff000 A" "uaddr demo_pipe 0x87fff000 v = uaddr demo_m3 0x87fff000 v"
proof -
  obtain A where A: "user_ok 0x87ff0000 demo_m3 0x87fff000 A" using demo_user_ok by auto
  have al: "aligned demo_pi" by (simp add: aligned_def PGSIZE_def demo_pi_def)
  have "demo_pi \<notin> A"
    using ptab_valid [of demo_m3 "0x87ff0000" 2 "0x87fff000" A demo_pi] A by (auto simp: user_ok_def valid_page_def demo_pi_def)
  then have "pipe_env 0x87ff0000 demo_m3 demo_pi 0x87fff000 A" using A al by (auto simp: pipe_env_def demo_uaddr demo_pi_def)
  moreover have "outside {demo_pi} demo_m3 demo_pipe" by (auto simp: outside_def demo_pipe_def)
  ultimately show "\<exists>A. pipe_env 0x87ff0000 demo_pipe demo_pi 0x87fff000 A" "uaddr demo_pipe 0x87fff000 v = uaddr demo_m3 0x87fff000 v"
    using pipe_env_frame by blast+
qed

lemma demo_pipe_bytes: "i < 4000 \<Longrightarrow> demo_pipe (demo_pi + of_nat i) = (if i = 544 then 1 else 0)"
  using in_page_offset [of i demo_pi] data_eq [of i 544 demo_pi] by (simp add: demo_pipe_def pipe_offsets)

lemma demo_pipe_fields:
  "d + 4 \<le> 544 \<Longrightarrow> ld32 demo_pipe (demo_pi + of_nat d) = 0" "ld32 demo_pipe (demo_pi + of_nat 544) = 1"
proof -
  assume "d + 4 \<le> 544"
  then have "bytes demo_pipe (demo_pi + of_nat d) 4 = replicate 4 0"
    using demo_pipe_bytes [of "d + _"] by (intro nth_equalityI) (simp_all add: bytes_def add.assoc)
  then show "ld32 demo_pipe (demo_pi + of_nat d) = 0" by (simp add: ld32_def numeral_eq_Suc)
next
  have "bytes demo_pipe (demo_pi + of_nat 544) 4 = 1 # replicate 3 0"
    using demo_pipe_bytes [of "544 + _"]
    by (intro nth_equalityI) (auto simp: bytes_def add.assoc nth_Cons' simp del: of_nat_numeral)
  then show "ld32 demo_pipe (demo_pi + of_nat 544) = 1" by (simp add: ld32_def numeral_eq_Suc)
qed

lemma pipe_fifo_witness:
  "\<exists>s :: proc. mem s = demo_pipe \<and> (\<exists>t bs. pipewrite demo_pi 0x10 3 s [] = Done 3 t [] \<and> length bs = 3 \<and>
     ubytes demo_pipe 0x87fff000 0x10 3 = Some bs \<and> pq.queue demo_pi (mem t) = bs)"
proof -
  let ?s = "demo_pm\<lparr>mem := demo_pipe, pp := (\<lambda>_. demo_pproc\<lparr>pagetable := 0x87fff000\<rparr>)\<rparr>"
  obtain A where env: "pipe_env 0x87ff0000 demo_pipe demo_pi 0x87fff000 A" using demo_pipe_env by blast
  have q: "pq.queue demo_pi demo_pipe = []" "pq.bounded demo_pi demo_pipe"
    unfolding pq.queue_def pq.bounded_def using demo_pipe_fields(1) [of 536] demo_pipe_fields(1) [of 540]
    by (simp_all add: pipe_offsets)
  have ro: "ld32 demo_pipe (demo_pi + pi_readopen) \<noteq> 0" unfolding pipe_offsets demo_pipe_fields(2) by simp
  have three: "length ([] :: byte list) + nat (sint (3 :: 32 word)) \<le> PIPESIZE" "0 \<le> sint (3 :: 32 word)"
    by (simp_all add: PIPESIZE_def)
  have "ubyte demo_pipe 0x87fff000 (0x10 + of_nat i) \<noteq> None" if "i < 3" for i
  proof -
    have "unat (0x10 + of_nat i :: addr) = 0x10 + i" using that by (simp add: unat_add_of_nat)
    then have "unat (PGROUNDDOWN (0x10 + of_nat i)) = 0" using that by (simp add: unat_PGROUNDDOWN)
    then have "PGROUNDDOWN (0x10 + of_nat i) = 0" by (simp add: unat_eq_0)
    then show ?thesis by (simp add: ubyte_def demo_pipe_env(2) demo_uaddr PGROUNDDOWN_def MAXVA_def)
  qed
  then obtain bs where bs: "ubytes demo_pipe 0x87fff000 0x10 3 = Some bs" "length bs = 3"
    by (auto simp: ubytes_def)
  have lk: "lkst [] demo_P ?s" using demo_pm_lkst by simp
  have "\<exists>t. pipewrite demo_pi 0x10 3 ?s [] = Done (sint (3 :: 32 word)) t [] \<and> pq.bounded demo_pi (mem t) \<and>
      pq.queue demo_pi (mem t) = [] @ bs \<and> (\<forall>w. ubyte (mem t) 0x87fff000 w = ubyte (mem ?s) 0x87fff000 w)"
    by (rule pipe_fifo [where P = demo_P and p = 1 and ke = "0x87ff0000" and A = A, THEN conjunct1, THEN mp])
       (use lk env q bs ro three in \<open>simp_all add: demo_proc_def\<close>)
  then show ?thesis using bs by (intro exI [of _ ?s]) auto
qed

end
