(* ===== verification/Procs.thy ===== *)
theory Procs
  imports Procmem
begin

text \<open>
  The process table under \<open>kill\<close> and \<open>allocproc\<close> (\<^verbatim>\<open>kernel/proc.c\<close>).  A slot that is not in
  use has pid 0, which \<open>kill\<close> does not exclude; the mark it leaves there outlives the
  allocation of the slot, since \<open>allocproc\<close> resets nothing but the pid and the state.
\<close>

section \<open>What a run leaves alone\<close>

text \<open>
  \<open>keeps f m\<close>: a run of \<open>m\<close> that nothing interrupts, and that returns, leaves the part of the
  state that \<open>f\<close> reads as it was.
\<close>

named_theorems keeps_rules

definition keeps :: "('s \<Rightarrow> 'b) \<Rightarrow> ('s, 'a) M \<Rightarrow> bool" where
  "keeps f m \<longleftrightarrow> (\<forall>s x t fs. m s [] = Done x t fs \<longrightarrow> f t = f s \<and> fs = [])"

lemma keepsD: "keeps f m \<Longrightarrow> m s [] = Done x t fs \<Longrightarrow> f t = f s \<and> fs = []"
  unfolding keeps_def by blast

lemma keeps_doM [keeps_rules]:
  assumes m: "keeps f m" and k: "\<And>x. keeps f (k x)"
  shows "keeps f (doM m k)"
  unfolding keeps_def
proof (intro allI impI)
  fix s y u hs assume "doM m k s [] = Done y u hs"
  then obtain x t fs where "m s [] = Done x t fs" "k x t fs = Done y u hs" by (rule doM_DoneE)
  with m k show "f u = f s \<and> hs = []" unfolding keeps_def by metis
qed

lemma keeps_return [keeps_rules]: "keeps f (returnM x)"
  by (simp add: keeps_def returnM_def)

lemma keeps_panic [keeps_rules]: "keeps f (panic msg)"
  by (simp add: keeps_def panic_def)

lemma keeps_stuck [keeps_rules]: "keeps f (\<lambda>s es. Stuck s)"
  by (simp add: keeps_def)

lemma keeps_gets [keeps_rules]: "keeps f (getsM g)"
  by (simp add: keeps_def getsM_def)

lemma keeps_modify: "(\<And>s. f (g s) = f s) \<Longrightarrow> keeps f (modifyM g)"
  by (simp add: keeps_def modifyM_def)

lemma keeps_if [keeps_rules]: "keeps f m \<Longrightarrow> keeps f n \<Longrightarrow> keeps f (if b then m else n)"
  by simp

lemma keeps_when [keeps_rules]: "keeps f m \<Longrightarrow> keeps f (whenM b m)"
  by (simp add: whenM_def keeps_return)

lemma keeps_seq [keeps_rules]: "list_all (keeps f) ms \<Longrightarrow> keeps f (seqM ms)"
  by (induction ms rule: seqM.induct) (auto intro!: keeps_rules)

lemma keeps_for: "(\<And>i. keeps f (b i)) \<Longrightarrow> keeps f (forM xs b)"
  by (induction xs) (auto intro!: keeps_rules)

lemma keeps_iter: "(\<And>v. keeps f (b v)) \<Longrightarrow> keeps f (iterM n b v)"
  by (induction n arbitrary: v) (auto intro!: keeps_rules split: sum.split)

section \<open>Nothing below \<open>allocproc\<close> touches the process table\<close>

lemma keeps_upd_proc: "(\<And>q. killed (g q) = killed q) \<Longrightarrow> keeps (\<lambda>s. killed (procs s p)) (upd_proc p' g)"
  unfolding upd_proc_def by (rule keeps_modify) simp

lemma keeps_upd_pp [keeps_rules]: "keeps procs (upd_pp p g)"
  unfolding upd_pp_def by (rule keeps_modify) simp

lemma keeps_procs: "keeps procs m \<Longrightarrow> keeps (\<lambda>s. killed (procs s p)) m"
  unfolding keeps_def by metis

lemma keeps_acquire [keeps_rules]: "keeps procs (acquire l)"
proof -
  have "keeps procs (tas_loop l)" by (simp add: keeps_def upd_lock_def)
  then show ?thesis
    unfolding acquire_def push_off_def holding_def cpu_defs intr_defs upd_lock_def
    by (auto intro!: keeps_rules keeps_modify)
qed

lemma keeps_release [keeps_rules]: "keeps procs (release l)"
  unfolding release_def pop_off_def holding_def cpu_defs intr_defs upd_lock_def
  by (auto intro!: keeps_rules keeps_modify)

lemma keeps_mem [keeps_rules]:
  "keeps procs (upd_mem g)" "keeps procs (store64 a v)" "keeps procs (load64 a)"
  unfolding store64_def upd_mem_def load64_def by (auto intro!: keeps_rules keeps_modify)

lemma keeps_kalloc [keeps_rules]: "keeps procs kalloc"
  unfolding kalloc_def by (auto intro!: keeps_rules keeps_modify)

lemma keeps_kfree [keeps_rules]: "keeps procs (kfree pa)"
  unfolding kfree_def by (auto intro!: keeps_rules keeps_modify)

lemma keeps_walk_levels: "keeps procs (walk_levels n pt va alloc)"
  by (induction n arbitrary: pt) (auto intro!: keeps_rules)

lemma keeps_vm [keeps_rules]:
  "keeps procs (walk pt va alloc)" "keeps procs (mappages pt va sz pa perm)"
  "keeps procs (uvmunmap pt va n b)"
  unfolding mappages_def uvmunmap_def walk_def Let_def
  by (auto intro!: keeps_rules keeps_iter keeps_walk_levels)

lemma keeps_freewalk [keeps_rules]: "keeps procs (freewalk n pt)"
  by (induction n arbitrary: pt) (auto intro!: keeps_rules keeps_for simp del: upt.simps)

lemma keeps_proc_pagetable [keeps_rules]: "keeps procs (proc_pagetable p)"
  unfolding proc_pagetable_def uvmcreate_def zero_page_def uvmfree_def get_pp_def
  by (auto intro!: keeps_rules)

section \<open>Allocating a slot\<close>

text \<open>The loop of \<open>allocproc\<close> takes the first slot that is not in use, and locks it.\<close>

lemma wp_find_unused:
  fixes s :: "'x sched_scheme"
  assumes lk: "lkst L P s" "\<And>q. ProcLock q \<notin> set L"
    and p: "p < NPROC" "pstate (procs s p) = UNUSED" "\<And>q. q < p \<Longrightarrow> pstate (procs s q) \<noteq> UNUSED"
    and Q: "\<And>c st l. lkb (ProcLock p # L) P (hart s) c st l \<Longrightarrow> Q (Some p) (s\<lparr>cpus := c, sstatus := st, locks := l\<rparr>) es"
  shows "wp find_unused s es Q"
proof -
  define I where "I ds t fs \<longleftrightarrow> fs = es \<and> length ds \<le> p \<and>
      (\<exists>c st l. t = s\<lparr>cpus := c, sstatus := st, locks := l\<rparr> \<and> lkb L P (hart s) c st l)"
    for ds :: "nat list" and t fs
  show ?thesis
    unfolding find_unused_def
  proof (rule wp_exitM_inv [where I = I], goal_cases)
    case 1 show ?case using lk(1) unfolding I_def
      by (intro conjI exI [of _ "cpus s"] exI [of _ "sstatus s"] exI [of _ "locks s"]) simp_all
  next
    case (2 ds i rest t fs)
    have i: "i = length ds" using arg_cong [OF 2(1), of "\<lambda>xs. xs ! length ds"] arg_cong [OF 2(1), of length] by simp
    from 2(2) obtain c st l where t: "t = s\<lparr>cpus := c, sstatus := st, locks := l\<rparr>" "fs = es" "length ds \<le> p"
      and lkt: "lkst L P t" unfolding I_def by auto
    show ?case
    proof (cases "i = p")
      case True
      show ?thesis
        unfolding wp_simps
        by (rule wp_acquire [OF lkt lk(2)]) (use p(2) Q True in \<open>simp add: t\<close>)
    next
      case False
      then have n: "pstate (procs s i) \<noteq> UNUSED" "Suc i \<le> p" using t(3) p(3) i by simp_all
      show ?thesis
        unfolding wp_simps
        apply (rule wp_acquire [OF lkt lk(2)], simp add: t n)
        apply (rule wp_release, simp, simp)
        using n i by (auto simp: I_def t)
    qed
  next
    case (3 t fs)
    then show ?case using p(1) by (simp add: I_def)
  qed
qed

text \<open>
  The rest of \<open>allocproc\<close> leaves the mark of \<open>kill\<close> on the slot it found: the branches that
  return the slot keep it, the others return null.
\<close>

definition keeps_some :: "('s \<Rightarrow> 'b) \<Rightarrow> 'a \<Rightarrow> ('s, 'a option) M \<Rightarrow> bool" where
  "keeps_some f p m \<longleftrightarrow> (\<forall>s x t fs. m s [] = Done (Some x) t fs \<longrightarrow> x = p \<and> f t = f s)"

lemma keeps_some_rules:
  "keeps f m \<Longrightarrow> (\<And>x. keeps_some f p (k x)) \<Longrightarrow> keeps_some f p (doM m k)"
  "keeps_some f p a \<Longrightarrow> keeps_some f p b \<Longrightarrow> keeps_some f p (if c then a else b)"
  "keeps_some f p (doM d (\<lambda>_. doM e (\<lambda>_. returnM None)))"
  "keeps_some f p (returnM (Some p))"
proof -
  show "keeps_some f p (doM m k)" if "keeps f m" "\<And>x. keeps_some f p (k x)"
    unfolding keeps_some_def
  proof (intro allI impI)
    fix s x u hs assume "doM m k s [] = Done (Some x) u hs"
    then obtain y t fs where "m s [] = Done y t fs" "k y t fs = Done (Some x) u hs" by (rule doM_DoneE)
    with that show "x = p \<and> f u = f s" unfolding keeps_def keeps_some_def by metis
  qed
qed (auto simp: keeps_some_def case_res_Done)

lemma allocproc_split:
  "\<exists>k. (allocproc :: ('x proc_scheme, nat option) M) =
        doM find_unused (\<lambda>po. case po of None \<Rightarrow> returnM None | Some p \<Rightarrow> k p) \<and>
      (\<forall>p. keeps_some (\<lambda>s. killed (procs s p)) p (k p))"
proof -
  have i: "keeps (\<lambda>s. killed (procs s p)) allocpid" for p
    unfolding allocpid_def by (rule keeps_procs) (auto intro!: keeps_rules keeps_modify)
  show ?thesis
    unfolding allocproc_def
    by (rule exI, rule conjI, rule refl)
      (rule allI, (rule keeps_some_rules(3) | rule keeps_some_rules(1,2,4) i keeps_upd_proc keeps_gets
          keeps_procs [OF keeps_kalloc] keeps_procs [OF keeps_upd_pp] keeps_procs [OF keeps_proc_pagetable] | simp)+)
qed

lemma allocproc_killed:
  fixes s t u :: "'x proc_scheme"
  assumes f: "find_unused s [] = Done (Some p) t []" and a: "allocproc s [] = Done (Some q) u fs"
  shows "q = p \<and> killed (procs u p) = killed (procs t p)"
proof -
  from allocproc_split obtain k where "(allocproc :: ('x proc_scheme, nat option) M) = doM find_unused (\<lambda>po. case po of None \<Rightarrow> returnM None | Some p \<Rightarrow> k p)"
    (is "_ = ?a") and k: "\<And>p. keeps_some (\<lambda>s. killed (procs s p)) p (k p)"
    by blast
  from fun_cong [OF fun_cong [OF this(1)], of s "[]"] have "?a s [] = Done (Some q) u fs" using a by argo
  then have "k p t [] = Done (Some q) u fs" using f by simp
  with k [of p] show ?thesis unfolding keeps_some_def by blast
qed

section \<open>Property\<close>

text \<open>
  C19.  \<open>kill(0)\<close> succeeds and marks a slot that is not in use: freed slots have pid 0.  The
  mark is not cleared when the slot is allocated, so the next process \<open>allocproc\<close> makes is
  killed from the start.
\<close>

theorem kill_zero_condemns_next_process:
  assumes "lkst [] P s" "p < NPROC" "pstate (procs s p) = UNUSED" "pid (procs s p) = 0"
    and "\<forall>q<p. pstate (procs s q) \<noteq> UNUSED \<and> pid (procs s q) \<noteq> 0"
  shows "\<exists>t. kill 0 s [] = Done 0 t [] \<and> killed (procs t p) \<and>
     (\<exists>u. find_unused t [] = Done (Some p) u [] \<and> killed (procs u p)) \<and>
     (\<forall>q u fs. allocproc t [] = Done (Some q) u fs \<longrightarrow> q = p \<and> killed (procs u q))"
proof -
  have f: "List.find (\<lambda>p. pid (procs s p) = 0) [0..<NPROC] = Some p"
    unfolding find_Some_iff by (rule exI [of _ p]) (use assms(2,4,5) in simp)
  have "wp (kill 0) s [] (\<lambda>x t fs. x = 0 \<and> fs = [] \<and> lkst [] P t \<and> procs t = (procs s)(p := mark_killed (procs s p)))"
    unfolding kill_def by (rule wp_kill_loop [OF assms(1)]) (simp_all add: f)
  then obtain t where t: "kill 0 s [] = Done 0 t []" "lkst [] P t" "procs t = (procs s)(p := mark_killed (procs s p))"
    by (auto simp: wp_iff)
  then have k: "killed (procs t p)" by (simp add: mark_killed_def)
  have "wp find_unused t [] (\<lambda>x u fs. x = Some p \<and> fs = [] \<and> procs u = procs t)"
    by (rule wp_find_unused [OF t(2)]) (use assms t(3) in \<open>auto simp: mark_killed_def\<close>)
  then obtain u where u: "find_unused t [] = Done (Some p) u []" "procs u = procs t" by (auto simp: wp_iff)
  have "q = p \<and> killed (procs v q)" if "allocproc t [] = Done (Some q) v fs" for q v fs
    using allocproc_killed [OF u(1) that] u(2) k by simp
  then show ?thesis
    using t(1) k u by (intro exI [of _ t]) auto
qed

lemma kill_zero_condemns_next_process_witness:
  "lkst [] demo_P demo_pm \<and> pstate (procs demo_pm 0) = UNUSED \<and>
   (\<exists>t. kill 0 demo_pm [] = Done 0 t [] \<and> killed (procs t 0) \<and>
     (\<exists>u. find_unused t [] = Done (Some 0) u [] \<and> killed (procs u 0)))"
proof -
  have "pstate (procs demo_pm 0) = UNUSED" "pid (procs demo_pm 0) = 0" by (simp_all add: demo_proc_def)
  with kill_zero_condemns_next_process [OF demo_pm_lkst, of 0] demo_pm_lkst show ?thesis
    unfolding NPROC_def by (simp del: demo_pm_fields) blast
qed

end
