(* ===== verification/Inode.thy ===== *)
theory Inode
  imports Fs
begin

text \<open>
  Inodes as files: what \<open>bmap\<close>, \<open>readi\<close> and \<open>writei\<close> of \<^verbatim>\<open>kernel/fs.c\<close> do to the sequence of
  bytes that an inode stands for, over the cache as a map from block numbers to contents
  (theory \<open>Bcache\<close>).
\<close>

section \<open>The file of an inode\<close>

text \<open>The block of the disk that holds block \<open>bn\<close> of the file, through the indirect block.\<close>

definition blk_addr :: "(32 word \<Rightarrow> byte list) \<Rightarrow> inode \<Rightarrow> nat \<Rightarrow> 32 word" where
  "blk_addr C d bn = (if bn < NDIRECT then addrs d bn else rd32 (C (addrs d NDIRECT)) (4 * (bn - NDIRECT)))"

definition blk_mapped :: "(32 word \<Rightarrow> byte list) \<Rightarrow> inode \<Rightarrow> nat \<Rightarrow> bool" where
  "blk_mapped C d bn \<longleftrightarrow> bn < MAXFILE \<and> blk_addr C d bn \<noteq> 0 \<and> (NDIRECT \<le> bn \<longrightarrow> addrs d NDIRECT \<noteq> 0)"

definition fbyte :: "(32 word \<Rightarrow> byte list) \<Rightarrow> inode \<Rightarrow> nat \<Rightarrow> byte" where
  "fbyte C d i = C (blk_addr C d (i div BSIZE)) ! (i mod BSIZE)"

definition fbytes :: "(32 word \<Rightarrow> byte list) \<Rightarrow> inode \<Rightarrow> nat \<Rightarrow> nat \<Rightarrow> byte list" where
  "fbytes C d off n = map (fbyte C d) [off..<off + n]"

text \<open>A well-formed file: no larger than the format allows, and every block below its size is there.\<close>

definition file_ok :: "(32 word \<Rightarrow> byte list) \<Rightarrow> inode \<Rightarrow> bool" where
  "file_ok C d \<longleftrightarrow> unat (isize d) \<le> MAXFILE * BSIZE \<and> (\<forall>bn. bn * BSIZE < unat (isize d) \<longrightarrow> blk_mapped C d bn) \<and>
     (\<forall>n. length (C n) = BSIZE)"

text \<open>There is a buffer to spare, and no count is about to wrap.\<close>

definition spare :: "(32 word \<Rightarrow> nat) \<Rightarrow> bool" where
  "spare R \<longleftrightarrow> card {m. R m \<noteq> 0} < NBUF \<and> (\<forall>m. R m < 2 ^ 32 - 1)"

lemma length_fbytes [simp]: "length (fbytes C d off n) = n"
  by (simp add: fbytes_def)

lemma fbytes_append: "fbytes C d off (i + j) = fbytes C d off i @ fbytes C d (off + i) j"
  using upt_add_eq_append [of off "off + i" j] by (simp add: fbytes_def add.assoc)

lemma BSIZE_1024: "BSIZE = 1024"
  by (simp add: BSIZE_def)

lemma block_offset:
  assumes "off mod B + i < (B :: nat)"
  shows "(off + i) div B = off div B \<and> (off + i) mod B = off mod B + i"
proof -
  obtain q r where e: "off div B = q" "off mod B = r" "off = r + B * q" by (metis mod_mult_div_eq)
  then have "off + i = (r + i) + B * q" "r + i < B" using assms by simp_all
  then show ?thesis unfolding e(1,2) by (simp only:) simp
qed

lemma fbytes_in_block:
  assumes "off mod BSIZE + n \<le> BSIZE" "length (C (blk_addr C d (off div BSIZE))) = BSIZE"
  shows "slice (C (blk_addr C d (off div BSIZE))) (off mod BSIZE) n = fbytes C d off n"
proof (rule nth_equalityI)
  show "length (slice (C (blk_addr C d (off div BSIZE))) (off mod BSIZE) n) = length (fbytes C d off n)"
    using assms by (simp add: slice_def)
  fix i assume "i < length (slice (C (blk_addr C d (off div BSIZE))) (off mod BSIZE) n)"
  then have i: "i < n" by (simp add: slice_def)
  then have "off mod BSIZE + i < BSIZE" using assms(1) by simp
  note block_offset [OF this]
  then show "slice (C (blk_addr C d (off div BSIZE))) (off mod BSIZE) n ! i = fbytes C d off n ! i"
    using i assms by (simp add: slice_def fbytes_def fbyte_def)
qed

section \<open>Rules\<close>

lemma wp_inode [simp]:
  "wp (get_inode i) s es Q = Q (inodes s i) s es"
  "wp (upd_inode i f) s es R = R () (s\<lparr>inodes := (inodes s)(i := f (inodes s i))\<rparr>) es"
  "wp get_sb s es S = S (sb s) s es"
  by (simp_all add: get_inode_def upd_inode_def get_sb_def)

lemma bframe_fs:
  assumes "bframe s t" shows "inodes t = inodes s" "sb t = sb s" "log t = log s"
proof -
  have t: "t = s\<lparr>procs := procs t, slocks := slocks t, bufs := bufs t, disk := disk t, wlog := wlog t,
      cpus := cpus t, sstatus := sstatus t, locks := locks t\<rparr>" using assms unfolding bframe_def by blast
  show "inodes t = inodes s" by (subst t) simp
  show "sb t = sb s" by (subst t) simp
  show "log t = log s" by (subst t) simp
qed

text \<open>A block is read, looked at and released: the cache is as before.\<close>

lemma wp_peek:
  assumes bst: "bstate L P p dv C R H s" and L: "cache_locks_free L" and a: "a \<notin> H" "spare R"
    and m: "\<And>b t. bframe s t \<Longrightarrow> bstate L P p dv C (R(a := R a + 1)) (insert a H) t \<Longrightarrow> at_buf (bufs t) dv a b \<Longrightarrow>
      bdata (bufs t b) = C a \<Longrightarrow>
      wp (m b) t es (\<lambda>x u fs. bstate L P p dv C (R(a := R a + 1)) (insert a H) u \<and> at_buf (bufs u) dv a b \<and> disk u = disk t \<and>
        (\<forall>v. bframe u v \<longrightarrow> bstate L P p dv C R H v \<longrightarrow> wp (k x) v fs Q))"
  shows "wp (doM (bread dv a) (\<lambda>b. doM (m b) (\<lambda>x. doM (brelse b) (\<lambda>_. k x)))) s es Q"
proof -
  have clean: "C a = disk s a" if "R a = 0" using cache_okD(7) [OF bstateD(3) [OF bst] that] .
  show ?thesis
    unfolding wp_simps
  proof (rule wp_bread [OF bst L a(1)], goal_cases)
    case 1 then show ?case using a(2) by (simp add: spare_def)
  next
    case 2 then show ?case using a(2) by (simp add: spare_def)
  next
    case (3 b t)
    have "bdata (bufs t b) = C a" using cache_held(5) [OF bstateD(3) [OF 3(2)] _ 3(3)] by simp
    from m [OF 3(1,2,3) this] show ?case
    proof (rule wp_mono, goal_cases)
      case (1 x u fs)
      then have u: "bstate L P p dv C (R(a := R a + 1)) (insert a H) u" "at_buf (bufs u) dv a b" "disk u = disk s"
        and v: "\<And>v. bframe u v \<Longrightarrow> bstate L P p dv C R H v \<Longrightarrow> wp (k x) v fs Q" using 3(5) by auto
      show ?case
      proof (rule wp_brelse [OF u(1) L _ u(2)], goal_cases)
        case 2 then show ?case using clean u(3) by simp
      next
        case (3 v)
        from 3(2) have "bstate L P p dv C R H v" by (rule bstate_eq) (use a in auto)
        then show ?case using v 3(1) by blast
      qed simp
    qed
  qed
qed

lemma wp_bmap:
  assumes bst: "bstate L P p dv C R H s" and L: "cache_locks_free L"
    and d: "inodes s ip = d" "idev d = dv" "blk_mapped C d (unat bn)"
    and ind: "NDIRECT \<le> unat bn \<Longrightarrow> addrs d NDIRECT \<notin> H" "spare R"
    and Q: "\<And>t. bframe s t \<Longrightarrow> bstate L P p dv C R H t \<Longrightarrow> Q (blk_addr C d (unat bn)) t es"
  shows "wp (bmap ip bn) s es Q"
proof (cases "unat bn < NDIRECT")
  case True
  then have "addrs d (unat bn) \<noteq> 0" using d(3) by (simp add: blk_mapped_def blk_addr_def)
  then show ?thesis
    unfolding bmap_def if_P [OF True] using Q [OF bframe_refl bst] True d(1) by (simp add: blk_addr_def)
next
  case False
  let ?bi = "unat bn - NDIRECT" and ?ia = "addrs d NDIRECT"
  have m: "?bi < NINDIRECT" "?ia \<noteq> 0" "rd32 (C ?ia) (4 * ?bi) \<noteq> 0" "blk_addr C d (unat bn) = rd32 (C ?ia) (4 * ?bi)"
    using d(3) False by (auto simp: blk_mapped_def blk_addr_def MAXFILE_def)
  have "wp (doM (bread dv ?ia) (\<lambda>bp. doM (doM (get_buf bp) (\<lambda>b.
          if rd32 (bdata b) (4 * ?bi) = 0 then
                 doM (balloc (idev d)) (\<lambda>a.
                 doM (upd_buf bp (\<lambda>b. b\<lparr>bdata := wr32 (bdata b) (4 * ?bi) a\<rparr>)) (\<lambda>_.
                 doM (log_write bp) (\<lambda>_.
                 returnM a)))
               else returnM (rd32 (bdata b) (4 * ?bi)))) (\<lambda>a. doM (brelse bp) (\<lambda>_. returnM a)))) s es Q"
  proof (rule wp_peek [OF bst L _ ind(2)], goal_cases)
    case 1 then show ?case using ind(1) False by simp
  next
    case (2 b t)
    have q: "Q (rd32 (C ?ia) (4 * ?bi)) v es" if "bframe t v" "bstate L P p dv C R H v" for v
      using Q [OF bframe_trans [OF 2(1) that(1)] that(2)] m(4) by simp
    show ?case
      using m(3) 2 q by (simp add: wp_buf)
  qed
  then show ?thesis
    unfolding bmap_def if_not_P [OF False] Let_def if_P [OF m(1)] wp_simps wp_inode wp_buf d(1,2) if_not_P [OF m(2)] .
qed

section \<open>Reading\<close>

lemma loc_plus_0 [simp]: "loc_plus l 0 = l"
  by (cases l) simp_all

lemma loc_plus_plus: "loc_plus (loc_plus l i) j = loc_plus l (i + j)"
  by (cases l) simp_all

lemma if_doM: "(if b then doM m (\<lambda>_. x) else doM m (\<lambda>_. y)) = doM m (\<lambda>_. if b then x else y)"
  by simp

lemma unat_BSIZE [simp]: "unat (of_nat BSIZE :: 32 word) = BSIZE"
  by (simp add: BSIZE_1024)

lemma add_wraps: "a + b < a \<longleftrightarrow> 2 ^ 32 \<le> unat a + unat b" for a b :: "32 word"
proof -
  have b: "unat a < 2 ^ 32" "unat b < 2 ^ 32" using unsigned_less [of a] unsigned_less [of b] by simp_all
  then have "unat (a + b) = (if 2 ^ 32 \<le> unat a + unat b then unat a + unat b - 2 ^ 32 else unat a + unat b)"
    by (simp add: unat_word_ariths le_mod_geq)
  then show ?thesis using b unfolding word_less_nat_alt by auto
qed

lemma sint_of_nat32: "n < 2 ^ 31 \<Longrightarrow> sint (of_nat n :: 32 word) = int n"
  by (simp add: signed_of_nat signed_take_bit_int_eq_self)

lemma unat_chunk:
  assumes "unat tot \<le> unat n"
  shows "unat (chunk n tot off) = min (unat n - unat tot) (BSIZE - unat off mod BSIZE)"
proof -
  have 1: "unat (n - tot) = unat n - unat tot" using assms by (simp add: unat_sub word_le_nat_alt)
  have m: "unat (off mod of_nat BSIZE) = unat off mod BSIZE" by (simp add: unat_mod_distrib)
  have "off mod of_nat BSIZE \<le> of_nat BSIZE" unfolding word_le_nat_alt m by (simp add: BSIZE_1024 less_imp_le)
  then have 2: "unat (of_nat BSIZE - off mod of_nat BSIZE) = BSIZE - unat off mod BSIZE" by (simp add: unat_sub m)
  show ?thesis unfolding chunk_def min_def word_le_nat_alt 1 2 by (simp add: 1 2)
qed

text \<open>One turn of the loop of \<open>readi\<close>: what is copied out is a part of the block.\<close>

lemma wp_read_block:
  fixes t :: "'x fs_scheme"
  assumes bst: "bstate L P p dv C R {} t" and L: "cache_locks_free L"
    and d: "inodes t ip = d" "idev d = dv" "blk_mapped C d (unat bn)" "spare R"
    and xs: "slice (C (blk_addr C d (unat bn))) i m = xs"
    and J: "\<And>u. bframe t u \<Longrightarrow> J u"
    and copy: "\<And>w. J w \<Longrightarrow> lkst L P w \<Longrightarrow> P (hart w) = Some p \<Longrightarrow> inodes w = inodes t \<Longrightarrow>
      wp (either_copyout l xs) w es (\<lambda>r u fs. r = 0 \<and> fs = es \<and> J' u \<and> lkst L P u \<and>
        hart u = hart w \<and> procs u = procs w \<and> slocks u = slocks w \<and> bufs u = bufs w \<and> disk u = disk w \<and> inodes u = inodes w)"
    and Q: "\<And>u v. J' u \<Longrightarrow> bframe u v \<Longrightarrow> bstate L P p dv C R {} v \<Longrightarrow> inodes v = inodes t \<Longrightarrow> Q y v es"
  shows "wp (doM (bmap ip bn) (\<lambda>a. doM (bread (idev d) a) (\<lambda>bp. doM (get_buf bp) (\<lambda>b.
     doM (either_copyout l (slice (bdata b) i m)) (\<lambda>r.
       if r = - 1 then doM (brelse bp) (\<lambda>_. returnM x) else doM (brelse bp) (\<lambda>_. returnM y)))))) t es Q"
proof -
  let ?a = "blk_addr C d (unat bn)"
  let ?m = "\<lambda>a. doM (bread dv a) (\<lambda>b. doM (doM (get_buf b) (\<lambda>b. either_copyout l (slice (bdata b) i m))) (\<lambda>r.
      doM (brelse b) (\<lambda>_. if r = - 1 then returnM x else returnM y)))"
  have body: "wp (?m ?a) u es Q" if u: "bframe t u" "bstate L P p dv C R {} u" for u
  proof (rule wp_peek [OF u(2) L _ d(4)], goal_cases)
    case (2 b w)
    have w: "bframe t w" using bframe_trans [OF u(1) 2(1)] .
    note f = bframe_fs(1) [OF w]
    show ?case
      unfolding wp_simps wp_buf 2(4) xs
    proof (rule wp_mono [OF copy [OF J [OF w] bstateD(1,2) [OF 2(2)] f]], goal_cases)
      case (1 r u fs)
      then have "bstate L P p dv C (R(?a := R ?a + 1)) {?a} u" using 2(2) by (auto simp: bstate_def)
      moreover have "Q y v es" if "bframe u v" "bstate L P p dv C R {} v" for v
        using Q [OF _ that] 1 bframe_fs(1) [OF that(1)] f by simp
      ultimately show ?case using 1 2(3) by simp
    qed
  qed simp
  have "wp (bmap ip bn) t es (\<lambda>a t fs. wp (?m a) t fs Q)"
    by (rule wp_bmap [OF bst L d(1-3) _ d(4)]) (use body in simp_all)
  then show ?thesis unfolding wp_simps wp_buf if_doM d(2) .
qed

text \<open>
  \<open>readi\<close> delivers the bytes of the file in order, whatever the destination: \<open>J k\<close> says of the
  state that \<open>k\<close> bytes have been delivered, and \<open>copy\<close> that a copy delivers the next ones.
\<close>

lemma wp_readi:
  fixes s :: "'x fs_scheme"
  assumes bst: "bstate L P p dv C R {} s" and L: "cache_locks_free L"
    and d: "inodes s ip = d" "idev d = dv" "file_ok C d" and R: "spare R"
    and N: "N = (if unat (isize d) < unat off \<or> 2 ^ 32 \<le> unat off + unat n then 0 else min (unat n) (unat (isize d) - unat off))"
    and J0: "J 0 s" and frame: "\<And>k t u. J k t \<Longrightarrow> bframe t u \<Longrightarrow> J k u"
    and copy: "\<And>k xs t. J k t \<Longrightarrow> lkst L P t \<Longrightarrow> P (hart t) = Some p \<Longrightarrow> k + length xs \<le> N \<Longrightarrow>
      xs = fbytes C d (unat off + k) (length xs) \<Longrightarrow> inodes t ip = d \<Longrightarrow>
      wp (either_copyout (loc_plus dst k) xs) t es (\<lambda>r u fs. r = 0 \<and> fs = es \<and> J (k + length xs) u \<and> lkst L P u \<and>
        hart u = hart t \<and> procs u = procs t \<and> slocks u = slocks t \<and> bufs u = bufs t \<and> disk u = disk t \<and> inodes u = inodes t)"
    and Q: "\<And>t. J N t \<Longrightarrow> bstate L P p dv C R {} t \<Longrightarrow> inodes t = inodes s \<Longrightarrow> Q (int N) t es"
  shows "wp (readi ip dst off n) s es Q"
proof -
  have sz: "unat (isize d) \<le> MAXFILE * BSIZE" and blk: "\<And>bn. bn * BSIZE < unat (isize d) \<Longrightarrow> blk_mapped C d bn"
    and len: "\<And>n. length (C n) = BSIZE" using d(3) by (auto simp: file_ok_def)
  have small: "MAXFILE * BSIZE < 2 ^ 31" by (simp add: MAXFILE_def NDIRECT_def NINDIRECT_def BSIZE_1024)
  have ov: "off + n < off \<longleftrightarrow> 2 ^ 32 \<le> unat off + unat n" by (rule add_wraps)
  show ?thesis
  proof (cases "unat (isize d) < unat off \<or> 2 ^ 32 \<le> unat off + unat n")
    case True
    then have "off > isize d \<or> off + n < off" unfolding ov by (simp add: word_less_nat_alt)
    moreover have "N = 0" using N True by simp
    ultimately show ?thesis unfolding readi_def wp_simps wp_inode d(1) using Q [of s] J0 bst by simp
  next
    case False
    then have g: "\<not> (off > isize d \<or> off + n < off)" unfolding ov by (simp add: word_less_nat_alt)
    define n' where "n' = (if off + n > isize d then isize d - off else n)"
    have un: "unat (off + n) = unat off + unat n" using False by (simp add: unat_word_ariths)
    have n': "unat n' = N" and off: "unat off + N \<le> unat (isize d)"
      using False N by (auto simp: n'_def word_less_nat_alt un unat_sub word_le_nat_alt)
    define I where "I v t fs \<longleftrightarrow> (\<exists>k\<le>N. v = (of_nat k, off + of_nat k, loc_plus dst k) \<and> J k t \<and> bstate L P p dv C R {} t \<and>
        inodes t = inodes s) \<and> fs = es" for v :: "32 word \<times> 32 word \<times> loc" and t :: "'x fs_scheme" and fs
    show ?thesis
      unfolding readi_def wp_simps wp_inode d(1) if_not_P [OF g] n'_def [symmetric] Let_def
    proof (rule wp_iterM [where I = I and \<mu> = "\<lambda>v _ _. N - unat (fst v)"], goal_cases)
      case 1 show ?case unfolding I_def using J0 bst by (auto intro!: exI [of _ 0])
    next
      case 2 show ?case by (simp add: n')
    next
      case (3 v t fs)
      then obtain k where k: "k \<le> N" "v = (of_nat k, off + of_nat k, loc_plus dst k)" "J k t" "bstate L P p dv C R {} t"
        "inodes t = inodes s" "fs = es" unfolding I_def by blast
      have k32: "N < 2 ^ 31" using off sz small by simp
      then have uk: "unat (of_nat k :: 32 word) = k" "unat (off + of_nat k) = unat off + k"
        using k(1) off sz small by (simp_all add: unat_word_ariths unat_of_nat)
      let ?off = "off + of_nat k" and ?Q = "\<lambda>r t fs. case r of Inl y \<Rightarrow> I y t fs \<and> N - unat (fst y) < N - unat (fst v) | Inr z \<Rightarrow> Q z t fs"
      show ?case
      proof (cases "k < N")
        case False
        then have "k = N" using k(1) by simp
        moreover have "\<not> (of_nat k < n')" using False by (simp add: word_less_nat_alt uk n')
        ultimately show ?thesis
          using Q k(3-5) k32 unfolding k(2,6) split_conv by (simp add: sint_of_nat32)
      next
        case True
        define M where "M = unat (chunk n' (of_nat k) ?off)"
        let ?bn = "?off div of_nat BSIZE"
        have M: "M = min (N - k) (BSIZE - (unat off + k) mod BSIZE)" "0 < M"
          using True by (simp_all add: M_def unat_chunk uk n' BSIZE_1024)
        have bn: "unat ?bn = (unat off + k) div BSIZE" by (simp add: unat_div_distrib uk)
        have "(unat off + k) div BSIZE * BSIZE < unat (isize d)"
          using True off div_times_less_eq_dividend [of "unat off + k" BSIZE] by linarith
        then have bm: "blk_mapped C d (unat ?bn)" unfolding bn by (rule blk)
        define xs where "xs = fbytes C d (unat off + k) M"
        have "(unat off + k) mod BSIZE + M \<le> BSIZE" using M(1) by (simp add: BSIZE_1024)
        then have xs: "slice (C (blk_addr C d (unat ?bn))) (unat ?off mod BSIZE) M = xs" "length xs = M"
          unfolding uk bn xs_def using len by (simp_all add: fbytes_in_block)
        let ?y = "(of_nat k + chunk n' (of_nat k) ?off, ?off + chunk n' (of_nat k) ?off, loc_plus (loc_plus dst k) M)"
        have last: "?Q (Inl ?y) u es" if "J (k + M) u" "bstate L P p dv C R {} u" "inodes u = inodes s" for u
        proof -
          have c: "chunk n' (of_nat k) ?off = of_nat M" by (simp add: M_def)
          have "k + M \<le> N" using M(1) True by simp
          then have "unat (of_nat k + of_nat M :: 32 word) = k + M" using k32 by (simp add: unat_of_nat flip: of_nat_add)
          then show ?thesis
            unfolding c I_def using that True \<open>k + M \<le> N\<close> M(2) k(2) uk(1) by (auto simp: loc_plus_plus ac_simps intro!: exI [of _ "k + M"])
        qed
        have lt: "of_nat k < n'" using True by (simp add: word_less_nat_alt uk n')
        have "wp (doM (bmap ip ?bn) (\<lambda>a. doM (bread (idev d) a) (\<lambda>bp. doM (get_buf bp) (\<lambda>b.
           doM (either_copyout (loc_plus dst k) (slice (bdata b) (unat ?off mod BSIZE) M)) (\<lambda>r.
             if r = - 1 then doM (brelse bp) (\<lambda>_. returnM (Inr (- 1)))
             else doM (brelse bp) (\<lambda>_. returnM (Inl ?y))))))) t es ?Q"
        proof (rule wp_read_block [OF k(4) L _ d(2) bm R xs(1), where J = "J k" and J' = "J (k + M)"], goal_cases)
          case (3 w) show ?case
            using copy [of k w xs] 3 M(1) True xs(2) k(5) d(1) by (simp add: xs_def)
        qed (use k(3,5) d(1) last xs(2) frame in auto)
        then show ?thesis
          unfolding k(2,6) split_conv if_P [OF lt] M_def [symmetric] .
      qed
    qed
  qed
qed

section \<open>Property: reading a file\<close>

lemma shift_index:
  fixes w va :: addr
  assumes "k + n \<le> 2 ^ 63"
  shows "unat (w - (va + of_nat k)) < n \<longleftrightarrow> k \<le> unat (w - va) \<and> unat (w - va) < k + n"
    and "k \<le> unat (w - va) \<Longrightarrow> unat (w - (va + of_nat k)) = unat (w - va) - k"
proof -
  let ?x = "w - va" and ?k = "of_nat k :: addr"
  have x: "w - (va + ?k) = ?x - ?k" by (simp add: algebra_simps)
  have k: "unat ?k = k" using assms by (simp add: unat_of_nat)
  show s: "unat (w - (va + ?k)) = unat ?x - k" if "k \<le> unat ?x"
    using that unfolding x by (simp add: unat_sub word_le_nat_alt k)
  have "2 ^ 63 \<le> unat (?x - ?k)" if "unat ?x < k"
    using that assms unsigned_less [of ?x] by (simp add: unat_sub_if' word_le_nat_alt k)
  then show "unat (w - (va + ?k)) < n \<longleftrightarrow> k \<le> unat ?x \<and> unat ?x < k + n"
    using s assms unfolding x by (cases "k \<le> unat ?x") auto
qed

lemma bframe_mem:
  fixes s :: "'x fs_scheme"
  assumes "bframe (s\<lparr>mem := mem t\<rparr>) t"
  shows "bframe (s\<lparr>mem := m\<rparr>) (t\<lparr>mem := m, cpus := c, sstatus := st, locks := l\<rparr>)"
proof -
  have t: "t = s\<lparr>mem := mem t, procs := procs t, slocks := slocks t, bufs := bufs t, disk := disk t, wlog := wlog t,
      cpus := cpus t, sstatus := sstatus t, locks := locks t\<rparr>" using assms unfolding bframe_def by simp
  have "t\<lparr>mem := m, cpus := c, sstatus := st, locks := l\<rparr> = s\<lparr>mem := m, procs := procs t, slocks := slocks t, bufs := bufs t, disk := disk t, wlog := wlog t,
      cpus := c, sstatus := st, locks := l\<rparr>"
    using arg_cong [OF t, of "\<lambda>x. x\<lparr>mem := m, cpus := c, sstatus := st, locks := l\<rparr>"] by simp
  then show ?thesis using assms unfolding bframe_def by simp
qed

text \<open>
  C7.  \<open>readi\<close> to user memory reads the file: for a well-formed inode and a mapped buffer it
  returns the number of bytes between \<open>off\<close> and the smaller of \<open>off + n\<close> and the size of the
  file (0 past the end), and the buffer then holds exactly these bytes of the file.  No other byte of
  physical memory changes; the contents of all blocks, as the cache shows them, and the reference
  counts of the buffers are as before; and of the rest of the kernel state (\<open>bframe\<close>) only the buffers,
  the disk behind them, the bookkeeping of locks and the state of sleepers on a buffer can differ:
  inodes, the log, page tables, the process's own data are untouched.
\<close>

theorem readi_reads_file:
  fixes s :: "'x fs_scheme"
  assumes "bstate [] P p dv C R {} s" "spare R" "inodes s ip = d" "idev d = dv" "file_ok C d"
    and N: "N = (if unat (isize d) < unat off \<or> 2 ^ 32 \<le> unat off + unat n then 0 else min (unat n) (unat (isize d) - unat off))"
    and u: "pagetable (pp s p) = pt" "user_ok ke (mem s) pt A" "\<forall>i<N. ubyte (mem s) pt (va + of_nat i) \<noteq> None"
  shows "\<exists>t. readi ip (UserLoc va) off n s es = Done (int N) t es \<and>
     ubytes (mem t) pt va N = Some (fbytes C d (unat off) N) \<and> bstate [] P p dv C R {} t \<and>
     (\<forall>w. N \<le> unat (w - va) \<longrightarrow> ubyte (mem t) pt w = ubyte (mem s) pt w) \<and>
     (\<forall>a. (\<forall>i<N. a \<noteq> upa (mem s) pt (va + of_nat i)) \<longrightarrow> mem t a = mem s a) \<and>
     bframe (s\<lparr>mem := mem t\<rparr>) t \<and> inodes t = inodes s \<and> log t = log s \<and> pp t = pp s"
proof -
  define F where "F = fbytes C d (unat off) N"
  have "unat n < 2 ^ 32" using unsigned_less [of n] by simp
  then have N31: "N < 2 ^ 32" unfolding N by auto
  define J where "J k t \<longleftrightarrow> user_ok ke (mem t) pt A \<and> pagetable (pp t p) = pt \<and>
     (\<forall>w. ubyte (mem t) pt w = (if unat (w - va) < k then Some (F ! unat (w - va)) else ubyte (mem s) pt w)) \<and>
     (\<forall>v. uaddr (mem t) pt v = uaddr (mem s) pt v) \<and>
     (\<forall>a. (\<forall>i<k. a \<noteq> upa (mem s) pt (va + of_nat i)) \<longrightarrow> mem t a = mem s a) \<and> bframe (s\<lparr>mem := mem t\<rparr>) t" for k and t :: "'x fs_scheme"
  have "wp (readi ip (UserLoc va) off n) s es (\<lambda>r t fs. r = int N \<and> fs = es \<and> J N t \<and> bstate [] P p dv C R {} t)"
  proof (rule wp_readi [OF assms(1) _ assms(3-5,2) N, where J = J], goal_cases)
    case (3 k t u) then show ?case using bframe_base(2,3) [OF 3(2)] bframe_trans [OF _ 3(2)] by (simp add: J_def)
  next
    case (4 k xs t)
    have xs: "xs ! i = F ! (k + i)" if "i < length xs" for i
      using 4(4) that by (subst 4(5)) (simp add: F_def fbytes_def add.assoc)
    have sz: "k + length xs \<le> 2 ^ 63" using 4(4) N31 by simp
    have Jt: "\<forall>v. uaddr (mem t) pt v = uaddr (mem s) pt v" "\<forall>a. (\<forall>i<k. a \<noteq> upa (mem s) pt (va + of_nat i)) \<longrightarrow> mem t a = mem s a"
      "bframe (s\<lparr>mem := mem t\<rparr>) t" using 4(1) by (simp_all add: J_def)
    have ph: "\<forall>a. (\<forall>i<k + length xs. a \<noteq> upa (mem s) pt (va + of_nat i)) \<longrightarrow> m' a = mem s a"
      if "\<And>a. \<forall>i<length xs. a \<noteq> upa (mem t) pt (va + of_nat k + of_nat i) \<Longrightarrow> m' a = mem t a" for m'
    proof (intro allI impI)
      fix a assume a: "\<forall>i<k + length xs. a \<noteq> upa (mem s) pt (va + of_nat i)"
      have "m' a = mem t a" by (rule that) (use a Jt(1) in \<open>auto simp: upa_def add.assoc simp flip: of_nat_add\<close>)
      then show "m' a = mem s a" using Jt(2) a by simp
    qed
    show ?case
      unfolding loc_plus.simps either_copyout.simps wp_simps
      apply (rule wp_curproc [OF 4(2,3)])
      subgoal for c st l
        apply (simp add: get_pp_def)
        apply (rule wp_copyout [of ke _ _ A])
        subgoal using 4(1) by (simp add: J_def)
        subgoal using 4(4) N31 by simp
        subgoal for i using 4(1,4) u(3) by (simp add: J_def add.assoc flip: of_nat_add)
        subgoal for m'
          using 4(1,3) shift_index [OF sz, of _ va] xs ph [of m'] bframe_mem [OF Jt(3), where m = m' and c = c and st = st and l = l] by (auto simp: J_def)
        done
      done
  qed (use u in \<open>simp_all add: J_def bframe_refl\<close>)
  then obtain t where t: "readi ip (UserLoc va) off n s es = Done (int N) t es" "J N t" "bstate [] P p dv C R {} t"
    by (auto simp: wp_iff)
  have "ubytes (mem t) pt va N = Some F"
    using t(2) N31 unfolding ubytes_def J_def
    by (auto simp: F_def unat_of_nat intro!: nth_equalityI)
  moreover have "bframe (s\<lparr>mem := mem t\<rparr>) t" using t(2) by (simp add: J_def)
  moreover note bframe_fs [OF this] bframe_base [OF this]
  ultimately show ?thesis using t unfolding F_def J_def by auto
qed

text \<open>
  A file of two blocks, 40 and 41 of the concrete disk, and a process with a page of user
  memory.
\<close>

definition demo_inode :: inode where
  "demo_inode = \<lparr>idev = 1, inum = 5, iref = 1, ivalid = True, itype = T_FILE, imajor = 0, iminor = 0, nlink = 1,
     isize = 2000, addrs = (\<lambda>i. if i < 2 then 40 + of_nat i else 0)\<rparr>"

definition demo_file :: fs where
  "demo_file = demo_fs\<lparr>mem := demo_m3, pp := (\<lambda>_. demo_pproc\<lparr>pagetable := 0x87fff000\<rparr>), inodes := (\<lambda>_. demo_inode)\<rparr>"

lemma demo_file_bstate: "bstate [] demo_P 1 1 (disk demo_logs) (\<lambda>_. 0) {} demo_file"
  using demo_logs_bstate unfolding demo_file_def bstate_def by simp

lemma demo_file_ok: "file_ok (disk demo_logs) demo_inode"
proof -
  have "blk_mapped (disk demo_logs) demo_inode bn" if "bn * 1024 < 2000" for bn :: nat
  proof -
    have "bn = 0 \<or> bn = 1" using that by linarith
    then show ?thesis
      by (auto simp: BSIZE_1024 MAXFILE_def NDIRECT_def NINDIRECT_def demo_inode_def blk_mapped_def blk_addr_def)
  qed
  then show ?thesis
    by (simp add: file_ok_def BSIZE_1024 MAXFILE_def NDIRECT_def NINDIRECT_def demo_inode_def)
qed

lemma demo_ubyte: "i < 100 \<Longrightarrow> ubyte demo_m3 0x87fff000 (0x10 + of_nat i) \<noteq> None"
proof -
  assume i: "i < 100"
  have "unat (0x10 + of_nat i :: addr) = 0x10 + i" using i by (simp add: unat_add_of_nat)
  then have "unat (PGROUNDDOWN (0x10 + of_nat i)) = 0" using i by (simp add: unat_PGROUNDDOWN)
  then have "PGROUNDDOWN (0x10 + of_nat i) = 0" by (simp add: unat_eq_0)
  then show ?thesis by (simp add: ubyte_def demo_uaddr PGROUNDDOWN_def MAXVA_def)
qed

lemma readi_reads_file_witness:
  "\<exists>t. readi 0 (UserLoc 0x10) 1023 3 demo_file [] = Done 3 t [] \<and> ubytes (mem t) 0x87fff000 0x10 3 = Some [40, 41, 41]"
proof -
  obtain A where A: "user_ok 0x87ff0000 demo_m3 0x87fff000 A" using demo_user_ok by auto
  have f: "fbytes (disk demo_logs) demo_inode 1023 3 = [40, 41, 41]"
    by (simp add: fbytes_def upt_conv_Cons fbyte_def BSIZE_1024 blk_addr_def NDIRECT_def demo_inode_def)
  have "\<exists>t. readi 0 (UserLoc 0x10) 1023 3 demo_file [] = Done (int 3) t [] \<and>
     ubytes (mem t) 0x87fff000 0x10 3 = Some (fbytes (disk demo_logs) demo_inode (unat (1023 :: 32 word)) 3) \<and>
     bstate [] demo_P 1 1 (disk demo_logs) (\<lambda>_. 0) {} t \<and>
     (\<forall>w. 3 \<le> unat (w - 0x10) \<longrightarrow> ubyte (mem t) 0x87fff000 w = ubyte (mem demo_file) 0x87fff000 w) \<and>
     (\<forall>a. (\<forall>i<3. a \<noteq> upa (mem demo_file) 0x87fff000 (0x10 + of_nat i)) \<longrightarrow> mem t a = mem demo_file a) \<and>
     bframe (demo_file\<lparr>mem := mem t\<rparr>) t \<and> inodes t = inodes demo_file \<and> log t = log demo_file \<and> pp t = pp demo_file"
    by (rule readi_reads_file [OF demo_file_bstate _ _ _ demo_file_ok, where ke = "0x87ff0000" and A = A])
       (use A demo_ubyte in \<open>simp_all add: spare_def NBUF_30 demo_file_def demo_inode_def\<close>)
  then show ?thesis using f by auto
qed

end
