(* ===== verification/Itable.thy ===== *)
theory Itable
  imports Inode
begin

text \<open>
  The table of in-memory inodes of \<^verbatim>\<open>kernel/fs.c\<close>: the invariant that makes it a cache of the
  inodes on disk, and rules for \<open>iget\<close>, \<open>idup\<close>, \<open>ilock\<close>, \<open>iunlock\<close> and \<open>iput\<close> that keep it.
\<close>

section \<open>The invariant\<close>

lemma fs_upd_order [simp]:
  fixes s :: "'x fs_scheme"
  shows
  "inodes_update u_i (locks_update u_locks s) = locks_update u_locks (inodes_update u_i s)"
  "inodes_update u_i (sstatus_update u_sstatus s) = sstatus_update u_sstatus (inodes_update u_i s)"
  "inodes_update u_i (cpus_update u_cpus s) = cpus_update u_cpus (inodes_update u_i s)"
  "procs_update u_procs (inodes_update u_i s) = inodes_update u_i (procs_update u_procs s)"
  "slocks_update u_sl (inodes_update u_i s) = inodes_update u_i (slocks_update u_sl s)"
  "bufs_update u_b (inodes_update u_i s) = inodes_update u_i (bufs_update u_b s)"
  "disk_update u_d (inodes_update u_i s) = inodes_update u_i (disk_update u_d s)"
  "wlog_update u_w (inodes_update u_i s) = inodes_update u_i (wlog_update u_w s)"
  "pp_update u_pp (inodes_update u_i s) = inodes_update u_i (pp_update u_pp s)"
  "mem_update u_mem (inodes_update u_i s) = inodes_update u_i (mem_update u_mem s)"
  "log_update u_l (inodes_update u_i s) = inodes_update u_i (log_update u_l s)"
  by simp_all

text \<open>Inode \<open>i\<close> of the disk, as an in-memory inode that has just been read.\<close>

definition disk_inode :: "(32 word \<Rightarrow> byte list) \<Rightarrow> superblock \<Rightarrow> 32 word \<Rightarrow> inode" where
  "disk_inode C k i = (let di = get_dinode (C (IBLOCK i k)) (dinode_off i) in
     \<lparr>idev = ROOTDEV, inum = i, iref = 1, ivalid = True, itype = d_type di, imajor = d_major di, iminor = d_minor di,
      nlink = d_nlink di, isize = d_size di, addrs = (\<lambda>j. if j \<le> NDIRECT then d_addrs di ! j else 0)\<rparr>)"

definition same_inode :: "inode \<Rightarrow> inode \<Rightarrow> bool" where
  "same_inode d e \<longleftrightarrow> idev d = idev e \<and> inum d = inum e \<and> itype d = itype e \<and> imajor d = imajor e \<and> iminor d = iminor e \<and>
     nlink d = nlink e \<and> isize d = isize e \<and> (\<forall>j\<le>NDIRECT. addrs d j = addrs e j)"

text \<open>
  No inode has two entries in use, no count is negative, and an entry that is in use and
  valid is a copy of its inode on disk.
\<close>

definition itable_ok :: "(32 word \<Rightarrow> byte list) \<Rightarrow> superblock \<Rightarrow> (nat \<Rightarrow> inode) \<Rightarrow> bool" where
  "itable_ok C k T \<longleftrightarrow>
     (\<forall>i<NINODE. \<forall>j<NINODE. 0 < iref (T i) \<longrightarrow> 0 < iref (T j) \<longrightarrow> idev (T i) = idev (T j) \<longrightarrow> inum (T i) = inum (T j) \<longrightarrow> i = j) \<and>
     (\<forall>i<NINODE. 0 \<le> iref (T i)) \<and>
     (\<forall>i<NINODE. 0 < iref (T i) \<longrightarrow> idev (T i) = ROOTDEV \<and> (ivalid (T i) \<longrightarrow> same_inode (T i) (disk_inode C k (inum (T i)))))"

lemma itable_okD:
  assumes "itable_ok C k T" "i < NINODE"
  shows "0 \<le> iref (T i)" "0 < iref (T i) \<Longrightarrow> idev (T i) = ROOTDEV"
    "0 < iref (T i) \<Longrightarrow> ivalid (T i) \<Longrightarrow> same_inode (T i) (disk_inode C k (inum (T i)))"
    "j < NINODE \<Longrightarrow> 0 < iref (T i) \<Longrightarrow> 0 < iref (T j) \<Longrightarrow> inum (T i) = inum (T j) \<Longrightarrow> i = j"
  using assms unfolding itable_ok_def by metis+

text \<open>An entry changes, and stays a copy of the same inode or becomes one of an inode that had none.\<close>

lemma itable_ok_upd:
  assumes T: "itable_ok C k T" and i: "i < NINODE" and v: "0 \<le> iref v"
    "0 < iref v \<Longrightarrow> idev v = ROOTDEV" "0 < iref v \<Longrightarrow> ivalid v \<Longrightarrow> same_inode v (disk_inode C k (inum v))"
    "0 < iref v \<Longrightarrow> (\<forall>j<NINODE. j \<noteq> i \<longrightarrow> 0 < iref (T j) \<longrightarrow> inum (T j) \<noteq> inum v)"
  shows "itable_ok C k (T(i := v))"
  using T v unfolding itable_ok_def by (auto simp: i)

text \<open>Counts of an entry in use go up and down without other changes.\<close>

lemma itable_ok_ref:
  assumes T: "itable_ok C k T" "i < NINODE" "0 < iref (T i)" "0 \<le> r"
  shows "itable_ok C k (T(i := (T i)\<lparr>iref := r\<rparr>))"
proof -
  have "j = i" if "j < NINODE" "0 < iref (T j)" "inum (T j) = inum (T i)" for j
    using itable_okD(4) [OF T(1,2) that(1)] T(3) that by auto
  then show ?thesis
    by (intro itable_ok_upd [OF T(1,2)]) (use T itable_okD(1-3) [OF T(1,2)] in \<open>auto simp: same_inode_def\<close>)
qed

section \<open>iget\<close>

lemma wp_iget:
  fixes s :: "'x fs_scheme"
  assumes lk: "lkst L P s" "ItableLock \<notin> set L"
    and room: "(\<exists>j<NINODE. 0 < iref (inodes s j) \<and> idev (inodes s j) = dev \<and> inum (inodes s j) = i) \<or> (\<exists>j<NINODE. iref (inodes s j) = 0)"
    and hit: "\<And>ip c st l. ip < NINODE \<Longrightarrow> 0 < iref (inodes s ip) \<Longrightarrow> idev (inodes s ip) = dev \<Longrightarrow> inum (inodes s ip) = i \<Longrightarrow>
      lkb L P (hart s) c st l \<Longrightarrow>
      Q ip (s\<lparr>inodes := (inodes s)(ip := (inodes s ip)\<lparr>iref := iref (inodes s ip) + 1\<rparr>), cpus := c, sstatus := st, locks := l\<rparr>) es"
    and miss: "\<And>ip c st l. ip < NINODE \<Longrightarrow> iref (inodes s ip) = 0 \<Longrightarrow> \<forall>j<ip. iref (inodes s j) \<noteq> 0 \<Longrightarrow>
      \<forall>j<NINODE. \<not> (0 < iref (inodes s j) \<and> idev (inodes s j) = dev \<and> inum (inodes s j) = i) \<Longrightarrow> lkb L P (hart s) c st l \<Longrightarrow>
      Q ip (s\<lparr>inodes := (inodes s)(ip := (inodes s ip)\<lparr>idev := dev, inum := i, iref := 1, ivalid := False\<rparr>),
        cpus := c, sstatus := st, locks := l\<rparr>) es"
  shows "wp (iget dev i) s es Q"
proof -
  let ?T = "inodes s"
  define I where "I v t fs \<longleftrightarrow> fs = es \<and> (\<exists>c st l. lkb (ItableLock # L) P (hart s) c st l \<and> t = s\<lparr>cpus := c, sstatus := st, locks := l\<rparr>) \<and>
     (case v of (ip, e) \<Rightarrow> ip \<le> NINODE \<and> (\<forall>j<ip. \<not> (0 < iref (?T j) \<and> idev (?T j) = dev \<and> inum (?T j) = i)) \<and>
       (case e of None \<Rightarrow> \<forall>j<ip. iref (?T j) \<noteq> 0 | Some j \<Rightarrow> j < ip \<and> iref (?T j) = 0 \<and> (\<forall>j'<j. iref (?T j') \<noteq> 0)))"
    for v :: "nat \<times> nat option" and t :: "'x fs_scheme" and fs
  define E where "E r t fs \<longleftrightarrow> (case r of Inl ip \<Rightarrow> Q ip t fs | Inr e \<Rightarrow> I (NINODE, e) t fs)" for r t fs
  show ?thesis
    unfolding iget_def wp_simps
  proof (rule wp_acquire [OF lk], goal_cases)
    case (1 c st l)
    show ?case
    proof (rule wp_mono [where Q = E], rule wp_iterM [where I = I and \<mu> = "\<lambda>v _ _. NINODE - fst v"], goal_cases)
      case 1 show ?case using \<open>lkb (ItableLock # L) P (hart s) c st l\<close> by (auto simp: I_def)
    next
      case (3 v t fs)
      then obtain ip e c st l where v: "v = (ip, e)" "fs = es" "t = s\<lparr>cpus := c, sstatus := st, locks := l\<rparr>"
        and lk': "lkb (ItableLock # L) P (hart s) c st l" and ip: "ip \<le> NINODE"
        unfolding I_def by (cases v) auto
      show ?case
      proof (cases "ip < NINODE \<and> 0 < iref (?T ip) \<and> idev (?T ip) = dev \<and> inum (?T ip) = i")
        case True
        then show ?thesis
          unfolding v split_conv
          apply simp
          apply (rule wp_release [where L = "ItableLock # L" and P = P], simp add: lk', simp)
          using hit by (auto simp: E_def)
      next
        case False
        then have I': "I (Suc ip, if e = None \<and> iref (?T ip) = 0 then Some ip else e) t fs" if "ip < NINODE"
          using 3 that unfolding v I_def by (auto simp: less_Suc_eq split: option.splits)
        show ?thesis
          using 3 False I' unfolding v by (cases "ip < NINODE") (auto simp: E_def I_def)
      qed
    next
      case (4 r t fs)
      show ?case
      proof (cases r)
        case (Inl ip) then show ?thesis using 4 by (simp add: E_def)
      next
        case (Inr e)
        then have J: "I (NINODE, e) t fs" using 4 by (simp add: E_def)
        then obtain ip where e: "e = Some ip" "ip < NINODE" "iref (?T ip) = 0" "\<forall>j<ip. iref (?T j) \<noteq> 0"
          using room unfolding I_def by (auto split: option.splits)
        from J obtain c st l where t: "fs = es" "lkb (ItableLock # L) P (hart s) c st l" "t = s\<lparr>cpus := c, sstatus := st, locks := l\<rparr>"
          "\<forall>j<NINODE. \<not> (0 < iref (?T j) \<and> idev (?T j) = dev \<and> inum (?T j) = i)" unfolding I_def by auto
        show ?thesis
          unfolding Inr e(1) sum.case option.case t(1,3)
          apply simp
          apply (rule wp_release [where L = "ItableLock # L" and P = P], simp add: t(2), simp)
          using miss [OF e(2-4) t(4)] by simp
      qed
    qed simp
  qed
qed

section \<open>Rules on the state of the file system\<close>

text \<open>
  Process \<open>p\<close> runs alone in the file system: the cache stands for the blocks \<open>C\<close>, the table of
  inodes is a cache of the inodes in them, and the locked inodes are those of \<open>HL\<close>, all
  locked by \<open>p\<close>.
\<close>

definition fss :: "(nat \<Rightarrow> nat option) \<Rightarrow> nat \<Rightarrow> (32 word \<Rightarrow> byte list) \<Rightarrow> (32 word \<Rightarrow> nat) \<Rightarrow> superblock \<Rightarrow> nat set \<Rightarrow>
    'x fs_scheme \<Rightarrow> bool" where
  "fss P p C R k HL s \<longleftrightarrow> bstate [] P p ROOTDEV C R {} s \<and> sb s = k \<and> itable_ok C k (inodes s) \<and>
     (\<forall>i. slocked (slocks s (InodeLock i)) \<noteq> 0 \<longleftrightarrow> i \<in> HL) \<and> (\<forall>i\<in>HL. slpid (slocks s (InodeLock i)) = pid (procs s p))"

lemma fssD:
  assumes "fss P p C R k HL s"
  shows "bstate [] P p ROOTDEV C R {} s" "sb s = k" "itable_ok C k (inodes s)"
    "slocked (slocks s (InodeLock i)) \<noteq> 0 \<longleftrightarrow> i \<in> HL" "i \<in> HL \<Longrightarrow> slpid (slocks s (InodeLock i)) = pid (procs s p)"
    "lkst [] P s" "P (hart s) = Some p"
  using assms bstateD(1,2) unfolding fss_def by blast+

text \<open>What the operations leave alone: memory, the log, and the processes apart from their stack buffer.\<close>

definition iframe :: "'x fs_scheme \<Rightarrow> 'x fs_scheme \<Rightarrow> bool" where
  "iframe s t \<longleftrightarrow> mem t = mem s \<and> log t = log s \<and> hart t = hart s \<and> fs.more t = fs.more s \<and>
     (\<forall>q. (pp t q)\<lparr>kbuf := []\<rparr> = (pp s q)\<lparr>kbuf := []\<rparr>)"

lemma iframe_refl [simp]: "iframe s s"
  by (simp add: iframe_def)

lemma iframe_trans: "iframe s t \<Longrightarrow> iframe t u \<Longrightarrow> iframe s u"
  by (simp add: iframe_def)

lemma bframe_iframe: "bframe s t \<Longrightarrow> iframe s t"
proof -
  assume f: "bframe s t"
  then have t: "t = s\<lparr>procs := procs t, slocks := slocks t, bufs := bufs t, disk := disk t, wlog := wlog t,
      cpus := cpus t, sstatus := sstatus t, locks := locks t\<rparr>" unfolding bframe_def by blast
  have "fs.more t = fs.more s" by (subst t) simp
  then show ?thesis using bframe_base(1-3) [OF f] bframe_fs(3) [OF f] by (simp add: iframe_def)
qed

lemma cache_ok_inode_lock [simp]: "cache_ok bf dk (sl(InodeLock i := x)) q d C R H = cache_ok bf dk sl q d C R H"
  by (simp add: cache_ok_def)

lemma bframe_fss:
  assumes "fss P p C R k HL s" "bframe s t" "bstate [] P p ROOTDEV C R {} t"
  shows "fss P p C R k HL t"
proof -
  have "slocks t (InodeLock i) = slocks s (InodeLock i)" for i using assms(2) by (simp add: bframe_def)
  then show ?thesis using assms(1,3) bframe_fs [OF assms(2)] bframe_base(5) [OF assms(2)] unfolding fss_def by simp
qed

text \<open>The counts of \<open>t\<close> are those of \<open>s\<close>, and one more or less at \<open>ip\<close>.\<close>

definition refs :: "int \<Rightarrow> nat \<Rightarrow> 'x fs_scheme \<Rightarrow> 'x fs_scheme \<Rightarrow> bool" where
  "refs r ip s t \<longleftrightarrow> (\<forall>j<NINODE. iref (inodes t j) = iref (inodes s j) + (if j = ip then r else 0)) \<and>
     (\<forall>j<NINODE. 0 < iref (inodes s j) \<longrightarrow> inum (inodes t j) = inum (inodes s j))"

lemma wp_iget_fs:
  fixes s :: "'x fs_scheme"
  assumes s: "fss P p C R k HL s" and room: "\<exists>j<NINODE. iref (inodes s j) = 0"
    and Q: "\<And>ip t. ip < NINODE \<Longrightarrow> fss P p C R k HL t \<Longrightarrow> inum (inodes t ip) = i \<Longrightarrow> refs 1 ip s t \<Longrightarrow> iframe s t \<Longrightarrow> Q ip t es"
  shows "wp (iget ROOTDEV i) s es Q"
proof (rule wp_iget [OF fssD(6) [OF s]], goal_cases)
  case (3 ip c st l)
  have "itable_ok C k ((inodes s)(ip := (inodes s ip)\<lparr>iref := iref (inodes s ip) + 1\<rparr>))"
    by (rule itable_ok_ref [OF fssD(3) [OF s]]) (use 3 in auto)
  then show ?case using 3 s by (intro Q) (simp_all add: fss_def bstate_def refs_def iframe_def)
next
  case (4 ip c st l)
  have "itable_ok C k ((inodes s)(ip := (inodes s ip)\<lparr>idev := ROOTDEV, inum := i, iref := 1, ivalid := False\<rparr>))"
    by (rule itable_ok_upd [OF fssD(3) [OF s]]) (use 4 itable_okD(2) [OF fssD(3) [OF s]] in auto)
  then show ?case using 4 s by (intro Q) (simp_all add: fss_def bstate_def refs_def iframe_def)
qed (use room in simp_all)

lemma wp_idup_fs:
  fixes s :: "'x fs_scheme"
  assumes s: "fss P p C R k HL s" and ip: "ip < NINODE" "0 < iref (inodes s ip)"
    and Q: "\<And>t. fss P p C R k HL t \<Longrightarrow> inum (inodes t ip) = inum (inodes s ip) \<Longrightarrow> refs 1 ip s t \<Longrightarrow> iframe s t \<Longrightarrow> Q ip t es"
  shows "wp (idup ip) s es Q"
  unfolding idup_def wp_simps
proof (rule wp_acquire [OF fssD(6) [OF s]], goal_cases)
  case (2 c st l)
  have T: "itable_ok C k ((inodes s)(ip := (inodes s ip)\<lparr>iref := iref (inodes s ip) + 1\<rparr>))"
    by (rule itable_ok_ref [OF fssD(3) [OF s] ip]) (use ip in simp)
  from 2 show ?case
    apply simp
    apply (rule wp_release, simp, simp)
    by (rule Q) (use T s ip in \<open>simp_all add: fss_def bstate_def refs_def iframe_def\<close>)
qed simp

text \<open>Reading an inode from its block makes the entry a copy of it.\<close>

definition filled :: "dinode \<Rightarrow> inode \<Rightarrow> inode" where
  "filled di d = d\<lparr>itype := d_type di, imajor := d_major di, iminor := d_minor di, nlink := d_nlink di,
     isize := d_size di, addrs := (\<lambda>j. if j \<le> NDIRECT then d_addrs di ! j else addrs d j)\<rparr>"

lemma filled_same:
  "idev d = ROOTDEV \<Longrightarrow>
     same_inode (filled (get_dinode (C (IBLOCK (inum d) k)) (dinode_off (inum d))) d\<lparr>ivalid := True\<rparr>) (disk_inode C k (inum d))"
  by (simp add: same_inode_def filled_def disk_inode_def Let_def)

lemma bstate_inodes [simp]: "bstate L P p d C R H (s\<lparr>inodes := T\<rparr>) = bstate L P p d C R H s"
  by (simp add: bstate_def)

text \<open>The part of \<open>ilock\<close> that reads the inode, when the entry is not valid.\<close>

lemma wp_load_inode:
  fixes s :: "'x fs_scheme"
  assumes s: "fss P p C R k HL s" and ip: "ip < NINODE" "0 < iref (inodes s ip)" "inodes s ip = d"
    and R: "spare R" and ty: "itype (disk_inode C k (inum d)) \<noteq> 0"
    and Q: "\<And>t. fss P p C R k HL t \<Longrightarrow> ivalid (inodes t ip) \<Longrightarrow> refs 0 ip s t \<Longrightarrow> iframe s t \<Longrightarrow> Q () t es"
  shows "wp (doM (bread (idev d) (IBLOCK (inum d) k)) (\<lambda>bp.
         doM (get_buf bp) (\<lambda>b.
         let di = get_dinode (bdata b) (dinode_off (inum d)) in
         seqM [
           upd_inode ip (\<lambda>d. d\<lparr>itype := d_type di\<rparr>),
           upd_inode ip (\<lambda>d. d\<lparr>imajor := d_major di\<rparr>),
           upd_inode ip (\<lambda>d. d\<lparr>iminor := d_minor di\<rparr>),
           upd_inode ip (\<lambda>d. d\<lparr>nlink := d_nlink di\<rparr>),
           upd_inode ip (\<lambda>d. d\<lparr>isize := d_size di\<rparr>),
           upd_inode ip (\<lambda>d. d\<lparr>addrs := (\<lambda>i. if i \<le> NDIRECT then d_addrs di ! i else addrs d i)\<rparr>),
           brelse bp,
           upd_inode ip (\<lambda>d. d\<lparr>ivalid := True\<rparr>),
           doM (get_inode ip) (\<lambda>d. whenM (itype d = 0) (panic ''ilock: no type''))]))) s es Q"
proof -
  let ?a = "IBLOCK (inum d) k" and ?off = "dinode_off (inum d)"
  let ?fill = "\<lambda>di. seqM [
           upd_inode ip (\<lambda>d. d\<lparr>itype := d_type di\<rparr>),
           upd_inode ip (\<lambda>d. d\<lparr>imajor := d_major di\<rparr>),
           upd_inode ip (\<lambda>d. d\<lparr>iminor := d_minor di\<rparr>),
           upd_inode ip (\<lambda>d. d\<lparr>nlink := d_nlink di\<rparr>),
           upd_inode ip (\<lambda>d. d\<lparr>isize := d_size di\<rparr>),
           upd_inode ip (\<lambda>d. d\<lparr>addrs := (\<lambda>i. if i \<le> NDIRECT then d_addrs di ! i else addrs d i)\<rparr>)]"
    and ?done = "seqM [upd_inode ip (\<lambda>d. d\<lparr>ivalid := True\<rparr>),
           doM (get_inode ip) (\<lambda>d. whenM (itype d = 0) (panic ''ilock: no type''))]"
  define di where "di = get_dinode (C ?a) ?off"
  have dev: "idev d = ROOTDEV" using itable_okD(2) [OF fssD(3) [OF s] ip(1,2)] ip(3) by simp
  have T: "itable_ok C k ((inodes s)(ip := (filled di d)\<lparr>ivalid := True\<rparr>))"
    by (rule itable_ok_upd [OF fssD(3) [OF s] ip(1)])
       (use ip(2,3) dev filled_same [OF dev, of C k] itable_okD(4) [OF fssD(3) [OF s] _ ip(1)] in \<open>auto simp: di_def filled_def\<close>)
  have fill: "wp (?fill di) t es U = U () (t\<lparr>inodes := (inodes t)(ip := filled di d)\<rparr>) es" if "inodes t ip = d"
    for t :: "'x fs_scheme" and U
    using that by (simp add: filled_def cong: if_cong)
  have "wp (doM (bread ROOTDEV ?a) (\<lambda>bp. doM (doM (get_buf bp) (\<lambda>b. ?fill (get_dinode (bdata b) ?off)))
     (\<lambda>_. doM (brelse bp) (\<lambda>_. ?done)))) s es Q"
  proof (rule wp_peek [OF fssD(1) [OF s] _ _ R], goal_cases)
    case (3 b t)
    note f = bframe_fs [OF 3(1)]
    let ?t = "t\<lparr>inodes := (inodes t)(ip := filled di d)\<rparr>"
    have fin: "wp ?done v es Q" if v: "bframe ?t v" "bstate [] P p ROOTDEV C R {} v" for v
    proof -
      have i: "inodes v = (inodes s)(ip := filled di d)" "sb v = k"
        using bframe_fs [OF v(1)] f fssD(2) [OF s] by simp_all
      have "slocks v (InodeLock i) = slocks s (InodeLock i)" for i using v(1) 3(1) by (simp add: bframe_def)
      moreover have "pid (procs v q) = pid (procs s q)" for q using bframe_base(5) [OF v(1)] bframe_base(5) [OF 3(1)] by simp
      ultimately have "fss P p C R k HL (v\<lparr>inodes := (inodes v)(ip := (inodes v ip)\<lparr>ivalid := True\<rparr>)\<rparr>)"
        using s v(2) T i unfolding fss_def by simp
      moreover have "iframe s (v\<lparr>inodes := (inodes v)(ip := (inodes v ip)\<lparr>ivalid := True\<rparr>)\<rparr>)"
        using bframe_iframe [OF v(1)] bframe_iframe [OF 3(1)] by (simp add: iframe_def)
      moreover have "itype (filled di d) \<noteq> 0" using ty by (simp add: filled_def di_def disk_inode_def Let_def)
      ultimately show ?thesis using Q i ip by (simp add: refs_def filled_def)
    qed
    have d: "inodes t ip = d" using f(1) ip(3) by simp
    show ?case
      unfolding wp_simps(2) wp_buf 3(4) di_def [symmetric] fill [OF d]
    proof (intro conjI allI impI)
      show "wp ?done v es Q" if "bframe ?t v" "bstate [] P p ROOTDEV C R {} v" for v using that by (rule fin)
    qed (use 3(2,3) in simp_all)
  qed simp_all
  then show ?thesis
    unfolding dev wp_simps Let_def wp_buf .
qed

lemma wp_ilock:
  fixes s :: "'x fs_scheme"
  assumes s: "fss P p C R k HL s" and ip: "ip < NINODE" "0 < iref (inodes s ip)" "ip \<notin> HL"
    and R: "spare R" and ty: "itype (disk_inode C k (inum (inodes s ip))) \<noteq> 0"
    and Q: "\<And>t. fss P p C R k (insert ip HL) t \<Longrightarrow> ivalid (inodes t ip) \<Longrightarrow> refs 0 ip s t \<Longrightarrow> iframe s t \<Longrightarrow> Q () t es"
  shows "wp (ilock (Some ip)) s es Q"
proof -
  let ?d = "inodes s ip"
  have free: "slocked (slocks s (InodeLock ip)) = 0" using fssD(4) [OF s, of ip] ip(3) by simp
  have r: "\<not> iref ?d < 1" using ip(2) by simp
  show ?thesis
    unfolding ilock_def option.case wp_simps(2) wp_inode if_not_P [OF r]
  proof (rule wp_acquiresleep [OF fssD(6) [OF s] _ fssD(7) [OF s] free], goal_cases)
    case (2 c st l)
    let ?s = "s\<lparr>slocks := (slocks s)(InodeLock ip := taken (pid (procs s p)) (slocks s (InodeLock ip))), cpus := c, sstatus := st, locks := l\<rparr>"
    have s': "fss P p C R k (insert ip HL) ?s" using s 2 by (auto simp: fss_def bstate_def)
    have i: "inodes ?s = inodes s" "iframe s ?s" by (simp_all add: iframe_def)
    show ?case
    proof (cases "ivalid ?d")
      case True then show ?thesis using Q [OF s'] i by (simp add: refs_def)
    next
      case False
      then have v: "\<not> ivalid (inodes ?s ip)" "sb ?s = k" using fssD(2) [OF s] by simp_all
      have "wp (doM (bread (idev ?d) (IBLOCK (inum ?d) k)) (\<lambda>bp.
         doM (get_buf bp) (\<lambda>b.
         let di = get_dinode (bdata b) (dinode_off (inum ?d)) in
         seqM [
           upd_inode ip (\<lambda>d. d\<lparr>itype := d_type di\<rparr>),
           upd_inode ip (\<lambda>d. d\<lparr>imajor := d_major di\<rparr>),
           upd_inode ip (\<lambda>d. d\<lparr>iminor := d_minor di\<rparr>),
           upd_inode ip (\<lambda>d. d\<lparr>nlink := d_nlink di\<rparr>),
           upd_inode ip (\<lambda>d. d\<lparr>isize := d_size di\<rparr>),
           upd_inode ip (\<lambda>d. d\<lparr>addrs := (\<lambda>i. if i \<le> NDIRECT then d_addrs di ! i else addrs d i)\<rparr>),
           brelse bp,
           upd_inode ip (\<lambda>d. d\<lparr>ivalid := True\<rparr>),
           doM (get_inode ip) (\<lambda>d. whenM (itype d = 0) (panic ''ilock: no type''))]))) ?s es Q"
        by (rule wp_load_inode [OF s' ip(1) _ _ R])
           (use ip(2) ty Q i iframe_trans in \<open>auto simp: refs_def\<close>)
      then show ?thesis
        unfolding wp_simps(2,6) wp_inode v(2) i(1) if_P [OF False] .
    qed
  qed simp
qed

section \<open>Unlocking and dropping\<close>

lemma wp_iunlock:
  fixes s :: "'x fs_scheme"
  assumes s: "fss P p C R k HL s" and ip: "ip \<in> HL" "0 < iref (inodes s ip)"
    and Q: "\<And>t. fss P p C R k (HL - {ip}) t \<Longrightarrow> inodes t = inodes s \<Longrightarrow> iframe s t \<Longrightarrow> Q () t es"
  shows "wp (iunlock (Some ip)) s es Q"
  unfolding iunlock_def option.case wp_simps(2)
proof (rule wp_holdingsleep [OF fssD(6) [OF s] _ fssD(7) [OF s]], goal_cases)
  case (2 c st l)
  have h: "slocked (slocks s (InodeLock ip)) \<noteq> 0" "slpid (slocks s (InodeLock ip)) = pid (procs s p)"
    using fssD(4,5) [OF s, of ip] ip(1) by simp_all
  have "wp (releasesleep (InodeLock ip)) (s\<lparr>cpus := c, sstatus := st, locks := l\<rparr>) es Q"
  proof (rule wp_releasesleep [where L = "[]" and P = P], goal_cases)
    case (4 c st l ps)
    then show ?case
      using s woken_fields [OF 4(2)] by (intro Q) (auto simp: fss_def bstate_def iframe_def)
  qed (use 2 in simp_all)
  then show ?case using h ip(2) by simp
qed simp

lemma wp_iput:
  fixes s :: "'x fs_scheme"
  assumes s: "fss P p C R k HL s" and ip: "ip < NINODE" "0 < iref (inodes s ip)"
    and live: "ivalid (inodes s ip) \<Longrightarrow> nlink (inodes s ip) \<noteq> 0"
    and Q: "\<And>t. fss P p C R k HL t \<Longrightarrow> refs (- 1) ip s t \<Longrightarrow> iframe s t \<Longrightarrow> Q () t es"
  shows "wp (iput ip) s es Q"
  unfolding iput_def wp_simps
proof (rule wp_acquire [OF fssD(6) [OF s]], goal_cases)
  case (2 c st l)
  have T: "itable_ok C k ((inodes s)(ip := (inodes s ip)\<lparr>iref := iref (inodes s ip) - 1\<rparr>))"
    by (rule itable_ok_ref [OF fssD(3) [OF s] ip]) (use ip in simp)
  have n: "\<not> (iref (inodes s ip) = 1 \<and> ivalid (inodes s ip) \<and> nlink (inodes s ip) = 0)" using live by blast
  from 2 show ?case
    apply (simp del: seqM.simps add: n)
    apply (rule wp_release, simp, simp)
    by (rule Q) (use T s ip in \<open>simp_all add: fss_def bstate_def refs_def iframe_def\<close>)
qed simp

lemma wp_iunlockput:
  fixes s :: "'x fs_scheme"
  assumes s: "fss P p C R k HL s" and ip: "ip < NINODE" "ip \<in> HL" "0 < iref (inodes s ip)"
    and live: "ivalid (inodes s ip) \<Longrightarrow> nlink (inodes s ip) \<noteq> 0"
    and Q: "\<And>t. fss P p C R k (HL - {ip}) t \<Longrightarrow> refs (- 1) ip s t \<Longrightarrow> iframe s t \<Longrightarrow> Q () t es"
  shows "wp (iunlockput ip) s es Q"
  unfolding iunlockput_def wp_simps
proof (rule wp_iunlock [OF s ip(2,3)], goal_cases)
  case (1 t)
  note t = 1
  show ?case
  proof (rule wp_iput [OF t(1) ip(1)], goal_cases)
    case (3 u) then show ?case using Q [OF 3(1) _ iframe_trans [OF t(3)]] t(2) by (simp add: refs_def)
  qed (use ip live t(2) in simp_all)
qed

end
