(* ===== verification/Dinode.thy ===== *)
theory Dinode
  imports Itable
begin

text \<open>
  The on-disk inode: what \<open>iupdate\<close> of \<^verbatim>\<open>kernel/fs.c\<close> puts into a block, \<open>ilock\<close> reads back, and
  the other inodes of the block are as before.
\<close>

lemma slice_blit_inside:
  assumes "off \<le> i" "i + n \<le> off + length xs" "off + length xs \<le> length bs"
  shows "slice (blit bs off xs) i n = slice xs (i - off) n"
  using assms by (intro nth_equalityI) (auto simp: slice_def nth_blit)

lemma slice_blit_outside:
  assumes "i + n \<le> off \<or> off + length xs \<le> i" "off + length xs \<le> length bs"
  shows "slice (blit bs off xs) i n = slice bs i n"
  using assms by (intro nth_equalityI) (auto simp: slice_def nth_blit)

lemma slice_concat_chunk:
  assumes "\<And>x. length (f x) = w" "i < length xs"
  shows "slice (concat (map f xs)) (w * i) w = f (xs ! i)"
  using assms(2)
proof (induction xs arbitrary: i)
  case (Cons x xs)
  show ?case
  proof (cases i)
    case 0 then show ?thesis by (simp add: slice_def assms(1))
  next
    case (Suc j)
    then show ?thesis using Cons by (simp add: slice_def assms(1))
  qed
qed simp

lemma length_chunks: "(\<And>x. length (f x) = w) \<Longrightarrow> length (concat (map f xs)) = w * length xs"
  by (induction xs) simp_all

lemma slice_all: "length xs \<le> n \<Longrightarrow> slice xs 0 n = xs"
  by (simp add: slice_def)

section \<open>Property: the format round-trips\<close>

lemma length_put_dinode:
  assumes "length (d_addrs d) = NDIRECT + 1" "off + sizeof_dinode \<le> length bs"
  shows "length (put_dinode bs off d) = length bs"
proof -
  have "length (concat (map (le_bytes 4) (d_addrs d))) = 52" using assms(1) by (subst length_chunks [where w = 4]) (simp_all add: NDIRECT_def)
  then show ?thesis using assms(2) by (simp add: put_dinode_def Let_def wr16_def wr32_def sizeof_dinode_def NDIRECT_def)
qed

lemma get_put_dinode:
  assumes "length (d_addrs d) = NDIRECT + 1" "off + sizeof_dinode \<le> length bs"
  shows "get_dinode (put_dinode bs off d) off = d \<and>
    (\<forall>i. i + sizeof_dinode \<le> off \<or> off + sizeof_dinode \<le> i \<longrightarrow> get_dinode (put_dinode bs off d) i = get_dinode bs i)"
proof -
  have n: "NDIRECT = 12" "sizeof_dinode = 64" by (simp_all add: NDIRECT_def sizeof_dinode_def)
  let ?a = "concat (map (le_bytes 4) (d_addrs d))"
  have la: "length ?a = 52" using assms(1) by (subst length_chunks [where w = 4]) (simp_all add: n)
  have 1: "rd32 (put_dinode bs off d) (off + 12 + 4 * i) = d_addrs d ! i" if "i < 13" for i
  proof -
    have "slice (blit b (off + 12) ?a) (off + 12 + 4 * i) 4 = le_bytes 4 (d_addrs d ! i)" if "length b = length bs" for b
      using that \<open>i < 13\<close> assms la slice_concat_chunk [of "le_bytes 4" 4 i "d_addrs d"]
      by (subst slice_blit_inside) (simp_all add: n)
    then show ?thesis using assms(2) by (simp add: rd32_def put_dinode_def Let_def wr16_def wr32_def le_word_le_bytes n)
  qed
  then have "map (\<lambda>i. rd32 (put_dinode bs off d) (off + 12 + 4 * i)) [0..<13] = d_addrs d"
    using assms(1) by (intro nth_equalityI) (simp_all add: n)
  moreover have "rd16 (put_dinode bs off d) off = d_type d" "rd16 (put_dinode bs off d) (off + 2) = d_major d"
    "rd16 (put_dinode bs off d) (off + 4) = d_minor d" "rd16 (put_dinode bs off d) (off + 6) = d_nlink d"
    "rd32 (put_dinode bs off d) (off + 8) = d_size d"
    using assms la
    by (simp_all add: rd16_def rd32_def put_dinode_def Let_def wr16_def wr32_def slice_blit_outside slice_blit_inside n slice_all le_word_le_bytes)
  ultimately have "get_dinode (put_dinode bs off d) off = d" by (simp add: get_dinode_def n)
  moreover have "slice (put_dinode bs off d) i w = slice bs i w" if "i + w \<le> off \<or> off + 64 \<le> i" for i w
    using that la assms(2) by (auto simp: put_dinode_def Let_def wr16_def wr32_def slice_blit_outside n)
  ultimately show ?thesis by (auto simp: get_dinode_def rd16_def rd32_def n)
qed

text \<open>
  C36.  The fields that \<open>iupdate\<close> copies to the block are the ones \<open>ilock\<close> copies from it: an
  inode written at an offset of a block reads back unchanged, and every other inode of the
  block reads as before.
\<close>

theorem dinode_roundtrip:
  assumes "length (d_addrs d) = NDIRECT + 1" "off + sizeof_dinode \<le> length bs"
  shows "get_dinode (put_dinode bs off d) off = d \<and>
    (\<forall>i. i + sizeof_dinode \<le> off \<or> off + sizeof_dinode \<le> i \<longrightarrow> get_dinode (put_dinode bs off d) i = get_dinode bs i)"
  using get_put_dinode [OF assms] .

lemma dinode_roundtrip_witness:
  "get_dinode (put_dinode (replicate 1024 7) 128 \<lparr>d_type = 1, d_major = 2, d_minor = 3, d_nlink = 4, d_size = 5, d_addrs = replicate 13 6\<rparr>) 128 =
     \<lparr>d_type = 1, d_major = 2, d_minor = 3, d_nlink = 4, d_size = 5, d_addrs = replicate 13 6\<rparr>"
  by (rule dinode_roundtrip [THEN conjunct1]) (simp_all add: NDIRECT_def sizeof_dinode_def)

end
