(* ===== verification/Paths.thy ===== *)
theory Paths
  imports Dinode
begin

text \<open>
  Path names and directories of \<^verbatim>\<open>kernel/fs.c\<close>: \<open>skipelem\<close> against a splitting of the path at its
  slashes, \<open>dirlookup\<close> against a search in the list of the entries, and \<open>namei\<close> against the
  walk through the tree of directories on disk.
\<close>

section \<open>Path elements\<close>

text \<open>The pieces of a path between its slashes; the empty ones are no elements.\<close>

fun split_slash :: "byte list \<Rightarrow> byte list list" where
  "split_slash [] = [[]]"
| "split_slash (c # cs) = (if c = SLASH then [] # split_slash cs
     else (c # hd (split_slash cs)) # tl (split_slash cs))"

definition path_elems :: "byte list \<Rightarrow> byte list list" where
  "path_elems path = map (take DIRSIZ) (filter (\<lambda>e. e \<noteq> []) (split_slash path))"

lemma split_slash_nonempty [simp]: "split_slash p \<noteq> []"
  by (cases p) simp_all

lemma split_slash_elem:
  "split_slash p = takeWhile (\<lambda>c. c \<noteq> SLASH) p #
     (case dropWhile (\<lambda>c. c \<noteq> SLASH) p of [] \<Rightarrow> [] | _ # q \<Rightarrow> split_slash q)"
  by (induction p) auto

lemma path_elems_Nil [simp]: "path_elems [] = []"
  by (simp add: path_elems_def)

lemma path_elems_slash [simp]: "path_elems (SLASH # p) = path_elems p"
  by (simp add: path_elems_def)

lemma path_elems_slashes: "path_elems (dropWhile (\<lambda>c. c = SLASH) p) = path_elems p"
  by (induction p) auto

lemma path_elems_Cons:
  assumes "p \<noteq> []" "hd p \<noteq> SLASH"
  shows "path_elems p = take DIRSIZ (takeWhile (\<lambda>c. c \<noteq> SLASH) p) # path_elems (dropWhile (\<lambda>c. c \<noteq> SLASH) p)"
proof -
  have "takeWhile (\<lambda>c. c \<noteq> SLASH) p \<noteq> []" using assms by (cases p) auto
  moreover have "path_elems (dropWhile (\<lambda>c. c \<noteq> SLASH) p) =
      map (take DIRSIZ) (filter (\<lambda>e. e \<noteq> []) (case dropWhile (\<lambda>c. c \<noteq> SLASH) p of [] \<Rightarrow> [] | _ # q \<Rightarrow> split_slash q))"
  proof (cases "dropWhile (\<lambda>c. c \<noteq> SLASH) p")
    case (Cons c q)
    then have "c = SLASH" using hd_dropWhile [of "\<lambda>c. c \<noteq> SLASH" p] by simp
    then show ?thesis using Cons by (simp add: path_elems_def)
  next
    case Nil
    show ?thesis unfolding Nil by simp
  qed
  ultimately show ?thesis unfolding path_elems_def by (subst split_slash_elem) simp
qed

lemma cstr_id: "0 \<notin> set xs \<Longrightarrow> cstr xs = xs"
  by (auto simp: cstr_def takeWhile_eq_all_conv)

text \<open>
  One call of \<open>skipelem\<close> takes the first element off the path and leaves its name in the
  buffer, as a C string.
\<close>

lemma skipelem_spec:
  assumes "length name = DIRSIZ" "0 \<notin> set path"
  shows "case skipelem path name of None \<Rightarrow> path_elems path = []
     | Some (path', name') \<Rightarrow> path_elems path = cstr name' # path_elems path' \<and> length name' = DIRSIZ \<and>
         length path' < length path \<and> 0 \<notin> set path' \<and> (path' = [] \<longleftrightarrow> path_elems path' = [])"
proof -
  define s where "s = dropWhile (\<lambda>c. c = SLASH) path"
  have se: "path_elems path = path_elems s" by (simp add: s_def path_elems_slashes)
  show ?thesis
  proof (cases "s = []")
    case True then show ?thesis using se by (simp add: skipelem_def s_def [symmetric])
  next
    case False
    define e where "e = takeWhile (\<lambda>c. c \<noteq> SLASH) s"
    define r where "r = dropWhile (\<lambda>c. c = SLASH) (dropWhile (\<lambda>c. c \<noteq> SLASH) s)"
    define nm where "nm = (if DIRSIZ \<le> length e then blit name 0 (take DIRSIZ e) else blit name 0 (e @ [0]))"
    have hd: "hd s \<noteq> SLASH" using hd_dropWhile [of "\<lambda>c. c = SLASH" path] False by (simp add: s_def)
    have e0: "0 \<notin> set e" using assms(2) by (auto simp: e_def s_def dest!: set_takeWhileD set_dropWhileD)
    have pe: "path_elems path = take DIRSIZ e # path_elems r"
      unfolding se path_elems_Cons [OF False hd] e_def r_def by (simp add: path_elems_slashes)
    have "cstr (take DIRSIZ e) = take DIRSIZ e" using e0 by (auto intro: cstr_id dest: in_set_takeD)
    then have nm: "cstr nm = take DIRSIZ e" "length nm = DIRSIZ"
      using e0 assms(1) by (auto simp: nm_def blit_def cstr_append_zero min_def)
    have "length (dropWhile (\<lambda>c. c \<noteq> SLASH) s) < length s"
      using False hd length_dropWhile_le [of "\<lambda>c. c \<noteq> SLASH" "tl s"] by (cases s) (auto intro: le_imp_less_Suc)
    then have len: "length r < length path"
      using length_dropWhile_le [of "\<lambda>c. c = SLASH" path] length_dropWhile_le [of "\<lambda>c. c = SLASH" "dropWhile (\<lambda>c. c \<noteq> SLASH) s"]
      unfolding r_def s_def by linarith
    have r0: "0 \<notin> set r" using assms(2) by (auto simp: r_def s_def dest!: set_dropWhileD)
    have rn: "r = [] \<longleftrightarrow> path_elems r = []"
    proof (cases "r = []")
      case False
      then have "hd r \<noteq> SLASH" unfolding r_def by (rule hd_dropWhile)
      then show ?thesis using path_elems_Cons [OF False] False by simp
    qed simp
    have "skipelem path name = Some (r, nm)"
      unfolding skipelem_def Let_def s_def [symmetric] e_def [symmetric] r_def [symmetric] nm_def [symmetric] using False by simp
    then show ?thesis using pe nm len r0 rn by simp
  qed
qed

text \<open>The names that repeated calls of \<open>skipelem\<close> leave in the buffer.\<close>

function skip_all :: "byte list \<Rightarrow> byte list \<Rightarrow> byte list list" where
  "skip_all path name = (case skipelem path name of None \<Rightarrow> []
     | Some (path', name') \<Rightarrow> cstr name' # skip_all path' name')"
  by auto
termination
proof (relation "measure (\<lambda>(path, name). length path)", goal_cases)
  case (2 path name r path' name')
  then have r: "path' = dropWhile (\<lambda>c. c = SLASH) (dropWhile (\<lambda>c. c \<noteq> SLASH) (dropWhile (\<lambda>c. c = SLASH) path))"
    "dropWhile (\<lambda>c. c = SLASH) path \<noteq> []" by (auto simp: skipelem_def Let_def split: if_splits)
  let ?s = "dropWhile (\<lambda>c. c = SLASH) path"
  have "length (dropWhile (\<lambda>c. c \<noteq> SLASH) ?s) < length ?s"
    using r(2) hd_dropWhile [OF r(2)] length_dropWhile_le [of "\<lambda>c. c \<noteq> SLASH" "tl ?s"] by (cases ?s) (auto intro: le_imp_less_Suc)
  then show ?case
    using length_dropWhile_le [of "\<lambda>c. c = SLASH" path] length_dropWhile_le [of "\<lambda>c. c = SLASH" "dropWhile (\<lambda>c. c \<noteq> SLASH) ?s"] r(1) by simp
qed simp

declare skip_all.simps [simp del]

text \<open>
  C35.  Repeated calls of \<open>skipelem\<close> give exactly the non-empty pieces of the path between its
  slashes, each cut to \<open>DIRSIZ\<close> bytes, whatever the number of slashes and whatever the buffer
  held before; and no call stores beyond the \<open>DIRSIZ\<close> bytes of the buffer.
\<close>

theorem skipelem_splits_path:
  assumes "length name = DIRSIZ" "0 \<notin> set path"
  shows "skip_all path name = path_elems path \<and>
    (case skipelem path name of None \<Rightarrow> True | Some (path', name') \<Rightarrow> length name' = DIRSIZ)"
proof
  show "skip_all path name = path_elems path"
    using assms
  proof (induction path name rule: skip_all.induct)
    case (1 path name)
    show ?case
      using skipelem_spec [OF 1(2,3)] 1(1) by (subst skip_all.simps) (auto split: option.splits)
  qed
  show "case skipelem path name of None \<Rightarrow> True | Some (path', name') \<Rightarrow> length name' = DIRSIZ"
    using skipelem_spec [OF assms] by (auto split: option.splits)
qed

lemma skipelem_splits_path_witness:
  "skip_all [47, 97, 47, 47, 98, 98, 98, 98, 98, 98, 98, 98, 98, 98, 98, 98, 98, 98, 98, 98] (replicate 14 0) =
     [[97], [98, 98, 98, 98, 98, 98, 98, 98, 98, 98, 98, 98, 98, 98]]"
proof -
  let ?b = "[98, 98, 98, 98, 98, 98, 98, 98, 98, 98, 98, 98, 98, 98, 98, 98] :: byte list"
  have "skip_all (47 # 97 # 47 # 47 # ?b) (replicate 14 0) = path_elems (47 # 97 # 47 # 47 # ?b)"
    using conjunct1 [OF skipelem_splits_path [of "replicate 14 0" "47 # 97 # 47 # 47 # ?b"]] by (simp add: DIRSIZ_def)
  moreover have "path_elems ?b = [take 14 ?b]" by (subst path_elems_Cons) (simp_all add: SLASH_def DIRSIZ_def)
  moreover have "path_elems (97 # 47 # 47 # ?b) = [97] # path_elems (47 # 47 # ?b)"
    by (subst path_elems_Cons) (simp_all add: SLASH_def DIRSIZ_def)
  ultimately show ?thesis using path_elems_slash [unfolded SLASH_def] by simp
qed

end
