(* ===== verification/Dirs.thy ===== *)
theory Dirs
  imports Paths
begin

text \<open>
  Directories of \<^verbatim>\<open>kernel/fs.c\<close>: \<open>dirlookup\<close> is a search in the list of the entries of the
  directory, and \<open>namei\<close> walks the tree that the directories on disk make.
\<close>

section \<open>Comparing names\<close>

lemma bytes_padded:
  assumes "length xs \<le> n" "n \<le> 2 ^ 63" "\<And>i. i < n \<Longrightarrow> length xs \<le> i \<Longrightarrow> m (a + of_nat i) = 0"
  shows "bytes (put m a xs) a n = xs @ replicate (n - length xs) 0"
  using assms by (intro nth_equalityI) (auto simp: put_def nth_append unat_of_nat)

lemma cstr_padded: "cstr (xs @ replicate n 0) = cstr xs"
  by (induction xs) (auto simp: cstr_def takeWhile_append)

lemma namecmp_0_iff:
  assumes "length s \<le> DIRSIZ" "length t \<le> DIRSIZ"
  shows "namecmp s t = 0 \<longleftrightarrow> cstr s = cstr t"
proof -
  have d: "DIRSIZ = 14" by (simp add: DIRSIZ_def)
  have far: "unat ((0x1000 :: addr) + of_nat i) = 0x1000 + i" if "i < 14" for i
    using that by (simp add: unat_add_of_nat)
  have "bytes (two_bufs s t) 0x1000 DIRSIZ = t @ replicate (DIRSIZ - length t) 0"
    unfolding two_bufs_def by (rule bytes_padded) (use assms far in \<open>auto simp: d put_def\<close>)
  moreover have "bytes (two_bufs s t) 0 DIRSIZ = bytes (put (\<lambda>_. 0) 0 s) 0 DIRSIZ"
  proof (rule bytes_cong)
    fix i assume i: "i < DIRSIZ"
    have "unat (of_nat i - (0x1000 :: addr)) = 2 ^ 64 - 0x1000 + i"
      using i by (simp add: d unat_sub_if' unat_of_nat word_le_nat_alt)
    then show "two_bufs s t (0 + of_nat i) = put (\<lambda>_. 0) 0 s (0 + of_nat i)"
      using assms i unfolding two_bufs_def d by (simp add: put_def)
  qed
  moreover have "bytes (put (\<lambda>_. 0) 0 s) 0 DIRSIZ = s @ replicate (DIRSIZ - length s) 0"
    by (rule bytes_padded) (use assms in \<open>auto simp: d\<close>)
  ultimately show ?thesis unfolding namecmp_def strncmp_0_iff by (simp add: cstr_padded)
qed

section \<open>Entries\<close>

definition dir_entry :: "(32 word \<Rightarrow> byte list) \<Rightarrow> inode \<Rightarrow> nat \<Rightarrow> byte list" where
  "dir_entry C d j = fbytes C d (sizeof_dirent * j) sizeof_dirent"

text \<open>The first entry in use with the given name: its inode number and its index.\<close>

definition dir_find :: "(32 word \<Rightarrow> byte list) \<Rightarrow> inode \<Rightarrow> byte list \<Rightarrow> (32 word \<times> nat) option" where
  "dir_find C d name = map_option (\<lambda>j. (ucast (de_inum (dir_entry C d j)), j))
     (List.find (\<lambda>j. de_inum (dir_entry C d j) \<noteq> 0 \<and> cstr (de_name (dir_entry C d j)) = name) [0..<unat (isize d) div sizeof_dirent])"

text \<open>A well-formed directory: a well-formed file of whole entries.\<close>

definition dir_ok :: "(32 word \<Rightarrow> byte list) \<Rightarrow> inode \<Rightarrow> bool" where
  "dir_ok C d \<longleftrightarrow> itype d = T_DIR \<and> file_ok C d \<and> sizeof_dirent dvd unat (isize d)"

lemma sizeof_dirent_16: "sizeof_dirent = 16"
  by (simp add: sizeof_dirent_def DIRSIZ_def)

lemma length_dir_entry [simp]: "length (dir_entry C d j) = sizeof_dirent" "length (de_name (dir_entry C d j)) = DIRSIZ"
  by (simp_all add: dir_entry_def de_name_def slice_def sizeof_dirent_def)

lemma take_fbytes: "m \<le> n \<Longrightarrow> take m (fbytes C d off n) = fbytes C d off m"
  by (simp add: fbytes_def take_map)

lemma wp_read_dirent:
  fixes s :: "'x fs_scheme"
  assumes s: "fss P p C R k HL s" and R: "spare R" and d: "inodes s dp = d" "idev d = ROOTDEV" "file_ok C d"
    and off: "unat off + sizeof_dirent \<le> unat (isize d)"
    and Q: "\<And>t. fss P p C R k HL t \<Longrightarrow> inodes t = inodes s \<Longrightarrow> iframe s t \<Longrightarrow> Q (fbytes C d (unat off) sizeof_dirent) t es"
  shows "wp (read_dirent dp off msg) s es Q"
proof -
  let ?F = "fbytes C d (unat off) sizeof_dirent"
  define J where "J n t \<longleftrightarrow> iframe s t \<and> sb t = sb s \<and> (\<forall>i. slocks t (InodeLock i) = slocks s (InodeLock i)) \<and>
     (\<forall>q. pid (procs t q) = pid (procs s q)) \<and> kbuf (pp t p) = take n ?F @ replicate (sizeof_dirent - n) 0" for n and t :: "'x fs_scheme"
  have sz: "unat (of_nat sizeof_dirent :: 32 word) = sizeof_dirent" by (simp add: sizeof_dirent_16)
  have sm: "unat (isize d) < 2 ^ 31"
    using d(3) by (simp add: file_ok_def MAXFILE_def NDIRECT_def NINDIRECT_def BSIZE_1024)
  show ?thesis
    unfolding read_dirent_def wp_simps(2)
  proof (rule wp_curproc [OF fssD(6,7) [OF s]], goal_cases)
    case (1 c st l)
    define s1 where "s1 = s\<lparr>pp := (pp s)(p := (pp s p)\<lparr>kbuf := replicate sizeof_dirent 0\<rparr>), cpus := c, sstatus := st, locks := l\<rparr>"
    have b1: "bstate [] P p ROOTDEV C R {} s1" using 1 fssD(1) [OF s] by (simp add: s1_def bstate_def)
    have J1: "J 0 s1" by (simp add: J_def s1_def iframe_def)
    have "wp (readi dp (StackLoc 0) off (of_nat sizeof_dirent)) s1 es (\<lambda>r t fs. r = int sizeof_dirent \<and> fs = es \<and>
        J sizeof_dirent t \<and> bstate [] P p ROOTDEV C R {} t \<and> inodes t = inodes s)"
    proof (rule wp_readi [OF b1 _ _ d(2,3) R, where N = sizeof_dirent and J = J], goal_cases)
      case 3 then show ?case using off sm by (simp add: sz)
    next
      case 4 show ?case by (rule J1)
    next
      case (5 n t u)
      then have "pid (procs u q) = pid (procs t q)" "slocks u (InodeLock i) = slocks t (InodeLock i)" for q i
        using bframe_base(5) [OF 5(2)] by (simp_all add: bframe_def)
      then show ?case
        using 5(1) bframe_fs(2) [OF 5(2)] bframe_base(3) [OF 5(2)] iframe_trans [OF _ bframe_iframe [OF 5(2)]] by (simp add: J_def)
    next
      case (6 n xs t)
      have xs: "take (n + length xs) ?F = take n ?F @ xs"
        using 6(4) by (simp add: take_fbytes fbytes_append flip: 6(5))
      have "blit (take n ?F @ replicate (sizeof_dirent - n) 0) n xs = take (n + length xs) ?F @ replicate (sizeof_dirent - (n + length xs)) 0"
        unfolding xs using 6(4) by (simp add: blit_def)
      then show ?case
        unfolding loc_plus.simps either_copyout.simps wp_simps
        apply (intro wp_curproc [OF 6(2,3)])
        using 6(1,3) by (simp add: upd_pp_def J_def iframe_def)
    qed (use d(1) in \<open>simp_all add: s1_def\<close>)
    then have "wp (doM (readi dp (StackLoc 0) off (of_nat sizeof_dirent)) (\<lambda>r.
        doM (whenM (r \<noteq> int sizeof_dirent) (panic msg)) (\<lambda>_. doM (get_pp p) (\<lambda>q. returnM (kbuf q))))) s1 es Q"
      unfolding wp_simps
    proof (rule wp_mono, goal_cases)
      case (1 r t fs)
      then have "fss P p C R k HL t" using s by (simp add: fss_def J_def)
      then show ?case using 1 by (simp add: get_pp_def J_def Q)
    qed
    then show ?case by (simp add: upd_pp_def s1_def)
  qed
qed

section \<open>dirlookup\<close>

abbreviation named :: "(32 word \<Rightarrow> byte list) \<Rightarrow> inode \<Rightarrow> byte list \<Rightarrow> nat \<Rightarrow> bool" where
  "named C d name j \<equiv> de_inum (dir_entry C d j) \<noteq> 0 \<and> cstr (de_name (dir_entry C d j)) = name"

lemma unat_small32: "m < 2 ^ 31 \<Longrightarrow> unat (of_nat m :: 32 word) = m"
  by (simp add: unat_of_nat take_bit_nat_eq_self)

lemma dir_find_cases:
  "dir_find C d name = None \<longleftrightarrow> (\<forall>j < unat (isize d) div sizeof_dirent. \<not> named C d name j)"
  "dir_find C d name = Some (i, j) \<longleftrightarrow> j < unat (isize d) div sizeof_dirent \<and> named C d name j \<and>
     (\<forall>j'<j. \<not> named C d name j') \<and> i = ucast (de_inum (dir_entry C d j))"
proof -
  show "dir_find C d name = None \<longleftrightarrow> (\<forall>j < unat (isize d) div sizeof_dirent. \<not> named C d name j)"
    by (auto simp: dir_find_def find_None_iff)
  show "dir_find C d name = Some (i, j) \<longleftrightarrow> j < unat (isize d) div sizeof_dirent \<and> named C d name j \<and>
     (\<forall>j'<j. \<not> named C d name j') \<and> i = ucast (de_inum (dir_entry C d j))"
    unfolding dir_find_def by (auto simp: find_Some_iff intro!: exI [of _ j])
qed

lemma wp_dirlookup:
  fixes s :: "'x fs_scheme"
  assumes s: "fss P p C R k HL s" and R: "spare R" and d: "inodes s dp = d" "idev d = ROOTDEV" "dir_ok C d"
    and name: "length name \<le> DIRSIZ" and room: "\<exists>j<NINODE. iref (inodes s j) = 0"
    and none: "\<And>t. dir_find C d (cstr name) = None \<Longrightarrow> fss P p C R k HL t \<Longrightarrow> inodes t = inodes s \<Longrightarrow> iframe s t \<Longrightarrow> Q None t es"
    and some: "\<And>i j ip t. dir_find C d (cstr name) = Some (i, j) \<Longrightarrow> fss P p C R k HL t \<Longrightarrow> ip < NINODE \<Longrightarrow> inum (inodes t ip) = i \<Longrightarrow>
      refs 1 ip s t \<Longrightarrow> iframe s t \<Longrightarrow> Q (Some (ip, of_nat (sizeof_dirent * j))) t es"
  shows "wp (dirlookup dp name) s es Q"
proof -
  let ?n = "unat (isize d) div sizeof_dirent" and ?f = "named C d (cstr name)"
  have ty: "itype d = T_DIR" "file_ok C d" and sz: "unat (isize d) = sizeof_dirent * ?n" using d(3) by (simp_all add: dir_ok_def)
  have dir: "\<not> itype d \<noteq> T_DIR" using ty(1) by simp
  have sm: "unat (isize d) < 2 ^ 31"
    using ty(2) by (simp add: file_ok_def MAXFILE_def NDIRECT_def NINDIRECT_def BSIZE_1024)
  define I where "I v t fs \<longleftrightarrow> fs = es \<and> fss P p C R k HL t \<and> inodes t = inodes s \<and> iframe s t \<and>
     (\<exists>j\<le>?n. v = of_nat (sizeof_dirent * j) \<and> (\<forall>j'<j. \<not> ?f j'))" for v :: "32 word" and t :: "'x fs_scheme" and fs
  show ?thesis
    unfolding dirlookup_def wp_simps(2,6) wp_inode d(1) if_not_P [OF dir]
  proof (rule wp_iterM [where I = I and \<mu> = "\<lambda>v _ _. unat (isize d) - unat v"], goal_cases)
    case 1 show ?case using s by (auto simp: I_def intro!: exI [of _ 0])
  next
    case (3 v t fs)
    then obtain j where t: "fs = es" "fss P p C R k HL t" "inodes t = inodes s" "iframe s t"
      and j: "j \<le> ?n" "v = of_nat (sizeof_dirent * j)" "\<forall>j'<j. \<not> ?f j'" unfolding I_def by blast
    have small: "unat (of_nat (sizeof_dirent * i) :: 32 word) = sizeof_dirent * i" if "i \<le> ?n" for i
      by (rule unat_small32) (use mult_le_mono2 [OF that, of sizeof_dirent] sz sm in linarith)
    have v: "unat v = sizeof_dirent * j" unfolding j(2) by (rule small [OF j(1)])
    show ?case
    proof (cases "j < ?n")
      case False
      then have "\<not> v < isize d" using j sz by (simp add: word_less_nat_alt v)
      moreover have "dir_find C d (cstr name) = None" using j False by (simp add: dir_find_cases)
      ultimately show ?thesis using none t by simp
    next
      case True
      then have lt: "v < isize d" "unat v + sizeof_dirent \<le> unat (isize d)"
        using sz by (simp_all add: word_less_nat_alt v sizeof_dirent_16)
      have e: "fbytes C d (unat v) sizeof_dirent = dir_entry C d j" by (simp add: dir_entry_def v)
      have step: "I (v + of_nat sizeof_dirent) u es \<and> unat (isize d) - unat (v + of_nat sizeof_dirent) < unat (isize d) - unat v"
        if "fss P p C R k HL u" "inodes u = inodes s" "iframe s u" "\<not> ?f j" for u
      proof -
        have v': "v + of_nat sizeof_dirent = of_nat (sizeof_dirent * Suc j)" by (simp add: j(2))
        have "unat (of_nat (sizeof_dirent * Suc j) :: 32 word) = sizeof_dirent * Suc j"
          using True by (intro small) simp
        then show ?thesis
          unfolding I_def v' using that True j(3) v lt(2) by (auto simp: less_Suc_eq sizeof_dirent_16 intro!: exI [of _ "Suc j"])
      qed
      show ?thesis
        unfolding if_P [OF lt(1)] wp_simps(2)
      proof (rule wp_read_dirent [OF t(2) R _ d(2) ty(2) lt(2)], goal_cases)
        case (2 u)
        then have u: "fss P p C R k HL u" "inodes u = inodes s" "iframe s u" using t(3,4) iframe_trans by auto
        have nm: "namecmp name (de_name (dir_entry C d j)) = 0 \<longleftrightarrow> cstr (de_name (dir_entry C d j)) = cstr name"
          by (subst namecmp_0_iff) (use name in auto)
        show ?case
        proof (cases "?f j")
          case False then show ?thesis unfolding t(1) e using step [OF u] nm by auto
        next
          case f: True
          have found: "dir_find C d (cstr name) = Some (ucast (de_inum (dir_entry C d j)), j)"
            using True f j(3) by (simp add: dir_find_cases)
          have "wp (iget ROOTDEV (ucast (de_inum (dir_entry C d j)))) u es (\<lambda>ip t fs. Q (Some (ip, v)) t fs)"
          proof (rule wp_iget_fs [OF u(1)], goal_cases)
            case (2 ip w) then show ?case
              using some [OF found 2(2,1,3) _ iframe_trans [OF u(3)]] u(2) j(2) by (simp add: refs_def)
          qed (use room u(2) in simp)
          then show ?thesis unfolding t(1) e d(2) using f nm by simp
        qed
      qed (use t(3) d(1) in simp)
    qed
  qed simp
qed

end
