(* ===== verification/Namei.thy ===== *)
theory Namei
  imports Dirs
begin

text \<open>
  \<open>namei\<close> of \<^verbatim>\<open>kernel/fs.c\<close> walks the tree that the directories on disk make: it returns a
  reference to the inode the path leads to, or fails when there is none, and leaves all
  other reference counts as they were.
\<close>

section \<open>The tree on disk\<close>

text \<open>The inode number that a list of path elements leads to, from inode \<open>i\<close>.\<close>

fun resolve :: "(32 word \<Rightarrow> byte list) \<Rightarrow> superblock \<Rightarrow> 32 word \<Rightarrow> byte list list \<Rightarrow> 32 word option" where
  "resolve C k i [] = Some i"
| "resolve C k i (e # es) =
     (if itype (disk_inode C k i) = T_DIR then
        case dir_find C (disk_inode C k i) e of None \<Rightarrow> None | Some (j, _) \<Rightarrow> resolve C k j es
      else None)"

definition live :: "(32 word \<Rightarrow> byte list) \<Rightarrow> superblock \<Rightarrow> 32 word \<Rightarrow> bool" where
  "live C k i \<longleftrightarrow> itype (disk_inode C k i) \<noteq> 0 \<and> nlink (disk_inode C k i) \<noteq> 0"

text \<open>The directories on disk are well-formed, and their entries name inodes in use.\<close>

definition tree_ok :: "(32 word \<Rightarrow> byte list) \<Rightarrow> superblock \<Rightarrow> bool" where
  "tree_ok C k \<longleftrightarrow> (\<forall>i. itype (disk_inode C k i) = T_DIR \<longrightarrow> dir_ok C (disk_inode C k i) \<and>
     (\<forall>name j n. dir_find C (disk_inode C k i) name = Some (j, n) \<longrightarrow> live C k j))"

lemma same_inode_blk: "same_inode d e \<Longrightarrow> blk_addr C d = blk_addr C e"
  by (auto simp: same_inode_def blk_addr_def fun_eq_iff)

lemma same_inode_dir:
  assumes "same_inode d e"
  shows "dir_ok C d = dir_ok C e" "dir_find C d name = dir_find C e name"
proof -
  have b: "blk_addr C d = blk_addr C e" by (rule same_inode_blk [OF assms])
  have f: "isize d = isize e" "itype d = itype e" "addrs d NDIRECT = addrs e NDIRECT" using assms by (simp_all add: same_inode_def)
  then have "file_ok C d = file_ok C e" by (simp add: file_ok_def blk_mapped_def b)
  then show "dir_ok C d = dir_ok C e" by (simp add: dir_ok_def f)
  have "fbytes C d = fbytes C e" by (simp add: fbytes_def fbyte_def b fun_eq_iff)
  then show "dir_find C d name = dir_find C e name" by (simp add: dir_find_def dir_entry_def f)
qed

section \<open>One element\<close>

definition counts_ok :: "'x fs_scheme \<Rightarrow> bool" where
  "counts_ok s \<longleftrightarrow> (\<forall>j<NINODE. 0 \<le> iref (inodes s j)) \<and>
     (\<exists>a<NINODE. \<exists>b<NINODE. a \<noteq> b \<and> iref (inodes s a) = 0 \<and> iref (inodes s b) = 0)"

lemma counts_room:
  assumes "counts_ok s" "refs 1 ip s t" shows "\<exists>j<NINODE. iref (inodes t j) = 0"
  using assms unfolding counts_ok_def refs_def by (metis add.right_neutral)

lemma refs_step:
  assumes "counts_ok s" "refs 1 ip s t" "refs 0 ip t u"
  shows "refs (- 1) ip u w \<Longrightarrow> refs 0 ip s w" "refs 1 nx u v \<Longrightarrow> refs (- 1) ip v w \<Longrightarrow> refs 1 nx s w"
  using assms by (auto simp: refs_def counts_ok_def)

text \<open>
  The state of the loop in \<open>namex\<close> after some elements: \<open>ip\<close> is the inode reached, and what
  remains of the path leads from it where the whole path leads.
\<close>

definition walk_inv :: "(nat \<Rightarrow> nat option) \<Rightarrow> nat \<Rightarrow> (32 word \<Rightarrow> byte list) \<Rightarrow> (32 word \<Rightarrow> nat) \<Rightarrow> superblock \<Rightarrow>
    'x fs_scheme \<Rightarrow> 32 word option \<Rightarrow> byte list \<times> byte list \<times> nat \<Rightarrow> 'x fs_scheme \<Rightarrow> bool" where
  "walk_inv P p C R k s goal v t \<longleftrightarrow> (case v of (path, name, ip) \<Rightarrow>
     fss P p C R k {} t \<and> iframe s t \<and> refs 1 ip s t \<and> ip < NINODE \<and> length name = DIRSIZ \<and> 0 \<notin> set path \<and>
     live C k (inum (inodes t ip)) \<and> resolve C k (inum (inodes t ip)) (path_elems path) = goal)"

text \<open>What \<open>namei\<close> promises of its result, when the path leads to \<open>goal\<close>.\<close>

definition walked :: "(nat \<Rightarrow> nat option) \<Rightarrow> nat \<Rightarrow> (32 word \<Rightarrow> byte list) \<Rightarrow> (32 word \<Rightarrow> nat) \<Rightarrow> superblock \<Rightarrow>
    'x fs_scheme \<Rightarrow> 32 word option \<Rightarrow> nat option \<Rightarrow> 'x fs_scheme \<Rightarrow> bool" where
  "walked P p C R k s goal r t \<longleftrightarrow> fss P p C R k {} t \<and> iframe s t \<and> (case goal of
     None \<Rightarrow> r = None \<and> (\<forall>j<NINODE. iref (inodes t j) = iref (inodes s j))
   | Some i \<Rightarrow> \<exists>ip<NINODE. r = Some ip \<and> inum (inodes t ip) = i \<and> refs 1 ip s t)"

lemma wp_walk_elem:
  fixes s :: "'x fs_scheme"
  assumes inv: "walk_inv P p C R k s goal (path, name, ip) t" and cnt: "counts_ok s" and R: "spare R" and tree: "tree_ok C k"
    and sk: "skipelem path name = Some (path', name')"
    and fail: "\<And>w. walked P p C R k s goal None w \<Longrightarrow> Q (Inr None) w es"
    and step: "\<And>nx w. walk_inv P p C R k s goal (path', name', nx) w \<Longrightarrow> Q (Inl (path', name', nx)) w es"
  shows "wp (doM (ilock (Some ip)) (\<lambda>_.
           doM (get_inode ip) (\<lambda>d.
           if itype d \<noteq> T_DIR then doM (iunlockput ip) (\<lambda>_. returnM (Inr None))
           else
             doM (dirlookup ip name') (\<lambda>r.
             case r of None \<Rightarrow> doM (iunlockput ip) (\<lambda>_. returnM (Inr None))
             | Some (next, _) \<Rightarrow>
                 doM (iunlockput ip) (\<lambda>_. returnM (Inl (path', name', next))))))) t es Q"
proof -
  have t: "fss P p C R k {} t" "iframe s t" "refs 1 ip s t" "ip < NINODE" "length name = DIRSIZ" "0 \<notin> set path"
    "live C k (inum (inodes t ip))" "resolve C k (inum (inodes t ip)) (path_elems path) = goal"
    using inv by (simp_all add: walk_inv_def)
  let ?i = "inum (inodes t ip)"
  have pe: "path_elems path = cstr name' # path_elems path'" "length name' = DIRSIZ" "0 \<notin> set path'"
    using skipelem_spec [OF t(5,6)] sk by simp_all
  have pos: "0 < iref (inodes t ip)" using t(3,4) cnt by (auto simp: refs_def counts_ok_def)
  show ?thesis
    unfolding wp_simps(2) wp_inode
  proof (rule wp_ilock [OF t(1,4) pos _ R], goal_cases)
    case 2 then show ?case using t(7) by (simp add: live_def)
  next
    case (3 u)
    have u: "0 < iref (inodes u ip)" "inum (inodes u ip) = ?i" using 3(3) t(4) pos by (simp_all add: refs_def)
    have same: "same_inode (inodes u ip) (disk_inode C k ?i)"
      using itable_okD(3) [OF fssD(3) [OF 3(1)] t(4) u(1) 3(2)] u(2) by simp
    then have nl: "nlink (inodes u ip) \<noteq> 0" and ty: "itype (inodes u ip) = itype (disk_inode C k ?i)" and dev: "idev (inodes u ip) = ROOTDEV"
      using t(7) by (auto simp: same_inode_def live_def disk_inode_def Let_def)
    have drop: "wp (iunlockput ip) v es Z"
      if v: "fss P p C R k {ip} v" "0 < iref (inodes v ip)" "inum (inodes v ip) = ?i"
        "\<And>w. fss P p C R k {} w \<Longrightarrow> refs (- 1) ip v w \<Longrightarrow> iframe v w \<Longrightarrow> Z () w es" for v Z
    proof (rule wp_iunlockput [OF v(1) t(4) _ v(2)])
      show "nlink (inodes v ip) \<noteq> 0" if "ivalid (inodes v ip)"
        using itable_okD(3) [OF fssD(3) [OF v(1)] t(4) v(2) that] v(3) t(7) by (simp add: same_inode_def live_def)
    qed (use v(4) in simp_all)
    have su: "iframe s u" by (rule iframe_trans [OF t(2) 3(4)])
    have none: "wp (iunlockput ip) v es (\<lambda>_. Q (Inr None))"
      if v: "fss P p C R k {ip} v" "inodes v = inodes u" "iframe s v" "goal = None" for v
    proof (rule drop [OF v(1)])
      fix w assume w: "fss P p C R k {} w" "refs (- 1) ip v w" "iframe v w"
      have "refs 0 ip s w" by (rule refs_step(1) [OF cnt t(3) 3(3)]) (use w(2) v(2) in \<open>simp add: refs_def\<close>)
      then show "Q (Inr None) w es"
        using w(1) iframe_trans [OF v(3) w(3)] v(4) by (intro fail) (simp add: walked_def refs_def)
    qed (use u v in simp_all)
    show ?case
    proof (cases "itype (inodes u ip) = T_DIR")
      case False
      then have "goal = None" using t(8) ty pe(1) by auto
      then show ?thesis using none [OF 3(1) refl su] False by simp
    next
      case True
      have dir: "dir_ok C (inodes u ip)" "dir_find C (inodes u ip) = dir_find C (disk_inode C k ?i)"
        using tree ty True same_inode_dir [OF same] by (auto simp: tree_ok_def)
      have goal: "goal = (case dir_find C (inodes u ip) (cstr name') of None \<Rightarrow> None | Some (j, _) \<Rightarrow> resolve C k j (path_elems path'))"
        using t(8) True ty pe(1) dir(2) by simp
      have room: "\<exists>j<NINODE. iref (inodes u j) = 0"
        using counts_room [OF cnt t(3)] 3(3) by (auto simp: refs_def)
      have "wp (dirlookup ip name') u es (\<lambda>r v fs. wp (case r of None \<Rightarrow> doM (iunlockput ip) (\<lambda>_. returnM (Inr None))
             | Some (next, _) \<Rightarrow> doM (iunlockput ip) (\<lambda>_. returnM (Inl (path', name', next)))) v fs Q)"
      proof (rule wp_dirlookup [OF 3(1) R refl dev dir(1) _ room], goal_cases)
        case (2 v)
        then show ?case using none [OF 2(2,3) iframe_trans [OF su 2(4)]] goal by simp
      next
        case (3 j n nx v)
        have v: "0 < iref (inodes v ip)" "inum (inodes v ip) = ?i" using 3(5) u t(4) by (auto simp: refs_def)
        have lj: "live C k j" using tree 3(1) dir(2) ty True unfolding tree_ok_def by metis
        have "wp (iunlockput ip) v es (\<lambda>_. Q (Inl (path', name', nx)))"
        proof (rule drop [OF 3(2) v])
          fix w assume w: "fss P p C R k {} w" "refs (- 1) ip v w" "iframe v w"
          have nx: "refs 1 nx s w" by (rule refs_step(2) [OF cnt t(3) \<open>refs 0 ip t u\<close> 3(5) w(2)])
          have "0 < iref (inodes v nx)" using 3(3,5) itable_okD(1) [OF fssD(3) [OF \<open>fss P p C R k (insert ip {}) u\<close>] 3(3)]
            by (simp add: refs_def)
          then have "inum (inodes w nx) = j" using w(2) 3(3,4) by (simp add: refs_def)
          then show "Q (Inl (path', name', nx)) w es"
            using w(1) nx 3(1,3) pe lj goal iframe_trans [OF iframe_trans [OF su 3(6)] w(3)]
            by (intro step) (simp add: walk_inv_def)
        qed
        then show ?case by simp
      qed (use pe(2) in simp)
      then show ?thesis using True by simp
    qed
  qed simp
qed

section \<open>Property: path lookup\<close>

lemma wp_namex:
  fixes s :: "'x fs_scheme"
  assumes s: "fss P p C R k {} s" and R: "spare R" and tree: "tree_ok C k" and cnt: "counts_ok s" and path: "0 \<notin> set path"
    and start: "if path \<noteq> [] \<and> hd path = SLASH then i = ROOTINO
        else \<exists>c<NINODE. cwd (pp s p) = Some c \<and> 0 < iref (inodes s c) \<and> inum (inodes s c) = i" and li: "live C k i"
    and Q: "\<And>r t. walked P p C R k s (resolve C k i (path_elems path)) (map_option fst r) t \<Longrightarrow> Q r t es"
  shows "wp (namex path False (replicate DIRSIZ 0)) s es Q"
proof -
  let ?goal = "resolve C k i (path_elems path)"
  let ?I = "\<lambda>v t fs. walk_inv P p C R k s ?goal v t \<and> fs = es"
  have inv0: "walk_inv P p C R k s ?goal (path, replicate DIRSIZ 0, ip) t"
    if "fss P p C R k {} t" "iframe s t" "refs 1 ip s t" "ip < NINODE" "inum (inodes t ip) = i" for ip t
    using that path li by (simp add: walk_inv_def)
  have loop: "wp (iterM (Suc (length path)) (\<lambda>(path, name, ip).
       case skipelem path name of
         None \<Rightarrow>
           if False then doM (iput ip) (\<lambda>_. returnM (Inr None))
           else returnM (Inr (Some (ip, name)))
       | Some (path', name') \<Rightarrow>
           doM (ilock (Some ip)) (\<lambda>_.
           doM (get_inode ip) (\<lambda>d.
           if itype d \<noteq> T_DIR then doM (iunlockput ip) (\<lambda>_. returnM (Inr None))
           else if False \<and> path' = [] then
             doM (iunlock (Some ip)) (\<lambda>_. returnM (Inr (Some (ip, name'))))
           else
             doM (dirlookup ip name') (\<lambda>r.
             case r of None \<Rightarrow> doM (iunlockput ip) (\<lambda>_. returnM (Inr None))
             | Some (next, _) \<Rightarrow>
                 doM (iunlockput ip) (\<lambda>_. returnM (Inl (path', name', next))))))) (path, replicate DIRSIZ 0, ip)) t es Q"
    if t: "walk_inv P p C R k s ?goal (path, replicate DIRSIZ 0, ip) t" for ip t
  proof (rule wp_iterM [where I = ?I and \<mu> = "\<lambda>v _ _. length (fst v)"], goal_cases)
    case (3 v t fs)
    obtain path name ip where v: "v = (path, name, ip)" by (cases v)
    with 3 have inv: "walk_inv P p C R k s ?goal (path, name, ip) t" "fs = es" by simp_all
    then have sk: "length name = DIRSIZ" "0 \<notin> set path" by (simp_all add: walk_inv_def)
    show ?case
    proof (cases "skipelem path name")
      case None
      then have "path_elems path = []" using skipelem_spec [OF sk] by simp
      then have "?goal = Some (inum (inodes t ip))" using inv(1) by (simp add: walk_inv_def)
      then have "walked P p C R k s ?goal (Some ip) t" using inv(1) unfolding walked_def by (simp add: walk_inv_def)
      then show ?thesis unfolding v inv(2) using Q [of "Some (ip, name)" t] None by simp
    next
      case (Some pn)
      then obtain path' name' where sp: "skipelem path name = Some (path', name')" by (cases pn) simp
      have "length path' < length path" using skipelem_spec [OF sk] sp by simp
      then show ?thesis
        unfolding v inv(2) split_conv sp option.case simp_thms if_False
        by (intro wp_walk_elem [OF inv(1) cnt R tree sp]) (use Q [of None] in auto)
    qed
  qed (use t in simp_all)
  show ?thesis
  proof (cases "path \<noteq> [] \<and> hd path = SLASH")
    case True
    then have i: "i = ROOTINO" using start by simp
    have "wp (iget ROOTDEV ROOTINO) s es (\<lambda>ip t fs. fs = es \<and> walk_inv P p C R k s ?goal (path, replicate DIRSIZ 0, ip) t)"
      by (rule wp_iget_fs [OF s]) (use cnt inv0 i in \<open>auto simp: counts_ok_def\<close>)
    then show ?thesis
      unfolding namex_def wp_simps(2) if_P [OF True] by (rule wp_mono) (use loop in blast)
  next
    case False
    then obtain c where c: "c < NINODE" "cwd (pp s p) = Some c" "0 < iref (inodes s c)" "inum (inodes s c) = i"
      using start by auto
    have "wp (doM curproc (\<lambda>p. doM (get_pp p) (\<lambda>q. case cwd q of None \<Rightarrow> panic ''kerneltrap'' | Some i \<Rightarrow> idup i))) s es
       (\<lambda>ip t fs. fs = es \<and> walk_inv P p C R k s ?goal (path, replicate DIRSIZ 0, ip) t)"
      unfolding wp_simps(2)
    proof (rule wp_curproc [OF fssD(6,7) [OF s]], goal_cases)
      case (1 cp st l)
      let ?s = "s\<lparr>cpus := cp, sstatus := st, locks := l\<rparr>"
      have s': "fss P p C R k {} ?s" using s 1 by (simp add: fss_def bstate_def)
      have "wp (idup c) ?s es (\<lambda>ip t fs. fs = es \<and> walk_inv P p C R k s ?goal (path, replicate DIRSIZ 0, ip) t)"
      proof (rule wp_idup_fs [OF s' c(1)], goal_cases)
        case (2 t) then show ?case using inv0 [of t c] c by (simp add: refs_def iframe_def)
      qed (use c in simp)
      then show ?case using c(2) by (simp add: get_pp_def)
    qed
    then show ?thesis
      unfolding namex_def if_not_P [OF False] by (subst wp_simps(2), elim wp_mono) (use loop in blast)
  qed
qed

text \<open>
  C2.  \<open>namei\<close> follows the path: in a file system with well-formed directories, where process
  \<open>p\<close> runs alone, it returns an in-memory inode for the inode number that the elements of the
  path lead to, from the root or from the current directory, with one more reference and
  all other counts as before; when the path leads nowhere it returns null and all counts are
  as before.  No block changes, no lock is left held.
\<close>

theorem namei_resolves_path:
  fixes s :: "'x fs_scheme"
  assumes "fss P p C R k {} s" "spare R" "tree_ok C k" "counts_ok s" "0 \<notin> set path" "live C k i"
    and "if path \<noteq> [] \<and> hd path = SLASH then i = ROOTINO
      else \<exists>c<NINODE. cwd (pp s p) = Some c \<and> 0 < iref (inodes s c) \<and> inum (inodes s c) = i"
  shows "\<exists>r t. namei path s es = Done r t es \<and> walked P p C R k s (resolve C k i (path_elems path)) r t"
proof -
  have "wp (namei path) s es (\<lambda>r t fs. fs = es \<and> walked P p C R k s (resolve C k i (path_elems path)) r t)"
    unfolding namei_def wp_simps(2)
    by (rule wp_namex [OF assms(1-5,7,6)]) simp
  then show ?thesis by (auto simp: wp_iff)
qed

section \<open>A concrete tree\<close>

text \<open>A disk with a root directory that has one entry, the file \<open>a\<close>.\<close>

definition demo_root :: dinode where
  "demo_root = \<lparr>d_type = T_DIR, d_major = 0, d_minor = 0, d_nlink = 1, d_size = 16, d_addrs = 50 # replicate 12 0\<rparr>"

definition demo_a :: dinode where
  "demo_a = \<lparr>d_type = T_FILE, d_major = 0, d_minor = 0, d_nlink = 1, d_size = 0, d_addrs = replicate 13 0\<rparr>"

definition demo_tree :: "32 word \<Rightarrow> byte list" where
  "demo_tree n = (if n = 32 then put_dinode (put_dinode (replicate 1024 0) 64 demo_root) 128 demo_a
     else if n = 50 then [2, 0, 97] @ replicate 1021 0 else replicate 1024 0)"

definition demo_namei :: fs where
  "demo_namei = demo_fs\<lparr>disk := demo_tree\<rparr>"

lemma demo_inode_len: "length (d_addrs demo_root) = NDIRECT + 1" "length (d_addrs demo_a) = NDIRECT + 1"
  by (simp_all add: demo_root_def demo_a_def NDIRECT_def)

lemma demo_blocks_length:
  "length (put_dinode (replicate 1024 0) 64 demo_root) = 1024"
  "length (put_dinode (put_dinode (replicate 1024 0) 64 demo_root) 128 demo_a) = 1024"
  using length_put_dinode [OF demo_inode_len(1), of 64 "replicate 1024 0"]
    length_put_dinode [OF demo_inode_len(2), of 128 "put_dinode (replicate 1024 0) 64 demo_root"]
  by (simp_all add: sizeof_dinode_def NDIRECT_def)

lemma demo_blocks:
  "get_dinode (demo_tree 32) 64 = demo_root" "get_dinode (demo_tree 32) 128 = demo_a"
  "off + 64 \<le> 64 \<or> 192 \<le> off \<Longrightarrow> get_dinode (demo_tree 32) off = get_dinode (replicate 1024 0) off"
  using get_put_dinode [OF demo_inode_len(1), of 64 "replicate 1024 0"]
    get_put_dinode [OF demo_inode_len(2), of 128 "put_dinode (replicate 1024 0) 64 demo_root"]
  by (auto simp: demo_tree_def sizeof_dinode_def NDIRECT_def demo_blocks_length)

lemma demo_type_0: "d_type (get_dinode (replicate n 0) off) = 0"
proof -
  have "slice (replicate n (0 :: byte)) off 2 = replicate (min 2 (n - off)) 0" by (simp add: slice_def)
  moreover have "le_word (replicate m 0) = (0 :: 16 word)" for m by (induction m) simp_all
  ultimately show ?thesis by (simp add: get_dinode_def rd16_def)
qed

definition demo_sb :: superblock where
  "demo_sb = sb demo_fs"

text \<open>Inode 1 is the only directory.\<close>

lemma demo_dirs:
  assumes "itype (disk_inode demo_tree demo_sb i) = T_DIR" shows "i = 1"
proof -
  let ?b = "IBLOCK i demo_sb" and ?off = "64 * (unat i mod 16)"
  have c: "dinode_off i = ?off" by (simp add: dinode_off_def sizeof_dinode_def NDIRECT_def IPB_def BSIZE_1024)
  have b: "?b = of_nat (unat i div 16) + 32"
    by (simp add: IBLOCK_def demo_sb_def demo_fs_def logs.defs fs.defs sizeof_dinode_def NDIRECT_def IPB_def BSIZE_1024)
  have ty: "d_type (get_dinode (demo_tree ?b) ?off) = 1" using assms by (simp add: disk_inode_def Let_def c T_DIR_def)
  have "demo_tree ?b = replicate 1024 0" if "?b \<noteq> 32" "?b \<noteq> 50" using that by (simp add: demo_tree_def)
  then have "?b = 32 \<or> ?b = 50" using ty demo_type_0 [of 1024 ?off] by force
  moreover have False if "?b = 50"
  proof -
    have "slice (demo_tree 50) ?off 2 = (if unat i mod 16 = 0 then [2, 0] else [0, 0])"
    proof (cases "unat i mod 16")
      case 0 then show ?thesis by (simp add: demo_tree_def slice_def)
    next
      case (Suc n)
      then have o: "3 \<le> ?off" "?off \<le> 960" by simp_all
      then have "drop ?off ([2, 0, 97] @ replicate 1021 0) = replicate (1024 - ?off) (0 :: byte)" by (simp add: drop_Cons')
      moreover have "1024 - ?off = Suc (Suc (1022 - ?off))" using o by simp
      ultimately show ?thesis using Suc by (simp add: demo_tree_def slice_def)
    qed
    then have "d_type (get_dinode (demo_tree 50) ?off) \<noteq> 1"
      by (simp add: get_dinode_def rd16_def)
    then show False using ty that by simp
  qed
  ultimately have "of_nat (unat i div 16) = (0 :: 32 word)" using b by auto
  moreover have "unat i < 2 ^ 32" using unsigned_less [of i] by simp
  then have "unat i div 16 < 2 ^ 31" by simp
  ultimately have "unat i div 16 = 0" using unat_small32 [of "unat i div 16"] by simp
  then have i16: "unat i < 16" by simp
  have "unat i = 1"
  proof (rule ccontr)
    assume "unat i \<noteq> 1"
    then have "unat i = 2 \<or> ?off + 64 \<le> 64 \<or> 192 \<le> ?off" using i16 by simp linarith
    moreover have "?b = 32" using b \<open>of_nat (unat i div 16) = 0\<close> by simp
    ultimately have "get_dinode (demo_tree ?b) ?off = demo_a \<or> get_dinode (demo_tree ?b) ?off = get_dinode (replicate 1024 0) ?off"
      using demo_blocks(2) demo_blocks(3) [of ?off] by auto
    then show False using ty demo_type_0 [of 1024 ?off] by (auto simp: demo_a_def T_FILE_def)
  qed
  then show ?thesis by (metis unat_1 unsigned_word_eqI)
qed

lemma demo_root_inode:
  "itype (disk_inode demo_tree demo_sb 1) = T_DIR" "nlink (disk_inode demo_tree demo_sb 1) = 1" "isize (disk_inode demo_tree demo_sb 1) = 16"
  "addrs (disk_inode demo_tree demo_sb 1) j = (if j = 0 then 50 else 0)"
  "itype (disk_inode demo_tree demo_sb 2) = T_FILE" "nlink (disk_inode demo_tree demo_sb 2) = 1"
proof -
  have "IBLOCK 1 demo_sb = 32" "IBLOCK 2 demo_sb = 32" "dinode_off 1 = 64" "dinode_off 2 = 128"
    by (simp_all add: IBLOCK_def demo_sb_def demo_fs_def logs.defs fs.defs dinode_off_def sizeof_dinode_def NDIRECT_def IPB_def BSIZE_1024)
  then show "itype (disk_inode demo_tree demo_sb 1) = T_DIR" "nlink (disk_inode demo_tree demo_sb 1) = 1" "isize (disk_inode demo_tree demo_sb 1) = 16"
    "addrs (disk_inode demo_tree demo_sb 1) j = (if j = 0 then 50 else 0)"
    "itype (disk_inode demo_tree demo_sb 2) = T_FILE" "nlink (disk_inode demo_tree demo_sb 2) = 1"
    using demo_blocks by (auto simp: disk_inode_def Let_def demo_root_def demo_a_def NDIRECT_def nth_Cons')
qed

lemma demo_entry: "dir_entry demo_tree (disk_inode demo_tree demo_sb 1) 0 = [2, 0, 97] @ replicate 13 0"
proof -
  have "fbyte demo_tree (disk_inode demo_tree demo_sb 1) i = ([2, 0, 97] @ replicate 1021 0) ! i" if "i < 16" for i
    using that by (simp add: fbyte_def blk_addr_def NDIRECT_def BSIZE_1024 demo_root_inode demo_tree_def)
  then show ?thesis
    by (intro nth_equalityI) (auto simp: dir_entry_def fbytes_def sizeof_dirent_16 nth_append nth_Cons')
qed

lemma demo_find:
  "dir_find demo_tree (disk_inode demo_tree demo_sb 1) name = (if name = [97] then Some (2, 0) else None)"
proof -
  have "de_inum ([2, 0, 97] @ replicate 13 0) = 2" "cstr (de_name ([2, 0, 97] @ replicate 13 0)) = [97]"
    by (simp_all add: de_inum_def rd16_def slice_def de_name_def DIRSIZ_def cstr_def)
  then show ?thesis by (simp add: dir_find_def demo_root_inode sizeof_dirent_16 demo_entry)
qed

lemma demo_tree_ok: "tree_ok demo_tree demo_sb"
proof -
  have "length (demo_tree n) = 1024" for n by (simp add: demo_tree_def demo_blocks_length)
  moreover have "bn = 0" if "bn * 1024 < 16" for bn :: nat using that by simp
  ultimately have "dir_ok demo_tree (disk_inode demo_tree demo_sb 1)"
    by (auto simp: dir_ok_def file_ok_def demo_root_inode sizeof_dirent_16 MAXFILE_def NDIRECT_def NINDIRECT_def BSIZE_1024
        blk_mapped_def blk_addr_def)
  moreover have "live demo_tree demo_sb j" if "dir_find demo_tree (disk_inode demo_tree demo_sb 1) name = Some (j, n)" for name j n
    using that by (auto simp: demo_find live_def demo_root_inode T_FILE_def split: if_splits)
  ultimately show ?thesis unfolding tree_ok_def using demo_dirs by metis
qed

lemma demo_namei_fss: "fss demo_P 1 demo_tree (\<lambda>_. 0) demo_sb {} demo_namei" "counts_ok demo_namei"
proof -
  have "bstate [] demo_P 1 1 demo_tree (\<lambda>_. 0) {} demo_namei"
    using fresh_cache_ok [OF demo_lru, of 1 "slocks demo_bio" demo_tree "pid (demo_proc 1)"] demo_bio_lkst
    by (simp add: bstate_def demo_bufs_def demo_namei_def)
  moreover have "iref (inodes demo_namei j) = 0" for j by (simp add: demo_namei_def demo_fs_def logs.defs fs.defs)
  moreover have "\<exists>a<NINODE. \<exists>b<NINODE. a \<noteq> b"
    by (intro exI [of _ 0] conjI exI [of _ 1]) (simp_all add: NINODE_def)
  ultimately show "fss demo_P 1 demo_tree (\<lambda>_. 0) demo_sb {} demo_namei" "counts_ok demo_namei"
    by (auto simp: fss_def itable_ok_def counts_ok_def ROOTDEV_def demo_sb_def demo_namei_def)
qed

lemma namei_resolves_path_witness:
  "\<exists>ip t. namei [47, 97] demo_namei [] = Done (Some ip) t [] \<and> inum (inodes t ip) = 2 \<and> iref (inodes t ip) = 1"
proof -
  have r: "resolve demo_tree demo_sb 1 (path_elems [47, 97]) = Some 2"
    by (simp add: path_elems_def SLASH_def DIRSIZ_def demo_root_inode demo_find)
  have c: "iref (inodes demo_namei j) = 0" for j by (simp add: demo_namei_def demo_fs_def logs.defs fs.defs)
  have "\<exists>r t. namei [47, 97] demo_namei [] = Done r t [] \<and>
     walked demo_P 1 demo_tree (\<lambda>_. 0) demo_sb demo_namei (resolve demo_tree demo_sb 1 (path_elems [47, 97])) r t"
    by (rule namei_resolves_path [OF demo_namei_fss(1) _ demo_tree_ok demo_namei_fss(2)])
       (simp_all add: spare_def NBUF_30 live_def demo_root_inode SLASH_def ROOTINO_def T_DIR_def)
  then show ?thesis unfolding r by (auto simp: walked_def refs_def c)
qed

end
