(* ===== verification/User.thy ===== *)
theory User
  imports Kstring
begin

text \<open>
  User programs.  A program is a tree: it returns, it exits, or it makes a system call of
  \<^verbatim>\<open>user/user.h\<close> and goes on with the kernel's answer.  Loops whose number of turns the
  program does not bound carry a bound here; \<open>Hang\<close> is the end of it.  Character strings are
  the bytes before their NUL, and a buffer is the list of its bytes.  The library functions
  of \<^verbatim>\<open>user/ulib.c\<close> follow.
\<close>

section \<open>System calls\<close>

datatype call =
    CFork
  | CWait
  | CPipe
  | CWrite int "byte list"
  | CRead int nat
  | CClose int
  | CKill int
  | CExec "byte list" "byte list list"
  | COpen "byte list" nat
  | CMknod "byte list" int int
  | CUnlink "byte list"
  | CFstat int
  | CLink "byte list" "byte list"
  | CMkdir "byte list"
  | CChdir "byte list"
  | CDup int
  | CGetpid
  | CSbrk int
  | CSleep int
  | CUptime

text \<open>\<open>struct stat\<close> as far as the programs look at it.\<close>

record ustat =
  us_type :: int
  us_ino :: int
  us_size :: int

text \<open>
  An answer: the value returned and what the kernel stored through a pointer argument, the
  bytes read, the descriptors of a pipe or the \<open>struct stat\<close>.
\<close>

record resp =
  rv :: int
  rbytes :: "byte list"
  rfds :: "int \<times> int"
  rstat :: ustat

datatype 'a prog = Ret 'a | Exits int | Hang | Sys call "resp \<Rightarrow> 'a prog"

primrec bindP :: "'a prog \<Rightarrow> ('a \<Rightarrow> 'b prog) \<Rightarrow> 'b prog" where
  "bindP (Ret x) k = k x"
| "bindP (Exits n) k = Exits n"
| "bindP Hang k = Hang"
| "bindP (Sys c f) k = Sys c (\<lambda>r. bindP (f r) k)"

definition sys :: "call \<Rightarrow> int prog" where
  "sys c = Sys c (\<lambda>r. Ret (rv r))"

definition call :: "call \<Rightarrow> unit prog" where
  "call c = Sys c (\<lambda>_. Ret ())"

definition whenP :: "bool \<Rightarrow> unit prog \<Rightarrow> unit prog" where
  "whenP b p = (if b then p else Ret ())"

fun seqP :: "unit prog list \<Rightarrow> unit prog" where
  "seqP [] = Ret ()"
| "seqP (p # ps) = bindP p (\<lambda>_. seqP ps)"

fun forP :: "'i list \<Rightarrow> ('i \<Rightarrow> unit prog) \<Rightarrow> unit prog" where
  "forP [] f = Ret ()"
| "forP (i # is) f = bindP (f i) (\<lambda>_. forP is f)"

text \<open>A loop: the body continues with new values of the variables or leaves with a result.\<close>

fun loopP :: "nat \<Rightarrow> ('v \<Rightarrow> ('v + 'a) prog) \<Rightarrow> 'v \<Rightarrow> 'a prog" where
  "loopP 0 f v = Hang"
| "loopP (Suc n) f v = bindP (f v) (\<lambda>r. case r of Inl w \<Rightarrow> loopP n f w | Inr x \<Rightarrow> Ret x)"

text \<open>
  A run: the kernel is a function from its state and the call to the answer and its next
  state.  The outcome is the result of the program (\<open>Inr\<close>), its exit status (\<open>Inl (Some n)\<close>)
  or that the bound of a loop was not enough (\<open>Inl None\<close>).
\<close>

primrec runP :: "('e \<Rightarrow> call \<Rightarrow> resp \<times> 'e) \<Rightarrow> 'a prog \<Rightarrow> 'e \<Rightarrow> (int option + 'a) \<times> 'e" where
  "runP k (Ret x) e = (Inr x, e)"
| "runP k (Exits n) e = (Inl (Some n), e)"
| "runP k Hang e = (Inl None, e)"
| "runP k (Sys c f) e = (let (r, e') = k e c in runP k (f r) e')"

lemma runP_bind:
  "runP k (bindP p f) e = (case runP k p e of (Inr x, e') \<Rightarrow> runP k (f x) e' | (Inl o', e') \<Rightarrow> (Inl o', e'))"
  by (induction p arbitrary: e) (auto simp: Let_def split: prod.split)

lemma bindP_assoc: "bindP (bindP p f) g = bindP p (\<lambda>x. bindP (f x) g)"
  by (induction p) auto

lemma bindP_Ret [simp]: "bindP p Ret = p"
  by (induction p) auto

text \<open>
  What a program that copies one stream to another relies on: a kernel whose reads of
  descriptor \<open>fd\<close> return a non-empty piece of what is left of the input, up to the size
  asked for, until nothing is left, and whose writes to the standard output are complete.
\<close>

locale stream_io =
  fixes k :: "'e \<Rightarrow> call \<Rightarrow> resp \<times> 'e" and inp out :: "'e \<Rightarrow> byte list" and fd :: int
  assumes read: "0 < n \<Longrightarrow> k e (CRead fd n) = (r, e') \<Longrightarrow>
      rv r = int (length (rbytes r)) \<and> length (rbytes r) \<le> n \<and> inp e = rbytes r @ inp e' \<and> (rbytes r = [] \<longrightarrow> inp e' = []) \<and> out e' = out e"
    and read_0: "k e (CRead fd 0) = (r, e') \<Longrightarrow> rv r = 0 \<and> inp e' = inp e \<and> out e' = out e"
    and write_all: "k e (CWrite 1 bs) = (r, e') \<Longrightarrow> rv r = int (length bs) \<and> inp e' = inp e \<and> out e' = out e @ bs"

text \<open>
  A kernel for one process that reads one stream and writes another.  Reads return what is
  left, up to the size asked for, in pieces as the list \<open>s_cuts\<close> has it (a terminal, a pipe
  and a file cut their data differently); writes are complete; other calls fail.
\<close>

record streams =
  s_in :: "byte list"
  s_cuts :: "nat list"
  s_out :: "byte list"

definition answer :: "int \<Rightarrow> byte list \<Rightarrow> resp" where
  "answer v bs = \<lparr>rv = v, rbytes = bs, rfds = (0, 0), rstat = \<lparr>us_type = 0, us_ino = 0, us_size = 0\<rparr>\<rparr>"

definition stream_kernel :: "streams \<Rightarrow> call \<Rightarrow> resp \<times> streams" where
  "stream_kernel s c = (case c of
     CRead fd n \<Rightarrow>
       let m = (case s_cuts s of [] \<Rightarrow> n | k # _ \<Rightarrow> min n (Suc k)); bs = take m (s_in s)
       in (answer (int (length bs)) bs, s\<lparr>s_in := drop m (s_in s), s_cuts := tl (s_cuts s)\<rparr>)
   | CWrite fd bs \<Rightarrow> (answer (int (length bs)) [], s\<lparr>s_out := s_out s @ bs\<rparr>)
   | _ \<Rightarrow> (answer (- 1) [], s))"

interpretation stream: stream_io stream_kernel s_in s_out fd for fd
proof (unfold_locales, goal_cases)
  case (1 n e r e')
  define m where "m = (case s_cuts e of [] \<Rightarrow> n | k # _ \<Rightarrow> min n (Suc k))"
  have m: "0 < m" "m \<le> n" using 1(1) by (auto simp: m_def split: list.split)
  then show ?case using 1(2) by (auto simp: stream_kernel_def answer_def Let_def m_def [symmetric])
next
  case (2 e r e')
  then show ?case by (auto simp: stream_kernel_def answer_def Let_def split: list.split)
next
  case (3 e bs r e')
  then show ?case by (auto simp: stream_kernel_def answer_def)
qed

section \<open>ulib.c\<close>

text \<open>\<open>strcpy\<close> into a buffer: the string and its NUL over the first bytes.\<close>

definition overwrite :: "byte list \<Rightarrow> nat \<Rightarrow> byte list \<Rightarrow> byte list" where
  "overwrite buf i xs = take i buf @ xs @ drop (i + length xs) buf"

definition u_strcpy :: "byte list \<Rightarrow> byte list \<Rightarrow> byte list" where
  "u_strcpy s t = overwrite s 0 (t @ [0])"

fun strcmp :: "byte list \<Rightarrow> byte list \<Rightarrow> int" where
  "strcmp [] [] = 0"
| "strcmp [] (d # q) = - uint d"
| "strcmp (c # p) [] = uint c"
| "strcmp (c # p) (d # q) = (if c = d then strcmp p q else uint c - uint d)"

fun u_strlen :: "byte list \<Rightarrow> nat" where
  "u_strlen [] = 0"
| "u_strlen (c # s) = Suc (u_strlen s)"

lemma u_strlen_length [simp]: "u_strlen s = length s"
  by (induction s) simp_all

definition u_memset :: "memory \<Rightarrow> addr \<Rightarrow> byte \<Rightarrow> nat \<Rightarrow> memory" where
  "u_memset m dst c n = fold (\<lambda>i m. m(dst + of_nat i := c)) [0..<n] m"

text \<open>\<open>strchr\<close>: the string from the first occurrence on.\<close>

fun strchr :: "byte list \<Rightarrow> byte \<Rightarrow> byte list option" where
  "strchr [] c = None"
| "strchr (d # s) c = (if d = c then Some (d # s) else strchr s c)"

text \<open>\<open>gets\<close>: what it leaves in the buffer, without the NUL.  \<open>max - 1\<close> turns are enough.\<close>

definition u_gets :: "nat \<Rightarrow> byte list prog" where
  "u_gets maxn = loopP (Suc maxn) (\<lambda>buf.
     if length buf + 1 < maxn then
       Sys (CRead 0 1) (\<lambda>r.
         if rv r < 1 then Ret (Inr buf)
         else let c = hd (rbytes r) in
           if c = 10 \<or> c = 13 then Ret (Inr (buf @ [c])) else Ret (Inl (buf @ [c])))
     else Ret (Inr buf)) []"

definition stat_file :: "byte list \<Rightarrow> (int \<times> ustat) prog" where
  "stat_file n = bindP (sys (COpen n 0)) (\<lambda>fd.
     if fd < 0 then Ret (- 1, \<lparr>us_type = 0, us_ino = 0, us_size = 0\<rparr>)
     else Sys (CFstat fd) (\<lambda>r. bindP (call (CClose fd)) (\<lambda>_. Ret (rv r, rstat r))))"

text \<open>\<open>atoi\<close>: \<open>int\<close> arithmetic, which wraps on this machine.\<close>

fun atoi_from :: "32 word \<Rightarrow> byte list \<Rightarrow> 32 word" where
  "atoi_from n [] = n"
| "atoi_from n (c # s) = (if 48 \<le> c \<and> c \<le> 57 then atoi_from (n * 10 + ucast c - 48) s else n)"

definition atoi :: "byte list \<Rightarrow> int" where
  "atoi s = sint (atoi_from 0 s)"

definition u_memmove :: "memory \<Rightarrow> addr \<Rightarrow> addr \<Rightarrow> nat \<Rightarrow> memory" where
  "u_memmove m dst src n =
     (if src > dst then copy_up m dst src n
      else copy_down m (dst + of_nat n) (src + of_nat n) n)"

fun u_memcmp :: "memory \<Rightarrow> addr \<Rightarrow> addr \<Rightarrow> nat \<Rightarrow> int" where
  "u_memcmp m p1 p2 0 = 0"
| "u_memcmp m p1 p2 (Suc n) =
     (if m p1 \<noteq> m p2 then uint (m p1) - uint (m p2) else u_memcmp m (p1 + 1) (p2 + 1) n)"

definition u_memcpy :: "memory \<Rightarrow> addr \<Rightarrow> addr \<Rightarrow> nat \<Rightarrow> memory" where
  "u_memcpy m dst src n = u_memmove m dst src n"

section \<open>The same results as in the kernel\<close>

lemma strcmp_0_iff: "strcmp p q = 0 \<longleftrightarrow> p = q" if "0 \<notin> set p" "0 \<notin> set q"
  using that by (induction p q rule: strcmp.induct) (auto simp: uint_0_iff unsigned_word_eqI)

lemma add_nat_neq:
  fixes a b :: addr
  assumes "unat a + i < unat b + j" "unat b + j < 2 ^ 64" shows "a + of_nat i \<noteq> b + of_nat j"
proof
  assume "a + of_nat i = b + of_nat j"
  then have "unat (a + of_nat i) = unat (b + of_nat j)" by (rule arg_cong)
  with assms show False by (simp add: unat_add_of_nat)
qed

lemma u_memmove_put:
  assumes "unat src + n < 2 ^ 64" "unat dst + n < 2 ^ 64"
  shows "u_memmove m dst src n = put m dst (bytes m src n)"
proof (cases "src > dst")
  case True
  then have "unat dst < unat src" by (simp add: word_less_nat_alt)
  then have "dst + of_nat i \<noteq> src + of_nat j" if "i < j" "j < n" for i j
    by (intro add_nat_neq) (use that assms in auto)
  then show ?thesis using True assms by (simp add: u_memmove_def copy_up_put)
next
  case False
  then have "unat src \<le> unat dst" by (simp add: word_less_nat_alt)
  then have "src + of_nat i \<noteq> dst + of_nat j" if "i < j" "j < n" for i j
    by (intro add_nat_neq) (use that assms in auto)
  then show ?thesis using False assms by (simp add: u_memmove_def copy_down_put)
qed

lemma u_memmove_memmove:
  assumes "unat src + n < 2 ^ 64" "unat dst + n < 2 ^ 64"
  shows "u_memmove m dst src n = memmove m dst src n"
  using u_memmove_put [OF assms] memmove_put [of src n dst] assms by simp

end
