(* ===== verification/Uprintf.thy ===== *)
theory Uprintf
  imports User
begin

text \<open>
  Formatted output of user programs, \<^verbatim>\<open>user/printf.c\<close>.  The variable arguments are a list of
  values; the use of a missing argument or of one of the wrong kind, undefined in C, is \<open>Hang\<close>.
\<close>

section \<open>Operations\<close>

datatype uarg = UInt "32 word" | ULong "64 word" | UStr "byte list option"

definition str :: "string \<Rightarrow> byte list" where
  "str cs = map (\<lambda>c. of_nat (of_char c)) cs"

definition u_digits :: "byte list" where
  "u_digits = str ''0123456789ABCDEF''"

definition u_putc :: "int \<Rightarrow> byte \<Rightarrow> unit prog" where
  "u_putc fd c = call (CWrite fd [c])"

text \<open>
  The loop that fills \<open>buf\<close>, least significant digit first; 32 divisions make any 32-bit
  number zero for a base of at least 2.
\<close>

fun u_digit_loop :: "nat \<Rightarrow> 32 word \<Rightarrow> 32 word \<Rightarrow> byte list option" where
  "u_digit_loop 0 x base = None"
| "u_digit_loop (Suc k) x base =
     (let c = u_digits ! unat (x mod base); x' = x div base in
      if x' \<noteq> 0 then map_option ((#) c) (u_digit_loop k x' base) else Some [c])"

definition u_printint_buf :: "32 word \<Rightarrow> 32 word \<Rightarrow> bool \<Rightarrow> byte list option" where
  "u_printint_buf xx base sg =
     (let neg = (sg \<and> sint xx < 0);
          x = (if neg then - xx else xx)
      in map_option (\<lambda>buf. if neg then buf @ [45] else buf) (u_digit_loop 32 x base))"

definition u_printint :: "int \<Rightarrow> 32 word \<Rightarrow> 32 word \<Rightarrow> bool \<Rightarrow> unit prog" where
  "u_printint fd xx base sg = (case u_printint_buf xx base sg of
      None \<Rightarrow> Hang
    | Some buf \<Rightarrow> forP (rev buf) (u_putc fd))"

fun u_ptr_digits :: "nat \<Rightarrow> 64 word \<Rightarrow> byte list" where
  "u_ptr_digits 0 x = []"
| "u_ptr_digits (Suc k) x = u_digits ! unat (drop_bit 60 x) # u_ptr_digits k (push_bit 4 x)"

definition u_printptr :: "int \<Rightarrow> 64 word \<Rightarrow> unit prog" where
  "u_printptr fd x = seqP [u_putc fd 48, u_putc fd 120, forP (u_ptr_digits 16 x) (u_putc fd)]"

text \<open>\<open>vprintf\<close>; the flag is \<open>state == '%'\<close>.\<close>

fun vprintf :: "int \<Rightarrow> bool \<Rightarrow> byte list \<Rightarrow> uarg list \<Rightarrow> unit prog" where
  "vprintf fd pct [] ap = Ret ()"
| "vprintf fd False (c # fmt) ap =
     (if c = 37 then vprintf fd True fmt ap
      else bindP (u_putc fd c) (\<lambda>_. vprintf fd False fmt ap))"
| "vprintf fd True (c # fmt) ap =
     (if c = 100 then
        (case ap of UInt v # ap' \<Rightarrow> bindP (u_printint fd v 10 True) (\<lambda>_. vprintf fd False fmt ap') | _ \<Rightarrow> Hang)
      else if c = 108 then
        (case ap of ULong v # ap' \<Rightarrow> bindP (u_printint fd (ucast v) 10 False) (\<lambda>_. vprintf fd False fmt ap') | _ \<Rightarrow> Hang)
      else if c = 120 then
        (case ap of UInt v # ap' \<Rightarrow> bindP (u_printint fd v 16 False) (\<lambda>_. vprintf fd False fmt ap') | _ \<Rightarrow> Hang)
      else if c = 112 then
        (case ap of ULong v # ap' \<Rightarrow> bindP (u_printptr fd v) (\<lambda>_. vprintf fd False fmt ap') | _ \<Rightarrow> Hang)
      else if c = 115 then
        (case ap of UStr so # ap' \<Rightarrow>
           bindP (forP (case so of None \<Rightarrow> str ''(null)'' | Some s \<Rightarrow> s) (u_putc fd)) (\<lambda>_. vprintf fd False fmt ap') | _ \<Rightarrow> Hang)
      else if c = 99 then
        (case ap of UInt v # ap' \<Rightarrow> bindP (u_putc fd (ucast v)) (\<lambda>_. vprintf fd False fmt ap') | _ \<Rightarrow> Hang)
      else if c = 37 then bindP (u_putc fd c) (\<lambda>_. vprintf fd False fmt ap)
      else bindP (u_putc fd 37) (\<lambda>_. bindP (u_putc fd c) (\<lambda>_. vprintf fd False fmt ap)))"

definition u_fprintf :: "int \<Rightarrow> byte list \<Rightarrow> uarg list \<Rightarrow> unit prog" where
  "u_fprintf fd fmt ap = vprintf fd False fmt ap"

definition u_printf :: "byte list \<Rightarrow> uarg list \<Rightarrow> unit prog" where
  "u_printf fmt ap = vprintf 1 False fmt ap"

end
