(* ===== verification/Numerals.thy ===== *)
theory Numerals
  imports Printf Uprintf
begin

text \<open>
  Printed numbers: \<open>printint\<close> of \<^verbatim>\<open>kernel/printf.c\<close> and of \<^verbatim>\<open>user/printf.c\<close> stay within their
  buffers of 16 bytes, and \<open>atoi\<close> of \<^verbatim>\<open>user/ulib.c\<close> reads back what \<open>%d\<close> prints.
\<close>

section \<open>Digits\<close>

text \<open>The values of the digits, least significant first.\<close>

fun digit_vals :: "nat \<Rightarrow> nat \<Rightarrow> nat \<Rightarrow> nat list option" where
  "digit_vals 0 b x = None"
| "digit_vals (Suc k) b x = (if x div b \<noteq> 0 then map_option ((#) (x mod b)) (digit_vals k b (x div b)) else Some [x mod b])"

fun from_digits :: "nat \<Rightarrow> nat list \<Rightarrow> nat" where
  "from_digits b [] = 0"
| "from_digits b (d # ds) = d + b * from_digits b ds"

lemma digit_loops:
  "digit_loop k x base = map_option (map ((!) digits)) (digit_vals k (unat base) (unat x))"
  "u_digit_loop k x base = map_option (map ((!) u_digits)) (digit_vals k (unat base) (unat x))"
  by (induction k arbitrary: x)
     (auto simp: Let_def unat_div_distrib unat_mod_distrib option.map_comp comp_def simp flip: unat_eq_0)

lemma digit_vals_ok:
  assumes "x < b ^ Suc j" "j < k" "2 \<le> b"
  shows "\<exists>ds. digit_vals k b x = Some ds \<and> length ds \<le> Suc j \<and> ds \<noteq> [] \<and> from_digits b ds = x \<and> (\<forall>d\<in>set ds. d < b)"
  using assms
proof (induction k arbitrary: x j)
  case (Suc k)
  show ?case
  proof (cases "x div b = 0")
    case True then show ?thesis using Suc.prems by (auto simp: div_eq_0_iff)
  next
    case False
    then obtain i where j: "j = Suc i" using Suc.prems by (cases j) (auto simp: div_eq_0_iff)
    have "x div b < b ^ Suc i" using Suc.prems(1,3) unfolding j by (simp add: less_mult_imp_div_less mult.commute)
    then obtain ds where "digit_vals k b (x div b) = Some ds" "length ds \<le> Suc i" "from_digits b ds = x div b" "\<forall>d\<in>set ds. d < b"
      using Suc.IH [of "x div b" i] Suc.prems j by auto
    then show ?thesis using False j Suc.prems(3) by auto
  qed
qed simp

text \<open>
  C38.  \<open>printint\<close> fits its buffer: in the bases its callers use, 10 and 16, the loop that
  divides comes to an end and the digits with the sign take at most 11 of the 16 bytes, in
  the kernel and in user programs.
\<close>

theorem printint_fits_buffer:
  assumes "base = 10 \<or> base = 16"
  shows "\<exists>buf ubuf. printint_buf xx base sg = Some buf \<and> length buf \<le> 11 \<and>
    u_printint_buf xx base sg = Some ubuf \<and> length ubuf \<le> 11"
proof -
  define x where "x = (if sg \<and> sint xx < 0 then - xx else xx)"
  have "unat x < 2 ^ 32" using unsigned_less [of x] by simp
  then have "unat x < unat base ^ Suc 9" "2 \<le> unat base" using assms by auto
  from digit_vals_ok [OF this(1) _ this(2), of 32] obtain ds
    where "digit_vals 32 (unat base) (unat x) = Some ds" "length ds \<le> 10" by auto
  then show ?thesis
    unfolding printint_buf_def u_printint_buf_def Let_def x_def [symmetric] digit_loops by simp
qed

lemma printint_fits_buffer_witness:
  "\<exists>buf ubuf. printint_buf 0x80000000 10 True = Some buf \<and> length buf \<le> 11 \<and>
    u_printint_buf 0x80000000 10 True = Some ubuf \<and> length ubuf \<le> 11"
  by (rule printint_fits_buffer) simp

section \<open>Reading a printed number\<close>

lemma u_digits_value:
  assumes "d < 10"
  shows "48 \<le> u_digits ! d" "u_digits ! d \<le> 57" "ucast (u_digits ! d) - 48 = (of_nat d :: 32 word)"
proof -
  have "d \<in> {0, 1, 2, 3, 4, 5, 6, 7, 8, 9}" using assms by auto
  then show "48 \<le> u_digits ! d" "u_digits ! d \<le> 57" "ucast (u_digits ! d) - 48 = (of_nat d :: 32 word)"
    by (auto simp: u_digits_def str_def)
qed

lemma atoi_from_append_digit:
  assumes "d < 10" "\<forall>d\<in>set ds. d < 10"
  shows "atoi_from n (map ((!) u_digits) ds @ [u_digits ! d]) = atoi_from n (map ((!) u_digits) ds) * 10 + of_nat d"
  using assms(2)
proof (induction ds arbitrary: n)
  case Nil
  show ?case using u_digits_value [OF assms(1)] by (simp add: algebra_simps)
next
  case (Cons e ds)
  then show ?case using u_digits_value [of e] by simp
qed

lemma atoi_from_digits:
  assumes "\<forall>d\<in>set ds. d < 10"
  shows "atoi_from 0 (map ((!) u_digits) (rev ds)) = of_nat (from_digits 10 ds)"
  using assms
proof (induction ds)
  case (Cons d ds)
  then have "atoi_from 0 (map ((!) u_digits) (rev ds) @ [u_digits ! d]) = of_nat (from_digits 10 ds) * 10 + of_nat d"
    by (subst atoi_from_append_digit) simp_all
  then show ?case by (simp add: algebra_simps)
qed simp

text \<open>A kernel that only collects what is written.\<close>

definition collect :: "byte list \<Rightarrow> call \<Rightarrow> resp \<times> byte list" where
  "collect out c = (case c of
     CWrite fd bs \<Rightarrow> (\<lparr>rv = int (length bs), rbytes = [], rfds = (0, 0), rstat = \<lparr>us_type = 0, us_ino = 0, us_size = 0\<rparr>\<rparr>, out @ bs)
   | _ \<Rightarrow> (\<lparr>rv = - 1, rbytes = [], rfds = (0, 0), rstat = \<lparr>us_type = 0, us_ino = 0, us_size = 0\<rparr>\<rparr>, out))"

lemma run_forP_putc: "runP collect (forP cs (u_putc fd)) out = (Inr (), out @ cs)"
  by (induction cs arbitrary: out) (simp_all add: u_putc_def call_def collect_def)

text \<open>
  \<open>atoi\<close> reads back what \<open>printf("%d")\<close> writes: for every number that is not negative the
  call returns, and the bytes it wrote denote the number.
\<close>

theorem atoi_reads_printed:
  assumes "0 \<le> sint xx"
  shows "\<exists>out. runP collect (u_printf (str ''%d'') [UInt xx]) [] = (Inr (), out) \<and> atoi out = sint xx"
proof -
  have "unat xx < 2 ^ 32" using unsigned_less [of xx] by simp
  then have "unat xx < unat (10 :: 32 word) ^ Suc 9" by simp
  from digit_vals_ok [OF this, of 32] obtain ds
    where ds: "digit_vals 32 10 (unat xx) = Some ds" "from_digits 10 ds = unat xx" "\<forall>d\<in>set ds. d < 10" by auto
  let ?out = "map ((!) u_digits) (rev ds)"
  have "u_printint 1 xx 10 True = forP ?out (u_putc 1)"
    using assms ds(1) by (simp add: u_printint_def u_printint_buf_def digit_loops Let_def rev_map)
  then have "runP collect (u_printf (str ''%d'') [UInt xx]) [] = (Inr (), ?out)"
    by (simp add: u_printf_def str_def runP_bind run_forP_putc)
  moreover have "atoi ?out = sint xx"
    unfolding atoi_def atoi_from_digits [OF ds(3)] ds(2) by simp
  ultimately show ?thesis by blast
qed

lemma atoi_reads_printed_witness:
  "\<exists>out. runP collect (u_printf (str ''%d'') [UInt 1234]) [] = (Inr (), out) \<and> atoi out = 1234"
  using atoi_reads_printed [of 1234] by simp

end
