(* ===== verification/Sh.thy ===== *)
theory Sh
  imports Uprintf
begin

text \<open>
  The shell, \<^verbatim>\<open>user/sh.c\<close>: its tokens, the recursive-descent parser, \<open>nulterminate\<close> and the
  execution of commands.  A pointer into the command line is a position in the line, \<open>es\<close> is
  its length, and a token is the pair of its start and its end.  Memory for the nodes of a
  command is taken to be there (\<open>malloc\<close> is not called).
\<close>

section \<open>Commands\<close>

type_synonym token = "nat \<times> nat"

text \<open>
  \<open>struct cmd\<close> and the structures it stands for.  The parser builds commands over tokens;
  with strings in their place the same type describes what a command means.
\<close>

datatype (toks: 't) cmd =
    EXEC "'t list"
  | REDIR "'t cmd" 't nat int
  | PIPE "'t cmd" "'t cmd"
  | LIST "'t cmd" "'t cmd"
  | BACK "'t cmd"

definition MAXARGS :: nat where "MAXARGS = 10"

definition whitespace :: "byte list" where "whitespace = [32, 9, 13, 10, 11]"
definition symbols :: "byte list" where "symbols = str ''<|>&;()''"

definition sh_RDONLY :: nat where "sh_RDONLY = 0"
definition sh_TRUNC :: nat where "sh_TRUNC = 0x601"
definition sh_APPEND :: nat where "sh_APPEND = 0x201"

text \<open>The character at a position; the line ends with a NUL.\<close>

definition char_at :: "byte list \<Rightarrow> nat \<Rightarrow> byte" where
  "char_at buf s = (if s < length buf then buf ! s else 0)"

definition white :: "byte \<Rightarrow> bool" where
  "white c \<longleftrightarrow> strchr whitespace c \<noteq> None"

definition symbol :: "byte \<Rightarrow> bool" where
  "symbol c \<longleftrightarrow> strchr symbols c \<noteq> None"

definition ordinary :: "byte \<Rightarrow> bool" where
  "ordinary c \<longleftrightarrow> \<not> white c \<and> \<not> symbol c"

text \<open>The loops \<open>while(s < es && ...) s++\<close>.\<close>

function scan :: "(byte \<Rightarrow> bool) \<Rightarrow> byte list \<Rightarrow> nat \<Rightarrow> nat" where
  "scan P buf s = (if s < length buf \<and> P (char_at buf s) then scan P buf (Suc s) else s)"
  by auto
termination
  by (relation "measure (\<lambda>(P, buf, s). length buf - s)") auto

declare scan.simps [simp del]

text \<open>\<open>gettoken\<close>: the kind of the token, its start and its end, and the new position.\<close>

definition gettoken :: "byte list \<Rightarrow> nat \<Rightarrow> byte \<times> nat \<times> nat \<times> nat" where
  "gettoken buf ps =
     (let s = scan white buf ps;
          c = char_at buf s;
          (ret, eq) =
            (if c = 0 then (0, s)
             else if c \<in> set (str ''|();&<'') then (c, s + 1)
             else if c = 62 then (if char_at buf (s + 1) = 62 then (43, s + 2) else (62, s + 1))
             else (97, scan ordinary buf s))
      in (ret, s, eq, scan white buf eq))"

definition peek :: "byte list \<Rightarrow> nat \<Rightarrow> byte list \<Rightarrow> nat \<times> bool" where
  "peek buf ps tk = (let s = scan white buf ps in
     (s, char_at buf s \<noteq> 0 \<and> strchr tk (char_at buf s) \<noteq> None))"

text \<open>Where the scans end: what the recursions below need to terminate.\<close>

lemma scan_le: "s \<le> scan P buf s"
  by (induction P buf s rule: scan.induct) (subst scan.simps, auto)

lemma scan_length: "s \<le> length buf \<Longrightarrow> scan P buf s \<le> length buf"
  by (induction P buf s rule: scan.induct) (subst scan.simps, auto)

lemma scan_step: "s < length buf \<Longrightarrow> P (buf ! s) \<Longrightarrow> s < scan P buf s"
  using scan_le [of "Suc s" P buf] by (subst scan.simps) (simp add: char_at_def)

lemma char_at_nonzero: "char_at buf s \<noteq> 0 \<Longrightarrow> s < length buf"
  by (simp add: char_at_def split: if_splits)

lemma symbol_cases: "symbol c \<longleftrightarrow> c \<in> set (str ''|();&<'') \<or> c = 62"
  by (auto simp: symbol_def symbols_def str_def)

lemma scan_stops: "scan P buf s < length buf \<longrightarrow> \<not> P (char_at buf (scan P buf s))"
proof (induction P buf s rule: scan.induct)
  case (1 P buf s)
  then show ?case by (cases "s < length buf \<and> P (char_at buf s)") (auto simp: scan.simps [of P buf s])
qed

lemma gettoken_pos:
  assumes "gettoken buf ps = (t, q, eq, ps')"
  shows "ps \<le> q" "q \<le> eq" "eq \<le> ps'" "t \<noteq> 0 \<Longrightarrow> q < eq" "ps \<le> length buf \<Longrightarrow> ps' \<le> length buf"
proof -
  define s where "s = scan white buf ps"
  define c where "c = char_at buf s"
  have s: "ps \<le> s" "ps \<le> length buf \<longrightarrow> s \<le> length buf" by (simp_all add: s_def scan_le scan_length)
  have nz: "c \<noteq> 0 \<Longrightarrow> s < length buf" by (simp add: c_def char_at_nonzero)
  have ord: "s < scan ordinary buf s" if "c \<noteq> 0" "c \<notin> set (str ''|();&<'')" "c \<noteq> 62"
  proof -
    have "\<not> white c" "s < length buf" using scan_stops [of white buf ps] nz that by (simp_all add: c_def s_def)
    then show ?thesis using scan_step [of s buf ordinary] that
      by (simp add: ordinary_def symbol_cases c_def char_at_def)
  qed
  have gt: "char_at buf (s + 1) = 62 \<Longrightarrow> s + 2 \<le> length buf" using char_at_nonzero [of buf "s + 1"] by simp
  have e: "q = s \<and> ps' = scan white buf eq \<and> s \<le> eq \<and> (t \<noteq> 0 \<longrightarrow> s < eq) \<and> (ps \<le> length buf \<longrightarrow> eq \<le> length buf)"
  proof -
    have G: "gettoken buf ps = (let (ret, eq) = (if c = 0 then (0, s) else if c \<in> set (str ''|();&<'') then (c, s + 1)
             else if c = 62 then (if char_at buf (s + 1) = 62 then (43, s + 2) else (62, s + 1))
             else (97, scan ordinary buf s)) in (ret, s, eq, scan white buf eq))"
      unfolding gettoken_def s_def [symmetric] Let_def c_def by (rule refl)
    consider "c = 0" | "c \<noteq> 0" "c \<in> set (str ''|();&<'')" | "c \<notin> set (str ''|();&<'')" "c = 62"
      | "c \<noteq> 0" "c \<notin> set (str ''|();&<'')" "c \<noteq> 62" by blast
    then show ?thesis
    proof cases
      case 1 then show ?thesis using G assms s by simp
    next
      case 2 then show ?thesis using G assms nz by simp
    next
      case 3 then show ?thesis using G assms nz gt by (cases "char_at buf (s + 1) = 62") auto
    next
      case 4
      then show ?thesis using G assms ord nz scan_length [of s buf ordinary] by simp
    qed
  qed
  with s show "ps \<le> q" "q \<le> eq" "t \<noteq> 0 \<Longrightarrow> q < eq" by auto
  show "eq \<le> ps'" "ps \<le> length buf \<Longrightarrow> ps' \<le> length buf" using e scan_le scan_length by auto
qed

lemma peek_pos:
  assumes "peek buf ps tk = (s, b)"
  shows "ps \<le> s" "ps \<le> length buf \<Longrightarrow> s \<le> length buf" "b \<Longrightarrow> char_at buf s \<noteq> 0"
  using assms scan_le [of ps white buf] scan_length [of ps buf white] by (auto simp: peek_def Let_def)

lemma gettoken_some: "char_at buf ps \<noteq> 0 \<Longrightarrow> \<not> white (char_at buf ps) \<Longrightarrow> gettoken buf ps = (t, q, eq, ps') \<Longrightarrow> t \<noteq> 0"
  by (subst (asm) gettoken_def, subst (asm) (1 2 3) scan.simps) (auto simp: Let_def split: if_splits)

lemma peek_gettoken:
  assumes "peek buf ps tk = (ps1, True)" "gettoken buf ps1 = (t, q, eq, ps2)"
  shows "ps \<le> ps1" "ps1 < ps2" "ps1 < length buf"
proof -
  have p: "char_at buf ps1 \<noteq> 0" "\<not> white (char_at buf ps1)"
    using peek_pos [OF assms(1)] scan_stops [of white buf ps] char_at_nonzero [of buf ps1] assms(1) by (auto simp: peek_def Let_def)
  show "ps \<le> ps1" "ps1 < length buf" using peek_pos [OF assms(1)] char_at_nonzero by auto
  show "ps1 < ps2" using p gettoken_pos [OF assms(2)] gettoken_some [OF _ _ assms(2)] by linarith
qed

section \<open>The parser\<close>

text \<open>
  A parser panics with a message (\<open>Inl\<close>) or gives a command and the new position.
  \<open>parseredirs\<close> wraps the command in the redirections that follow.
\<close>

function parseredirs :: "byte list \<Rightarrow> token cmd \<Rightarrow> nat \<Rightarrow> byte list + token cmd \<times> nat" where
  "parseredirs buf cmd ps =
     (let (ps1, b) = peek buf ps (str ''<>'') in
      if b then
        (let (tok, q1, e1, ps2) = gettoken buf ps1; (t, q, eq, ps3) = gettoken buf ps2 in
         if t \<noteq> 97 then Inl (str ''missing file for redirection'')
         else parseredirs buf
           (if tok = 60 then REDIR cmd (q, eq) sh_RDONLY 0
            else if tok = 62 then REDIR cmd (q, eq) sh_TRUNC 1
            else if tok = 43 then REDIR cmd (q, eq) sh_APPEND 1
            else cmd) ps3)
      else Inr (cmd, ps1))"
  by auto
termination
proof (relation "measure (\<lambda>(buf, cmd, ps). length buf - ps)", simp, goal_cases)
  case (1 buf cmd ps x ps1 b y tok z q1 u e1 ps2 v t w q a eq ps3)
  have "ps \<le> ps1" "ps1 < length buf" using peek_pos [of buf ps _ ps1 b] 1 char_at_nonzero by auto
  moreover have "ps1 \<le> ps2" "ps2 < ps3" using gettoken_pos [of buf ps1 tok q1 e1 ps2] gettoken_pos [of buf ps2 t q eq ps3] 1 by auto
  ultimately show ?case by simp
qed

declare parseredirs.simps [simp del]

lemma parseredirs_pos:
  "parseredirs buf cmd ps = Inr (cmd', ps') \<Longrightarrow> ps \<le> ps' \<and> (ps \<le> length buf \<longrightarrow> ps' \<le> length buf)"
proof (induction buf cmd ps rule: parseredirs.induct)
  case (1 buf cmd ps)
  obtain ps1 b where p1: "peek buf ps (str ''<>'') = (ps1, b)" by (cases "peek buf ps (str ''<>'')")
  obtain tok q1 e1 ps2 where p2: "gettoken buf ps1 = (tok, q1, e1, ps2)" by (cases "gettoken buf ps1")
  obtain t q eq ps3 where p3: "gettoken buf ps2 = (t, q, eq, ps3)" by (cases "gettoken buf ps2")
  note p = p1 p2 p3
  show ?case
    using 1 p peek_pos [OF p(1)] gettoken_pos [OF p(2)] gettoken_pos [OF p(3)]
    by (fastforce simp: parseredirs.simps [of buf cmd ps] split: if_splits)
qed

text \<open>\<open>cmd\<close> in \<open>parseexec\<close> points to the \<open>EXEC\<close> node inside the redirections.\<close>

fun set_argv :: "'t list \<Rightarrow> 't cmd \<Rightarrow> 't cmd" where
  "set_argv argv (EXEC _) = EXEC argv"
| "set_argv argv (REDIR c f m d) = REDIR (set_argv argv c) f m d"
| "set_argv argv c = c"

function parse_args :: "byte list \<Rightarrow> token list \<Rightarrow> token cmd \<Rightarrow> nat \<Rightarrow> byte list + token cmd \<times> nat" where
  "parse_args buf argv ret ps =
     (let (ps1, b) = peek buf ps (str ''|)&;'') in
      if b then Inr (set_argv argv ret, ps1)
      else
        (let (tok, q, eq, ps2) = gettoken buf ps1 in
         if tok = 0 then Inr (set_argv argv ret, ps2)
         else if tok \<noteq> 97 then Inl (str ''syntax'')
         else let argv' = argv @ [(q, eq)] in
           if length argv' \<ge> MAXARGS then Inl (str ''too many args'')
           else (case parseredirs buf ret ps2 of Inl e \<Rightarrow> Inl e
                 | Inr (ret', ps3) \<Rightarrow> parse_args buf argv' ret' ps3)))"
  by auto
termination
proof (relation "measure (\<lambda>(buf, argv, ret, ps). MAXARGS - length argv)", simp, goal_cases)
  case 1 then show ?case by simp
qed

declare parse_args.simps [simp del]

text \<open>The loop over the \<open>&\<close> that follow a pipeline.\<close>

function back_loop :: "byte list \<Rightarrow> token cmd \<Rightarrow> nat \<Rightarrow> token cmd \<times> nat" where
  "back_loop buf cmd ps =
     (let (ps1, b) = peek buf ps (str ''&'') in
      if b then (let (tok, q, eq, ps2) = gettoken buf ps1 in back_loop buf (BACK cmd) ps2)
      else (cmd, ps1))"
  by auto
termination
proof (relation "measure (\<lambda>(buf, cmd, ps). length buf - ps)", simp, goal_cases)
  case (1 buf cmd ps x ps1 b y tok z q u eq ps2)
  then show ?case using peek_gettoken [of buf ps "str ''&''" ps1 tok q eq ps2] by simp
qed

declare back_loop.simps [simp del]

text \<open>
  The recursive descent: \<open>None\<close> when the number of nested calls exceeds the bound.
\<close>

definition bindE :: "('e + 'a) option \<Rightarrow> ('a \<Rightarrow> ('e + 'b) option) \<Rightarrow> ('e + 'b) option" where
  "bindE r f = (case r of None \<Rightarrow> None | Some (Inl e) \<Rightarrow> Some (Inl e) | Some (Inr x) \<Rightarrow> f x)"

fun parseline :: "nat \<Rightarrow> byte list \<Rightarrow> nat \<Rightarrow> (byte list + token cmd \<times> nat) option"
  and parsepipe :: "nat \<Rightarrow> byte list \<Rightarrow> nat \<Rightarrow> (byte list + token cmd \<times> nat) option"
  and parseexec :: "nat \<Rightarrow> byte list \<Rightarrow> nat \<Rightarrow> (byte list + token cmd \<times> nat) option"
  and parseblock :: "nat \<Rightarrow> byte list \<Rightarrow> nat \<Rightarrow> (byte list + token cmd \<times> nat) option" where
  "parseline 0 buf ps = None"
| "parseline (Suc n) buf ps = bindE (parsepipe n buf ps) (\<lambda>(cmd, ps).
     let (cmd, ps) = back_loop buf cmd ps; (ps, b) = peek buf ps (str '';'') in
     if b then
       (let (tok, q, eq, ps) = gettoken buf ps in
        bindE (parseline n buf ps) (\<lambda>(right, ps). Some (Inr (LIST cmd right, ps))))
     else Some (Inr (cmd, ps)))"
| "parsepipe 0 buf ps = None"
| "parsepipe (Suc n) buf ps = bindE (parseexec n buf ps) (\<lambda>(cmd, ps).
     let (ps, b) = peek buf ps (str ''|'') in
     if b then
       (let (tok, q, eq, ps) = gettoken buf ps in
        bindE (parsepipe n buf ps) (\<lambda>(right, ps). Some (Inr (PIPE cmd right, ps))))
     else Some (Inr (cmd, ps)))"
| "parseexec 0 buf ps = None"
| "parseexec (Suc n) buf ps =
     (let (ps, b) = peek buf ps (str ''('') in
      if b then parseblock n buf ps
      else Some (case parseredirs buf (EXEC []) ps of Inl e \<Rightarrow> Inl e
        | Inr (ret, ps) \<Rightarrow> parse_args buf [] ret ps))"
| "parseblock 0 buf ps = None"
| "parseblock (Suc n) buf ps =
     (let (ps, b) = peek buf ps (str ''('') in
      if \<not> b then Some (Inl (str ''parseblock''))
      else
        (let (tok, q, eq, ps) = gettoken buf ps in
         bindE (parseline n buf ps) (\<lambda>(cmd, ps).
           let (ps, b) = peek buf ps (str '')'') in
           if \<not> b then Some (Inl (str ''syntax - missing )''))
           else let (tok, q, eq, ps) = gettoken buf ps in Some (parseredirs buf cmd ps))))"

section \<open>Execution\<close>

definition sh_panic :: "byte list \<Rightarrow> 'a prog" where
  "sh_panic s = bindP (u_fprintf 2 (str ''%s'' @ [10]) [UStr (Some s)]) (\<lambda>_. Exits 1)"

definition fork1 :: "int prog" where
  "fork1 = bindP (sys CFork) (\<lambda>pid. if pid = - 1 then sh_panic (str ''fork'') else Ret pid)"

text \<open>\<open>nulterminate\<close> writes into the line; the string at a position ends with the next NUL.\<close>

fun nulterminate :: "token cmd \<Rightarrow> byte list \<Rightarrow> byte list" where
  "nulterminate (EXEC argv) m = fold (\<lambda>(q, eq) m. m[eq := 0]) argv m"
| "nulterminate (REDIR c (q, eq) mode fd) m = (nulterminate c m)[eq := 0]"
| "nulterminate (PIPE l r) m = nulterminate r (nulterminate l m)"
| "nulterminate (LIST l r) m = nulterminate r (nulterminate l m)"
| "nulterminate (BACK c) m = nulterminate c m"

definition cstring :: "byte list \<Rightarrow> nat \<Rightarrow> byte list" where
  "cstring m q = takeWhile (\<lambda>c. c \<noteq> 0) (drop q m)"

text \<open>\<open>parsecmd\<close> gives the command and the line with the NULs of \<open>nulterminate\<close>.\<close>

definition parsecmd :: "byte list \<Rightarrow> (token cmd \<times> byte list) prog" where
  "parsecmd s = (case parseline (4 * length s + 4) s 0 of
       None \<Rightarrow> Hang
     | Some (Inl e) \<Rightarrow> sh_panic e
     | Some (Inr (cmd, ps)) \<Rightarrow>
         let (ps, _) = peek s ps [] in
         if ps \<noteq> length s then
           bindP (u_fprintf 2 (str ''leftovers: %s'' @ [10]) [UStr (Some (drop ps s))]) (\<lambda>_. sh_panic (str ''syntax''))
         else Ret (cmd, nulterminate cmd (s @ [0])))"

fun runcmd :: "byte list \<Rightarrow> token cmd \<Rightarrow> unit prog" where
  "runcmd m (EXEC args) =
     (if args = [] then Exits 1
      else let argv = map (\<lambda>(q, eq). cstring m q) args in
        seqP [call (CExec (hd argv) argv), u_fprintf 2 (str ''exec %s failed'' @ [10]) [UStr (Some (hd argv))], Exits 0])"
| "runcmd m (REDIR c (q, eq) mode fd) = seqP [
     call (CClose fd),
     bindP (sys (COpen (cstring m q) mode)) (\<lambda>r. whenP (r < 0)
       (seqP [u_fprintf 2 (str ''open %s failed'' @ [10]) [UStr (Some (cstring m q))], Exits 1])),
     runcmd m c,
     Exits 0]"
| "runcmd m (LIST l r) = bindP fork1 (\<lambda>pid. seqP [
     whenP (pid = 0) (runcmd m l),
     call CWait,
     runcmd m r,
     Exits 0])"
| "runcmd m (PIPE l r) = Sys CPipe (\<lambda>a.
     if rv a < 0 then sh_panic (str ''pipe'')
     else let (p0, p1) = rfds a in
       bindP fork1 (\<lambda>pid. bindP
         (whenP (pid = 0) (seqP [call (CClose 1), call (CDup p1), call (CClose p0), call (CClose p1), runcmd m l])) (\<lambda>_.
       bindP fork1 (\<lambda>pid. seqP [
         whenP (pid = 0) (seqP [call (CClose 0), call (CDup p0), call (CClose p0), call (CClose p1), runcmd m r]),
         call (CClose p0),
         call (CClose p1),
         call CWait,
         call CWait,
         Exits 0]))))"
| "runcmd m (BACK c) = bindP fork1 (\<lambda>pid. seqP [whenP (pid = 0) (runcmd m c), Exits 0])"

text \<open>The line that \<open>gets\<close> leaves in the buffer, and \<open>-1\<close> if it is empty.\<close>

definition getcmd :: "nat \<Rightarrow> (int \<times> byte list) prog" where
  "getcmd nbuf = bindP (u_fprintf 2 (str ''$ '') []) (\<lambda>_.
     bindP (u_gets nbuf) (\<lambda>bs. let s = cstring bs 0 in
       Ret (if s = [] then - 1 else 0, s)))"

definition SH_BUF :: nat where "SH_BUF = 100"

definition sh_main :: "nat \<Rightarrow> unit prog" where
  "sh_main turns = seqP [
     loopP turns (\<lambda>_. bindP (sys (COpen (str ''console'') 2)) (\<lambda>fd.
       if fd \<ge> 0 then (if fd \<ge> 3 then bindP (call (CClose fd)) (\<lambda>_. Ret (Inr ())) else Ret (Inl ()))
       else Ret (Inr ()))) (),
     loopP turns (\<lambda>_. bindP (getcmd SH_BUF) (\<lambda>(r, s).
       if r < 0 then Ret (Inr ())
       else if take 3 s = str ''cd '' then
         (let dir = drop 3 (butlast s) in
          bindP (sys (CChdir dir)) (\<lambda>v. bindP
            (whenP (v < 0) (u_fprintf 2 (str ''cannot cd %s'' @ [10]) [UStr (Some dir)])) (\<lambda>_. Ret (Inl ()))))
       else bindP fork1 (\<lambda>pid. bindP
         (whenP (pid = 0) (bindP (parsecmd s) (\<lambda>(cmd, m). runcmd m cmd))) (\<lambda>_.
         bindP (call CWait) (\<lambda>_. Ret (Inl ())))))) (),
     Exits 0]"

end
