(* ===== verification/Shell.thy ===== *)
theory Shell
  imports Sh
begin

text \<open>
  Properties of the shell's parser: it always returns, with a well-formed command, and the NULs
  it writes cut the line into exactly the words of the command.
\<close>

section \<open>The parser returns a well-formed command\<close>

definition slice :: "byte list \<Rightarrow> token \<Rightarrow> byte list" where
  "slice buf t = take (snd t - fst t) (drop (fst t) buf)"

text \<open>A token: a longest piece of the line without white space and symbols.\<close>

definition tok_ok :: "byte list \<Rightarrow> token \<Rightarrow> bool" where
  "tok_ok buf t \<longleftrightarrow> fst t < snd t \<and> snd t \<le> length buf \<and> (\<forall>i\<in>{fst t..<snd t}. ordinary (buf ! i)) \<and>
     (snd t < length buf \<longrightarrow> \<not> ordinary (buf ! snd t))"

definition redir_kinds :: "(nat \<times> int) set" where
  "redir_kinds = {(sh_RDONLY, 0), (sh_TRUNC, 1), (sh_APPEND, 1)}"

fun wf_cmd :: "('t \<Rightarrow> bool) \<Rightarrow> 't cmd \<Rightarrow> bool" where
  "wf_cmd P (EXEC argv) \<longleftrightarrow> length argv < MAXARGS \<and> (\<forall>t\<in>set argv. P t)"
| "wf_cmd P (REDIR c t m d) \<longleftrightarrow> wf_cmd P c \<and> P t \<and> (m, d) \<in> redir_kinds"
| "wf_cmd P (PIPE l r) \<longleftrightarrow> wf_cmd P l \<and> wf_cmd P r"
| "wf_cmd P (LIST l r) \<longleftrightarrow> wf_cmd P l \<and> wf_cmd P r"
| "wf_cmd P (BACK c) \<longleftrightarrow> wf_cmd P c"

lemma scan_all: "s \<le> i \<Longrightarrow> i < scan P buf s \<Longrightarrow> i < length buf \<and> P (buf ! i)"
proof (induction P buf s rule: scan.induct)
  case (1 P buf s)
  then have c: "s < length buf \<and> P (char_at buf s)" by (subst (asm) scan.simps) (auto split: if_splits)
  with 1 have "i < scan P buf (Suc s)" by (subst (asm) scan.simps) simp
  then show ?case using 1(1) [OF c] 1(2) c by (cases "i = s") (auto simp: char_at_def)
qed

lemma gettoken_word:
  assumes "gettoken buf ps = (97, q, eq, ps')" "ps \<le> length buf" shows "tok_ok buf (q, eq)"
proof -
  have "97 \<notin> set (str ''|();&<'')" by (simp add: str_def)
  then have e: "eq = scan ordinary buf q" using assms(1) by (auto simp: gettoken_def Let_def split: if_splits)
  show ?thesis
    unfolding tok_ok_def fst_conv snd_conv
    using gettoken_pos(4) [OF assms(1)] gettoken_pos(3,5) [OF assms(1)] assms(2) scan_all [of q _ ordinary buf] scan_stops [of ordinary buf q]
    by (simp add: e char_at_def)
qed

text \<open>What a parser gives: never nothing, and a well-formed command with a position further on.\<close>

definition fine :: "byte list \<Rightarrow> nat \<Rightarrow> byte list + token cmd \<times> nat \<Rightarrow> bool" where
  "fine buf ps r = (case r of Inl e \<Rightarrow> True
     | Inr (c, ps') \<Rightarrow> ps \<le> ps' \<and> ps' \<le> length buf \<and> wf_cmd (tok_ok buf) c)"

lemma fine_mono: "fine buf ps r \<Longrightarrow> ps0 \<le> ps \<Longrightarrow> fine buf ps0 r"
  by (auto simp: fine_def split: sum.splits)

fun simple :: "'t cmd \<Rightarrow> bool" where
  "simple (EXEC argv) \<longleftrightarrow> argv = []"
| "simple (REDIR c t m d) \<longleftrightarrow> simple c"
| "simple _ \<longleftrightarrow> False"

lemma parseredirs_fine:
  "ps \<le> length buf \<Longrightarrow> wf_cmd (tok_ok buf) cmd \<Longrightarrow> fine buf ps (parseredirs buf cmd ps) \<and>
     (simple cmd \<longrightarrow> (\<forall>c ps'. parseredirs buf cmd ps = Inr (c, ps') \<longrightarrow> simple c))"
proof (induction buf cmd ps rule: parseredirs.induct)
  case (1 buf cmd ps)
  obtain ps1 b where p1: "peek buf ps (str ''<>'') = (ps1, b)" by (cases "peek buf ps (str ''<>'')")
  obtain tok q1 e1 ps2 where p2: "gettoken buf ps1 = (tok, q1, e1, ps2)" by (cases "gettoken buf ps1")
  obtain t q eq ps3 where p3: "gettoken buf ps2 = (t, q, eq, ps3)" by (cases "gettoken buf ps2")
  note p = p1 p2 p3
  note P = peek_pos [OF p(1)] gettoken_pos [OF p(2)] gettoken_pos [OF p(3)]
  define cmd' where "cmd' = (if tok = 60 then REDIR cmd (q, eq) sh_RDONLY 0 else if tok = 62 then REDIR cmd (q, eq) sh_TRUNC 1
            else if tok = 43 then REDIR cmd (q, eq) sh_APPEND 1 else cmd)"
  show ?case
  proof (cases "b \<and> t = 97")
    case True
    have "ps2 \<le> length buf" using P 1(2) by linarith
    then have "tok_ok buf (q, eq)" using gettoken_word [of buf ps2 q eq ps3] p(3) True by simp
    then have wf: "wf_cmd (tok_ok buf) cmd'" using 1(3) by (simp add: cmd'_def redir_kinds_def)
    have eq: "parseredirs buf cmd ps = parseredirs buf cmd' ps3"
      using True p by (simp add: parseredirs.simps [of buf cmd ps] cmd'_def)
    have ps: "ps \<le> ps3" "ps3 \<le> length buf" using P 1(2) by linarith+
    have "b" "\<not> t \<noteq> 97" using True by simp_all
    from 1(1) [OF refl p(1) [symmetric] this(1) refl p(2) [symmetric] refl refl refl p(3) [symmetric] refl refl this(2),
        folded cmd'_def, OF ps(2) wf]
    have "fine buf ps (parseredirs buf cmd' ps3)" "simple cmd' \<longrightarrow> (\<forall>c ps'. parseredirs buf cmd' ps3 = Inr (c, ps') \<longrightarrow> simple c)"
      using fine_mono [OF _ ps(1)] by blast+
    moreover have "simple cmd \<Longrightarrow> simple cmd'" by (simp add: cmd'_def)
    ultimately show ?thesis unfolding eq by blast
  next
    case False
    then have "parseredirs buf cmd ps = (if b then Inl (str ''missing file for redirection'') else Inr (cmd, ps1))"
      using p by (simp add: parseredirs.simps [of buf cmd ps])
    then show ?thesis using P 1(2,3) by (simp add: fine_def)
  qed
qed

lemma set_argv_wf: "simple c \<Longrightarrow> wf_cmd P c \<Longrightarrow> length argv < MAXARGS \<Longrightarrow> \<forall>t\<in>set argv. P t \<Longrightarrow> wf_cmd P (set_argv argv c)"
  by (induction c) auto

lemma parse_args_fine:
  assumes "ps \<le> length buf" "simple ret" "wf_cmd (tok_ok buf) ret" "length argv < MAXARGS" "\<forall>t\<in>set argv. tok_ok buf t"
  shows "fine buf ps (parse_args buf argv ret ps)"
  using assms
proof (induction "MAXARGS - length argv" arbitrary: argv ret ps rule: less_induct)
  case less
  obtain ps1 b where p1: "peek buf ps (str ''|)&;'') = (ps1, b)" by (cases "peek buf ps (str ''|)&;'')")
  obtain tok q eq ps2 where p2: "gettoken buf ps1 = (tok, q, eq, ps2)" by (cases "gettoken buf ps1")
  note P = peek_pos [OF p1] gettoken_pos [OF p2]
  have ps: "ps \<le> ps1" "ps1 \<le> length buf" "ps \<le> ps2" "ps2 \<le> length buf" using P less.prems(1) by linarith+
  have fin: "wf_cmd (tok_ok buf) (set_argv argv ret)" using less.prems by (simp add: set_argv_wf)
  note step = parse_args.simps [of buf argv ret ps, unfolded p1 p2 Let_def prod.case]
  show ?case
  proof (cases "\<not> b \<and> tok = 97 \<and> length argv + 1 < MAXARGS")
    case False
    then consider b | "\<not> b" "tok \<noteq> 97" | "\<not> b" "tok = 97" "MAXARGS \<le> length argv + 1" by linarith
    then show ?thesis unfolding step using ps fin by cases (simp_all add: fine_def)
  next
    case True
    have t: "tok_ok buf (q, eq)" using gettoken_word [of buf ps1 q eq ps2] p2 True ps by simp
    have F: "fine buf ps2 (parseredirs buf ret ps2)" "\<And>c p. parseredirs buf ret ps2 = Inr (c, p) \<Longrightarrow> simple c"
      using parseredirs_fine [OF ps(4) less.prems(3)] less.prems(2) by blast+
    show ?thesis
    proof (cases "parseredirs buf ret ps2")
      case (Inl e) then show ?thesis unfolding step using True by (simp add: fine_def)
    next
      case (Inr r)
      then obtain c p where r: "parseredirs buf ret ps2 = Inr (c, p)" by (cases r) simp
      then have c: "ps2 \<le> p" "p \<le> length buf" "wf_cmd (tok_ok buf) c" "simple c" using F by (simp_all add: fine_def)
      have "fine buf p (parse_args buf (argv @ [(q, eq)]) c p)"
        by (rule less.hyps) (use True c t less.prems in auto)
      then have "fine buf ps (parse_args buf (argv @ [(q, eq)]) c p)" by (rule fine_mono) (use c ps in linarith)
      then show ?thesis unfolding step using True r by simp
    qed
  qed
qed

lemma back_loop_fine:
  assumes "ps \<le> length buf" "wf_cmd (tok_ok buf) cmd" shows "fine buf ps (Inr (back_loop buf cmd ps))"
  using assms
proof (induction buf cmd ps rule: back_loop.induct)
  case (1 buf cmd ps)
  obtain ps1 b where p1: "peek buf ps (str ''&'') = (ps1, b)" by (cases "peek buf ps (str ''&'')")
  obtain tok q eq ps2 where p2: "gettoken buf ps1 = (tok, q, eq, ps2)" by (cases "gettoken buf ps1")
  have ps: "ps \<le> ps1" "ps1 \<le> length buf" "ps \<le> ps2" "ps2 \<le> length buf"
    using peek_pos [OF p1] gettoken_pos [OF p2] 1(2) by linarith+
  show ?case
  proof (cases b)
    case True
    have "fine buf ps2 (Inr (back_loop buf (BACK cmd) ps2))"
      by (rule 1(1) [OF refl p1 [symmetric] True refl p2 [symmetric] refl refl]) (use ps 1(3) in simp_all)
    then have "fine buf ps (Inr (back_loop buf (BACK cmd) ps2))" by (rule fine_mono) (rule ps)
    then show ?thesis using True p1 p2 by (simp add: back_loop.simps [of buf cmd ps])
  next
    case False
    then show ?thesis using p1 ps 1(3) by (simp add: back_loop.simps [of buf cmd ps] fine_def)
  qed
qed

lemma bindE_fine:
  assumes "\<exists>v. r = Some v \<and> fine buf ps v"
    "\<And>c p. ps \<le> p \<Longrightarrow> p \<le> length buf \<Longrightarrow> wf_cmd (tok_ok buf) c \<Longrightarrow> \<exists>w. f (c, p) = Some w \<and> fine buf p w"
  shows "\<exists>w. bindE r f = Some w \<and> fine buf ps w"
proof -
  obtain v where v: "r = Some v" "fine buf ps v" using assms(1) by blast
  show ?thesis
  proof (cases v)
    case (Inl e) then show ?thesis using v by (simp add: bindE_def)
  next
    case (Inr cp)
    then obtain c p where cp: "v = Inr (c, p)" by (cases cp) simp
    then have "ps \<le> p" "p \<le> length buf" "wf_cmd (tok_ok buf) c" using v by (simp_all add: fine_def)
    then obtain w where "f (c, p) = Some w" "fine buf p w" using assms(2) by blast
    then show ?thesis using v cp fine_mono [OF _ \<open>ps \<le> p\<close>] by (simp add: bindE_def)
  qed
qed

lemma parser_fine:
  "ps \<le> length buf \<Longrightarrow> 4 * (length buf - ps) + 4 \<le> n \<Longrightarrow> \<exists>v. parseline n buf ps = Some v \<and> fine buf ps v"
  "ps \<le> length buf \<Longrightarrow> 4 * (length buf - ps) + 3 \<le> n \<Longrightarrow> \<exists>v. parsepipe n buf ps = Some v \<and> fine buf ps v"
  "ps \<le> length buf \<Longrightarrow> 4 * (length buf - ps) + 2 \<le> n \<Longrightarrow> \<exists>v. parseexec n buf ps = Some v \<and> fine buf ps v"
  "ps \<le> length buf \<Longrightarrow> 4 * (length buf - ps) + 1 \<le> n \<Longrightarrow> \<exists>v. parseblock n buf ps = Some v \<and> fine buf ps v"
proof (induction n arbitrary: ps)
  case (Suc n)
  { case 1
    show ?case unfolding parseline.simps
    proof (rule bindE_fine [OF Suc.IH(2)], goal_cases)
      case (3 cmd p)
      obtain c2 p2 where b: "back_loop buf cmd p = (c2, p2)" by (cases "back_loop buf cmd p")
      obtain p3 v where k: "peek buf p2 (str '';'') = (p3, v)" by (cases "peek buf p2 (str '';'')")
      obtain t q e p4 where g: "gettoken buf p3 = (t, q, e, p4)" by (cases "gettoken buf p3")
      have c2: "p \<le> p2" "p2 \<le> length buf" "wf_cmd (tok_ok buf) c2"
        using back_loop_fine [OF 3(2,3)] by (simp_all add: b fine_def)
      have p3: "p2 \<le> p3" "p3 \<le> length buf" using peek_pos [OF k] c2 by auto
      show ?case
      proof (cases v)
        case True
        have p4: "p3 < p4" "p3 < length buf" "p4 \<le> length buf" using peek_gettoken [of buf p2 _ p3 t q e p4] k g True gettoken_pos(5) [OF g] p3 by auto
        have "\<exists>w. bindE (parseline n buf p4) (\<lambda>(right, ps). Some (Inr (LIST c2 right, ps))) = Some w \<and> fine buf p4 w"
          by (rule bindE_fine [OF Suc.IH(1)]) (use p4 p3 c2 3 1 in \<open>auto simp: fine_def\<close>)
        then show ?thesis using b k g True p3 p4 c2 fine_mono [of buf p4 _ p] by auto
      next
        case False
        then show ?thesis using b k p3 c2 by (simp add: fine_def)
      qed
    qed (use 1 in auto)
  next
    case 2
    show ?case unfolding parsepipe.simps
    proof (rule bindE_fine [OF Suc.IH(3)], goal_cases)
      case (3 cmd p)
      obtain p3 v where k: "peek buf p (str ''|'') = (p3, v)" by (cases "peek buf p (str ''|'')")
      obtain t q e p4 where g: "gettoken buf p3 = (t, q, e, p4)" by (cases "gettoken buf p3")
      have p3: "p \<le> p3" "p3 \<le> length buf" using peek_pos [OF k] 3 by auto
      show ?case
      proof (cases v)
        case True
        have p4: "p3 < p4" "p3 < length buf" "p4 \<le> length buf" using peek_gettoken [of buf p _ p3 t q e p4] k g True gettoken_pos(5) [OF g] p3 by auto
        have "\<exists>w. bindE (parsepipe n buf p4) (\<lambda>(right, ps). Some (Inr (PIPE cmd right, ps))) = Some w \<and> fine buf p4 w"
          by (rule bindE_fine [OF Suc.IH(2)]) (use p4 p3 3 2 in \<open>auto simp: fine_def\<close>)
        then show ?thesis using k g True p3 p4 fine_mono [of buf p4 _ p] by auto
      next
        case False
        then show ?thesis using k p3 3 by (simp add: fine_def)
      qed
    qed (use 2 in auto)
  next
    case 3
    obtain p v where k: "peek buf ps (str ''('') = (p, v)" by (cases "peek buf ps (str ''('')")
    have p: "ps \<le> p" "p \<le> length buf" using peek_pos [OF k] 3 by auto
    have S: "fine buf p (parseredirs buf (EXEC []) p)" "\<And>c p'. parseredirs buf (EXEC []) p = Inr (c, p') \<Longrightarrow> simple c"
      using parseredirs_fine [OF p(2), of "EXEC []"] by (auto simp: MAXARGS_def)
    show ?case
    proof (cases v)
      case True
      have "4 * (length buf - p) + 1 \<le> n" using 3(2) p by linarith
      then show ?thesis using Suc.IH(4) [OF p(2)] k True fine_mono [OF _ p(1)] by auto
    next
      case False
      have "fine buf ps (case parseredirs buf (EXEC []) p of Inl e \<Rightarrow> Inl e | Inr (ret, ps) \<Rightarrow> parse_args buf [] ret ps)"
      proof (cases "parseredirs buf (EXEC []) p")
        case (Inl e) then show ?thesis by (simp add: fine_def)
      next
        case (Inr r)
        then obtain c p' where r: "parseredirs buf (EXEC []) p = Inr (c, p')" by (cases r) simp
        then have c: "p \<le> p'" "p' \<le> length buf" "wf_cmd (tok_ok buf) c" "simple c" using S by (simp_all add: fine_def)
        then have "fine buf p' (parse_args buf [] c p')" by (intro parse_args_fine) (simp_all add: MAXARGS_def)
        then show ?thesis using r fine_mono [of buf p' _ ps] c(1) p(1) by simp
      qed
      then show ?thesis using k False by simp
    qed
  next
    case 4
    obtain p v where k: "peek buf ps (str ''('') = (p, v)" by (cases "peek buf ps (str ''('')")
    obtain t q e p2 where g: "gettoken buf p = (t, q, e, p2)" by (cases "gettoken buf p")
    have p: "ps \<le> p" "p \<le> length buf" using peek_pos [OF k] 4 by auto
    show ?case
    proof (cases v)
      case True
      have p2: "p < p2" "p < length buf" "p2 \<le> length buf" using peek_gettoken [of buf ps _ p t q e p2] k g True gettoken_pos(5) [OF g] p by auto
      have "\<exists>w. bindE (parseline n buf p2) (\<lambda>(cmd, ps). let (ps, b) = peek buf ps (str '')'') in
           if \<not> b then Some (Inl (str ''syntax - missing )''))
           else let (tok, q, eq, ps) = gettoken buf ps in Some (parseredirs buf cmd ps)) = Some w \<and> fine buf p2 w"
      proof (rule bindE_fine [OF Suc.IH(1)], goal_cases)
        case (3 c p')
        obtain p3 v where k: "peek buf p' (str '')'') = (p3, v)" by (cases "peek buf p' (str '')'')")
        obtain t q e p4 where g: "gettoken buf p3 = (t, q, e, p4)" by (cases "gettoken buf p3")
        have p3: "p' \<le> p3" "p3 \<le> p4" "p4 \<le> length buf" using peek_pos [OF k] gettoken_pos [OF g] 3 by auto
        have "fine buf p' (parseredirs buf c p4)" using parseredirs_fine [OF p3(3) 3(3)] fine_mono [of buf p4 _ p'] p3 by auto
        then show ?case using k g by (simp add: fine_def)
      qed (use p p2 4 in auto)
      then show ?thesis using k g True p p2 fine_mono [of buf p2 _ ps] by auto
    next
      case False then show ?thesis using k by (simp add: fine_def)
    qed
  }
qed auto

lemma run_putcs: "\<exists>e'. runP k (forP bs (u_putc fd)) e = (Inr (), e')"
  by (induction bs arbitrary: e) (auto simp: u_putc_def call_def Let_def split: prod.split)

lemma run_error: "\<exists>e'. runP k (u_fprintf 2 (fmt @ str ''%s'' @ [10]) [UStr (Some bs)]) e = (Inr (), e')" if "37 \<notin> set fmt"
  using that
proof (induction fmt arbitrary: e)
  case Nil
  obtain e' where "runP k (forP bs (u_putc 2)) e = (Inr (), e')" using run_putcs [of k bs 2 e] by blast
  then show ?case by (auto simp: u_fprintf_def str_def runP_bind u_putc_def call_def Let_def split: prod.split)
next
  case (Cons c fmt)
  then show ?case by (auto simp: u_fprintf_def runP_bind u_putc_def call_def Let_def split: prod.split)
qed

lemma run_sh_panic: "\<exists>e'. runP k (sh_panic bs) e = (Inl (Some 1), e')"
proof -
  obtain e' where "runP k (u_fprintf 2 (str ''%s'' @ [10]) [UStr (Some bs)]) e = (Inr (), e')"
    using run_error [of "[]" k bs e] by auto
  then show ?thesis by (simp add: sh_panic_def runP_bind)
qed

text \<open>
  C21.  The parser always ends: whatever the line and whatever the kernel answers, \<open>parsecmd\<close>
  returns a command or reports an error and exits with status 1; \<open>4 * length s + 4\<close> nested
  calls are enough.
\<close>

theorem parsecmd_returns:
  "(\<exists>e'. runP k (parsecmd s) e = (Inl (Some 1), e')) \<or> (\<exists>cmd m. runP k (parsecmd s) e = (Inr (cmd, m), e))"
proof -
  obtain r where r: "parseline (4 * length s + 4) s 0 = Some r" using parser_fine(1) [of 0 s "4 * length s + 4"] by auto
  have left: "\<exists>e'. runP k (bindP (u_fprintf 2 (str ''leftovers: %s'' @ [10]) [UStr (Some bs)]) (\<lambda>_. sh_panic (str ''syntax''))) e = (Inl (Some 1), e')" for bs
  proof -
    obtain e' where "runP k (u_fprintf 2 (str ''leftovers: %s'' @ [10]) [UStr (Some bs)]) e = (Inr (), e')"
      using run_error [of "str ''leftovers: ''" k bs e] by (auto simp: str_def)
    then show ?thesis using run_sh_panic [of k _ e'] by (simp add: runP_bind)
  qed
  show ?thesis
  proof (cases r)
    case (Inl msg) then show ?thesis using r run_sh_panic [of k msg e] by (auto simp: parsecmd_def)
  next
    case (Inr cp)
    then show ?thesis using r left by (auto simp: parsecmd_def split: prod.split)
  qed
qed

section \<open>The words of the command\<close>

lemma nulterminate_length [simp]: "length (nulterminate c m) = length m"
proof (induction c arbitrary: m)
  case (EXEC argv)
  have "length (fold (\<lambda>(q, eq) m. m[eq := 0]) argv m) = length m" by (induction argv arbitrary: m) auto
  then show ?case by simp
next
  case (REDIR c t m' d) then show ?case by (cases t) simp
qed auto

lemma nulterminate_nth:
  "i < length m \<Longrightarrow> nulterminate c m ! i = (if i \<in> snd ` toks c then 0 else m ! i)"
proof (induction c arbitrary: m)
  case (EXEC argv)
  then have "fold (\<lambda>(q, eq) m. m[eq := 0]) argv m ! i = (if i \<in> snd ` set argv then 0 else m ! i)"
    by (induction argv arbitrary: m) (force simp: nth_list_update)+
  then show ?case by simp
next
  case (REDIR c t m' d)
  have "nulterminate (REDIR c t m' d) m ! i = (if i = snd t then 0 else nulterminate c m ! i)"
    using REDIR(2) by (cases t) (simp add: nth_list_update)
  then show ?case using REDIR by simp
qed auto

lemma wf_cmd_toks: "wf_cmd P c \<Longrightarrow> t \<in> toks c \<Longrightarrow> P t"
  by (induction c) auto

lemma words:
  assumes "wf_cmd (tok_ok s) c" "0 \<notin> set s" "t \<in> toks c"
  shows "cstring (nulterminate c (s @ [0])) (fst t) = slice s t"
proof -
  define m where "m = nulterminate c (s @ [0])"
  have t: "fst t < snd t" "snd t \<le> length s" "\<forall>i\<in>{fst t..<snd t}. ordinary (s ! i)" using wf_cmd_toks [OF assms(1,3)] by (simp_all add: tok_ok_def)
  have m: "m ! i = (if i \<in> snd ` toks c then 0 else (s @ [0]) ! i)" if "i \<le> length s" for i
    using that by (simp add: m_def nulterminate_nth)
  have "i \<notin> snd ` toks c" if "i \<in> {fst t..<snd t}" for i
  proof
    assume "i \<in> snd ` toks c"
    then obtain u where "u \<in> toks c" "i = snd u" by auto
    with wf_cmd_toks [OF assms(1), of u] have "i < length s \<longrightarrow> \<not> ordinary (s ! i)" by (simp add: tok_ok_def)
    then show False using t that by auto
  qed
  then have in_tok: "m ! i = s ! i" "s ! i \<noteq> 0" if "i \<in> {fst t..<snd t}" for i
    using that t m [of i] assms(2) nth_mem [of i s] by (auto simp: nth_append simp del: nth_mem)
  have "drop (fst t) m = slice s t @ 0 # drop (Suc (snd t)) m"
  proof (rule nth_equalityI)
    show "length (drop (fst t) m) = length (slice s t @ 0 # drop (Suc (snd t)) m)" using t by (simp add: m_def slice_def)
  next
    fix i assume i: "i < length (drop (fst t) m)"
    have z: "m ! snd t = 0" using m [OF t(2)] assms(3) by auto
    show "drop (fst t) m ! i = (slice s t @ 0 # drop (Suc (snd t)) m) ! i"
    proof (cases "fst t + i < snd t")
      case True
      then have "i < snd t - fst t" by linarith
      then show ?thesis using True in_tok [of "fst t + i"] t i by (simp add: slice_def nth_append)
    next
      case False
      show ?thesis
      proof (cases "fst t + i = snd t")
        case True
        then have "i = snd t - fst t" by simp
        then show ?thesis using z t i by (simp add: slice_def nth_append)
      next
        case F: False
        then obtain j where "fst t + i = Suc (snd t + j)" using False by (metis less_imp_Suc_add linorder_neqE_nat)
        then have "i - (snd t - fst t) = Suc j" "\<not> i < snd t - fst t" using t by auto
        then show ?thesis using t i \<open>fst t + i = _\<close> by (simp add: slice_def nth_append m_def)
      qed
    qed
  qed
  moreover have "\<forall>x\<in>set (slice s t). x \<noteq> 0" using assms(2) set_take_subset set_drop_subset by (fastforce simp: slice_def)
  ultimately show ?thesis unfolding m_def [symmetric] cstring_def by (simp add: takeWhile_append2)
qed

text \<open>
  C22.  A command that the parser returns is well formed: every \<open>EXEC\<close> has fewer than \<open>MAXARGS\<close>
  arguments, every redirection is one of the three kinds, and every word is a longest piece
  of the line without white space and symbols.  In the line with the NULs of
  \<open>nulterminate\<close> each pointer of the command is a string with exactly its word.
\<close>

theorem parsecmd_well_formed:
  assumes "runP k (parsecmd s) e = (Inr (cmd, m), e')" "0 \<notin> set s"
  shows "wf_cmd (tok_ok s) cmd \<and> (\<forall>t\<in>toks cmd. cstring m (fst t) = slice s t)"
proof -
  obtain r where r: "parseline (4 * length s + 4) s 0 = Some r" "fine s 0 r" using parser_fine(1) [of 0 s "4 * length s + 4"] by auto
  have P: "runP k (sh_panic bs) e \<noteq> (Inr x, e')" for bs e and x :: "token cmd \<times> byte list"
    using run_sh_panic [of k bs e] by (metis Inl_Inr_False Pair_inject)
  have Q: "runP k (bindP p (\<lambda>_. sh_panic bs)) e \<noteq> (Inr x, e')" for p :: "unit prog" and bs e and x :: "token cmd \<times> byte list"
    using P by (auto simp: runP_bind split: prod.split sum.split)
  obtain ps where "r = Inr (cmd, ps)" "m = nulterminate cmd (s @ [0])"
  proof (cases r)
    case (Inl msg) then show ?thesis using assms(1) r(1) P by (simp add: parsecmd_def)
  next
    case (Inr cp)
    then obtain c p where cp: "r = Inr (c, p)" by (cases cp) simp
    have "c = cmd" "m = nulterminate cmd (s @ [0])"
      using assms(1) r(1) Q cp by (auto simp: parsecmd_def split: prod.splits if_splits)
    then show ?thesis using that cp by simp
  qed
  then show ?thesis using r(2) words [OF _ assms(2)] by (simp add: fine_def)
qed

lemma demo_parse: "parsecmd (str ''wc<f'') = Ret (REDIR (EXEC [(0, 2)]) (3, 4) 0 0, [119, 99, 0, 102, 0])"
proof -
  have "parseline (4 * length (str ''wc<f'') + 4) (str ''wc<f'') 0 = Some (Inr (REDIR (EXEC [(0, 2)]) (3, 4) 0 0, 4))" by code_simp
  moreover have "peek (str ''wc<f'') 4 [] = (4, False)" by code_simp
  ultimately show ?thesis by (simp add: parsecmd_def str_def)
qed

theorem parsecmd_well_formed_witness:
  "cstring [119, 99, 0, 102, 0] 3 = str ''f''"
proof -
  have "runP stream_kernel (parsecmd (str ''wc<f'')) \<lparr>s_in = [], s_cuts = [], s_out = []\<rparr> =
     (Inr (REDIR (EXEC [(0, 2)]) (3, 4) 0 0, [119, 99, 0, 102, 0]), \<lparr>s_in = [], s_cuts = [], s_out = []\<rparr>)"
    by (simp add: demo_parse)
  from parsecmd_well_formed [OF this] show ?thesis by (auto simp: slice_def str_def)
qed

end
