(* ===== verification/Shparse.thy ===== *)
theory Shparse
  imports Shell
begin

text \<open>
  The grammar of the shell: a command is printed with parentheses where its level asks for
  them, and the parser gives back exactly the command that was printed.
\<close>

section \<open>Printing a command\<close>

definition redir_sym :: "nat \<Rightarrow> byte list" where
  "redir_sym m = (if m = sh_RDONLY then [60] else if m = sh_TRUNC then [62] else [62, 62])"

fun level :: "'t cmd \<Rightarrow> nat" where
  "level (LIST l r) = 0"
| "level (BACK c) = 1"
| "level (PIPE l r) = 2"
| "level (EXEC ws) = 3"
| "level (REDIR c f m d) = 3"

definition paren :: "nat \<Rightarrow> 't cmd \<Rightarrow> byte list \<Rightarrow> byte list" where
  "paren n c s = (if n \<le> level c then s else [40] @ s @ [41])"

fun print_cmd :: "byte list cmd \<Rightarrow> byte list" where
  "print_cmd (EXEC ws) = concat (map (\<lambda>w. w @ [32]) ws)"
| "print_cmd (REDIR c f m d) = paren 3 c (print_cmd c) @ redir_sym m @ f @ [32]"
| "print_cmd (PIPE l r) = paren 3 l (print_cmd l) @ [124] @ paren 2 r (print_cmd r)"
| "print_cmd (BACK c) = paren 1 c (print_cmd c) @ [38]"
| "print_cmd (LIST l r) = paren 1 l (print_cmd l) @ [59] @ print_cmd r"

definition word :: "byte list \<Rightarrow> bool" where
  "word w \<longleftrightarrow> w \<noteq> [] \<and> (\<forall>c\<in>set w. ordinary c \<and> c \<noteq> 0)"

section \<open>Tokens at a position\<close>

text \<open>\<open>at buf s xs\<close>: the text from position \<open>s\<close> on is \<open>xs\<close>.\<close>

definition at :: "byte list \<Rightarrow> nat \<Rightarrow> byte list \<Rightarrow> bool" where
  "at buf s xs \<longleftrightarrow> s \<le> length buf \<and> drop s buf = xs"

definition clean :: "byte list \<Rightarrow> bool" where
  "clean xs \<longleftrightarrow> xs = [] \<or> \<not> white (hd xs)"

lemma at_length: "at buf s xs \<Longrightarrow> length xs = length buf - s"
  by (auto simp: at_def)

lemma at_append: "at buf s (xs @ ys) \<Longrightarrow> at buf (s + length xs) ys"
proof -
  assume a: "at buf s (xs @ ys)"
  then have "length xs \<le> length buf - s" using at_length by fastforce
  moreover have "drop (s + length xs) buf = ys"
    using a drop_drop [of "length xs" s buf] by (simp add: at_def add.commute)
  moreover have "s \<le> length buf" using a by (simp add: at_def)
  ultimately show ?thesis unfolding at_def by linarith
qed

lemma at_less: "at buf s (c # xs) \<Longrightarrow> s < length buf"
  using at_length [of buf s "c # xs"] by simp

lemma at_Cons: "at buf s (c # xs) \<Longrightarrow> at buf (Suc s) xs"
  using at_append [of buf s "[c]" xs] by simp

lemma char_at_at: "at buf s xs \<Longrightarrow> char_at buf s = (if xs = [] then 0 else hd xs)"
  by (auto simp: at_def char_at_def hd_drop_conv_nth)

lemma scan_at: "at buf s (xs @ ys) \<Longrightarrow> \<forall>c\<in>set xs. P c \<Longrightarrow> ys = [] \<or> \<not> P (hd ys) \<Longrightarrow> scan P buf s = s + length xs"
proof (induction xs arbitrary: s)
  case Nil
  then show ?case using char_at_at [of buf s ys] by (subst scan.simps) (auto simp: at_def)
next
  case (Cons c xs)
  then have "s < length buf" "char_at buf s = c" using char_at_at [of buf s "c # xs @ ys"] at_less [of buf s c "xs @ ys"] by auto
  moreover have "scan P buf (Suc s) = Suc s + length xs" using Cons at_Cons [of buf s c "xs @ ys"] by simp
  ultimately show ?case using Cons.prems(2) by (subst scan.simps) simp
qed

lemma scan_clean: "at buf s xs \<Longrightarrow> clean xs \<Longrightarrow> scan white buf s = s"
  using scan_at [of buf s "[]" xs white] by (simp add: clean_def)

lemma white_cases: "white c \<longleftrightarrow> c \<in> {32, 9, 13, 10, 11}"
  by (auto simp: white_def whitespace_def)

lemma symbol_at: "c \<in> set (str ''|();&<'') \<Longrightarrow> \<not> white c \<and> c \<noteq> 0"
  by (auto simp: white_cases str_def)

lemma peek_at:
  "at buf s xs \<Longrightarrow> clean xs \<Longrightarrow> peek buf s tk = (s, xs \<noteq> [] \<and> hd xs \<noteq> 0 \<and> strchr tk (hd xs) \<noteq> None)"
  by (simp add: peek_def scan_clean char_at_at Let_def)

lemma gettoken_symbol:
  assumes "at buf s (c # xs)" "c \<in> set (str ''|();&<'')" "clean xs"
  shows "gettoken buf s = (c, s, Suc s, Suc s)"
proof -
  have "clean (c # xs)" using symbol_at [OF assms(2)] by (simp add: clean_def)
  then show ?thesis
    using assms symbol_at [OF assms(2)] scan_clean [OF assms(1)] char_at_at [OF assms(1)] scan_clean [OF at_Cons [OF assms(1)] assms(3)]
    by (simp add: gettoken_def)
qed

lemma gettoken_end: "at buf s [] \<Longrightarrow> gettoken buf s = (0, s, s, s)"
  using scan_clean [of buf s "[]"] char_at_at [of buf s "[]"] by (simp add: gettoken_def clean_def)

lemma gt_not_symbol: "(62 :: byte) \<notin> set (str ''|();&<'')" "\<not> white 62"
  by (simp_all add: str_def white_cases)

lemma gettoken_gt:
  assumes "at buf s (62 # xs)" "clean xs" "xs \<noteq> []" "hd xs \<noteq> 62"
  shows "gettoken buf s = (62, s, Suc s, Suc s)"
  using assms gt_not_symbol scan_clean [OF assms(1)] char_at_at [OF assms(1)] char_at_at [OF at_Cons [OF assms(1)]]
    scan_clean [OF at_Cons [OF assms(1)] assms(2)]
  by (simp add: gettoken_def clean_def)

lemma gettoken_gtgt:
  assumes "at buf s (62 # 62 # xs)" "clean xs"
  shows "gettoken buf s = (43, s, s + 2, s + 2)"
  using assms gt_not_symbol scan_clean [OF assms(1)] char_at_at [OF assms(1)] char_at_at [OF at_Cons [OF assms(1)]]
    scan_clean [OF at_Cons [OF at_Cons [OF assms(1)]] assms(2)]
  by (simp add: gettoken_def clean_def)

lemma word_hd: "word w \<Longrightarrow> w \<noteq> [] \<and> ordinary (hd w) \<and> hd w \<noteq> 0"
  by (cases w) (auto simp: word_def)

lemma gettoken_word_at:
  assumes "at buf s (w @ 32 # xs)" "word w" "clean xs"
  shows "gettoken buf s = (97, s, s + length w, s + length w + 1)" "slice buf (s, s + length w) = w"
proof -
  have h: "w \<noteq> []" "ordinary (hd w)" "hd w \<noteq> 0" using word_hd [OF assms(2)] by auto
  have c: "char_at buf s = hd w" "scan white buf s = s"
    using char_at_at [OF assms(1)] scan_clean [OF assms(1)] h by (auto simp: clean_def ordinary_def)
  have ns: "hd w \<notin> set (str ''|();&<'')" "hd w \<noteq> 62" using h(2) by (auto simp: ordinary_def symbol_cases)
  have "\<not> ordinary 32" by (simp add: ordinary_def white_cases)
  then have e: "scan ordinary buf s = s + length w" using scan_at [OF assms(1), of ordinary] assms(2) by (auto simp: word_def)
  have "at buf (s + length w) ([32] @ xs)" using at_append [OF assms(1)] by simp
  then have "scan white buf (s + length w) = s + length w + 1"
    using scan_at [of buf "s + length w" "[32]" xs white] assms(3) by (simp add: white_cases clean_def)
  then show "gettoken buf s = (97, s, s + length w, s + length w + 1)" using c h ns e by (simp add: gettoken_def)
  show "slice buf (s, s + length w) = w" using assms(1) by (simp add: slice_def at_def)
qed

section \<open>Redirections and arguments\<close>

type_synonym 't redir = "'t \<times> nat \<times> int"

fun wrap :: "'t cmd \<Rightarrow> 't redir list \<Rightarrow> 't cmd" where
  "wrap c [] = c"
| "wrap c ((f, m, d) # rs) = wrap (REDIR c f m d) rs"

definition redirs_text :: "byte list redir list \<Rightarrow> byte list" where
  "redirs_text rs = concat (map (\<lambda>(f, m, d). redir_sym m @ f @ [32]) rs)"

definition redir_ok :: "byte list redir \<Rightarrow> bool" where
  "redir_ok r = (case r of (f, m, d) \<Rightarrow> word f \<and> (m, d) \<in> redir_kinds)"

text \<open>What may follow: nothing, or a character of the list.\<close>

definition follows :: "string \<Rightarrow> byte list \<Rightarrow> bool" where
  "follows cs xs \<longleftrightarrow> xs = [] \<or> hd xs \<in> set (str cs)"

definition stop :: "byte list \<Rightarrow> bool" where
  "stop xs \<longleftrightarrow> clean xs \<and> (xs \<noteq> [] \<longrightarrow> hd xs \<noteq> 60 \<and> hd xs \<noteq> 62)"

lemma follows_stop: "follows ''|)&;'' xs \<Longrightarrow> stop xs"
  by (auto simp: follows_def stop_def clean_def white_cases str_def)

lemma word_stop: "word w \<Longrightarrow> stop (w @ ys)"
  using word_hd [of w] by (auto simp: stop_def clean_def ordinary_def symbol_cases str_def)

lemma redirs_clean: "stop xs \<Longrightarrow> clean (redirs_text rs @ xs)"
  by (cases rs) (auto simp: redirs_text_def redir_sym_def stop_def clean_def white_cases split: prod.split)

lemma strchr_redir: "strchr (str ''<>'') c \<noteq> None \<longleftrightarrow> c = 60 \<or> c = 62"
  by (auto simp: str_def)

lemma parseredirs_stop:
  assumes "at buf s xs" "stop xs" shows "parseredirs buf cmd s = Inr (cmd, s)"
  using assms peek_at [OF assms(1), of "str ''<>''"] strchr_redir [of "hd xs"]
  by (subst parseredirs.simps) (auto simp: stop_def)

lemma parseredirs_step:
  assumes "at buf s (redir_sym m @ f @ 32 # xs)" "redir_ok (f, m, d)" "clean xs"
  shows "\<exists>q e s'. parseredirs buf cmd s = parseredirs buf (REDIR cmd (q, e) m d) s' \<and> at buf s' xs \<and> slice buf (q, e) = f"
proof -
  have f: "word f" "(m, d) \<in> redir_kinds" using assms(2) by (simp_all add: redir_ok_def)
  then have hd: "f \<noteq> []" "hd f \<noteq> 62" "clean (f @ 32 # xs)" using word_hd [OF f(1)] word_stop [OF f(1)] by (auto simp: stop_def ordinary_def symbol_cases)
  define s1 where "s1 = s + length (redir_sym m)"
  have s1: "at buf s1 (f @ 32 # xs)" using at_append [OF assms(1)] by (simp add: s1_def)
  have c: "clean (redir_sym m @ f @ 32 # xs)" by (simp add: redir_sym_def clean_def white_cases)
  have pk: "peek buf s (str ''<>'') = (s, True)"
    using peek_at [OF assms(1) c, of "str ''<>''"] by (auto simp: redir_sym_def str_def split: if_splits)
  obtain t where t: "gettoken buf s = (t, s, s1, s1)" "\<And>T. (if t = 60 then REDIR cmd T sh_RDONLY 0 else if t = 62 then REDIR cmd T sh_TRUNC 1
       else if t = 43 then REDIR cmd T sh_APPEND 1 else cmd) = REDIR cmd T m d"
  proof -
    consider "m = sh_RDONLY" "d = 0" | "m = sh_TRUNC" "d = 1" | "m = sh_APPEND" "d = 1" using f(2) by (auto simp: redir_kinds_def)
    then show ?thesis
    proof cases
      case 1
      have "(60 :: byte) \<in> set (str ''|();&<'')" by (simp add: str_def)
      from gettoken_symbol [OF _ this hd(3), of buf s] show ?thesis using that [of 60] 1 assms(1) by (simp add: redir_sym_def s1_def)
    next
      case 2
      then show ?thesis using that [of 62] gettoken_gt [of buf s "f @ 32 # xs"] hd assms(1)
        by (simp add: redir_sym_def s1_def sh_RDONLY_def sh_TRUNC_def)
    next
      case 3
      then show ?thesis using that [of 43] gettoken_gtgt [of buf s "f @ 32 # xs"] hd assms(1)
        by (simp add: redir_sym_def s1_def sh_RDONLY_def sh_TRUNC_def sh_APPEND_def)
    qed
  qed
  note g = gettoken_word_at [OF s1 f(1) assms(3)]
  have "at buf (s1 + length f + 1) xs" using at_append [of buf s1 "f @ [32]" xs] s1 by simp
  moreover have "parseredirs buf cmd s = parseredirs buf (REDIR cmd (s1, s1 + length f) m d) (s1 + length f + 1)"
    by (subst parseredirs.simps) (simp only: pk t g(1) Let_def prod.case if_True simp_thms if_False)
  ultimately show ?thesis using g(2) by blast
qed

lemma parseredirs_at:
  assumes "at buf s (redirs_text rs @ xs)" "\<forall>r\<in>set rs. redir_ok r" "stop xs"
  shows "\<exists>rs' s'. parseredirs buf cmd s = Inr (wrap cmd rs', s') \<and> at buf s' xs \<and> map (\<lambda>(t, m, d). (slice buf t, m, d)) rs' = rs"
  using assms
proof (induction rs arbitrary: s cmd)
  case Nil
  then show ?case using parseredirs_stop [of buf s xs cmd] by (intro exI [of _ "[]"] exI [of _ s]) (simp add: redirs_text_def)
next
  case (Cons r rs)
  obtain f m d where r: "r = (f, m, d)" by (cases r)
  obtain q e s' where st: "parseredirs buf cmd s = parseredirs buf (REDIR cmd (q, e) m d) s'" "at buf s' (redirs_text rs @ xs)" "slice buf (q, e) = f"
    using parseredirs_step [of buf s m f "redirs_text rs @ xs" d cmd] Cons.prems redirs_clean [of xs rs] by (auto simp: r redirs_text_def)
  obtain rs' s'' where "parseredirs buf (REDIR cmd (q, e) m d) s' = Inr (wrap (REDIR cmd (q, e) m d) rs', s'')" "at buf s'' xs"
    "map (\<lambda>(t, m, d). (slice buf t, m, d)) rs' = rs"
    using Cons.IH [OF st(2), of "REDIR cmd (q, e) m d"] Cons.prems by auto
  then show ?case using st by (intro exI [of _ "((q, e), m, d) # rs'"] exI [of _ s'']) (simp add: r)
qed

text \<open>A simple command: words, then redirections.\<close>

definition words_text :: "byte list list \<Rightarrow> byte list" where
  "words_text ws = concat (map (\<lambda>w. w @ [32]) ws)"

lemma wrap_argv: "set_argv argv (wrap (EXEC a) rs) = wrap (EXEC argv) rs"
proof -
  have "set_argv argv (wrap c rs) = wrap (set_argv argv c) rs" for c
    by (induction c rs rule: wrap.induct) simp_all
  then show ?thesis by simp
qed

lemma strchr_follow: "strchr (str ''|)&;'') c \<noteq> None \<longleftrightarrow> c \<in> set (str ''|)&;'')"
  by (auto simp: str_def)

lemma parse_args_stop:
  assumes "at buf s xs" "follows ''|)&;'' xs" shows "parse_args buf argv ret s = Inr (set_argv argv ret, s)"
proof -
  have c: "clean xs" using follows_stop [OF assms(2)] by (simp add: stop_def)
  show ?thesis
  proof (cases xs)
    case Nil
    then have "peek buf s (str ''|)&;'') = (s, False)" "gettoken buf s = (0, s, s, s)" using peek_at [OF assms(1) c] gettoken_end assms(1) by simp_all
    then show ?thesis by (subst parse_args.simps) simp
  next
    case (Cons x xs')
    then have "x \<in> set (str ''|)&;'')" using assms(2) by (simp add: follows_def)
    then have "x \<noteq> 0" "strchr (str ''|)&;'') x \<noteq> None" using strchr_follow [of x] by (auto simp: str_def)
    then have "peek buf s (str ''|)&;'') = (s, True)" using peek_at [OF assms(1) c] Cons by simp
    then show ?thesis by (subst parse_args.simps) simp
  qed
qed

lemma parse_args_word:
  assumes "at buf s (w @ 32 # ys)" "word w" "clean ys" "length argv + 1 < MAXARGS"
  shows "parse_args buf argv ret s = (case parseredirs buf ret (s + length w + 1) of Inl e \<Rightarrow> Inl e
     | Inr (ret', p) \<Rightarrow> parse_args buf (argv @ [(s, s + length w)]) ret' p)"
proof -
  have h: "w \<noteq> []" "ordinary (hd w)" using word_hd [OF assms(2)] by auto
  have "hd w \<notin> set (str ''|)&;'')" using h(2) by (auto simp: ordinary_def symbol_cases str_def)
  then have "peek buf s (str ''|)&;'') = (s, False)"
    using peek_at [OF assms(1)] word_stop [OF assms(2)] h(1) strchr_follow [of "hd w"] by (auto simp: stop_def)
  then show ?thesis
    using gettoken_word_at(1) [OF assms(1-3)] assms(4) by (subst parse_args.simps) simp
qed

lemma words_clean: "\<forall>w\<in>set ws. word w \<Longrightarrow> stop xs \<Longrightarrow> clean (words_text ws @ redirs_text rs @ xs)"
  using redirs_clean [of xs rs] word_stop by (cases ws) (auto simp: words_text_def stop_def)

abbreviation slices :: "byte list \<Rightarrow> token redir list \<Rightarrow> byte list redir list" where
  "slices buf \<equiv> map (\<lambda>(t, m, d). (slice buf t, m, d))"

lemma parse_args_at:
  assumes "at buf s (words_text ws @ redirs_text rs @ xs)" "ws \<noteq> []" "\<forall>w\<in>set ws. word w" "\<forall>r\<in>set rs. redir_ok r"
    "follows ''|)&;'' xs" "length argv + length ws < MAXARGS"
  shows "\<exists>ts rs' s'. parse_args buf argv (EXEC []) s = Inr (wrap (EXEC (argv @ ts)) rs', s') \<and> at buf s' xs \<and>
    map (slice buf) ts = ws \<and> slices buf rs' = rs"
  using assms
proof (induction ws arbitrary: s argv)
  case (Cons w ws)
  note stp = follows_stop [OF Cons.prems(5)]
  define p where "p = s + length w + 1"
  have a: "at buf s (w @ 32 # words_text ws @ redirs_text rs @ xs)" using Cons.prems(1) by (simp add: words_text_def)
  have w: "word w" "clean (words_text ws @ redirs_text rs @ xs)" using Cons.prems(3) words_clean [OF _ stp] by auto
  have ap: "at buf p (words_text ws @ redirs_text rs @ xs)" using at_append [of buf s "w @ [32]"] a by (simp add: p_def)
  have st: "parse_args buf argv (EXEC []) s = (case parseredirs buf (EXEC []) p of Inl e \<Rightarrow> Inl e
     | Inr (ret', p) \<Rightarrow> parse_args buf (argv @ [(s, s + length w)]) ret' p)"
    unfolding p_def by (rule parse_args_word [OF a w]) (use Cons.prems(6) in simp)
  have sl: "slice buf (s, s + length w) = w" by (rule gettoken_word_at(2) [OF a w])
  show ?case
  proof (cases ws)
    case Nil
    obtain rs' s' where r: "parseredirs buf (EXEC []) p = Inr (wrap (EXEC []) rs', s')" "at buf s' xs" "slices buf rs' = rs"
      using parseredirs_at [of buf p rs xs "EXEC []"] ap Nil Cons.prems(4) stp by (auto simp: words_text_def)
    then show ?thesis
      using st sl parse_args_stop [OF r(2) Cons.prems(5)] Nil
      by (intro exI [of _ "[(s, s + length w)]"] exI [of _ rs'] exI [of _ s']) (simp add: wrap_argv)
  next
    case (Cons w' ws')
    have "stop (words_text ws @ redirs_text rs @ xs)" using Cons Cons.prems(3) word_stop [of w'] by (simp add: words_text_def)
    then have "parseredirs buf (EXEC []) p = Inr (EXEC [], p)" using parseredirs_stop [OF ap] by simp
    moreover obtain ts rs' s' where "parse_args buf (argv @ [(s, s + length w)]) (EXEC []) p = Inr (wrap (EXEC ((argv @ [(s, s + length w)]) @ ts)) rs', s')"
      "at buf s' xs" "map (slice buf) ts = ws" "slices buf rs' = rs"
      using Cons.IH [OF ap, of "argv @ [(s, s + length w)]"] Cons Cons.prems by auto
    ultimately show ?thesis using st sl
      by (intro exI [of _ "(s, s + length w) # ts"] exI [of _ rs'] exI [of _ s']) simp
  qed
qed simp

lemma exec_at:
  assumes "at buf s (words_text ws @ redirs_text rs @ xs)" "\<forall>w\<in>set ws. word w" "\<forall>r\<in>set rs. redir_ok r"
    "follows ''|)&;'' xs" "length ws < MAXARGS"
  shows "\<exists>ts rs' s'. (case parseredirs buf (EXEC []) s of Inl e \<Rightarrow> Inl e | Inr (ret, ps) \<Rightarrow> parse_args buf [] ret ps)
      = Inr (wrap (EXEC ts) rs', s') \<and> at buf s' xs \<and> map (slice buf) ts = ws \<and> slices buf rs' = rs"
proof (cases ws)
  case Nil
  obtain rs' s' where r: "parseredirs buf (EXEC []) s = Inr (wrap (EXEC []) rs', s')" "at buf s' xs" "slices buf rs' = rs"
    using parseredirs_at [of buf s rs xs "EXEC []"] assms Nil follows_stop by (auto simp: words_text_def)
  then show ?thesis using parse_args_stop [OF r(2) assms(4)] Nil
    by (intro exI [of _ "[]"] exI [of _ rs'] exI [of _ s']) (simp add: wrap_argv)
next
  case (Cons w ws')
  have "stop (words_text ws @ redirs_text rs @ xs)" using Cons assms(2) word_stop [of w] by (simp add: words_text_def)
  then have "parseredirs buf (EXEC []) s = Inr (EXEC [], s)" using parseredirs_stop [OF assms(1)] by simp
  then show ?thesis using parse_args_at [OF assms(1), of "[]"] assms Cons by simp
qed

section \<open>The levels of the grammar\<close>

fun base :: "'t cmd \<Rightarrow> 't cmd" where
  "base (REDIR c f m d) = base c"
| "base c = c"

fun redirs :: "'t cmd \<Rightarrow> 't redir list" where
  "redirs (REDIR c f m d) = redirs c @ [(f, m, d)]"
| "redirs c = []"

lemma wrap_append: "wrap c (rs @ rs') = wrap (wrap c rs) rs'"
  by (induction c rs rule: wrap.induct) simp_all

lemma wrap_base: "wrap (base c) (redirs c) = c"
  by (induction c) (simp_all add: wrap_append)

lemma map_wrap: "map_cmd f (wrap c rs) = wrap (map_cmd f c) (map (\<lambda>(t, m, d). (f t, m, d)) rs)"
  by (induction c rs rule: wrap.induct) simp_all

lemma print_base: "paren 3 c (print_cmd c) = paren 3 (base c) (print_cmd (base c)) @ redirs_text (redirs c)"
  by (induction c) (simp_all add: redirs_text_def, simp add: paren_def)

lemma wf_base: "wf_cmd word c \<Longrightarrow> wf_cmd word (base c) \<and> (\<forall>r\<in>set (redirs c). redir_ok r)"
  by (induction c) (auto simp: redir_ok_def)

lemma paren_clean: "clean (p @ xs) \<Longrightarrow> clean (paren n c p @ xs)"
  by (simp add: paren_def clean_def white_cases)

lemma clean_symbols:
  "clean (124 # xs)" "clean (38 # xs)" "clean (59 # xs)" "clean (40 # xs)" "clean (41 # xs)" "clean (redir_sym m @ xs)"
  by (simp_all add: clean_def white_cases redir_sym_def)

lemma print_clean: "wf_cmd word c \<Longrightarrow> clean xs \<Longrightarrow> clean (print_cmd c @ xs)"
proof (induction c arbitrary: xs)
  case (EXEC ws)
  then show ?case using word_stop by (cases ws) (auto simp: stop_def)
qed (simp_all add: paren_clean clean_symbols)

definition gives :: "byte list \<Rightarrow> (byte list + token cmd \<times> nat) option \<Rightarrow> byte list cmd \<Rightarrow> byte list \<Rightarrow> bool" where
  "gives buf r c xs \<longleftrightarrow> (\<exists>c' s'. r = Some (Inr (c', s')) \<and> at buf s' xs \<and> map_cmd (slice buf) c' = c)"

definition exec_ok :: "byte list cmd \<Rightarrow> bool" where
  "exec_ok c \<longleftrightarrow> (\<forall>n buf s xs. at buf s (paren 3 c (print_cmd c) @ xs) \<longrightarrow> follows ''|)&;'' xs \<longrightarrow>
     4 * (length buf - s) + 2 \<le> n \<longrightarrow> gives buf (parseexec n buf s) c xs)"

definition pipe_ok :: "byte list cmd \<Rightarrow> bool" where
  "pipe_ok c \<longleftrightarrow> (\<forall>n buf s xs. at buf s (paren 2 c (print_cmd c) @ xs) \<longrightarrow> follows '')&;'' xs \<longrightarrow>
     4 * (length buf - s) + 3 \<le> n \<longrightarrow> gives buf (parsepipe n buf s) c xs)"

definition back_ok :: "byte list cmd \<Rightarrow> bool" where
  "back_ok c \<longleftrightarrow> (\<forall>n buf s k xs. at buf s (paren 1 c (print_cmd c) @ replicate k 38 @ xs) \<longrightarrow> follows '');'' xs \<longrightarrow>
     4 * (length buf - s) + 3 \<le> n \<longrightarrow>
     gives buf (bindE (parsepipe n buf s) (\<lambda>(cmd, ps). Some (Inr (back_loop buf cmd ps)))) ((BACK ^^ k) c) xs)"

definition line_ok :: "byte list cmd \<Rightarrow> bool" where
  "line_ok c \<longleftrightarrow> (\<forall>n buf s xs. at buf s (print_cmd c @ xs) \<longrightarrow> follows '')'' xs \<longrightarrow>
     4 * (length buf - s) + 4 \<le> n \<longrightarrow> gives buf (parseline n buf s) c xs)"

lemmas ok_defs = exec_ok_def pipe_ok_def back_ok_def line_ok_def

lemma okD:
  "exec_ok c \<Longrightarrow> at buf s (paren 3 c (print_cmd c) @ xs) \<Longrightarrow> follows ''|)&;'' xs \<Longrightarrow> 4 * (length buf - s) + 2 \<le> n \<Longrightarrow> gives buf (parseexec n buf s) c xs"
  "pipe_ok c \<Longrightarrow> at buf s (paren 2 c (print_cmd c) @ xs) \<Longrightarrow> follows '')&;'' xs \<Longrightarrow> 4 * (length buf - s) + 3 \<le> n \<Longrightarrow> gives buf (parsepipe n buf s) c xs"
  "back_ok c \<Longrightarrow> at buf s (paren 1 c (print_cmd c) @ replicate k 38 @ xs) \<Longrightarrow> follows '');'' xs \<Longrightarrow> 4 * (length buf - s) + 3 \<le> n \<Longrightarrow>
     gives buf (bindE (parsepipe n buf s) (\<lambda>(cmd, ps). Some (Inr (back_loop buf cmd ps)))) ((BACK ^^ k) c) xs"
  "line_ok c \<Longrightarrow> at buf s (print_cmd c @ xs) \<Longrightarrow> follows '')'' xs \<Longrightarrow> 4 * (length buf - s) + 4 \<le> n \<Longrightarrow> gives buf (parseline n buf s) c xs"
  unfolding ok_defs by blast+

lemma follows_clean: "follows cs xs \<Longrightarrow> set cs \<subseteq> set ''|();&<'' \<Longrightarrow> clean xs"
  unfolding follows_def clean_def using symbol_at [of "hd xs"] by (auto simp: str_def)

lemma follows_mono: "follows cs xs \<Longrightarrow> set cs \<subseteq> set ds \<Longrightarrow> follows ds xs"
  by (auto simp: follows_def str_def)

lemma byte_of_char: "(of_nat (of_char y) :: byte) = of_nat (of_char x) \<Longrightarrow> y = x"
proof -
  assume "(of_nat (of_char y) :: byte) = of_nat (of_char x)"
  then have "unat (of_nat (of_char y) :: byte) = unat (of_nat (of_char x) :: byte)" by simp
  then have "(of_char y :: nat) = of_char x" by (simp only: unat_of_nat len_num1 len_bit0) simp
  then show "y = x" by simp
qed

text \<open>\<open>peek\<close> for one symbol at a place where one of several may stand.\<close>

lemma peek_no:
  assumes "at buf s xs" "follows cs xs" "set cs \<subseteq> set ''|();&<''" "x \<notin> set cs"
  shows "peek buf s (str [x]) = (s, False)"
proof -
  have "hd xs \<noteq> of_nat (of_char x)" if "xs \<noteq> []"
  proof
    assume "hd xs = of_nat (of_char x)"
    with assms(2) that obtain y where "y \<in> set cs" "(of_nat (of_char y) :: byte) = of_nat (of_char x)" by (auto simp: follows_def str_def)
    then have "y = x" using byte_of_char by simp
    with assms(4) \<open>y \<in> set cs\<close> show False by simp
  qed
  then show ?thesis using peek_at [OF assms(1) follows_clean [OF assms(2,3)], of "str [x]"] by (cases "xs = []") (auto simp: str_def)
qed

lemma peek_yes:
  assumes "at buf s (of_nat (of_char x) # xs)" "x \<in> set ''|();&<''" "clean xs"
  shows "peek buf s (str [x]) = (s, True) \<and> gettoken buf s = (of_nat (of_char x), s, Suc s, Suc s) \<and> at buf (Suc s) xs"
proof -
  have x: "(of_nat (of_char x) :: byte) \<in> set (str ''|();&<'')" using assms(2) by (auto simp: str_def)
  then have "clean (of_nat (of_char x) # xs)" "(of_nat (of_char x) :: byte) \<noteq> 0" using symbol_at by (auto simp: clean_def)
  then have "peek buf s (str [x]) = (s, True)" using peek_at [OF assms(1), of "str [x]"] by (simp add: str_def)
  then show ?thesis using gettoken_symbol [OF assms(1) x assms(3)] at_Cons [OF assms(1)] by simp
qed

lemma pipe_if_exec: "exec_ok c \<Longrightarrow> level c \<noteq> 2 \<Longrightarrow> pipe_ok c"
  unfolding pipe_ok_def
proof (intro allI impI)
  fix n buf s xs
  assume a: "exec_ok c" "level c \<noteq> 2" "at buf s (paren 2 c (print_cmd c) @ xs)" "follows '')&;'' xs" "4 * (length buf - s) + 3 \<le> n"
  have "paren 2 c (print_cmd c) = paren 3 c (print_cmd c)" using a(2) by (simp add: paren_def)
  then have at: "at buf s (paren 3 c (print_cmd c) @ xs)" using a(3) by simp
  obtain n' where n: "n = Suc n'" "4 * (length buf - s) + 2 \<le> n'" using a(5) by (cases n) auto
  have "follows ''|)&;'' xs" by (rule follows_mono [OF a(4)]) auto
  from okD(1) [OF a(1) at this n(2)]
  obtain c' s' where c': "parseexec n' buf s = Some (Inr (c', s'))" "at buf s' xs" "map_cmd (slice buf) c' = c"
    unfolding gives_def by blast
  have "peek buf s' (str ''|'') = (s', False)" by (rule peek_no [OF c'(2) a(4)]) auto
  then show "gives buf (parsepipe n buf s) c xs" using c' by (simp add: n bindE_def gives_def)
qed

lemma back_loop_at:
  assumes "at buf s (replicate k 38 @ xs)" "follows '');'' xs"
  shows "\<exists>s'. back_loop buf c s = ((BACK ^^ k) c, s') \<and> at buf s' xs"
  using assms(1)
proof (induction k arbitrary: s c)
  case 0
  then have "peek buf s (str ''&'') = (s, False)" by (intro peek_no [OF _ assms(2)]) auto
  then show ?case using 0 by (subst back_loop.simps) simp
next
  case (Suc k)
  have "clean (replicate k 38 @ xs)"
    using follows_clean [OF assms(2)] by (cases k) (auto simp: clean_symbols)
  from peek_yes [of buf s "CHR ''&''" "replicate k 38 @ xs", OF _ _ this] Suc.prems
  have "peek buf s (str ''&'') = (s, True)" "gettoken buf s = (38, s, Suc s, Suc s)" "at buf (Suc s) (replicate k 38 @ xs)" by auto
  then show ?case using Suc.IH [of "Suc s" "BACK c"] by (subst back_loop.simps) (simp add: funpow_swap1)
qed

lemma back_if_pipe: "pipe_ok c \<Longrightarrow> level c \<noteq> 1 \<Longrightarrow> back_ok c"
  unfolding back_ok_def
proof (intro allI impI)
  fix n buf s k xs
  assume a: "pipe_ok c" "level c \<noteq> 1" "at buf s (paren 1 c (print_cmd c) @ replicate k 38 @ xs)" "follows '');'' xs" "4 * (length buf - s) + 3 \<le> n"
  have "paren 1 c (print_cmd c) = paren 2 c (print_cmd c)" using a(2) by (simp add: paren_def)
  moreover have "follows '')&;'' (replicate k 38 @ xs)" using a(4) by (cases k) (auto simp: follows_def str_def)
  ultimately have "gives buf (parsepipe n buf s) c (replicate k 38 @ xs)" using okD(2) [OF a(1)] a(3,5) by simp
  then obtain c' s' where c': "parsepipe n buf s = Some (Inr (c', s'))" "at buf s' (replicate k 38 @ xs)" "map_cmd (slice buf) c' = c"
    unfolding gives_def by blast
  have "map_cmd (slice buf) ((BACK ^^ k) c') = (BACK ^^ k) c" using c'(3) by (induction k) auto
  then show "gives buf (bindE (parsepipe n buf s) (\<lambda>(cmd, ps). Some (Inr (back_loop buf cmd ps)))) ((BACK ^^ k) c) xs"
    using c'(1) back_loop_at [OF c'(2) a(4), of c'] by (auto simp: bindE_def gives_def)
qed

lemma line_if_back: "back_ok c \<Longrightarrow> level c \<noteq> 0 \<Longrightarrow> line_ok c"
  unfolding line_ok_def
proof (intro allI impI)
  fix n buf s xs
  assume a: "back_ok c" "level c \<noteq> 0" "at buf s (print_cmd c @ xs)" "follows '')'' xs" "4 * (length buf - s) + 4 \<le> n"
  have at: "at buf s (paren 1 c (print_cmd c) @ replicate 0 38 @ xs)" using a(2,3) by (simp add: paren_def)
  obtain n' where n: "n = Suc n'" "4 * (length buf - s) + 3 \<le> n'" using a(5) by (cases n) auto
  have f: "follows '');'' xs" by (rule follows_mono [OF a(4)]) auto
  from okD(3) [OF a(1) at f n(2)]
  obtain c1 s1 c' s' where c': "parsepipe n' buf s = Some (Inr (c1, s1))" "back_loop buf c1 s1 = (c', s')" "at buf s' xs" "map_cmd (slice buf) c' = c"
    by (auto simp: gives_def bindE_def split: option.splits sum.splits)
  have "peek buf s' (str '';'') = (s', False)" by (rule peek_no [OF c'(3) a(4)]) auto
  then show "gives buf (parseline n buf s) c xs" using c' by (simp add: n bindE_def gives_def)
qed

lemma line_LIST: "back_ok l \<Longrightarrow> line_ok r \<Longrightarrow> wf_cmd word r \<Longrightarrow> line_ok (LIST l r)"
  unfolding line_ok_def [of "LIST l r"]
proof (intro allI impI)
  fix n buf s xs
  assume a: "back_ok l" "line_ok r" "wf_cmd word r" "at buf s (print_cmd (LIST l r) @ xs)" "follows '')'' xs" "4 * (length buf - s) + 4 \<le> n"
  have at: "at buf s (paren 1 l (print_cmd l) @ replicate 0 38 @ 59 # print_cmd r @ xs)" using a(4) by simp
  obtain n' where n: "n = Suc n'" "4 * (length buf - s) + 3 \<le> n'" using a(6) by (cases n) auto
  have f: "follows '');'' (59 # print_cmd r @ xs)" by (simp add: follows_def str_def)
  from okD(3) [OF a(1) at f n(2)]
  obtain c1 s1 c' s' where c': "parsepipe n' buf s = Some (Inr (c1, s1))" "back_loop buf c1 s1 = (c', s')" "at buf s' (59 # print_cmd r @ xs)" "map_cmd (slice buf) c' = l"
    by (auto simp: gives_def bindE_def split: option.splits sum.splits)
  have cl: "clean (print_cmd r @ xs)" using print_clean [OF a(3)] follows_clean [OF a(5)] by simp
  have p: "peek buf s' (str '';'') = (s', True)" "gettoken buf s' = (59, s', Suc s', Suc s')" "at buf (Suc s') (print_cmd r @ xs)"
    using peek_yes [of buf s' "CHR '';''" "print_cmd r @ xs"] c'(3) cl by auto
  have "length (59 # print_cmd r @ xs) \<le> length buf - s" using at_length [OF at] by simp
  then have "4 * (length buf - Suc s') + 4 \<le> n'" using at_length [OF p(3)] n(2) by simp
  from okD(4) [OF a(2) p(3) a(5) this] show "gives buf (parseline n buf s) (LIST l r) xs" using c' p by (auto simp: n bindE_def gives_def)
qed

lemma back_BACK: "back_ok c \<Longrightarrow> back_ok (BACK c)"
  unfolding back_ok_def [of "BACK c"]
proof (intro allI impI)
  fix n buf s k xs
  assume a: "back_ok c" "at buf s (paren 1 (BACK c) (print_cmd (BACK c)) @ replicate k 38 @ xs)" "follows '');'' xs" "4 * (length buf - s) + 3 \<le> n"
  have "paren 1 (BACK c) (print_cmd (BACK c)) = paren 1 c (print_cmd c) @ [38]" by (simp add: paren_def [of _ "BACK c"])
  with a(2) have "at buf s (paren 1 c (print_cmd c) @ replicate (Suc k) 38 @ xs)" by simp
  from okD(3) [OF a(1) this a(3,4)]
  show "gives buf (bindE (parsepipe n buf s) (\<lambda>(cmd, ps). Some (Inr (back_loop buf cmd ps)))) ((BACK ^^ k) (BACK c)) xs" by (simp add: funpow_swap1)
qed

lemma pipe_PIPE: "exec_ok l \<Longrightarrow> pipe_ok r \<Longrightarrow> wf_cmd word r \<Longrightarrow> pipe_ok (PIPE l r)"
  unfolding pipe_ok_def [of "PIPE l r"]
proof (intro allI impI)
  fix n buf s xs
  assume a: "exec_ok l" "pipe_ok r" "wf_cmd word r" "at buf s (paren 2 (PIPE l r) (print_cmd (PIPE l r)) @ xs)" "follows '')&;'' xs" "4 * (length buf - s) + 3 \<le> n"
  let ?r = "paren 2 r (print_cmd r) @ xs"
  have at: "at buf s (paren 3 l (print_cmd l) @ 124 # ?r)" using a(4) by (simp add: paren_def [of 2 "PIPE l r"])
  obtain n' where n: "n = Suc n'" "4 * (length buf - s) + 2 \<le> n'" using a(6) by (cases n) auto
  have f: "follows ''|)&;'' (124 # ?r)" by (simp add: follows_def str_def)
  from okD(1) [OF a(1) at f n(2)]
  obtain c' s' where c': "parseexec n' buf s = Some (Inr (c', s'))" "at buf s' (124 # ?r)" "map_cmd (slice buf) c' = l"
    unfolding gives_def by blast
  have cl: "clean ?r" by (intro paren_clean print_clean [OF a(3)] follows_clean [OF a(5)]) auto
  have p: "peek buf s' (str ''|'') = (s', True)" "gettoken buf s' = (124, s', Suc s', Suc s')" "at buf (Suc s') ?r"
    using peek_yes [of buf s' "CHR ''|''" ?r] c'(2) cl by auto
  have "length (124 # ?r) \<le> length buf - s" using at_length [OF at] by simp
  then have "4 * (length buf - Suc s') + 3 \<le> n'" using at_length [OF p(3)] n(2) by simp
  from okD(2) [OF a(2) p(3) a(5) this] show "gives buf (parsepipe n buf s) (PIPE l r) xs" using c' p by (auto simp: n bindE_def gives_def)
qed

lemma not_open:
  assumes "\<forall>w\<in>set ws. word w" "follows ''|)&;'' xs" "words_text ws @ redirs_text rs @ xs \<noteq> []"
  shows "hd (words_text ws @ redirs_text rs @ xs) \<noteq> 40"
proof (cases ws)
  case Nil
  then show ?thesis using assms(2,3)
    by (cases rs) (auto simp: words_text_def redirs_text_def redir_sym_def follows_def str_def split: prod.split)
next
  case (Cons w ws')
  then have "ordinary (hd w)" "w \<noteq> []" using word_hd [of w] assms(1) by auto
  then have "hd w \<noteq> 40" by (auto simp: ordinary_def symbol_cases str_def)
  then show ?thesis using Cons \<open>w \<noteq> []\<close> by (simp add: words_text_def)
qed

lemma exec_simple: "base c = EXEC ws \<Longrightarrow> wf_cmd word c \<Longrightarrow> exec_ok c"
  unfolding exec_ok_def
proof (intro allI impI)
  fix n buf s xs
  assume a: "base c = EXEC ws" "wf_cmd word c" "at buf s (paren 3 c (print_cmd c) @ xs)" "follows ''|)&;'' xs" "4 * (length buf - s) + 2 \<le> n"
  have at: "at buf s (words_text ws @ redirs_text (redirs c) @ xs)" using a(3) unfolding print_base [of c] a(1) by (simp add: paren_def words_text_def)
  have wf: "\<forall>w\<in>set ws. word w" "\<forall>r\<in>set (redirs c). redir_ok r" "length ws < MAXARGS" using wf_base [OF a(2)] a(1) by auto
  have stp: "stop xs" by (rule follows_stop [OF a(4)])
  have cl: "clean (words_text ws @ redirs_text (redirs c) @ xs)" by (rule words_clean [OF wf(1) stp])
  have "peek buf s (str ''('') = (s, False)"
    using peek_at [OF at cl, of "str ''(''"] not_open [OF wf(1) a(4)] by (auto simp: str_def)
  obtain ts rs' s' where "(case parseredirs buf (EXEC []) s of Inl e \<Rightarrow> Inl e | Inr (ret, ps) \<Rightarrow> parse_args buf [] ret ps)
      = Inr (wrap (EXEC ts) rs', s')" "at buf s' xs" "map (slice buf) ts = ws" "slices buf rs' = redirs c"
    using exec_at [OF at wf(1,2) a(4) wf(3)] by blast
  moreover from this have "map_cmd (slice buf) (wrap (EXEC ts) rs') = c" using wrap_base [of c] a(1) by (simp add: map_wrap)
  moreover obtain n' where n: "n = Suc n'" using a(5) by (cases n) auto
  ultimately show "gives buf (parseexec n buf s) c xs" using \<open>peek buf s _ = _\<close> by (simp add: gives_def)
qed

lemma exec_paren: "line_ok (base c) \<Longrightarrow> level (base c) < 3 \<Longrightarrow> wf_cmd word c \<Longrightarrow> exec_ok c"
  unfolding exec_ok_def
proof (intro allI impI)
  fix n buf s xs
  assume a: "line_ok (base c)" "level (base c) < 3" "wf_cmd word c" "at buf s (paren 3 c (print_cmd c) @ xs)" "follows ''|)&;'' xs" "4 * (length buf - s) + 2 \<le> n"
  let ?p = "print_cmd (base c)" let ?r = "redirs_text (redirs c) @ xs"
  have wf: "wf_cmd word (base c)" "\<forall>r\<in>set (redirs c). redir_ok r" using wf_base [OF a(3)] by auto
  have at: "at buf s (40 # ?p @ 41 # ?r)" using a(2,4) unfolding print_base [of c] by (simp add: paren_def)
  obtain n' where n: "n = Suc (Suc n')" "4 * (length buf - s) \<le> n'" using a(6) by (metis add_2_eq_Suc' Suc_le_D Suc_le_mono)
  have stp: "stop xs" by (rule follows_stop [OF a(5)])
  have o: "peek buf s (str ''('') = (s, True)" "gettoken buf s = (40, s, Suc s, Suc s)" "at buf (Suc s) (?p @ 41 # ?r)"
    using peek_yes [of buf s "CHR ''(''" "?p @ 41 # ?r"] at print_clean [OF wf(1) clean_symbols(5)] by auto
  have "4 * (length buf - Suc s) + 4 \<le> n'" using at_length [OF at] at_length [OF o(3)] n(2) by simp
  from okD(4) [OF a(1) o(3) _ this]
  obtain c' s' where c': "parseline n' buf (Suc s) = Some (Inr (c', s'))" "at buf s' (41 # ?r)" "map_cmd (slice buf) c' = base c"
    by (auto simp: follows_def str_def gives_def)
  have k: "peek buf s' (str '')'') = (s', True)" "gettoken buf s' = (41, s', Suc s', Suc s')" "at buf (Suc s') ?r"
    using peek_yes [of buf s' "CHR '')''" ?r] c'(2) redirs_clean [OF stp] by auto
  obtain rs' s2 where r: "parseredirs buf c' (Suc s') = Inr (wrap c' rs', s2)" "at buf s2 xs" "slices buf rs' = redirs c"
    using parseredirs_at [OF k(3) wf(2) stp, of c'] by blast
  have "map_cmd (slice buf) (wrap c' rs') = c" using wrap_base [of c] c'(3) r(3) by (simp add: map_wrap)
  then show "gives buf (parseexec n buf s) c xs" using o(1,2) c'(1) k(1,2) r by (simp add: n bindE_def gives_def)
qed

lemma size_base: "size (base c) \<le> size c"
  by (induction c) auto

text \<open>All levels at once: each follows from the one below it, and the lowest from parentheses.\<close>

lemma levels_ok: "wf_cmd word c \<Longrightarrow> exec_ok c \<and> pipe_ok c \<and> back_ok c \<and> line_ok c"
proof (induction c rule: measure_induct_rule [of size])
  case (less c)
  note IH = less.IH
  show ?case
  proof (cases c)
    case (EXEC ws)
    then have "exec_ok c" using exec_simple [of c ws] less.prems by simp
    then show ?thesis using pipe_if_exec back_if_pipe line_if_back EXEC by simp
  next
    case (REDIR d f m fd)
    have "exec_ok c"
    proof (cases "level (base c) < 3")
      case True
      have "size (base c) < size c" using size_base [of d] REDIR by simp
      then show ?thesis using IH wf_base [OF less.prems] exec_paren [OF _ True less.prems] by blast
    next
      case False
      then obtain ws where "base c = EXEC ws" unfolding REDIR by (induction d) auto
      then show ?thesis using exec_simple less.prems by blast
    qed
    then show ?thesis using pipe_if_exec back_if_pipe line_if_back REDIR by simp
  next
    case (PIPE l r)
    then have "pipe_ok c" using IH [of l] IH [of r] less.prems pipe_PIPE by simp
    then have "back_ok c" "line_ok c" using back_if_pipe line_if_back PIPE by simp_all
    then show ?thesis using \<open>pipe_ok c\<close> exec_paren [of c] PIPE less.prems by simp
  next
    case (LIST l r)
    then have "line_ok c" using IH [of l] IH [of r] less.prems line_LIST by simp
    then have "exec_ok c" using exec_paren [of c] LIST less.prems by simp
    then show ?thesis using \<open>line_ok c\<close> pipe_if_exec [of c] back_if_pipe [of c] LIST by simp
  next
    case (BACK d)
    then have "back_ok c" using IH [of d] less.prems back_BACK by simp
    then have "line_ok c" using line_if_back BACK by simp
    then have "exec_ok c" using exec_paren [of c] BACK less.prems by simp
    then show ?thesis using \<open>line_ok c\<close> \<open>back_ok c\<close> pipe_if_exec [of c] BACK by simp
  qed
qed

section \<open>Property: parsing what was printed\<close>

lemma print_no_nul: "wf_cmd word c \<Longrightarrow> 0 \<notin> set (print_cmd c)"
  by (induction c) (auto simp: word_def paren_def redir_sym_def)

text \<open>
  C10.  Every command can be written down and is parsed back: for a command whose words are
  non-empty and free of white space and symbols, whose \<open>EXEC\<close> nodes have fewer than \<open>MAXARGS\<close>
  words and whose redirections are of the three kinds, \<open>parsecmd\<close> on its text returns exactly
  this command, with the strings its pointers have after \<open>nulterminate\<close>.
\<close>

theorem parsecmd_print:
  assumes "wf_cmd word c"
  shows "\<exists>cmd m. runP k (parsecmd (print_cmd c)) e = (Inr (cmd, m), e) \<and> map_cmd (\<lambda>t. cstring m (fst t)) cmd = c"
proof -
  let ?s = "print_cmd c"
  have "line_ok c" using levels_ok [OF assms] by simp
  moreover have "at ?s 0 (?s @ [])" by (simp add: at_def)
  ultimately obtain cmd p where p: "parseline (4 * length ?s + 4) ?s 0 = Some (Inr (cmd, p))" "at ?s p []" "map_cmd (slice ?s) cmd = c"
    using okD(4) [of c ?s 0 "[]" "4 * length ?s + 4"] by (auto simp: follows_def gives_def)
  then have "wf_cmd (tok_ok ?s) cmd" using parser_fine(1) [of 0 ?s "4 * length ?s + 4"] by (simp add: fine_def)
  then have w: "cstring (nulterminate cmd (?s @ [0])) (fst t) = slice ?s t" if "t \<in> toks cmd" for t
    using words print_no_nul [OF assms] that by blast
  have "peek ?s p [] = (p, False)" "p = length ?s" using peek_at [OF p(2)] p(2) by (simp_all add: clean_def at_def)
  then have "parsecmd ?s = Ret (cmd, nulterminate cmd (?s @ [0]))" using p(1) by (simp add: parsecmd_def)
  moreover have "map_cmd (\<lambda>t. cstring (nulterminate cmd (?s @ [0])) (fst t)) cmd = c"
    using p(3) w by (subst (2) p(3) [symmetric]) (rule cmd.map_cong0)
  ultimately show ?thesis by simp
qed

definition demo_cmd :: "byte list cmd" where
  "demo_cmd = LIST (BACK (PIPE (EXEC [str ''ls'', str ''a'']) (REDIR (EXEC [str ''wc'']) (str ''n'') sh_TRUNC 1)))
     (REDIR (LIST (EXEC [str ''cat'']) (EXEC [])) (str ''n'') sh_RDONLY 0)"

lemma demo_cmd_text: "print_cmd demo_cmd = str ''ls a |wc >n &;(cat ;)<n ''"
  by (simp add: demo_cmd_def paren_def redir_sym_def sh_TRUNC_def sh_RDONLY_def str_def)

theorem parsecmd_print_witness:
  "\<exists>cmd m. runP stream_kernel (parsecmd (str ''ls a |wc >n &;(cat ;)<n '')) \<lparr>s_in = [], s_cuts = [], s_out = []\<rparr> =
     (Inr (cmd, m), \<lparr>s_in = [], s_cuts = [], s_out = []\<rparr>) \<and> map_cmd (\<lambda>t. cstring m (fst t)) cmd = demo_cmd"
proof -
  have "word (str ''ls'')" "word (str ''a'')" "word (str ''wc'')" "word (str ''n'')" "word (str ''cat'')"
    by (simp_all add: word_def str_def ordinary_def white_cases symbol_def symbols_def)
  then have "wf_cmd word demo_cmd" by (simp add: demo_cmd_def MAXARGS_def redir_kinds_def)
  from parsecmd_print [OF this, of stream_kernel] show ?thesis unfolding demo_cmd_text .
qed

end
