(* ===== verification/Shrun.thy ===== *)
theory Shrun
  imports Shell
begin

text \<open>
  Running commands: the descriptors with which the shell starts the processes of a pipeline
  and of a redirection.  The kernel here is one process with its descriptor table; the
  answers of \<open>fork\<close> decide which of the processes it is.
\<close>

section \<open>A process and its descriptors\<close>

datatype ufile = Tty | PipeR nat | PipeW nat | Opened "byte list" nat

record shproc =
  fds :: "nat \<Rightarrow> ufile option"
  forks :: "int list"
  npipe :: nat
  waits :: nat
  execs :: "byte list list list"

definition FDS :: nat where "FDS = 16"

definition free_fds :: "shproc \<Rightarrow> nat list" where
  "free_fds s = filter (\<lambda>i. fds s i = None) [0..<FDS]"

definition proc_kernel :: "shproc \<Rightarrow> call \<Rightarrow> resp \<times> shproc" where
  "proc_kernel s c = (case c of
     CClose fd \<Rightarrow> (answer 0 [], s\<lparr>fds := (fds s)(nat fd := None)\<rparr>)
   | CDup fd \<Rightarrow> (case free_fds s of [] \<Rightarrow> (answer (- 1) [], s)
       | i # _ \<Rightarrow> (answer (int i) [], s\<lparr>fds := (fds s)(i := fds s (nat fd))\<rparr>))
   | COpen path mode \<Rightarrow> (case free_fds s of [] \<Rightarrow> (answer (- 1) [], s)
       | i # _ \<Rightarrow> (answer (int i) [], s\<lparr>fds := (fds s)(i := Some (Opened path mode))\<rparr>))
   | CPipe \<Rightarrow> (case free_fds s of
         i # j # _ \<Rightarrow> ((answer 0 [])\<lparr>rfds := (int i, int j)\<rparr>,
           s\<lparr>fds := (fds s)(i := Some (PipeR (npipe s)), j := Some (PipeW (npipe s))), npipe := Suc (npipe s)\<rparr>)
       | _ \<Rightarrow> (answer (- 1) [], s))
   | CFork \<Rightarrow> (case forks s of [] \<Rightarrow> (answer (- 1) [], s) | a # as \<Rightarrow> (answer a [], s\<lparr>forks := as\<rparr>))
   | CWait \<Rightarrow> (answer 0 [], s\<lparr>waits := Suc (waits s)\<rparr>)
   | CExec path argv \<Rightarrow> (answer (- 1) [], s\<lparr>execs := execs s @ [argv]\<rparr>)
   | CWrite fd bs \<Rightarrow> (answer (int (length bs)) [], s)
   | _ \<Rightarrow> (answer (- 1) [], s))"

section \<open>Commands do not return\<close>

primrec no_ret :: "'a prog \<Rightarrow> bool" where
  "no_ret (Ret x) \<longleftrightarrow> False"
| "no_ret (Exits n) \<longleftrightarrow> True"
| "no_ret Hang \<longleftrightarrow> True"
| "no_ret (Sys c f) \<longleftrightarrow> (\<forall>r. no_ret (f r))"

lemma no_ret_bind: "no_ret p \<Longrightarrow> bindP p g = p"
  by (induction p) auto

lemma no_ret_bindI: "(\<And>x. no_ret (g x)) \<Longrightarrow> no_ret (bindP p g)"
  by (induction p) auto

lemma no_ret_panic: "no_ret (sh_panic bs)"
  by (simp add: sh_panic_def no_ret_bindI)

lemma runcmd_no_ret: "no_ret (runcmd m c)"
proof (induction c)
  case (REDIR c t mode fd)
  then show ?case by (cases t) (auto intro!: no_ret_bindI)
next
  case (PIPE l r)
  show ?case by (auto intro!: no_ret_bindI simp: no_ret_panic Let_def split: prod.split)
qed (auto intro!: no_ret_bindI simp: Let_def)

section \<open>Property: pipelines and redirections\<close>

lemma free_fds_props:
  assumes "free_fds s = i # j # is" shows "i < j" "fds s i = None" "fds s j = None"
proof -
  have "sorted_wrt (<) (free_fds s)" unfolding free_fds_def by (intro sorted_wrt_filter sorted_wrt_upt)
  then show "i < j" using assms by simp
  have "set (i # j # is) \<subseteq> {k. fds s k = None}" unfolding assms [symmetric] by (auto simp: free_fds_def)
  then show "fds s i = None" "fds s j = None" by auto
qed

lemma free_lowest:
  assumes "fds s d = None" "\<forall>i<d. fds s i \<noteq> None" "d < FDS" shows "\<exists>is. free_fds s = d # is"
proof -
  have "[0..<FDS] = [0..<d] @ d # [Suc d..<FDS]" using assms(3) by (metis append_Nil le0 le_add_diff_inverse less_imp_le_nat upt_add_eq_append upt_conv_Cons)
  moreover have "filter (\<lambda>i. fds s i = None) [0..<d] = []" using assms(2) by simp
  ultimately show ?thesis using assms(1) by (simp add: free_fds_def)
qed

lemma dup_to:
  assumes "fds s d = None" "\<forall>i<d. fds s i \<noteq> None" "d < FDS"
  shows "proc_kernel s (CDup fd) = (answer (int d) [], s\<lparr>fds := (fds s)(d := fds s (nat fd))\<rparr>)"
    "proc_kernel s (COpen path mode) = (answer (int d) [], s\<lparr>fds := (fds s)(d := Some (Opened path mode))\<rparr>)"
  using free_lowest [OF assms] by (auto simp: proc_kernel_def)

lemma kernel_steps:
  "proc_kernel s (CClose fd) = (answer 0 [], s\<lparr>fds := (fds s)(nat fd := None)\<rparr>)"
  "forks s = a # as \<Longrightarrow> proc_kernel s CFork = (answer a [], s\<lparr>forks := as\<rparr>)"
  "proc_kernel s CWait = (answer 0 [], s\<lparr>waits := Suc (waits s)\<rparr>)"
  "free_fds s = i # j # is \<Longrightarrow> proc_kernel s CPipe = ((answer 0 [])\<lparr>rfds := (int i, int j)\<rparr>,
     s\<lparr>fds := (fds s)(i := Some (PipeR (npipe s)), j := Some (PipeW (npipe s))), npipe := Suc (npipe s)\<rparr>)"
  by (simp_all add: proc_kernel_def)

lemma answer_simps [simp]: "rv (answer v bs) = v" "rv (answer v bs\<lparr>rfds := p\<rparr>) = v" "rfds (answer v bs\<lparr>rfds := p\<rparr>) = p"
  by (simp_all add: answer_def)

lemma run_fork1: "forks s = a # as \<Longrightarrow> a \<noteq> - 1 \<Longrightarrow> runP proc_kernel fork1 s = (Inr a, s\<lparr>forks := as\<rparr>)"
  by (simp add: fork1_def sys_def kernel_steps)

lemma run_no_ret: "no_ret p \<Longrightarrow> \<exists>n e'. runP k p e = (Inl n, e')"
  by (induction p arbitrary: e) (auto simp: Let_def split: prod.split)

lemma run_no_ret_case:
  "no_ret p \<Longrightarrow> (case runP k p e of (Inr x, e') \<Rightarrow> g x e' | (Inl n, e') \<Rightarrow> (Inl n, e')) = runP k p e"
  using run_no_ret [of p k e] by auto

text \<open>What the child of a pipeline does before its command: \<open>d\<close> becomes the end \<open>p\<close> of the pipe.\<close>

definition pipe_child :: "int \<Rightarrow> int \<Rightarrow> int \<Rightarrow> int \<Rightarrow> unit prog \<Rightarrow> unit prog" where
  "pipe_child d p p0 p1 b = seqP [call (CClose d), call (CDup p), call (CClose p0), call (CClose p1), b]"

lemma runcmd_PIPE:
  "runcmd m (PIPE l r) = Sys CPipe (\<lambda>a.
     if rv a < 0 then sh_panic (str ''pipe'')
     else let (p0, p1) = rfds a in
       bindP fork1 (\<lambda>pid. bindP (whenP (pid = 0) (pipe_child 1 p1 p0 p1 (runcmd m l))) (\<lambda>_.
       bindP fork1 (\<lambda>pid. bindP (whenP (pid = 0) (pipe_child 0 p0 p0 p1 (runcmd m r))) (\<lambda>_. seqP [
         call (CClose p0), call (CClose p1), call CWait, call CWait, Exits 0])))))"
  unfolding runcmd.simps pipe_child_def seqP.simps(2) [of "whenP _ _"] by (rule refl)

lemma child_no_ret: "no_ret (pipe_child d p p0 p1 (runcmd m l))"
  using runcmd_no_ret [of m l] by (auto intro!: no_ret_bindI simp: no_ret_bind pipe_child_def)

lemma run_child:
  assumes "\<forall>k<d. fds s k \<noteq> None" "d < i" "i < j" "p \<in> {i, j}" "d < FDS"
  shows "runP proc_kernel (pipe_child (int d) (int p) (int i) (int j) (runcmd m c)) s =
    runP proc_kernel (runcmd m c) (s\<lparr>fds := (fds s)(d := fds s p, i := None, j := None)\<rparr>)"
proof -
  define s1 where "s1 = s\<lparr>fds := (fds s)(d := None)\<rparr>"
  have "proc_kernel s1 (CDup (int p)) = (answer (int d) [], s1\<lparr>fds := (fds s1)(d := fds s1 p)\<rparr>)"
    using dup_to(1) [of s1 d "int p"] assms by (simp add: s1_def)
  then have "proc_kernel s1 (CDup (int p)) = (answer (int d) [], s\<lparr>fds := (fds s)(d := fds s p)\<rparr>)" using assms by (auto simp: s1_def)
  then show ?thesis
    by (simp add: pipe_child_def call_def kernel_steps s1_def [symmetric] runP_bind no_ret_bind [OF runcmd_no_ret])
qed

lemma run_pipe_left:
  assumes "free_fds s = i # j # is" "fds s 0 \<noteq> None" "fds s 1 \<noteq> None" "forks s = 0 # as"
  shows "runP proc_kernel (runcmd m (PIPE l r)) s =
       runP proc_kernel (runcmd m l) (s\<lparr>fds := (fds s)(1 := Some (PipeW (npipe s))), npipe := Suc (npipe s), forks := as\<rparr>)"
proof -
  note f = free_fds_props [OF assms(1)]
  have i: "1 < i" using f(2) assms(2,3) by (cases i; cases "i - 1") auto
  define s1 where "s1 = s\<lparr>fds := (fds s)(i := Some (PipeR (npipe s)), j := Some (PipeW (npipe s))), npipe := Suc (npipe s), forks := as\<rparr>"
  have fd: "(fds s1)(1 := fds s1 j, i := None, j := None) = (fds s)(1 := Some (PipeW (npipe s)))"
    using f i by (auto simp: s1_def fun_eq_iff)
  have "runP proc_kernel (runcmd m (PIPE l r)) s = runP proc_kernel
      (pipe_child (int 1) (int j) (int i) (int j) (runcmd m l)) s1"
    using assms(1,4) unfolding runcmd_PIPE by (simp add: kernel_steps runP_bind run_fork1 whenP_def s1_def run_no_ret_case [OF child_no_ret])
  also have "\<dots> = runP proc_kernel (runcmd m l) (s1\<lparr>fds := (fds s1)(1 := fds s1 j, i := None, j := None)\<rparr>)"
    by (rule run_child) (use f i assms in \<open>auto simp: s1_def FDS_def\<close>)
  also have "s1\<lparr>fds := f\<rparr> = s\<lparr>fds := f, npipe := Suc (npipe s), forks := as\<rparr>" for f by (cases s) (simp add: s1_def)
  finally show ?thesis unfolding fd .
qed

lemma run_pipe_right:
  assumes "free_fds s = i # j # is" "fds s 0 \<noteq> None" "fds s 1 \<noteq> None" "forks s = a # 0 # as" "0 < a"
  shows "runP proc_kernel (runcmd m (PIPE l r)) s =
       runP proc_kernel (runcmd m r) (s\<lparr>fds := (fds s)(0 := Some (PipeR (npipe s))), npipe := Suc (npipe s), forks := as\<rparr>)"
proof -
  note f = free_fds_props [OF assms(1)]
  have i: "1 < i" using f(2) assms(2,3) by (cases i; cases "i - 1") auto
  define s1 where "s1 = s\<lparr>fds := (fds s)(i := Some (PipeR (npipe s)), j := Some (PipeW (npipe s))), npipe := Suc (npipe s), forks := as\<rparr>"
  have fd: "(fds s1)(0 := fds s1 i, i := None, j := None) = (fds s)(0 := Some (PipeR (npipe s)))"
    using f i by (auto simp: s1_def fun_eq_iff)
  have "runP proc_kernel (runcmd m (PIPE l r)) s = runP proc_kernel
      (pipe_child (int 0) (int i) (int i) (int j) (runcmd m r)) s1"
    using assms(1,4,5) unfolding runcmd_PIPE
    by (simp add: kernel_steps runP_bind run_fork1 whenP_def s1_def run_no_ret_case [OF child_no_ret])
  also have "\<dots> = runP proc_kernel (runcmd m r) (s1\<lparr>fds := (fds s1)(0 := fds s1 i, i := None, j := None)\<rparr>)"
    by (rule run_child) (use f i assms in \<open>auto simp: s1_def FDS_def\<close>)
  also have "s1\<lparr>fds := f\<rparr> = s\<lparr>fds := f, npipe := Suc (npipe s), forks := as\<rparr>" for f by (cases s) (simp add: s1_def)
  finally show ?thesis unfolding fd .
qed

lemma run_pipe_parent:
  assumes "free_fds s = i # j # is" "forks s = a # b # as" "0 < a" "0 < b"
  shows "runP proc_kernel (runcmd m (PIPE l r)) s = (Inl (Some 0), s\<lparr>npipe := Suc (npipe s), forks := as, waits := waits s + 2\<rparr>)"
proof -
  note f = free_fds_props [OF assms(1)]
  have "(fds s)(i := None, j := None) = fds s" using f by auto
  then show ?thesis
    using assms f by (simp add: kernel_steps runP_bind run_fork1 whenP_def call_def fun_upd_twist)
qed

lemma run_redir:
  assumes "\<forall>i<d. fds s i \<noteq> None" "d < FDS"
  shows "runP proc_kernel (runcmd m (REDIR c (q, eq) mode (int d))) s =
       runP proc_kernel (runcmd m c) (s\<lparr>fds := (fds s)(d := Some (Opened (cstring m q) mode))\<rparr>)"
  using dup_to(2) [of "s\<lparr>fds := (fds s)(d := None)\<rparr>" d "cstring m q" mode] assms
  by (simp add: kernel_steps runP_bind call_def sys_def whenP_def run_no_ret_case [OF runcmd_no_ret])

text \<open>
  C23.  The processes of a pipeline.  When two descriptors are free and 0 and 1 are open, the
  child for the left side runs its command with descriptor 1 as the write end of a new pipe,
  the child for the right side with descriptor 0 as its read end, no process keeps another
  end of the pipe, and the parent waits twice and exits with the descriptors it had.  A
  redirection runs its command with just the one descriptor replaced by the opened file.
\<close>

theorem runcmd_descriptors:
  assumes "free_fds s = i # j # is" "fds s 0 \<noteq> None" "fds s 1 \<noteq> None"
  shows "(\<forall>as. forks s = 0 # as \<longrightarrow> runP proc_kernel (runcmd m (PIPE l r)) s =
       runP proc_kernel (runcmd m l) (s\<lparr>fds := (fds s)(1 := Some (PipeW (npipe s))), npipe := Suc (npipe s), forks := as\<rparr>)) \<and>
    (\<forall>a as. forks s = a # 0 # as \<and> 0 < a \<longrightarrow> runP proc_kernel (runcmd m (PIPE l r)) s =
       runP proc_kernel (runcmd m r) (s\<lparr>fds := (fds s)(0 := Some (PipeR (npipe s))), npipe := Suc (npipe s), forks := as\<rparr>)) \<and>
    (\<forall>a b as. forks s = a # b # as \<and> 0 < a \<and> 0 < b \<longrightarrow> runP proc_kernel (runcmd m (PIPE l r)) s =
       (Inl (Some 0), s\<lparr>npipe := Suc (npipe s), forks := as, waits := waits s + 2\<rparr>)) \<and>
    (\<forall>d. (\<forall>k<d. fds s k \<noteq> None) \<and> d < FDS \<longrightarrow> runP proc_kernel (runcmd m (REDIR c (q, eq) mode (int d))) s =
       runP proc_kernel (runcmd m c) (s\<lparr>fds := (fds s)(d := Some (Opened (cstring m q) mode))\<rparr>))"
proof (intro conjI allI impI)
  fix as assume "forks s = 0 # as" then show "runP proc_kernel (runcmd m (PIPE l r)) s =
    runP proc_kernel (runcmd m l) (s\<lparr>fds := (fds s)(1 := Some (PipeW (npipe s))), npipe := Suc (npipe s), forks := as\<rparr>)"
    by (rule run_pipe_left [OF assms])
next
  fix a as assume "forks s = a # 0 # as \<and> 0 < a" then show "runP proc_kernel (runcmd m (PIPE l r)) s =
    runP proc_kernel (runcmd m r) (s\<lparr>fds := (fds s)(0 := Some (PipeR (npipe s))), npipe := Suc (npipe s), forks := as\<rparr>)"
    using run_pipe_right [OF assms] by simp
next
  fix a b as assume "forks s = a # b # as \<and> 0 < a \<and> 0 < b" then show "runP proc_kernel (runcmd m (PIPE l r)) s =
    (Inl (Some 0), s\<lparr>npipe := Suc (npipe s), forks := as, waits := waits s + 2\<rparr>)"
    using run_pipe_parent [OF assms(1)] by simp
next
  fix d assume "(\<forall>k<d. fds s k \<noteq> None) \<and> d < FDS" then show "runP proc_kernel (runcmd m (REDIR c (q, eq) mode (int d))) s =
    runP proc_kernel (runcmd m c) (s\<lparr>fds := (fds s)(d := Some (Opened (cstring m q) mode))\<rparr>)"
    using run_redir by blast
qed

definition demo_sh :: shproc where
  "demo_sh = \<lparr>fds = (\<lambda>k. if k < 3 then Some Tty else None), forks = [0], npipe = 7, waits = 0, execs = []\<rparr>"

lemma demo_sh_free: "free_fds demo_sh = 3 # 4 # [5..<16]"
  by (simp add: free_fds_def FDS_def demo_sh_def upt_rec)

theorem runcmd_descriptors_witness:
  "runP proc_kernel (runcmd [108, 115, 0, 119, 99, 0] (PIPE (EXEC [(0, 2)]) (EXEC [(3, 5)]))) demo_sh =
     runP proc_kernel (runcmd [108, 115, 0, 119, 99, 0] (EXEC [(0, 2)]))
       (demo_sh\<lparr>fds := (fds demo_sh)(1 := Some (PipeW 7)), npipe := 8, forks := []\<rparr>)"
proof -
  have "fds demo_sh 0 \<noteq> None" "fds demo_sh 1 \<noteq> None" "forks demo_sh = 0 # []" "npipe demo_sh = 7" by (simp_all add: demo_sh_def)
  then show ?thesis
    using runcmd_descriptors [OF demo_sh_free, of "[108, 115, 0, 119, 99, 0]" "EXEC [(0, 2)]" "EXEC [(3, 5)]"] by simp
qed

end
