(* ===== verification/Utils.thy ===== *)
theory Utils
  imports Uprintf
begin

text \<open>
  The other programs under \<^verbatim>\<open>user/\<close>.  The argument \<open>turns\<close> bounds the loops that the input
  controls.  Variables that the program reads into but does not initialise start with
  bytes given as an argument.
\<close>

definition newline :: "byte list" where "newline = [10]"

section \<open>cat, wc, echo\<close>

definition cat :: "nat \<Rightarrow> int \<Rightarrow> unit prog" where
  "cat turns fd = loopP turns (\<lambda>_.
     Sys (CRead fd 512) (\<lambda>r.
       if rv r > 0 then
         bindP (sys (CWrite 1 (rbytes r))) (\<lambda>w.
           if w \<noteq> rv r then bindP (u_fprintf 2 (str ''cat: write error'' @ newline) []) (\<lambda>_. Exits 1)
           else Ret (Inl ()))
       else if rv r < 0 then bindP (u_fprintf 2 (str ''cat: read error'' @ newline) []) (\<lambda>_. Exits 1)
       else Ret (Inr ()))) ()"

definition cat_main :: "nat \<Rightarrow> byte list list \<Rightarrow> unit prog" where
  "cat_main turns argv =
     (if length argv \<le> 1 then seqP [cat turns 0, Exits 0]
      else seqP [
        forP (drop 1 argv) (\<lambda>a. bindP (sys (COpen a 0)) (\<lambda>fd.
          if fd < 0 then seqP [u_fprintf 2 (str ''cat: cannot open %s'' @ newline) [UStr (Some a)], Exits 1]
          else seqP [cat turns fd, call (CClose fd)])),
        Exits 0])"

text \<open>The counters of \<open>wc\<close>: lines, words, characters, and \<open>inword\<close>.\<close>

record wcst =
  wc_l :: "32 word"
  wc_w :: "32 word"
  wc_c :: "32 word"
  wc_in :: bool

definition wc_byte :: "byte \<Rightarrow> wcst \<Rightarrow> wcst" where
  "wc_byte b s =
     (let s = s\<lparr>wc_c := wc_c s + 1\<rparr>;
          s = (if b = 10 then s\<lparr>wc_l := wc_l s + 1\<rparr> else s)
      in if strchr [32, 13, 9, 10, 11] b \<noteq> None then s\<lparr>wc_in := False\<rparr>
         else if \<not> wc_in s then s\<lparr>wc_w := wc_w s + 1, wc_in := True\<rparr>
         else s)"

definition wc_init :: wcst where
  "wc_init = \<lparr>wc_l = 0, wc_w = 0, wc_c = 0, wc_in = False\<rparr>"

definition wc_turn :: "int \<Rightarrow> wcst \<Rightarrow> (wcst + wcst) prog" where
  "wc_turn fd s = Sys (CRead fd 512) (\<lambda>r.
     if rv r > 0 then Ret (Inl (fold wc_byte (rbytes r) s))
     else if rv r < 0 then bindP (u_printf (str ''wc: read error'' @ newline) []) (\<lambda>_. Exits 1)
     else Ret (Inr s))"

definition wc :: "nat \<Rightarrow> int \<Rightarrow> byte list \<Rightarrow> unit prog" where
  "wc turns fd name = bindP (loopP turns (wc_turn fd) wc_init) (\<lambda>s.
     u_printf (str ''%d %d %d %s'' @ newline) [UInt (wc_l s), UInt (wc_w s), UInt (wc_c s), UStr (Some name)])"

definition wc_main :: "nat \<Rightarrow> byte list list \<Rightarrow> unit prog" where
  "wc_main turns argv =
     (if length argv \<le> 1 then seqP [wc turns 0 [], Exits 0]
      else seqP [
        forP (drop 1 argv) (\<lambda>a. bindP (sys (COpen a 0)) (\<lambda>fd.
          if fd < 0 then seqP [u_printf (str ''wc: cannot open %s'' @ newline) [UStr (Some a)], Exits 1]
          else seqP [wc turns fd a, call (CClose fd)])),
        Exits 0])"

definition echo_main :: "byte list list \<Rightarrow> unit prog" where
  "echo_main argv = seqP [
     forP [1..<length argv] (\<lambda>i. seqP [
       call (CWrite 1 (argv ! i)),
       call (CWrite 1 (if i + 1 < length argv then [32] else newline))]),
     Exits 0]"

section \<open>kill, ln, mkdir, rm, sleep, zombie\<close>

definition kill_main :: "byte list list \<Rightarrow> unit prog" where
  "kill_main argv =
     (if length argv < 2 then seqP [u_fprintf 2 (str ''usage: kill pid...'' @ newline) [], Exits 1]
      else seqP [forP (drop 1 argv) (\<lambda>a. call (CKill (atoi a))), Exits 0])"

definition ln_main :: "byte list list \<Rightarrow> unit prog" where
  "ln_main argv =
     (if length argv \<noteq> 3 then seqP [u_fprintf 2 (str ''Usage: ln old new'' @ newline) [], Exits 1]
      else bindP (sys (CLink (argv ! 1) (argv ! 2))) (\<lambda>r. seqP [
        whenP (r < 0) (u_fprintf 2 (str ''link %s %s: failed'' @ newline) [UStr (Some (argv ! 1)), UStr (Some (argv ! 2))]),
        Exits 0]))"

text \<open>The loops of \<open>mkdir\<close> and \<open>rm\<close> stop at the first failure.\<close>

fun until_fail :: "(byte list \<Rightarrow> call) \<Rightarrow> byte list \<Rightarrow> byte list list \<Rightarrow> unit prog" where
  "until_fail f msg [] = Ret ()"
| "until_fail f msg (a # as) = bindP (sys (f a)) (\<lambda>r.
     if r < 0 then u_fprintf 2 msg [UStr (Some a)] else until_fail f msg as)"

definition mkdir_main :: "byte list list \<Rightarrow> unit prog" where
  "mkdir_main argv =
     (if length argv < 2 then seqP [u_fprintf 2 (str ''Usage: mkdir files...'' @ newline) [], Exits 1]
      else seqP [until_fail CMkdir (str ''mkdir: %s failed to create'' @ newline) (drop 1 argv), Exits 0])"

definition rm_main :: "byte list list \<Rightarrow> unit prog" where
  "rm_main argv =
     (if length argv < 2 then seqP [u_fprintf 2 (str ''Usage: rm files...'' @ newline) [], Exits 1]
      else seqP [until_fail CUnlink (str ''rm: %s failed to delete'' @ newline) (drop 1 argv), Exits 0])"

definition sleep_main :: "byte list list \<Rightarrow> unit prog" where
  "sleep_main argv =
     (if length argv < 2 then seqP [u_fprintf 2 (str ''Usage: sleep number'' @ newline) [], Exits 1]
      else seqP [call (CSleep (atoi (argv ! 1))), Exits 0])"

definition zombie_main :: "unit prog" where
  "zombie_main = bindP (sys CFork) (\<lambda>pid. seqP [whenP (pid > 0) (call (CSleep 5)), Exits 0])"

section \<open>init\<close>

text \<open>The loop that waits for the shell; other processes that exit are orphans.\<close>

definition init_wait :: "nat \<Rightarrow> int \<Rightarrow> unit prog" where
  "init_wait turns pid = loopP turns (\<lambda>_. bindP (sys CWait) (\<lambda>wpid.
     if wpid = pid then Ret (Inr ())
     else if wpid < 0 then bindP (u_printf (str ''init: wait returned an error'' @ newline) []) (\<lambda>_. Exits 1)
     else Ret (Inl ()))) ()"

definition init_main :: "nat \<Rightarrow> unit prog" where
  "init_main turns = seqP [
     bindP (sys (COpen (str ''console'') 2)) (\<lambda>fd. whenP (fd < 0)
       (seqP [call (CMknod (str ''console'') 1 0), call (COpen (str ''console'') 2)])),
     call (CDup 0),
     call (CDup 0),
     loopP turns (\<lambda>_. bindP (u_printf (str ''init: starting sh'' @ newline) []) (\<lambda>_.
       bindP (sys CFork) (\<lambda>pid.
         if pid < 0 then bindP (u_printf (str ''init: fork failed'' @ newline) []) (\<lambda>_. Exits 1)
         else if pid = 0 then
           bindP (call (CExec (str ''sh'') [str ''sh''])) (\<lambda>_.
             bindP (u_printf (str ''init: exec sh failed'' @ newline) []) (\<lambda>_. Exits 1))
         else bindP (init_wait turns pid) (\<lambda>_. Ret (Inl ()))))) ()]"

section \<open>ls and find\<close>

definition U_DIRSIZ :: nat where "U_DIRSIZ = 14"

text \<open>The scan back to the last slash: the position after it, from the end of the path.\<close>

fun name_start :: "byte list \<Rightarrow> nat \<Rightarrow> nat" where
  "name_start path 0 = 0"
| "name_start path (Suc p) = (if p < length path \<and> path ! p = 47 then Suc p else name_start path p)"

definition fmtname :: "byte list \<Rightarrow> byte list" where
  "fmtname path =
     (let p = drop (name_start path (Suc (length path))) path in
      if length p \<ge> U_DIRSIZ then p else p @ replicate (U_DIRSIZ - length p) 32)"

text \<open>A directory entry as the 16 bytes read.\<close>

definition ent_inum :: "byte list \<Rightarrow> int" where
  "ent_inum de = uint (de ! 0) + 256 * uint (de ! 1)"

definition ent_name :: "byte list \<Rightarrow> byte list" where
  "ent_name de = takeWhile (\<lambda>c. c \<noteq> 0) (take U_DIRSIZ (drop 2 de))"

text \<open>\<open>%d\<close> takes the low half of the 64-bit size.\<close>

definition ls :: "nat \<Rightarrow> byte list \<Rightarrow> unit prog" where
  "ls turns path = bindP (sys (COpen path 0)) (\<lambda>fd.
     if fd < 0 then u_fprintf 2 (str ''ls: cannot open %s'' @ newline) [UStr (Some path)]
     else Sys (CFstat fd) (\<lambda>r. let st = rstat r in
       if rv r < 0 then seqP [u_fprintf 2 (str ''ls: cannot stat %s'' @ newline) [UStr (Some path)], call (CClose fd)]
       else seqP [
         (if us_type st = 2 then
            u_printf (str ''%s %d %d %l'' @ newline)
              [UStr (Some (fmtname path)), UInt (word_of_int (us_type st)), UInt (word_of_int (us_ino st)), ULong (word_of_int (us_size st))]
          else if us_type st = 1 then
            (if length path + 1 + U_DIRSIZ + 1 > 512 then u_printf (str ''ls: path too long'' @ newline) []
             else loopP turns (\<lambda>_. Sys (CRead fd 16) (\<lambda>r.
               if rv r = 16 then
                 (if ent_inum (rbytes r) = 0 then Ret (Inl ())
                  else let buf = path @ [47] @ ent_name (rbytes r) in
                    bindP (stat_file buf) (\<lambda>(v, st).
                      if v < 0 then bindP (u_printf (str ''ls: cannot stat %s'' @ newline) [UStr (Some buf)]) (\<lambda>_. Ret (Inl ()))
                      else bindP (u_printf (str ''%s %d %d %d'' @ newline)
                        [UStr (Some (fmtname buf)), UInt (word_of_int (us_type st)), UInt (word_of_int (us_ino st)), UInt (word_of_int (us_size st))])
                        (\<lambda>_. Ret (Inl ()))))
               else Ret (Inr ()))) ())
          else Ret ()),
         call (CClose fd)]))"

definition ls_main :: "nat \<Rightarrow> byte list list \<Rightarrow> unit prog" where
  "ls_main turns argv =
     (if length argv < 2 then seqP [ls turns (str ''.''), Exits 0]
      else seqP [forP (drop 1 argv) (ls turns), Exits 0])"

text \<open>
  \<open>find\<close>: the loop goes on while \<open>read\<close> does not return 0, with what is then in \<open>de\<close>; the first
  argument bounds the depth of the recursion.  A name of 14 bytes is taken to end there.
\<close>

fun u_find :: "nat \<Rightarrow> nat \<Rightarrow> byte list \<Rightarrow> byte list \<Rightarrow> byte list \<Rightarrow> unit prog" where
  "u_find 0 turns de0 dir file = Hang"
| "u_find (Suc depth) turns de0 dir file = bindP (sys (COpen dir 0)) (\<lambda>fd.
     if fd < 0 then u_fprintf 2 (str ''find:cannot open %s'' @ newline) [UStr (Some dir)]
     else Sys (CFstat fd) (\<lambda>r.
       if rv r < 0 then seqP [u_fprintf 2 (str ''find:cannot stat %s'' @ newline) [UStr (Some dir)], call (CClose fd)]
       else if us_type (rstat r) \<noteq> 1 then seqP [u_fprintf 2 (str ''%s not a director'' @ newline) [UStr (Some dir)], call (CClose fd)]
       else if length dir + 1 + U_DIRSIZ + 1 > 512 then seqP [u_fprintf 2 (str ''find:director is too long'' @ newline) [], call (CClose fd)]
       else loopP turns (\<lambda>de. Sys (CRead fd 16) (\<lambda>r.
         if rv r \<noteq> 0 then
           (let de = overwrite de 0 (rbytes r); name = ent_name de; buf = dir @ [47] @ name in
            if ent_inum de = 0 then Ret (Inl de)
            else if strcmp name (str ''.'') = 0 \<or> strcmp name (str ''..'') = 0 then Ret (Inl de)
            else bindP (stat_file buf) (\<lambda>(v, st).
              if v < 0 then bindP (u_fprintf 2 (str ''find:cannot stat %s'') [UStr (Some buf)]) (\<lambda>_. Ret (Inl de))
              else if us_type st = 1 then bindP (u_find depth turns de0 buf file) (\<lambda>_. Ret (Inl de))
              else if us_type st = 2 \<and> strcmp name file = 0 then
                bindP (u_printf (str ''%s'' @ newline) [UStr (Some buf)]) (\<lambda>_. Ret (Inl de))
              else Ret (Inl de)))
         else Ret (Inr ()))) de0))"

definition find_main :: "nat \<Rightarrow> nat \<Rightarrow> byte list \<Rightarrow> byte list list \<Rightarrow> unit prog" where
  "find_main depth turns de0 argv =
     (if length argv \<noteq> 3 then seqP [u_fprintf 2 (str ''usage: find dirName fileName'' @ newline) [], Exits 1]
      else seqP [u_find depth turns de0 (argv ! 1) (argv ! 2), Exits 0])"

section \<open>xargs\<close>

definition xargs_exec :: "byte list \<Rightarrow> byte list list \<Rightarrow> unit prog" where
  "xargs_exec program paraments = bindP (sys CFork) (\<lambda>pid.
     if pid > 0 then call CWait
     else bindP (sys (CExec program paraments)) (\<lambda>r.
       whenP (r = - 1) (u_fprintf 2 (str ''xargs:error exec'' @ newline) [])))"

text \<open>The loop variable is what \<open>buf\<close> holds, its first \<open>m\<close> bytes.\<close>

definition xargs_turn :: "byte list list \<Rightarrow> byte list \<Rightarrow> byte list \<Rightarrow> (byte list + unit) prog" where
  "xargs_turn first_arg program_name buf = Sys (CRead 0 1) (\<lambda>r.
     if rv r = 1 then
       (let c = hd (rbytes r) in
        if length buf > 1023 then bindP (u_fprintf 2 (str ''command is too long'' @ newline) []) (\<lambda>_. Exits 1)
        else if c = 10 then
          bindP (xargs_exec program_name
            ((if first_arg = [] then [program_name] else first_arg) @ [takeWhile (\<lambda>c. c \<noteq> 0) buf])) (\<lambda>_. Ret (Inl []))
        else Ret (Inl (buf @ [c])))
     else Ret (Inr ()))"

definition xargs :: "nat \<Rightarrow> byte list list \<Rightarrow> byte list \<Rightarrow> unit prog" where
  "xargs turns first_arg program_name = loopP turns (xargs_turn first_arg program_name) []"

definition xargs_main :: "nat \<Rightarrow> byte list list \<Rightarrow> unit prog" where
  "xargs_main turns argv = seqP [
     xargs turns (drop 1 argv) (if length argv \<ge> 2 then argv ! 1 else str ''echo''),
     Exits 0]"

section \<open>primes and pingpong\<close>

text \<open>An \<open>int\<close> and its four bytes in memory.\<close>

definition int_bytes :: "32 word \<Rightarrow> byte list" where
  "int_bytes w = map (\<lambda>i. ucast (drop_bit (8 * i) w)) [0..<4]"

definition bytes_int :: "byte list \<Rightarrow> 32 word" where
  "bytes_int bs = foldr (\<lambda>b w. or (ucast b) (push_bit 8 w)) (take 4 bs) 0"

definition mapping :: "int \<Rightarrow> int \<times> int \<Rightarrow> unit prog" where
  "mapping n fd = seqP [
     call (CClose n),
     call (CDup (if n = 0 then fst fd else snd fd)),
     call (CClose (fst fd)),
     call (CClose (snd fd))]"

text \<open>
  \<open>nextP % previousP\<close> is zero exactly when the mathematical remainder is.  The first argument
  bounds the depth of the recursion.
\<close>

definition filter_turn :: "32 word \<Rightarrow> byte list \<Rightarrow> (byte list + unit) prog" where
  "filter_turn previousP mem = Sys (CRead 0 4) (\<lambda>r.
     if rv r \<noteq> 0 then
       (let mem = overwrite mem 0 (rbytes r); nextP = bytes_int mem in
        if sint nextP mod sint previousP \<noteq> 0 then bindP (call (CWrite 1 (int_bytes nextP))) (\<lambda>_. Ret (Inl mem))
        else Ret (Inl mem))
     else Ret (Inr ()))"

definition primes_filter :: "nat \<Rightarrow> byte list \<Rightarrow> 32 word \<Rightarrow> unit prog" where
  "primes_filter turns mem previousP = loopP turns (filter_turn previousP) mem"

fun primes :: "nat \<Rightarrow> nat \<Rightarrow> byte list \<Rightarrow> unit prog" where
  "primes 0 turns mem = Hang"
| "primes (Suc depth) turns mem = Sys (CRead 0 4) (\<lambda>r.
     if rv r \<noteq> 0 then
       (let previousP = bytes_int (overwrite mem 0 (rbytes r)) in
        bindP (u_printf (str ''prime %d'' @ newline) [UInt previousP]) (\<lambda>_.
          Sys CPipe (\<lambda>p. let fd = rfds p in
            bindP (sys CFork) (\<lambda>pid.
              if pid = 0 then seqP [mapping 1 fd, primes_filter turns mem previousP]
              else seqP [call CWait, mapping 0 fd, primes depth turns mem]))))
     else Ret ())"

definition primes_main :: "nat \<Rightarrow> nat \<Rightarrow> byte list \<Rightarrow> unit prog" where
  "primes_main depth turns mem = Sys CPipe (\<lambda>p. let fd = rfds p in
     bindP (sys CFork) (\<lambda>pid. seqP [
       (if pid = 0 then seqP [mapping 1 fd, forP [2..<36] (\<lambda>i. call (CWrite 1 (int_bytes (of_nat i))))]
        else seqP [call CWait, mapping 0 fd, primes depth turns mem]),
       Exits 0]))"

definition pingpong_main :: "unit prog" where
  "pingpong_main = bindP (sys CFork) (\<lambda>ret.
     Sys CPipe (\<lambda>p1. Sys CPipe (\<lambda>p2.
       let pipes1 = rfds p1; pipes2 = rfds p2 in
       if ret = 0 then
         bindP (sys CGetpid) (\<lambda>pid. bindP (call (CClose (snd pipes1))) (\<lambda>_.
           Sys (CRead (fst pipes1) 1) (\<lambda>r. seqP [
             u_printf (str ''%d: received ping'' @ newline) [UInt (word_of_int pid)],
             call (CWrite (snd pipes2) (overwrite [97] 0 (rbytes r))),
             Exits 0])))
       else
         bindP (sys CGetpid) (\<lambda>pid. seqP [
           call (CClose (snd pipes2)),
           call (CWrite (snd pipes1) [97]),
           call CWait,
           call (CRead (fst pipes2) 1),
           u_printf (str ''%d: received pong'' @ newline) [UInt (word_of_int pid)],
           Exits 0]))))"

end
