(* ===== verification/Grep.thy ===== *)
theory Grep
  imports Uprintf
begin

text \<open>
  \<^verbatim>\<open>user/grep.c\<close>: the regular expression matcher against the language an expression denotes,
  and the loop over the lines of the input, however the kernel cuts it into reads.
\<close>

section \<open>The matcher\<close>

definition CARET :: byte where "CARET = 94"
definition DOLLAR :: byte where "DOLLAR = 36"
definition STAR :: byte where "STAR = 42"
definition DOT :: byte where "DOT = 46"
definition NEWLINE :: byte where "NEWLINE = 10"

function matchhere :: "byte list \<Rightarrow> byte list \<Rightarrow> bool" and matchstar :: "byte \<Rightarrow> byte list \<Rightarrow> byte list \<Rightarrow> bool" where
  "matchhere [] text = True"
| "matchhere (c # re) text =
     (if re \<noteq> [] \<and> hd re = STAR then matchstar c (tl re) text
      else if c = DOLLAR \<and> re = [] then text = []
      else if text \<noteq> [] \<and> (c = DOT \<or> c = hd text) then matchhere re (tl text)
      else False)"
| "matchstar c re text =
     (if matchhere re text then True
      else if text \<noteq> [] \<and> (hd text = c \<or> c = DOT) then matchstar c re (tl text)
      else False)"
  by pat_completeness auto
termination
proof (relation "inv_image (less_than <*lex*> less_than) (\<lambda>x. case x of
    Inl (re, text) \<Rightarrow> (2 * length re, length text) | Inr (c, re, text) \<Rightarrow> (2 * length re + 1, length text))", goal_cases)
  case (2 c re s) then show ?case by (cases re) auto
qed auto

fun match_from :: "byte list \<Rightarrow> byte list \<Rightarrow> bool" where
  "match_from re [] = matchhere re []"
| "match_from re (c # text) = (if matchhere re (c # text) then True else match_from re text)"

definition match :: "byte list \<Rightarrow> byte list \<Rightarrow> bool" where
  "match re text = (if re \<noteq> [] \<and> hd re = CARET then matchhere (tl re) text else match_from re text)"

section \<open>The language of an expression\<close>

datatype item = Sym byte | Star byte

definition sym :: "byte \<Rightarrow> byte \<Rightarrow> bool" where
  "sym c x \<longleftrightarrow> c = DOT \<or> c = x"

fun lang :: "item list \<Rightarrow> byte list set" where
  "lang [] = {[]}"
| "lang (Sym c # is) = {x # w | x w. sym c x \<and> w \<in> lang is}"
| "lang (Star c # is) = {u @ w | u w. (\<forall>x\<in>set u. sym c x) \<and> w \<in> lang is}"

text \<open>The items of an expression, and whether it ends with \<open>$\<close>.\<close>

fun parse_re :: "byte list \<Rightarrow> item list \<times> bool" where
  "parse_re [] = ([], False)"
| "parse_re [c] = (if c = DOLLAR then ([], True) else ([Sym c], False))"
| "parse_re (c # d # re) =
     (if d = STAR then (Star c # fst (parse_re re), snd (parse_re re))
      else (Sym c # fst (parse_re (d # re)), snd (parse_re (d # re))))"

definition starts :: "item list \<times> bool \<Rightarrow> byte list \<Rightarrow> bool" where
  "starts r text \<longleftrightarrow> (\<exists>w rest. text = w @ rest \<and> w \<in> lang (fst r) \<and> (snd r \<longrightarrow> rest = []))"

lemma starts_Sym:
  "starts (Sym c # is, e) t \<longleftrightarrow> (\<exists>x t'. t = x # t' \<and> sym c x \<and> starts (is, e) t')" (is "?l \<longleftrightarrow> ?r")
proof
  assume ?l
  then obtain x w rest where "t = (x # w) @ rest" "sym c x" "w \<in> lang is" "e \<longrightarrow> rest = []"
    unfolding starts_def fst_conv snd_conv lang.simps by blast
  then show ?r unfolding starts_def fst_conv snd_conv by auto
next
  assume ?r
  then obtain x w rest where "t = x # w @ rest" "sym c x" "w \<in> lang is" "e \<longrightarrow> rest = []"
    unfolding starts_def fst_conv snd_conv by blast
  then have "t = (x # w) @ rest" "x # w \<in> lang (Sym c # is)" by auto
  then show ?l unfolding starts_def fst_conv snd_conv using \<open>e \<longrightarrow> rest = []\<close> by blast
qed

lemma starts_Star_iff:
  "starts (Star c # is, e) t \<longleftrightarrow> (\<exists>u v. t = u @ v \<and> (\<forall>x\<in>set u. sym c x) \<and> starts (is, e) v)" (is "?l \<longleftrightarrow> ?r")
proof
  assume ?l
  then obtain u w rest where "t = (u @ w) @ rest" "\<forall>x\<in>set u. sym c x" "w \<in> lang is" "e \<longrightarrow> rest = []"
    unfolding starts_def fst_conv snd_conv lang.simps by blast
  then show ?r unfolding starts_def fst_conv snd_conv by (metis append_assoc)
next
  assume ?r
  then obtain u w rest where "t = u @ w @ rest" "\<forall>x\<in>set u. sym c x" "w \<in> lang is" "e \<longrightarrow> rest = []"
    unfolding starts_def fst_conv snd_conv by blast
  then have "t = (u @ w) @ rest" "u @ w \<in> lang (Star c # is)" by auto
  then show ?l unfolding starts_def fst_conv snd_conv using \<open>e \<longrightarrow> rest = []\<close> by blast
qed

lemma starts_Star:
  "starts (Star c # is, e) t \<longleftrightarrow> starts (is, e) t \<or> (\<exists>x t'. t = x # t' \<and> sym c x \<and> starts (Star c # is, e) t')" (is "?l \<longleftrightarrow> ?r")
proof
  assume ?l
  then obtain u v where t: "t = u @ v" "\<forall>x\<in>set u. sym c x" "starts (is, e) v" unfolding starts_Star_iff by blast
  then show ?r by (cases u) (auto simp: starts_Star_iff)
next
  assume ?r
  then show ?l
  proof
    assume "starts (is, e) t" then show ?l unfolding starts_Star_iff by (intro exI [of _ "[]"] exI [of _ t]) simp
  next
    assume "\<exists>x t'. t = x # t' \<and> sym c x \<and> starts (Star c # is, e) t'"
    then obtain x u v where "t = x # u @ v" "sym c x" "\<forall>x\<in>set u. sym c x" "starts (is, e) v" unfolding starts_Star_iff by blast
    then show ?l unfolding starts_Star_iff by (intro exI [of _ "x # u"] exI [of _ v]) simp
  qed
qed

lemma starts_Nil: "starts ([], e) text \<longleftrightarrow> (e \<longrightarrow> text = [])"
  by (auto simp: starts_def)

declare matchstar.simps [simp del]

lemma matchhere_starts:
  "matchhere re t = starts (parse_re re) t"
  "matchstar c re t = starts (Star c # fst (parse_re re), snd (parse_re re)) t"
proof (induction re t and c re t rule: matchhere_matchstar.induct)
  case (2 c re t)
  show ?case
  proof (cases re)
    case Nil then show ?thesis using 2 by (cases t) (auto simp: starts_Nil starts_Sym sym_def)
  next
    case (Cons d re')
    then show ?thesis using 2 by (cases t) (auto simp: starts_Sym sym_def)
  qed
next
  case (3 c re t)
  then show ?case by (subst starts_Star, subst matchstar.simps) (cases t, auto simp: sym_def)
qed (simp_all add: starts_Nil)

lemma match_from_starts: "match_from re t \<longleftrightarrow> (\<exists>pre v. t = pre @ v \<and> matchhere re v)"
proof (induction t)
  case (Cons c t)
  have "(\<exists>pre v. c # t = pre @ v \<and> matchhere re v) \<longleftrightarrow> matchhere re (c # t) \<or> (\<exists>pre v. t = pre @ v \<and> matchhere re v)"
    by (auto simp: Cons_eq_append_conv)
  then show ?case using Cons by simp
qed simp

text \<open>
  C17.  \<open>match\<close> decides the expression as a regular expression: it finds a match exactly when
  some part of the line is a word of the language of the expression, at the start of the
  line if the expression begins with \<open>^\<close>, and at its end if it ends with \<open>$\<close>.
\<close>

theorem grep_match_regexp:
  "match re t \<longleftrightarrow> (let anchored = (re \<noteq> [] \<and> hd re = CARET); (is, e) = parse_re (if anchored then tl re else re) in
     \<exists>pre w post. t = pre @ w @ post \<and> w \<in> lang is \<and> (anchored \<longrightarrow> pre = []) \<and> (e \<longrightarrow> post = []))"
proof (cases "re \<noteq> [] \<and> hd re = CARET")
  case True
  then show ?thesis by (auto simp: match_def matchhere_starts starts_def Let_def split: prod.split)
next
  case False
  obtain items e where pr: "parse_re re = (items, e)" by (cases "parse_re re") simp
  have "match re t \<longleftrightarrow> (\<exists>pre v. t = pre @ v \<and> starts (items, e) v)"
    unfolding match_def match_from_starts matchhere_starts pr if_not_P [OF False] by (rule refl)
  then have "match re t \<longleftrightarrow> (\<exists>pre w post. t = pre @ w @ post \<and> w \<in> lang items \<and> (e \<longrightarrow> post = []))"
    unfolding starts_def fst_conv snd_conv by blast
  then show ?thesis unfolding Let_def if_not_P [OF False] pr prod.case using False by blast
qed

theorem grep_match_regexp_witness:
  "\<exists>pre w post. str ''xabb'' = pre @ w @ post \<and> w \<in> lang [Sym 97, Star 98] \<and> post = []"
proof -
  have "match (str ''ab*$'') (str ''xabb'')" "hd (str ''ab*$'') \<noteq> CARET"
    "parse_re (str ''ab*$'') = ([Sym 97, Star 98], True)"
    by (simp_all add: match_def str_def CARET_def STAR_def DOLLAR_def DOT_def matchstar.simps)
  then show ?thesis using grep_match_regexp [of "str ''ab*$''" "str ''xabb''"] by simp
qed

section \<open>The program\<close>

text \<open>
  \<open>strchr(p, '\n')\<close> on the unread part of the buffer, which ends with a NUL: the line before
  the newline and what follows it.
\<close>

fun split_nl :: "byte list \<Rightarrow> (byte list \<times> byte list) option" where
  "split_nl [] = None"
| "split_nl (c # cs) = (if c = 0 then None else if c = NEWLINE then Some ([], cs)
     else map_option (\<lambda>(line, rest). (c # line, rest)) (split_nl cs))"

lemma split_nl_length: "split_nl cs = Some (line, rest) \<Longrightarrow> length rest < length cs"
  by (induction cs arbitrary: line) (auto split: if_splits intro: less_SucI)

text \<open>The loop over the lines in the buffer; it returns what is left after the last newline.\<close>

function grep_lines :: "byte list \<Rightarrow> byte list \<Rightarrow> byte list prog" where
  "grep_lines pattern p = (case split_nl p of None \<Rightarrow> Ret p
     | Some (line, rest) \<Rightarrow>
         bindP (whenP (match pattern line) (call (CWrite 1 (line @ [NEWLINE])))) (\<lambda>_. grep_lines pattern rest))"
  by auto
termination
  by (relation "measure (\<lambda>(pattern, p). length p)") (auto dest: split_nl_length)

declare grep_lines.simps [simp del]

definition GREP_BUF :: nat where "GREP_BUF = 1024"

text \<open>The loop over the reads: at most \<open>turns\<close> of them.\<close>

definition grep_turn :: "byte list \<Rightarrow> int \<Rightarrow> byte list \<Rightarrow> (byte list + unit) prog" where
  "grep_turn pattern fd buf = Sys (CRead fd (GREP_BUF - length buf - 1)) (\<lambda>r.
     if rv r > 0 then bindP (grep_lines pattern (buf @ rbytes r)) (\<lambda>rest. Ret (Inl rest))
     else Ret (Inr ()))"

definition grep :: "nat \<Rightarrow> byte list \<Rightarrow> int \<Rightarrow> unit prog" where
  "grep turns pattern fd = loopP turns (grep_turn pattern fd) []"

definition grep_main :: "nat \<Rightarrow> byte list list \<Rightarrow> unit prog" where
  "grep_main turns argv =
     (if length argv \<le> 1 then seqP [u_fprintf 2 (str ''usage: grep pattern [file ...]'' @ [NEWLINE]) [], Exits 1]
      else if length argv \<le> 2 then seqP [grep turns (argv ! 1) 0, Exits 0]
      else seqP [
        forP (drop 2 argv) (\<lambda>a. bindP (sys (COpen a 0)) (\<lambda>fd.
          if fd < 0 then seqP [u_printf (str ''grep: cannot open %s'' @ [NEWLINE]) [UStr (Some a)], Exits 1]
          else seqP [grep turns (argv ! 1) fd, call (CClose fd)])),
        Exits 0])"

section \<open>Property: the lines printed\<close>

text \<open>The lines that end with a newline, and what follows the last newline.\<close>

function lines_of :: "byte list \<Rightarrow> byte list list \<times> byte list" where
  "lines_of p = (case split_nl p of None \<Rightarrow> ([], p)
     | Some (line, rest) \<Rightarrow> (line # fst (lines_of rest), snd (lines_of rest)))"
  by auto
termination
  by (relation "measure length") (auto dest: split_nl_length)

declare lines_of.simps [simp del]

definition selected :: "byte list \<Rightarrow> byte list list \<Rightarrow> byte list" where
  "selected pattern ls = concat (map (\<lambda>l. l @ [NEWLINE]) (filter (match pattern) ls))"

lemma split_nl_append:
  "split_nl p = Some (l, r) \<Longrightarrow> split_nl (p @ q) = Some (l, r @ q)"
  by (induction p arbitrary: l) (auto split: if_splits)

lemma split_nl_set: "split_nl p = Some (l, r) \<Longrightarrow> set r \<subseteq> set p"
  by (induction p arbitrary: l) (auto split: if_splits)

lemma split_nl_None: "0 \<notin> set p \<Longrightarrow> split_nl p = None \<longleftrightarrow> NEWLINE \<notin> set p"
  by (induction p) (auto split: if_splits)

lemma split_nl_long: "split_nl (p @ q) = Some (l, r) \<Longrightarrow> NEWLINE \<notin> set p \<Longrightarrow> length p \<le> length l"
  by (induction p arbitrary: l) (auto split: if_splits)

lemma lines_of_append:
  "lines_of (p @ q) = (fst (lines_of p) @ fst (lines_of (snd (lines_of p) @ q)), snd (lines_of (snd (lines_of p) @ q)))"
proof (induction p rule: lines_of.induct)
  case (1 p)
  show ?case
  proof (cases "split_nl p")
    case None then show ?thesis by (simp add: lines_of.simps [of p])
  next
    case (Some lr)
    then obtain l r where lr: "split_nl p = Some (l, r)" by (cases lr) simp
    then show ?thesis
      using 1 [OF lr] split_nl_append [OF lr, of q] by (simp add: lines_of.simps [of p] lines_of.simps [of "p @ q"])
  qed
qed

lemma lines_of_tail:
  "split_nl (snd (lines_of p)) = None \<and> set (snd (lines_of p)) \<subseteq> set p \<and> length (snd (lines_of p)) \<le> length p"
proof (induction p rule: lines_of.induct)
  case (1 p)
  show ?case
  proof (cases "split_nl p")
    case None then show ?thesis by (simp add: lines_of.simps [of p])
  next
    case (Some lr)
    then obtain l r where lr: "split_nl p = Some (l, r)" by (cases lr) simp
    then show ?thesis
      using 1 [OF lr] split_nl_length [OF lr] split_nl_set [OF lr] by (auto simp: lines_of.simps [of p])
  qed
qed

text \<open>The proofs are for every kernel that keeps the contract of theory \<open>User\<close>.\<close>

context stream_io
begin

lemma run_grep_lines:
  "\<exists>e'. runP k (grep_lines pattern p) e = (Inr (snd (lines_of p)), e') \<and> inp e' = inp e \<and>
     out e' = out e @ selected pattern (fst (lines_of p))"
proof (induction p arbitrary: e rule: lines_of.induct)
  case (1 p)
  show ?case
  proof (cases "split_nl p")
    case None then show ?thesis by (simp add: grep_lines.simps [of _ p] lines_of.simps [of p] selected_def)
  next
    case (Some lr)
    then obtain l r where lr: "split_nl p = Some (l, r)" by (cases lr) simp
    define e1 where "e1 = (if match pattern l then snd (k e (CWrite 1 (l @ [NEWLINE]))) else e)"
    have e1: "inp e1 = inp e" "out e1 = out e @ selected pattern [l]"
      using write_all [OF prod.collapse [symmetric], of e "l @ [NEWLINE]"] by (simp_all add: e1_def selected_def)
    have "runP k (grep_lines pattern p) e = runP k (grep_lines pattern r) e1"
      using lr by (simp add: grep_lines.simps [of _ p] runP_bind whenP_def call_def e1_def Let_def split: prod.split)
    then show ?thesis using lr 1 [OF lr refl, of e1] e1 by (auto simp: lines_of.simps [of p] selected_def)
  qed
qed

lemma run_grep_loop:
  assumes "split_nl buf = None" "0 \<notin> set (buf @ inp e)" "\<forall>l\<in>set (fst (lines_of (buf @ inp e))). length l < GREP_BUF - 1"
    "length buf < GREP_BUF" "length (inp e) < turns"
  shows "\<exists>e'. runP k (loopP turns (grep_turn pattern fd) buf) e = (Inr (), e') \<and> out e' = out e @ selected pattern (fst (lines_of (buf @ inp e)))"
  using assms
proof (induction turns arbitrary: buf e)
  case (Suc turns)
  note IH = Suc.IH and prems = Suc.prems
  have nl: "NEWLINE \<notin> set buf" using split_nl_None prems(1,2) by simp
  let ?n = "GREP_BUF - length buf - 1"
  obtain r e1 where c: "k e (CRead fd ?n) = (r, e1)" by (cases "k e (CRead fd ?n)")
  show ?case
  proof (cases "length buf = GREP_BUF - 1 \<or> inp e = []")
    case True
    have "split_nl (buf @ inp e) = None"
    proof (rule ccontr)
      assume "split_nl (buf @ inp e) \<noteq> None"
      then obtain l r where lr: "split_nl (buf @ inp e) = Some (l, r)" by auto
      then have "length l < GREP_BUF - 1" using prems(3) by (auto simp: lines_of.simps [of "buf @ inp e"])
      then show False using True split_nl_long [OF lr nl] lr prems(1) by auto
    qed
    then have "fst (lines_of (buf @ inp e)) = []" by (simp add: lines_of.simps)
    moreover have "rv r = 0 \<and> out e1 = out e"
    proof (cases "?n = 0")
      case True then show ?thesis using read_0 [of e r e1] c by simp
    next
      case n: False
      then have "inp e = []" using True by linarith
      then show ?thesis using read [OF _ c] n by simp
    qed
    ultimately show ?thesis using c by (simp add: grep_turn_def selected_def)
  next
    case False
    then have "0 < ?n" using prems(4) by linarith
    define bs where "bs = rbytes r"
    from read [OF \<open>0 < ?n\<close> c] have r: "rv r = int (length bs)" "rbytes r = bs" "inp e = bs @ inp e1" "length bs \<le> ?n"
      "bs = [] \<longrightarrow> inp e1 = []" "out e1 = out e" unfolding bs_def by simp_all
    have len: "0 < length bs" using r(3,5) False by auto
    define buf' where "buf' = snd (lines_of (buf @ bs))"
    obtain e2 where e2: "runP k (grep_lines pattern (buf @ bs)) e1 = (Inr buf', e2)" "inp e2 = inp e1"
      "out e2 = out e @ selected pattern (fst (lines_of (buf @ bs)))"
      using run_grep_lines [of pattern "buf @ bs" e1] r(6) by (auto simp: buf'_def)
    have L: "lines_of (buf @ inp e) = (fst (lines_of (buf @ bs)) @ fst (lines_of (buf' @ inp e1)), snd (lines_of (buf' @ inp e1)))"
      using lines_of_append [of "buf @ bs" "inp e1"] by (simp add: r(3) buf'_def)
    have t: "split_nl buf' = None" "set buf' \<subseteq> set (buf @ bs)" "length buf' \<le> length (buf @ bs)"
      using lines_of_tail [of "buf @ bs"] by (simp_all add: buf'_def)
    have "length (inp e1) < turns" using prems(5) len unfolding r(3) length_append by linarith
    moreover have "length buf' < GREP_BUF" using t(3) r(4) \<open>0 < ?n\<close> by simp
    ultimately have "\<exists>e'. runP k (loopP turns (grep_turn pattern fd) buf') e2 = (Inr (), e') \<and> out e' = out e2 @ selected pattern (fst (lines_of (buf' @ inp e2)))"
      by (intro IH [OF t(1)]) (use t(2) prems(2,3) r(3) L e2(2) in auto)
    moreover have "runP k (loopP (Suc turns) (grep_turn pattern fd) buf) e = runP k (loopP turns (grep_turn pattern fd) buf') e2"
      using c r(1,2) len e2(1) by (simp add: grep_turn_def [of pattern fd buf] runP_bind)
    ultimately show ?thesis using L e2 by (auto simp: selected_def)
  qed
qed simp

lemma grep_run:
  assumes "0 \<notin> set (inp e)" "\<forall>l\<in>set (fst (lines_of (inp e))). length l < GREP_BUF - 1" "length (inp e) < turns"
  shows "\<exists>e'. runP k (grep turns pattern fd) e = (Inr (), e') \<and> out e' = out e @ selected pattern (fst (lines_of (inp e)))"
  using run_grep_loop [of "[]" e turns pattern] assms by (simp add: grep_def GREP_BUF_def)

end

text \<open>
  C16.  However the input is cut into reads, \<open>grep\<close> on an input without NUL bytes whose lines
  are shorter than the buffer ends and prints exactly the lines that match, in order, each
  with its newline.  The text after the last newline is never looked at, so a last line
  without a newline is not printed even when it matches.
\<close>

theorem grep_prints_matching_lines:
  assumes "0 \<notin> set (s_in s)" "\<forall>l\<in>set (fst (lines_of (s_in s))). length l < GREP_BUF - 1"
    "length (s_in s) < turns"
  shows "\<exists>t. runP stream_kernel (grep turns pattern fd) s = (Inr (), t) \<and>
     s_out t = s_out s @ selected pattern (fst (lines_of (s_in s)))"
  using stream.grep_run [OF assms] .

definition demo_grep :: streams where
  "demo_grep = \<lparr>s_in = str ''ab'' @ [NEWLINE] @ str ''cd'' @ [NEWLINE] @ str ''b'', s_cuts = [0, 2], s_out = []\<rparr>"

lemma demo_grep_lines: "lines_of (s_in demo_grep) = ([str ''ab'', str ''cd''], str ''b'')"
  by (simp add: demo_grep_def lines_of.simps str_def NEWLINE_def)

theorem grep_prints_matching_lines_witness:
  "\<exists>t. runP stream_kernel (grep 8 (str ''b$'') 0) demo_grep = (Inr (), t) \<and> s_out t = str ''ab'' @ [NEWLINE]"
proof -
  have s: "selected (str ''b$'') [str ''ab'', str ''cd''] = str ''ab'' @ [NEWLINE]"
    by (simp add: selected_def match_def str_def CARET_def STAR_def DOLLAR_def DOT_def)
  have "s_out demo_grep = []" "0 \<notin> set (s_in demo_grep)" "length (s_in demo_grep) < 8"
    by (simp_all add: demo_grep_def str_def NEWLINE_def)
  then show ?thesis
    using grep_prints_matching_lines [of demo_grep 8 "str ''b$''" 0] unfolding demo_grep_lines fst_conv s
    by (simp add: GREP_BUF_def str_def)
qed

end
