(* ===== verification/Forks.thy ===== *)
theory Forks
  imports Shrun Utils Grep
begin

text \<open>
  Programs that fork: \<open>primes\<close>, \<open>pingpong\<close> and \<open>xargs\<close>.  The parent's \<open>fork\<close> runs the child to its
  end first, which is the order their \<open>wait\<close> leads to; pipes have the size of the kernel's,
  a read of an empty pipe that still has a writer never returns, and \<open>exec\<close> is logged and
  ends the process.
\<close>

section \<open>Processes with pipes\<close>

record world =
  fdt :: "nat \<Rightarrow> ufile option"
  waiting :: "(nat \<Rightarrow> ufile option) list"
  pipes :: "nat \<Rightarrow> byte list"
  npipes :: nat
  tty_in :: "byte list"
  tty_out :: "byte list"
  exec_log :: "(byte list \<times> byte list list) list"

definition has_end :: "ufile \<Rightarrow> world \<Rightarrow> bool" where
  "has_end e w \<longleftrightarrow> (\<exists>f\<in>set (fdt w # waiting w). \<exists>i\<in>set [0..<FDS]. f i = Some e)"

definition free_of :: "(nat \<Rightarrow> ufile option) \<Rightarrow> nat list" where
  "free_of f = filter (\<lambda>i. f i = None) [0..<FDS]"

definition world_read :: "world \<Rightarrow> ufile option \<Rightarrow> nat \<Rightarrow> (resp \<times> world) option" where
  "world_read w f n = (case f of
     Some (PipeR p) \<Rightarrow>
       if pipes w p = [] \<and> has_end (PipeW p) w then None
       else let bs = take n (pipes w p) in
         Some (answer (int (length bs)) bs, w\<lparr>pipes := (pipes w)(p := drop n (pipes w p))\<rparr>)
   | Some Tty \<Rightarrow> let bs = take n (tty_in w) in Some (answer (int (length bs)) bs, w\<lparr>tty_in := drop n (tty_in w)\<rparr>)
   | _ \<Rightarrow> Some (answer (- 1) [], w))"

definition world_write :: "world \<Rightarrow> ufile option \<Rightarrow> byte list \<Rightarrow> (resp \<times> world) option" where
  "world_write w f bs = (case f of
     Some (PipeW p) \<Rightarrow>
       if \<not> has_end (PipeR p) w then Some (answer (- 1) [], w)
       else if length (pipes w p) + length bs > 512 then None
       else Some (answer (int (length bs)) [], w\<lparr>pipes := (pipes w)(p := pipes w p @ bs)\<rparr>)
   | Some Tty \<Rightarrow> Some (answer (int (length bs)) [], w\<lparr>tty_out := tty_out w @ bs\<rparr>)
   | _ \<Rightarrow> Some (answer (- 1) [], w))"

definition world_kernel :: "world \<Rightarrow> call \<Rightarrow> (resp \<times> world) option" where
  "world_kernel w c = (case c of
     CRead fd n \<Rightarrow> world_read w (fdt w (nat fd)) n
   | CWrite fd bs \<Rightarrow> world_write w (fdt w (nat fd)) bs
   | CClose fd \<Rightarrow> Some (answer 0 [], w\<lparr>fdt := (fdt w)(nat fd := None)\<rparr>)
   | CDup fd \<Rightarrow> (case free_of (fdt w) of [] \<Rightarrow> Some (answer (- 1) [], w)
       | i # _ \<Rightarrow> Some (answer (int i) [], w\<lparr>fdt := (fdt w)(i := fdt w (nat fd))\<rparr>))
   | CPipe \<Rightarrow> (case free_of (fdt w) of
         i # j # _ \<Rightarrow> Some ((answer 0 [])\<lparr>rfds := (int i, int j)\<rparr>,
           w\<lparr>fdt := (fdt w)(i := Some (PipeR (npipes w)), j := Some (PipeW (npipes w))), npipes := Suc (npipes w),
             pipes := (pipes w)(npipes w := [])\<rparr>)
       | _ \<Rightarrow> Some (answer (- 1) [], w))
   | CWait \<Rightarrow> Some (answer 1 [], w)
   | CGetpid \<Rightarrow> Some (answer (3 + int (length (waiting w))) [], w)
   | _ \<Rightarrow> Some (answer (- 1) [], w))"

definition leave :: "world \<Rightarrow> world" where
  "leave w = w\<lparr>fdt := hd (waiting w), waiting := tl (waiting w)\<rparr>"

text \<open>A run; \<open>Inl None\<close> is a process that never goes on.\<close>

primrec runF :: "'a prog \<Rightarrow> world \<Rightarrow> (int option + 'a) \<times> world" where
  "runF (Ret x) w = (Inr x, w)"
| "runF (Exits n) w = (Inl (Some n), w)"
| "runF Hang w = (Inl None, w)"
| "runF (Sys c f) w =
     (case c of
        CFork \<Rightarrow>
          (case runF (f (answer 0 [])) (w\<lparr>waiting := fdt w # waiting w\<rparr>) of
             (Inl None, w') \<Rightarrow> (Inl None, w')
           | (_, w') \<Rightarrow> runF (f (answer (4 + int (length (waiting w))) [])) (leave w'))
      | CExec path argv \<Rightarrow> (Inl (Some 0), w\<lparr>exec_log := exec_log w @ [(path, argv)]\<rparr>)
      | _ \<Rightarrow> (case world_kernel w c of None \<Rightarrow> (Inl None, w) | Some (r, w') \<Rightarrow> runF (f r) w'))"

definition tty_world :: "byte list \<Rightarrow> world" where
  "tty_world bs = \<lparr>fdt = (\<lambda>i. if i < 3 then Some Tty else None), waiting = [], pipes = (\<lambda>_. []), npipes = 0,
     tty_in = bs, tty_out = [], exec_log = []\<rparr>"

lemma rbytes_answer [simp]: "rbytes (answer v bs) = bs"
  by (simp add: answer_def)

lemma runF_sys:
  assumes "c \<noteq> CFork" "\<nexists>p a. c = CExec p a" "world_kernel w c = Some (r, w')" shows "runF (Sys c f) w = runF (f r) w'"
  using assms by (cases c) auto

section \<open>Descriptors\<close>

definition std :: "ufile \<Rightarrow> ufile \<Rightarrow> nat \<Rightarrow> ufile option" where
  "std f0 f1 = (\<lambda>i. if i = 0 then Some f0 else if i = 1 then Some f1 else if i = 2 then Some Tty else None)"

definition std_pipe :: "ufile \<Rightarrow> ufile \<Rightarrow> nat \<Rightarrow> nat \<Rightarrow> ufile option" where
  "std_pipe f0 f1 p = (std f0 f1)(3 := Some (PipeR p), 4 := Some (PipeW p))"

lemma fds_upto: "[0..<FDS] = [0, 1, 2, 3, 4, 5, 6, 7, 8, 9, 10, 11, 12, 13, 14, 15]"
  by (simp add: FDS_def upt_rec)

lemma has_end_std:
  "e \<noteq> Tty \<Longrightarrow> (\<exists>i\<in>set [0..<FDS]. std f0 f1 i = Some e) \<longleftrightarrow> f0 = e \<or> f1 = e"
  "e \<noteq> Tty \<Longrightarrow> (\<exists>i\<in>set [0..<FDS]. std_pipe f0 f1 p i = Some e) \<longleftrightarrow> f0 = e \<or> f1 = e \<or> e = PipeR p \<or> e = PipeW p"
  unfolding fds_upto by (auto simp: std_def std_pipe_def)

lemma run_pipe:
  assumes "fdt w = std f0 f1"
  shows "runF (Sys CPipe f) w = runF (f ((answer 0 [])\<lparr>rfds := (3, 4)\<rparr>))
    (w\<lparr>fdt := std_pipe f0 f1 (npipes w), npipes := Suc (npipes w), pipes := (pipes w)(npipes w := [])\<rparr>)"
proof -
  have "free_of (fdt w) = [3, 4, 5, 6, 7, 8, 9, 10, 11, 12, 13, 14, 15]" unfolding free_of_def fds_upto assms by (simp add: std_def)
  then show ?thesis using assms by (simp add: world_kernel_def std_pipe_def)
qed

lemma run_mapping:
  assumes "fdt w = std_pipe f0 f1 p"
  shows "runF (bindP (mapping 1 (3, 4)) g) w = runF (g ()) (w\<lparr>fdt := std f0 (PipeW p)\<rparr>)"
    "runF (bindP (mapping 0 (3, 4)) g) w = runF (g ()) (w\<lparr>fdt := std (PipeR p) f1\<rparr>)"
proof -
  have "free_of ((std_pipe f0 f1 p)(1 := None)) = [1, 5, 6, 7, 8, 9, 10, 11, 12, 13, 14, 15]"
    "free_of ((std_pipe f0 f1 p)(0 := None)) = [0, 5, 6, 7, 8, 9, 10, 11, 12, 13, 14, 15]"
    unfolding free_of_def fds_upto by (simp_all add: std_def std_pipe_def)
  moreover have "(std_pipe f0 f1 p)(1 := std_pipe f0 f1 p 4, 3 := None, 4 := None) = std f0 (PipeW p)"
    "(std_pipe f0 f1 p)(0 := std_pipe f0 f1 p 3, 3 := None, 4 := None) = std (PipeR p) f1"
    by (auto simp: std_def std_pipe_def fun_eq_iff)
  ultimately show "runF (bindP (mapping 1 (3, 4)) g) w = runF (g ()) (w\<lparr>fdt := std f0 (PipeW p)\<rparr>)"
    "runF (bindP (mapping 0 (3, 4)) g) w = runF (g ()) (w\<lparr>fdt := std (PipeR p) f1\<rparr>)"
    using assms by (simp_all add: mapping_def call_def world_kernel_def)
qed

section \<open>Printing\<close>

lemma run_putcs_tty:
  "fdt w 1 = Some Tty \<Longrightarrow> runF (bindP (forP bs (u_putc 1)) g) w = runF (g ()) (w\<lparr>tty_out := tty_out w @ bs\<rparr>)"
proof (induction bs arbitrary: w)
  case (Cons b bs)
  have "world_kernel w (CWrite 1 [b]) = Some (answer 1 [], w\<lparr>tty_out := tty_out w @ [b]\<rparr>)"
    using Cons.prems by (simp add: world_kernel_def world_write_def)
  then show ?case using Cons by (simp add: u_putc_def call_def)
qed simp

definition decimal :: "32 word \<Rightarrow> byte list option" where
  "decimal v = map_option rev (u_printint_buf v 10 True)"

definition prime_line :: "32 word \<Rightarrow> byte list" where
  "prime_line v = (case decimal v of None \<Rightarrow> [] | Some ds \<Rightarrow> str ''prime '' @ ds @ newline)"

lemma forP_append: "forP (xs @ ys) f = bindP (forP xs f) (\<lambda>_. forP ys f)"
  by (induction xs) (simp_all add: bindP_assoc)

lemma printf_prime: "decimal v \<noteq> None \<Longrightarrow> u_printf (str ''prime %d'' @ newline) [UInt v] = forP (prime_line v) (u_putc 1)"
  by (auto simp: decimal_def prime_line_def u_printf_def newline_def str_def u_printint_def forP_append bindP_assoc)

section \<open>Integers in a pipe\<close>

lemma int_bytes_length [simp]: "length (int_bytes x) = 4"
  by (simp add: int_bytes_def)

lemma bytes_int_bytes:
  assumes "length mem = 4" shows "bytes_int (overwrite mem 0 (int_bytes x)) = x"
proof (rule bit_word_eqI)
  fix n assume n: "n < LENGTH(32)"
  have e: "bytes_int (overwrite mem 0 (int_bytes x)) = or (ucast (ucast x :: byte)) (push_bit 8 (or (ucast (ucast (drop_bit 8 x) :: byte))
      (push_bit 8 (or (ucast (ucast (drop_bit 16 x) :: byte)) (push_bit 8 (ucast (ucast (drop_bit 24 x) :: byte)))))))"
    using assms by (simp add: overwrite_def bytes_int_def int_bytes_def upt_rec)
  consider "n < 8" | k where "n = 8 + k" "k < 8" | k where "n = 16 + k" "k < 8" | k where "n = 24 + k" "k < 8"
    using n le_Suc_ex [of 8 n] le_Suc_ex [of 16 n] le_Suc_ex [of 24 n] by fastforce
  then show "bit (bytes_int (overwrite mem 0 (int_bytes x))) n = bit x n"
    unfolding e by cases (simp_all add: bit_simps)
qed

abbreviation ints :: "32 word list \<Rightarrow> byte list" where
  "ints xs \<equiv> concat (map int_bytes xs)"

definition survives :: "32 word \<Rightarrow> 32 word \<Rightarrow> bool" where
  "survives p x \<longleftrightarrow> sint x mod sint p \<noteq> 0"

lemma read_int:
  assumes "fdt w 0 = Some (PipeR a)" "pipes w a = int_bytes x @ rest"
  shows "world_kernel w (CRead 0 4) = Some (answer 4 (int_bytes x), w\<lparr>pipes := (pipes w)(a := rest)\<rparr>)"
proof -
  have "int_bytes x \<noteq> []" by (simp add: int_bytes_def)
  then show ?thesis using assms by (simp add: world_kernel_def world_read_def)
qed

lemma read_eof:
  assumes "fdt w 0 = Some (PipeR a)" "pipes w a = []" "\<not> has_end (PipeW a) w"
  shows "world_kernel w (CRead 0 4) = Some (answer 0 [], w)"
proof -
  have "(pipes w)(a := []) = pipes w" using assms(2) by auto
  then show ?thesis using assms by (simp add: world_kernel_def world_read_def)
qed

lemma write_int:
  assumes "fdt w 1 = Some (PipeW b)" "has_end (PipeR b) w" "length (pipes w b) + 4 \<le> 512"
  shows "world_kernel w (CWrite 1 (int_bytes x)) = Some (answer 4 [], w\<lparr>pipes := (pipes w)(b := pipes w b @ int_bytes x)\<rparr>)"
  using assms by (simp add: world_kernel_def world_write_def)

lemma run_filter:
  assumes "fdt w 0 = Some (PipeR a)" "fdt w 1 = Some (PipeW b)" "a \<noteq> b" "\<not> has_end (PipeW a) w" "has_end (PipeR b) w"
    "pipes w a = ints xs" "length (pipes w b) + 4 * length xs \<le> 512" "length xs < turns" "length mem = 4"
  shows "runF (bindP (primes_filter turns mem p) g) w =
    runF (g ()) (w\<lparr>pipes := (pipes w)(a := [], b := pipes w b @ ints (filter (survives p) xs))\<rparr>)"
  using assms unfolding primes_filter_def
proof (induction xs arbitrary: turns mem w)
  case Nil
  then obtain t where t: "turns = Suc t" by (cases turns) auto
  have "(pipes w)(a := [], b := pipes w b) = pipes w" using Nil.prems(3,6) by auto
  then have e: "w\<lparr>pipes := (pipes w)(a := [], b := pipes w b)\<rparr> = w" by simp
  show ?case unfolding filter.simps list.map concat.simps append_Nil2 e using read_eof [of w a] Nil.prems by (simp add: t filter_turn_def)
next
  case (Cons x xs)
  then obtain t where t: "turns = Suc t" by (cases turns) auto
  have h: "has_end e (w\<lparr>pipes := q\<rparr>) = has_end e w" for e q by (simp add: has_end_def)
  have r: "world_kernel w (CRead 0 4) = Some (answer 4 (int_bytes x), w\<lparr>pipes := (pipes w)(a := ints xs)\<rparr>)"
    by (rule read_int) (use Cons.prems in simp_all)
  have m: "bytes_int (overwrite mem 0 (int_bytes x)) = x" "length (overwrite mem 0 (int_bytes x)) = 4"
    using bytes_int_bytes Cons.prems(9) by (simp_all add: overwrite_def)
  let ?mem = "overwrite mem 0 (int_bytes x)"
  define w1 where "w1 = w\<lparr>pipes := (pipes w)(a := ints xs)\<rparr>"
  define w2 where "w2 = (if survives p x then w\<lparr>pipes := (pipes w)(a := ints xs, b := pipes w b @ int_bytes x)\<rparr> else w1)"
  have wr: "world_kernel w1 (CWrite 1 (int_bytes x)) = Some (answer 4 [], w2)" if "survives p x"
    using write_int [of w1 b x] Cons.prems that by (simp add: w1_def w2_def h)
  have "runF (bindP (loopP turns (filter_turn p) mem) g) w = runF (bindP (loopP t (filter_turn p) ?mem) g) w2"
    using r wr m by (cases "survives p x") (simp_all add: t w1_def [symmetric] w2_def call_def survives_def [symmetric] filter_turn_def [of p mem])
  also have "\<dots> = runF (g ()) (w2\<lparr>pipes := (pipes w2)(a := [], b := pipes w2 b @ ints (filter (survives p) xs))\<rparr>)"
    by (rule Cons.IH) (use Cons.prems m t in \<open>auto simp: w2_def w1_def h\<close>)
  also have "w2\<lparr>pipes := (pipes w2)(a := [], b := pipes w2 b @ ints (filter (survives p) xs))\<rparr> =
      w\<lparr>pipes := (pipes w)(a := [], b := pipes w b @ ints (filter (survives p) (x # xs)))\<rparr>"
    using Cons.prems(3) by (cases "survives p x") (simp_all add: w2_def w1_def fun_upd_def fun_eq_iff cong: if_cong)
  finally show ?case .
qed

section \<open>The sieve\<close>

function sieve :: "32 word list \<Rightarrow> 32 word list" where
  "sieve [] = []"
| "sieve (p # xs) = p # sieve (filter (survives p) xs)"
  by pat_completeness auto
termination
  by (relation "measure length") (simp_all add: le_imp_less_Suc)

lemma run_fork:
  assumes "runF (f (answer 0 [])) (w\<lparr>waiting := fdt w # waiting w\<rparr>) = (Inl (Some n), w')"
  shows "runF (Sys CFork f) w = runF (f (answer (4 + int (length (waiting w))) [])) (leave w')"
  using assms by simp

lemma run_read: "world_kernel w (CRead fd n) = Some (r, w') \<Longrightarrow> runF (Sys (CRead fd n) f) w = runF (f r) w'"
  by simp

text \<open>The two sides of the fork in \<open>primes\<close>.\<close>

definition primes_rest :: "nat \<Rightarrow> nat \<Rightarrow> byte list \<Rightarrow> 32 word \<Rightarrow> int \<Rightarrow> unit prog" where
  "primes_rest depth turns mem x pid = (if pid = 0 then seqP [mapping 1 (3, 4), primes_filter turns mem x]
     else seqP [call CWait, mapping 0 (3, 4), primes depth turns mem])"

lemma run_primes_start:
  assumes "fdt w = std (PipeR a) Tty" "pipes w a = int_bytes x @ ints ys" "decimal x \<noteq> None" "length mem = 4" "a < npipes w"
  shows "runF (bindP (primes (Suc depth) turns mem) g) w = runF (Sys CFork (\<lambda>r. bindP (primes_rest depth turns mem x (rv r)) g))
    (w\<lparr>fdt := std_pipe (PipeR a) Tty (npipes w), npipes := Suc (npipes w), pipes := (pipes w)(a := ints ys, npipes w := []),
       tty_out := tty_out w @ prime_line x\<rparr>)"
proof -
  define w0 where "w0 = w\<lparr>pipes := (pipes w)(a := ints ys), tty_out := tty_out w @ prime_line x\<rparr>"
  have f: "fdt w 0 = Some (PipeR a)" "fdt (w\<lparr>pipes := p\<rparr>) 1 = Some Tty" for p using assms(1) by (simp_all add: std_def)
  define k where "k = (\<lambda>p :: resp. bindP (sys CFork) (\<lambda>pid. bindP (
              if pid = 0 then seqP [mapping 1 (rfds p), primes_filter turns mem x]
              else seqP [call CWait, mapping 0 (rfds p), primes depth turns mem]) g))"
  have "runF (bindP (primes (Suc depth) turns mem) g) w = runF (bindP (forP (prime_line x) (u_putc 1)) (\<lambda>_. Sys CPipe k)) (w\<lparr>pipes := (pipes w)(a := ints ys)\<rparr>)"
    unfolding primes.simps bindP.simps
    by (subst run_read [OF read_int [OF f(1) assms(2)]])
       (simp add: bytes_int_bytes [OF assms(4)] printf_prime [OF assms(3)] bindP_assoc k_def Let_def)
  also have "\<dots> = runF (Sys CPipe k) w0" by (subst run_putcs_tty [OF f(2)]) (simp add: w0_def)
  also have "\<dots> = runF (k ((answer 0 [])\<lparr>rfds := (3, 4)\<rparr>))
    (w0\<lparr>fdt := std_pipe (PipeR a) Tty (npipes w), npipes := Suc (npipes w), pipes := (pipes w0)(npipes w := [])\<rparr>)"
    by (subst run_pipe [of w0 "PipeR a" Tty]) (simp_all add: w0_def assms(1))
  also have "k ((answer 0 [])\<lparr>rfds := (3, 4)\<rparr>) = Sys CFork (\<lambda>r. bindP (primes_rest depth turns mem x (rv r)) g)"
    by (simp add: k_def sys_def primes_rest_def cong: if_cong)
  also have "w0\<lparr>fdt := f, npipes := n, pipes := (pipes w0)(npipes w := [])\<rparr> =
      w\<lparr>fdt := f, npipes := n, pipes := (pipes w)(a := ints ys, npipes w := []), tty_out := tty_out w @ prime_line x\<rparr>" for f n
    by (cases w) (simp add: w0_def)
  finally show ?thesis .
qed

abbreviation quit :: "unit \<Rightarrow> unit prog" where
  "quit \<equiv> (\<lambda>_. Exits 0)"

lemma run_primes_child:
  assumes "fdt w = std_pipe (PipeR a) Tty b" "waiting w = [fdt w]" "a \<noteq> b" "pipes w a = ints ys" "pipes w b = []"
    "length ys \<le> 128" "length ys < turns" "length mem = 4"
  shows "runF (bindP (primes_rest depth turns mem x 0) quit) w =
       (Inl (Some 0), w\<lparr>fdt := std (PipeR a) (PipeW b), pipes := (pipes w)(a := [], b := ints (filter (survives x) ys))\<rparr>)"
proof -
  define w1 where "w1 = w\<lparr>fdt := std (PipeR a) (PipeW b)\<rparr>"
  have e: "has_end q w1 \<longleftrightarrow> q = PipeR a \<or> q = PipeR b \<or> q = PipeW b" if "q \<noteq> Tty" for q
    using has_end_std [OF that] assms(1,2) that by (auto simp: has_end_def w1_def)
  have "runF (bindP (primes_rest depth turns mem x 0) quit) w = runF (bindP (primes_filter turns mem x) quit) w1"
    by (simp add: primes_rest_def bindP_assoc run_mapping [OF assms(1)] w1_def)
  also have "\<dots> = runF (Exits 0) (w1\<lparr>pipes := (pipes w1)(a := [], b := pipes w1 b @ ints (filter (survives x) ys))\<rparr>)"
    by (rule run_filter) (use assms e in \<open>auto simp: w1_def std_def\<close>)
  finally show ?thesis using assms(5) by (simp add: w1_def)
qed

lemma run_primes:
  assumes "fdt w = std (PipeR a) Tty" "waiting w = []" "a < npipes w" "pipes w a = ints xs" "length xs \<le> 128"
    "length xs < turns" "length xs < depth" "\<forall>x\<in>set xs. decimal x \<noteq> None" "length mem = 4"
  shows "\<exists>w'. runF (bindP (primes depth turns mem) quit) w = (Inl (Some 0), w') \<and>
    tty_out w' = tty_out w @ concat (map prime_line (sieve xs))"
  using assms
proof (induction depth arbitrary: w a xs)
  case (Suc depth)
  show ?case
  proof (cases xs)
    case Nil
    have "\<not> has_end (PipeW a) w" using has_end_std(1) [of "PipeW a" "PipeR a" Tty] Suc.prems(1,2) by (simp add: has_end_def)
    then show ?thesis using read_eof [of w a] Suc.prems(1,4) Nil by (simp add: std_def)
  next
    case (Cons x ys)
    define b where "b = npipes w"
    define w1 where "w1 = w\<lparr>fdt := std_pipe (PipeR a) Tty b, npipes := Suc b, pipes := (pipes w)(a := ints ys, b := []), tty_out := tty_out w @ prime_line x\<rparr>"
    define w2 where "w2 = w1\<lparr>waiting := [fdt w1]\<rparr>"
    define w3 where "w3 = w2\<lparr>fdt := std (PipeR a) (PipeW b), pipes := (pipes w2)(a := [], b := ints (filter (survives x) ys))\<rparr>"
    define w4 where "w4 = (leave w3)\<lparr>fdt := std (PipeR b) Tty\<rparr>"
    have ab: "a \<noteq> b" using Suc.prems(3) by (simp add: b_def)
    have start: "runF (bindP (primes (Suc depth) turns mem) quit) w = runF (Sys CFork (\<lambda>r. bindP (primes_rest depth turns mem x (rv r)) quit)) w1"
      unfolding w1_def b_def by (rule run_primes_start) (use Suc.prems Cons in auto)
    have child: "runF (bindP (primes_rest depth turns mem x 0) quit) w2 = (Inl (Some 0), w3)"
      unfolding w3_def by (rule run_primes_child) (use Suc.prems Cons ab in \<open>auto simp: w2_def w1_def\<close>)
    have "runF (Sys CFork (\<lambda>r. bindP (primes_rest depth turns mem x (rv r)) quit)) w1 =
        runF (bindP (primes_rest depth turns mem x 4) quit) (leave w3)"
      using run_fork [of "\<lambda>r. bindP (primes_rest depth turns mem x (rv r)) quit" w1 0 w3] child Suc.prems(2) by (simp add: w2_def w1_def)
    also have "\<dots> = runF (bindP (primes depth turns mem) quit) w4"
      using run_mapping(2) [of "leave w3" "PipeR a" Tty b]
      by (simp add: primes_rest_def bindP_assoc call_def world_kernel_def w4_def leave_def w3_def w2_def w1_def)
    finally have F: "runF (bindP (primes (Suc depth) turns mem) quit) w = runF (bindP (primes depth turns mem) quit) w4"
      by (rule trans [OF start])
    have len: "length (filter (survives x) ys) \<le> length ys" by simp
    have "\<exists>w'. runF (bindP (primes depth turns mem) quit) w4 = (Inl (Some 0), w') \<and>
        tty_out w' = tty_out w4 @ concat (map prime_line (sieve (filter (survives x) ys)))"
    proof (rule Suc.IH [of w4 b])
      show "length (filter (survives x) ys) \<le> 128" "length (filter (survives x) ys) < turns" "length (filter (survives x) ys) < depth"
        using len Suc.prems(5-7) unfolding Cons list.size by linarith+
    qed (use Suc.prems(8,9) Cons in \<open>auto simp: w4_def leave_def w3_def w2_def w1_def\<close>)
    then show ?thesis unfolding F by (simp add: Cons w4_def w3_def w2_def w1_def leave_def)
  qed
qed simp

section \<open>Property: the primes\<close>

lemma run_writes:
  assumes "fdt w 1 = Some (PipeW b)" "has_end (PipeR b) w" "length (pipes w b) + 4 * length xs \<le> 512"
  shows "runF (bindP (forP xs (\<lambda>i. call (CWrite 1 (int_bytes (of_nat i))))) g) w =
    runF (g ()) (w\<lparr>pipes := (pipes w)(b := pipes w b @ ints (map of_nat xs))\<rparr>)"
  using assms
proof (induction xs arbitrary: w)
  case (Cons x xs)
  define w1 where "w1 = w\<lparr>pipes := (pipes w)(b := pipes w b @ int_bytes (of_nat x))\<rparr>"
  have "world_kernel w (CWrite 1 (int_bytes (of_nat x))) = Some (answer 4 [], w1)"
    unfolding w1_def by (rule write_int) (use Cons.prems in simp_all)
  then have "runF (bindP (forP (x # xs) (\<lambda>i. call (CWrite 1 (int_bytes (of_nat i))))) g) w = runF (bindP (forP xs (\<lambda>i. call (CWrite 1 (int_bytes (of_nat i))))) g) w1"
    by (simp add: call_def)
  also have "\<dots> = runF (g ()) (w1\<lparr>pipes := (pipes w1)(b := pipes w1 b @ ints (map of_nat xs))\<rparr>)"
    by (rule Cons.IH) (use Cons.prems in \<open>simp_all add: w1_def has_end_def\<close>)
  also have "w1\<lparr>pipes := (pipes w1)(b := pipes w1 b @ ints (map of_nat xs))\<rparr> =
      w\<lparr>pipes := (pipes w)(b := pipes w b @ ints (map of_nat (x # xs)))\<rparr>" by (simp add: w1_def)
  finally show ?case .
qed simp

definition is_prime :: "nat \<Rightarrow> bool" where
  "is_prime n \<longleftrightarrow> 2 \<le> n \<and> (\<forall>d\<in>{2..<n}. \<not> d dvd n)"

lemma sieve_primes: "sieve (map of_nat [2..<36]) = map of_nat (filter is_prime [2..<36])"
  unfolding survives_def by code_simp

lemma decimals: "\<forall>x\<in>set (map of_nat [2..<36]). decimal x \<noteq> None"
  by code_simp

lemma tty_world_std: "fdt (tty_world inp) = std Tty Tty"
  by (auto simp: tty_world_def std_def fun_eq_iff)

text \<open>
  C12.  \<open>primes\<close> terminates and prints exactly the primes up to 35, one line each and in order:
  the chain of processes that each drop the multiples of one prime, connected by pipes,
  implements the sieve.
\<close>

theorem primes_prints_primes:
  assumes "34 < turns" "34 < depth" "length mem = 4"
  shows "\<exists>w'. runF (primes_main depth turns mem) (tty_world inp) = (Inl (Some 0), w') \<and>
    tty_out w' = concat (map (\<lambda>n. prime_line (of_nat n)) (filter is_prime [2..<36]))"
proof -
  let ?w = "tty_world inp" 
  define us :: "nat list" where "us = [2..<36]"
  let ?xs = "map of_nat us :: 32 word list"
  have us: "length us = 34" unfolding us_def by simp
  define k where "k = (\<lambda>pid :: int. if pid = 0 then seqP [mapping 1 (3, 4), forP us (\<lambda>i. call (CWrite 1 (int_bytes (of_nat i))))]
        else seqP [call CWait, mapping 0 (3, 4), primes depth turns mem])"
  define w1 where "w1 = ?w\<lparr>fdt := std_pipe Tty Tty 0, npipes := 1\<rparr>"
  define w2 where "w2 = w1\<lparr>waiting := [fdt w1]\<rparr>"
  define w3 where "w3 = w2\<lparr>fdt := std Tty (PipeW 0), pipes := (pipes w2)(0 := ints ?xs)\<rparr>"
  define w4 where "w4 = (leave w3)\<lparr>fdt := std (PipeR 0) Tty\<rparr>"
  have "fdt ?w = std Tty Tty" by (rule tty_world_std)
  then have start: "runF (primes_main depth turns mem) ?w = runF (Sys CFork (\<lambda>r. bindP (k (rv r)) quit)) w1"
    unfolding primes_main_def us_def [symmetric]
    by (subst run_pipe [of ?w Tty Tty]) (simp_all add: sys_def k_def w1_def tty_world_def fun_upd_idem Let_def cong: if_cong)
  have e: "has_end (PipeR 0) (w2\<lparr>fdt := std Tty (PipeW 0)\<rparr>)"
    using has_end_std [of "PipeR 0"] by (simp add: has_end_def w2_def w1_def)
  have "runF (bindP (k 0) quit) w2 = runF (bindP (forP us (\<lambda>i. call (CWrite 1 (int_bytes (of_nat i))))) quit) (w2\<lparr>fdt := std Tty (PipeW 0)\<rparr>)"
    unfolding k_def if_P [OF refl] seqP.simps bindP_assoc
    by (subst run_mapping(1) [of w2 Tty Tty 0]) (simp_all add: w2_def w1_def)
  also have "\<dots> = runF (quit ()) ((w2\<lparr>fdt := std Tty (PipeW 0)\<rparr>)\<lparr>pipes := (pipes (w2\<lparr>fdt := std Tty (PipeW 0)\<rparr>))(0 := pipes (w2\<lparr>fdt := std Tty (PipeW 0)\<rparr>) 0 @ ints ?xs)\<rparr>)"
    by (rule run_writes) (use e us in \<open>simp_all add: std_def w2_def w1_def tty_world_def\<close>)
  also have "\<dots> = (Inl (Some 0), w3)" by (simp add: w3_def w2_def w1_def tty_world_def)
  finally have child: "runF (bindP (k 0) quit) w2 = (Inl (Some 0), w3)" .
  have "runF (Sys CFork (\<lambda>r. bindP (k (rv r)) quit)) w1 = runF (bindP (k 4) quit) (leave w3)"
    using run_fork [of "\<lambda>r. bindP (k (rv r)) quit" w1 0 w3] child by (simp add: w2_def w1_def tty_world_def)
  also have "\<dots> = runF (bindP (primes depth turns mem) quit) w4"
    using run_mapping(2) [of "leave w3" Tty Tty 0]
    by (simp add: k_def bindP_assoc call_def world_kernel_def w4_def leave_def w3_def w2_def w1_def)
  finally have F: "runF (primes_main depth turns mem) ?w = runF (bindP (primes depth turns mem) quit) w4" by (rule trans [OF start])
  have "\<exists>w'. runF (bindP (primes depth turns mem) quit) w4 = (Inl (Some 0), w') \<and> tty_out w' = tty_out w4 @ concat (map prime_line (sieve ?xs))"
    by (rule run_primes [of w4 0 ?xs, OF _ _ _ _ _ _ _ decimals [folded us_def] assms(3)])
       (use assms us in \<open>simp_all add: w4_def leave_def w3_def w2_def w1_def tty_world_def\<close>)
  then show ?thesis unfolding F us_def [symmetric] sieve_primes [folded us_def] by (simp add: w4_def leave_def w3_def w2_def w1_def tty_world_def comp_def)
qed

theorem primes_prints_primes_witness:
  "\<exists>w'. runF (primes_main 35 35 [0, 0, 0, 0]) (tty_world []) = (Inl (Some 0), w') \<and>
    tty_out w' = concat (map (\<lambda>n. prime_line (of_nat n)) [2, 3, 5, 7, 11, 13, 17, 19, 23, 29, 31])"
proof -
  have "filter is_prime [2..<36] = [2, 3, 5, 7, 11, 13, 17, 19, 23, 29, 31]" by code_simp
  then show ?thesis using primes_prints_primes [of 35 35 "[0, 0, 0, 0]" "[]"] by simp
qed

section \<open>Property: xargs\<close>

lemma run_xargs_exec:
  "runF (bindP (xargs_exec prog args) g) w = runF (g ()) (w\<lparr>exec_log := exec_log w @ [(prog, args)]\<rparr>)"
proof -
  have "leave (w\<lparr>waiting := fdt w # waiting w, exec_log := l\<rparr>) = w\<lparr>exec_log := l\<rparr>" for l by (cases w) (simp add: leave_def)
  then show ?thesis by (simp add: xargs_exec_def sys_def call_def world_kernel_def)
qed

lemma read_tty:
  "fdt w 0 = Some Tty \<Longrightarrow> tty_in w = c # inp \<Longrightarrow> world_kernel w (CRead 0 1) = Some (answer 1 [c], w\<lparr>tty_in := inp\<rparr>)"
  "fdt w 0 = Some Tty \<Longrightarrow> tty_in w = [] \<Longrightarrow> world_kernel w (CRead 0 1) = Some (answer 0 [], w)"
  by (simp_all add: world_kernel_def world_read_def)

definition xargs_args :: "byte list list \<Rightarrow> byte list \<Rightarrow> byte list \<Rightarrow> byte list \<times> byte list list" where
  "xargs_args first_arg prog line = (prog, (if first_arg = [] then [prog] else first_arg) @ [line])"

lemma split_nl_line: "NEWLINE \<notin> set buf \<Longrightarrow> 0 \<notin> set buf \<Longrightarrow> split_nl (buf @ NEWLINE # rest) = Some (buf, rest)"
  by (induction buf) (auto simp: NEWLINE_def)

lemma run_xargs_loop:
  assumes "fdt w 0 = Some Tty" "NEWLINE \<notin> set buf" "0 \<notin> set (buf @ tty_in w)" "length (tty_in w) < turns" "length buf \<le> 1024"
    "\<forall>l\<in>set (fst (lines_of (buf @ tty_in w))). length l \<le> 1023" "length (snd (lines_of (buf @ tty_in w))) \<le> 1024"
  shows "runF (bindP (loopP turns (xargs_turn first_arg prog) buf) g) w =
    runF (g ()) (w\<lparr>tty_in := [], exec_log := exec_log w @ map (xargs_args first_arg prog) (fst (lines_of (buf @ tty_in w)))\<rparr>)"
  using assms
proof (induction turns arbitrary: buf w)
  case (Suc turns)
  show ?case
  proof (cases "tty_in w")
    case Nil
    have "fst (lines_of buf) = []" using split_nl_None [of buf] Suc.prems(2,3) by (simp add: lines_of.simps [of buf])
    then have "w\<lparr>tty_in := [], exec_log := exec_log w @ map (xargs_args first_arg prog) (fst (lines_of (buf @ tty_in w)))\<rparr> = w"
      using Nil by (cases w) simp
    moreover have "runF (bindP (loopP (Suc turns) (xargs_turn first_arg prog) buf) g) w = runF (g ()) w"
      using read_tty(2) [OF Suc.prems(1) Nil] by (simp add: xargs_turn_def [of _ _ buf])
    ultimately show ?thesis by (simp only:)
  next
    case (Cons c inp)
    define w1 where "w1 = w\<lparr>tty_in := inp\<rparr>"
    have rd: "world_kernel w (CRead 0 1) = Some (answer 1 [c], w1)" unfolding w1_def by (rule read_tty(1) [OF Suc.prems(1) Cons])
    show ?thesis
    proof (cases "c = NEWLINE")
      case True
      have L: "lines_of (buf @ tty_in w) = (buf # fst (lines_of inp), snd (lines_of inp))"
        using split_nl_line [of buf inp] Suc.prems(2,3) by (simp add: Cons True lines_of.simps [of "buf @ _"])
      have tw: "takeWhile (\<lambda>c. c \<noteq> 0) buf = buf" using Suc.prems(3) by (auto simp: takeWhile_eq_all_conv)
      have "runF (bindP (loopP (Suc turns) (xargs_turn first_arg prog) buf) g) w =
          runF (bindP (loopP turns (xargs_turn first_arg prog) []) g) (w1\<lparr>exec_log := exec_log w1 @ [xargs_args first_arg prog buf]\<rparr>)"
        using rd L Suc.prems(6) True by (simp add: xargs_turn_def [of _ _ buf] NEWLINE_def bindP_assoc run_xargs_exec xargs_args_def tw)
      also have "\<dots> = runF (g ()) ((w1\<lparr>exec_log := exec_log w1 @ [xargs_args first_arg prog buf]\<rparr>)\<lparr>tty_in := [],
          exec_log := exec_log w1 @ [xargs_args first_arg prog buf] @ map (xargs_args first_arg prog) (fst (lines_of inp))\<rparr>)"
        using Suc.IH [of "w1\<lparr>exec_log := exec_log w1 @ [xargs_args first_arg prog buf]\<rparr>" "[]"] Suc.prems L Cons by (simp add: w1_def)
      finally show ?thesis using L by (simp add: w1_def)
    next
      case False
      have nn: "NEWLINE \<notin> set (buf @ [c])" using Suc.prems(2) False by simp
      have "length (buf @ [c]) \<le> 1024"
      proof (cases "split_nl ((buf @ [c]) @ inp)")
        case None
        then show ?thesis using Suc.prems(7) Cons by (simp add: lines_of.simps [of "buf @ _"])
      next
        case (Some lr)
        then obtain l r where lr: "split_nl ((buf @ [c]) @ inp) = Some (l, r)" by (cases lr) simp
        then show ?thesis using split_nl_long [OF lr nn] Suc.prems(6) Cons by (auto simp: lines_of.simps [of "buf @ _"])
      qed
      then have "runF (bindP (loopP (Suc turns) (xargs_turn first_arg prog) buf) g) w = runF (bindP (loopP turns (xargs_turn first_arg prog) (buf @ [c])) g) w1"
        using rd False by (simp add: xargs_turn_def [of _ _ buf] NEWLINE_def)
      also have "\<dots> = runF (g ()) (w1\<lparr>tty_in := [], exec_log := exec_log w1 @ map (xargs_args first_arg prog) (fst (lines_of ((buf @ [c]) @ tty_in w1)))\<rparr>)"
        by (rule Suc.IH) (use Suc.prems nn \<open>length (buf @ [c]) \<le> 1024\<close> Cons in \<open>simp_all add: w1_def\<close>)
      finally show ?thesis by (simp add: w1_def Cons)
    qed
  qed
qed simp

text \<open>
  C24.  \<open>xargs\<close> runs the program once for each line of its input, in order: the process started
  for a line executes the program with the given arguments (the program alone if there are
  none) and the line as one more argument.  Text after the last newline starts nothing.
\<close>

theorem xargs_runs_lines:
  assumes "0 \<notin> set inp" "length inp < turns" "\<forall>l\<in>set (fst (lines_of inp)). length l \<le> 1023" "length (snd (lines_of inp)) \<le> 1024"
  shows "\<exists>w. runF (xargs_main turns argv) (tty_world inp) = (Inl (Some 0), w) \<and>
    exec_log w = map (xargs_args (drop 1 argv) (if length argv \<ge> 2 then argv ! 1 else str ''echo'')) (fst (lines_of inp))"
proof -
  have "fdt (tty_world inp) 0 = Some Tty" "tty_in (tty_world inp) = inp" "exec_log (tty_world inp) = []" by (simp_all add: tty_world_def)
  then show ?thesis
    using run_xargs_loop [of "tty_world inp" "[]" turns "drop 1 argv" "if length argv \<ge> 2 then argv ! 1 else str ''echo''" "\<lambda>_. seqP [Exits 0]"] assms
    by (simp add: xargs_main_def xargs_def)
qed

theorem xargs_runs_lines_witness:
  "\<exists>w. runF (xargs_main 8 [str ''xargs'', str ''wc'', str ''-l'']) (tty_world (str ''ab'' @ [10] @ str ''c'' @ [10] @ str ''d'')) = (Inl (Some 0), w) \<and>
    exec_log w = [(str ''wc'', [str ''wc'', str ''-l'', str ''ab'']), (str ''wc'', [str ''wc'', str ''-l'', str ''c''])]"
proof -
  let ?inp = "str ''ab'' @ [10] @ str ''c'' @ [10] @ str ''d''"
  have l: "lines_of ?inp = ([str ''ab'', str ''c''], str ''d'')" by (simp add: lines_of.simps str_def NEWLINE_def)
  show ?thesis
    using xargs_runs_lines [of ?inp 8 "[str ''xargs'', str ''wc'', str ''-l'']"] unfolding l
    by (simp add: str_def xargs_args_def)
qed

end
