(* ===== verification/Copies.thy ===== *)
theory Copies
  imports Utils
begin

text \<open>
  \<open>cat\<close> and \<open>wc\<close> on any kernel that keeps the stream contract of theory \<open>User\<close>: the result does
  not depend on how the input is cut into reads.
\<close>

section \<open>Loops over reads\<close>

text \<open>The words of a text: its longest pieces without white space.\<close>

definition wc_white :: "byte \<Rightarrow> bool" where
  "wc_white b \<longleftrightarrow> b \<in> {32, 13, 9, 10, 11}"

fun word_count :: "bool \<Rightarrow> byte list \<Rightarrow> nat" where
  "word_count inword [] = 0"
| "word_count inword (b # bs) =
     (if wc_white b then word_count False bs else if inword then word_count True bs else Suc (word_count True bs))"

lemma wc_byte_simps:
  "wc_byte b s = s\<lparr>wc_c := wc_c s + 1, wc_l := wc_l s + (if b = 10 then 1 else 0),
     wc_w := wc_w s + (if \<not> wc_white b \<and> \<not> wc_in s then 1 else 0), wc_in := \<not> wc_white b\<rparr>"
  by (cases s) (auto simp: wc_byte_def wc_white_def Let_def)

lemma fold_wc_byte:
  "fold wc_byte bs s = \<lparr>wc_l = wc_l s + of_nat (length (filter (\<lambda>b. b = 10) bs)), wc_w = wc_w s + of_nat (word_count (wc_in s) bs),
     wc_c = wc_c s + of_nat (length bs), wc_in = (if bs = [] then wc_in s else \<not> wc_white (last bs))\<rparr>"
  by (induction bs arbitrary: s) (auto simp: wc_byte_simps wc_white_def)

context stream_io
begin

lemma cat_run:
  "length (inp e) < turns \<Longrightarrow> \<exists>e'. runP k (cat turns fd) e = (Inr (), e') \<and> inp e' = [] \<and> out e' = out e @ inp e"
  unfolding cat_def
proof (induction turns arbitrary: e)
  case (Suc turns)
  obtain r e1 where c: "k e (CRead fd 512) = (r, e1)" by (cases "k e (CRead fd 512)")
  define bs where "bs = rbytes r"
  from read [OF _ c] have r: "rv r = int (length bs)" "rbytes r = bs" "inp e = bs @ inp e1"
    "bs = [] \<longrightarrow> inp e1 = []" "out e1 = out e" unfolding bs_def by simp_all
  show ?case
  proof (cases "bs = []")
    case True
    then show ?thesis using c r by simp
  next
    case False
    obtain r2 e2 where w: "k e1 (CWrite 1 bs) = (r2, e2)" by (cases "k e1 (CWrite 1 bs)")
    have w2: "rv r2 = int (length bs)" "inp e2 = inp e1" "out e2 = out e @ bs" using write_all [OF w] r(5) by simp_all
    have "0 < length bs" using False by simp
    then have "length (inp e2) < turns" using Suc.prems unfolding r(3) w2(2) length_append by linarith
    from Suc.IH [OF this] show ?thesis using c r w w2 False by (simp add: sys_def)
  qed
qed simp

lemma wc_loop_run:
  "length (inp e) < turns \<Longrightarrow> \<exists>e'. runP k (loopP turns (wc_turn fd) s) e = (Inr (fold wc_byte (inp e) s), e') \<and> inp e' = [] \<and> out e' = out e"
proof (induction turns arbitrary: e s)
  case (Suc turns)
  obtain r e1 where c: "k e (CRead fd 512) = (r, e1)" by (cases "k e (CRead fd 512)")
  define bs where "bs = rbytes r"
  from read [OF _ c] have r: "rv r = int (length bs)" "rbytes r = bs" "inp e = bs @ inp e1"
    "bs = [] \<longrightarrow> inp e1 = []" "out e1 = out e" unfolding bs_def by simp_all
  show ?case
  proof (cases "bs = []")
    case True
    then show ?thesis using c r by (simp add: wc_turn_def [of _ s])
  next
    case False
    then have "0 < length bs" by simp
    then have "length (inp e1) < turns" using Suc.prems unfolding r(3) length_append by linarith
    from Suc.IH [OF this, of "fold wc_byte bs s"] show ?thesis using c r False by (simp add: wc_turn_def [of _ s])
  qed
qed simp

lemma wc_run:
  assumes "length (inp e) < turns"
  shows "\<exists>e'. runP k (wc turns fd name) e = runP k (u_printf (str ''%d %d %d %s'' @ newline)
      [UInt (of_nat (length (filter (\<lambda>b. b = 10) (inp e)))), UInt (of_nat (word_count False (inp e))), UInt (of_nat (length (inp e))), UStr (Some name)]) e' \<and>
    inp e' = [] \<and> out e' = out e"
  using wc_loop_run [OF assms, of wc_init] by (auto simp: wc_def runP_bind fold_wc_byte wc_init_def)

end

lemma cat_copies:
  "length (s_in s) < turns \<Longrightarrow> \<exists>t. runP stream_kernel (cat turns fd) s = (Inr (), t) \<and> s_in t = [] \<and> s_out t = s_out s @ s_in s"
  by (rule stream.cat_run)

end
