(* ===== verification/Umalloc.thy ===== *)
theory Umalloc
  imports User
begin

text \<open>
  The memory allocator of user programs, \<^verbatim>\<open>user/umalloc.c\<close>.  Addresses and sizes count units
  of \<open>sizeof(Header)\<close>, 16 bytes; \<open>b\<close> is the address of the static header \<open>base\<close>, which is below
  all memory that \<open>sbrk\<close> gives.  The sizes are natural numbers: a process has far fewer than
  \<open>2 ^ 32\<close> units of memory.  The end of the process memory is a multiple of a unit, as \<open>exec\<close> leaves
  it and the allocator keeps it.  The loops over the free list carry a bound, and \<open>Hang\<close> is a list that
  does not close, or a \<open>free\<close> before the first \<open>malloc\<close>, which follows a null pointer.  The theory shows that the list stays sorted, circular and fully joined, that
  blocks in use never overlap, and that both operations end.
\<close>

section \<open>Operations\<close>

record uheap =
  hptr :: "nat \<Rightarrow> nat"
  hsize :: "nat \<Rightarrow> nat"
  freep :: "nat option"

definition set_ptr :: "nat \<Rightarrow> nat \<Rightarrow> uheap \<Rightarrow> uheap" where
  "set_ptr p q h = h\<lparr>hptr := (hptr h)(p := q)\<rparr>"

definition set_size :: "nat \<Rightarrow> nat \<Rightarrow> uheap \<Rightarrow> uheap" where
  "set_size p n h = h\<lparr>hsize := (hsize h)(p := n)\<rparr>"

text \<open>The search of \<open>free\<close> for the place of the block in the list.\<close>

fun free_find :: "nat \<Rightarrow> uheap \<Rightarrow> nat \<Rightarrow> nat \<Rightarrow> nat option" where
  "free_find 0 h bp p = None"
| "free_find (Suc n) h bp p =
     (if bp > p \<and> bp < hptr h p then Some p
      else if p \<ge> hptr h p \<and> (bp > p \<or> bp < hptr h p) then Some p
      else free_find n h bp (hptr h p))"

definition free_join :: "nat \<Rightarrow> nat \<Rightarrow> uheap \<Rightarrow> uheap" where
  "free_join bp p h0 =
     (let h1 = (if bp + hsize h0 bp = hptr h0 p
          then set_ptr bp (hptr h0 (hptr h0 p)) (set_size bp (hsize h0 bp + hsize h0 (hptr h0 p)) h0)
          else set_ptr bp (hptr h0 p) h0);
          h2 = (if p + hsize h1 p = bp
          then set_ptr p (hptr h1 bp) (set_size p (hsize h1 p + hsize h1 bp) h1)
          else set_ptr p bp h1)
      in h2\<lparr>freep := Some p\<rparr>)"

text \<open>\<open>free\<close> with the address of the header, which is \<open>(Header*)ap - 1\<close>.\<close>

definition u_free :: "nat \<Rightarrow> nat \<Rightarrow> uheap \<Rightarrow> uheap prog" where
  "u_free turns bp h = (case freep h of None \<Rightarrow> Hang
     | Some f \<Rightarrow> (case free_find turns h bp f of None \<Rightarrow> Hang | Some p \<Rightarrow> Ret (free_join bp p h)))"

text \<open>The argument of \<open>sbrk\<close> is an \<open>int\<close>.\<close>

definition sbrk_arg :: "nat \<Rightarrow> int" where
  "sbrk_arg nu = sint (of_nat (nu * 16) :: 32 word)"

definition morecore :: "nat \<Rightarrow> nat \<Rightarrow> uheap \<Rightarrow> (nat option \<times> uheap) prog" where
  "morecore turns nu h =
     (let nu = (if nu < 4096 then 4096 else nu) in
      Sys (CSbrk (sbrk_arg nu)) (\<lambda>r.
        if rv r = - 1 then Ret (None, h)
        else let hp = nat (rv r) div 16 in
          bindP (u_free turns hp (set_size hp nu h)) (\<lambda>h. Ret (freep h, h))))"

text \<open>One turn of the loop of \<open>malloc\<close>: the loop variables are \<open>prevp\<close>, \<open>p\<close> and the heap.\<close>

definition malloc_turn :: "nat \<Rightarrow> nat \<Rightarrow> nat \<times> nat \<times> uheap \<Rightarrow> ((nat \<times> nat \<times> uheap) + (nat option \<times> uheap)) prog" where
  "malloc_turn turns nunits v = (case v of (prevp, p, h) \<Rightarrow>
     if hsize h p \<ge> nunits then
       (let (q, h') = (if hsize h p = nunits then (p, set_ptr prevp (hptr h p) h)
            else let h1 = set_size p (hsize h p - nunits) h; q = p + hsize h1 p in (q, set_size q nunits h1))
        in Ret (Inr (Some (q + 1), h'\<lparr>freep := Some prevp\<rparr>)))
     else if Some p = freep h then
       bindP (morecore turns nunits h) (\<lambda>(r, h).
         case r of None \<Rightarrow> Ret (Inr (None, h)) | Some p \<Rightarrow> Ret (Inl (p, hptr h p, h)))
     else Ret (Inl (p, hptr h p, h)))"

definition malloc :: "nat \<Rightarrow> nat \<Rightarrow> nat \<Rightarrow> uheap \<Rightarrow> (nat option \<times> uheap) prog" where
  "malloc turns b nbytes h =
     (let nunits = (nbytes + 16 - 1) div 16 + 1;
          (prevp, h) = (case freep h of
              None \<Rightarrow> (b, set_size b 0 ((set_ptr b b h)\<lparr>freep := Some b\<rparr>))
            | Some f \<Rightarrow> (f, h))
      in loopP turns (malloc_turn turns nunits) (prevp, hptr h prevp, h))"

section \<open>The free list\<close>

text \<open>
  The nodes of the list from \<open>base\<close> on: they are linked in a circle, sorted by address with a
  gap after each, and \<open>freep\<close> is one of them.
\<close>

definition linked :: "(nat \<Rightarrow> nat) \<Rightarrow> nat list \<Rightarrow> nat \<Rightarrow> bool" where
  "linked f xs e \<longleftrightarrow> map f xs = tl (xs @ [e])"

lemma linked_Nil [simp]: "linked f [] e"
  by (simp add: linked_def)

lemma linked_Cons [simp]: "linked f (x # xs) e \<longleftrightarrow> f x = hd (xs @ [e]) \<and> linked f xs e"
  by (cases xs) (auto simp: linked_def)

lemma linked_append: "linked f (xs @ ys) e \<longleftrightarrow> linked f xs (hd (ys @ [e])) \<and> linked f ys e"
proof (induction xs)
  case (Cons x xs)
  then show ?case by (cases xs; cases ys) auto
qed simp

lemma linked_cong: "\<forall>x\<in>set xs. f x = g x \<Longrightarrow> linked f xs e \<Longrightarrow> linked g xs e"
  by (simp add: linked_def cong: map_cong)

definition free_list :: "nat \<Rightarrow> nat list \<Rightarrow> uheap \<Rightarrow> bool" where
  "free_list b N h \<longleftrightarrow> N \<noteq> [] \<and> hd N = b \<and> linked (hptr h) N b \<and> sorted_wrt (\<lambda>x y. x + hsize h x < y) N \<and>
     hsize h b = 0 \<and> (\<forall>x\<in>set (tl N). 0 < hsize h x) \<and> (\<exists>f\<in>set N. freep h = Some f)"

lemma next_node:
  assumes "free_list b N h" "i < length N" shows "hptr h (N ! i) = (if Suc i < length N then N ! Suc i else b)"
proof -
  have "map (hptr h) N ! i = tl (N @ [b]) ! i" using assms(1) by (simp add: free_list_def linked_def)
  then show ?thesis using assms(2) by (simp add: nth_tl nth_append)
qed

lemma nodes_less: "free_list b N h \<Longrightarrow> i < j \<Longrightarrow> j < length N \<Longrightarrow> N ! i + hsize h (N ! i) < N ! j"
  by (auto simp: free_list_def sorted_wrt_iff_nth_less)

lemma node_0: "free_list b N h \<Longrightarrow> 0 < length N \<and> N ! 0 = b"
  by (auto simp: free_list_def hd_conv_nth)

text \<open>The search ends at the last node before the block, wherever it starts.\<close>

lemma free_find_node:
  assumes F: "free_list b N h" and j: "j < length N" "N ! j < bp" "Suc j < length N \<longrightarrow> bp < N ! Suc j"
  shows "i < length N \<Longrightarrow> (if i \<le> j then j - i else length N - i + j) < n \<Longrightarrow> free_find n h bp (N ! i) = Some (N ! j)"
proof (induction n arbitrary: i)
  case (Suc n)
  note nx = next_node [OF F Suc.prems(1)]
  have bb: "b < bp" using nodes_less [OF F, of 0 j] node_0 [OF F] j by (cases "j = 0") auto
  show ?case
  proof (cases "i = j")
    case True
    have "b \<le> N ! j" using nodes_less [OF F, of 0 j] node_0 [OF F] j by (cases "j = 0") auto
    then show ?thesis using True nx j by auto
  next
    case False
    have lo: "i < j \<Longrightarrow> N ! Suc i \<le> N ! j" using nodes_less [OF F, of "Suc i" j] j by (cases "Suc i = j") auto
    have hi: "j < i \<Longrightarrow> bp < N ! i" using nodes_less [OF F, of "Suc j" i] j Suc.prems(1) by (cases "Suc j = i") auto
    have inc: "Suc i < length N \<Longrightarrow> N ! i < N ! Suc i" using nodes_less [OF F, of i "Suc i"] by simp
    have go: "free_find (Suc n) h bp (N ! i) = free_find n h bp (hptr h (N ! i))"
    proof (cases "i < j")
      case True
      then have "Suc i < length N" using j(1) by simp
      then show ?thesis using nx lo [OF True] j(2) inc by simp
    next
      case i: False
      then have "bp < N ! i" using hi False by simp
      then show ?thesis using nx bb inc by (cases "Suc i < length N") auto
    qed
    show ?thesis
    proof (cases "Suc i < length N")
      case True
      have "free_find n h bp (N ! Suc i) = Some (N ! j)" by (rule Suc.IH [OF True]) (use Suc.prems(2) False True in \<open>auto split: if_splits\<close>)
      then show ?thesis using go nx True by simp
    next
      case last: False
      then have i: "i = length N - 1" "j < i" using Suc.prems(1) j(1) False by auto
      have "free_find n h bp (N ! 0) = Some (N ! j)" by (rule Suc.IH) (use Suc.prems i in auto)
      then show ?thesis using go nx last node_0 [OF F] by simp
    qed
  qed
qed simp

section \<open>Joining a block with its neighbours\<close>

definition units :: "(nat \<Rightarrow> nat) \<Rightarrow> nat set \<Rightarrow> nat set" where
  "units sz X = (\<Union>x\<in>X. {x..<x + sz x})"

lemma units_simps [simp]: "units sz {} = {}" "units sz (insert x X) = {x..<x + sz x} \<union> units sz X" "units sz (X \<union> Y) = units sz X \<union> units sz Y"
  by (auto simp: units_def)

lemma units_disjoint: "units sz X \<inter> B = {} \<longleftrightarrow> (\<forall>x\<in>X. {x..<x + sz x} \<inter> B = {})"
  unfolding units_def by blast

lemma units_cong: "\<forall>x\<in>X. sz x = sz' x \<Longrightarrow> units sz X = units sz' X"
  by (simp add: units_def)

text \<open>The first test of \<open>free\<close> joins the block with the node after it.\<close>

lemma free_join_upper:
  assumes lk: "hptr h p = hd (ys @ [b])" "linked (hptr h) ys b" "sorted_wrt (\<lambda>x y. x + hsize h x < y) ys"
    and bp: "b < bp" "0 < hsize h bp" "\<forall>y\<in>set ys. bp + hsize h bp \<le> y"
  shows "\<exists>zs s1. (if bp + hsize h bp = hptr h p then set_ptr bp (hptr h (hptr h p)) (set_size bp (hsize h bp + hsize h (hptr h p)) h)
          else set_ptr bp (hptr h p) h) = h\<lparr>hptr := (hptr h)(bp := hd (zs @ [b])), hsize := (hsize h)(bp := s1)\<rparr> \<and>
    linked (hptr h) zs b \<and> sorted_wrt (\<lambda>x y. x + hsize h x < y) zs \<and> set zs \<subseteq> set ys \<and> length zs \<le> length ys \<and> (\<forall>z\<in>set zs. bp + s1 < z) \<and> hsize h bp \<le> s1 \<and>
    units (hsize h) (set ys) \<union> {bp..<bp + hsize h bp} = units (hsize h) (set zs) \<union> {bp..<bp + s1}"
proof (cases "bp + hsize h bp = hptr h p")
  case True
  then obtain y zs where ys: "ys = y # zs" using lk(1) bp by (cases ys) auto
  then have y: "y = bp + hsize h bp" using True lk(1) by simp
  have "{y..<y + hsize h y} \<union> {bp..<bp + hsize h bp} = {bp..<bp + (hsize h bp + hsize h y)}" using y by auto
  then have u: "units (hsize h) (set ys) \<union> {bp..<bp + hsize h bp} = units (hsize h) (set zs) \<union> {bp..<bp + (hsize h bp + hsize h y)}"
    using ys by auto
  have n: "hptr h p = y" "hptr h y = hd (zs @ [b])" "linked (hptr h) zs b" "sorted_wrt (\<lambda>x y. x + hsize h x < y) zs"
    "\<forall>z\<in>set zs. y + hsize h y < z" "set zs \<subseteq> set ys" "length zs \<le> length ys" using ys lk by auto
  then have gap: "\<forall>z\<in>set zs. bp + (hsize h bp + hsize h y) < z" using y by (simp add: add.assoc)
  have "(if bp + hsize h bp = hptr h p then set_ptr bp (hptr h (hptr h p)) (set_size bp (hsize h bp + hsize h (hptr h p)) h)
          else set_ptr bp (hptr h p) h) = h\<lparr>hptr := (hptr h)(bp := hd (zs @ [b])), hsize := (hsize h)(bp := hsize h bp + hsize h y)\<rparr>"
    using True n(1,2) by (simp add: set_ptr_def set_size_def)
  then show ?thesis using n(3,4,6,7) gap u le_add1 by blast
next
  case False
  have "\<forall>z\<in>set ys. bp + hsize h bp < z"
  proof (cases ys)
    case (Cons y ws)
    then have "bp + hsize h bp < y" using False lk(1) bp(3) by auto
    then show ?thesis using Cons lk(3) by auto
  qed simp
  then show ?thesis using False lk
    by (intro exI [of _ ys] exI [of _ "hsize h bp"]) (cases h, auto simp: set_ptr_def)
qed

text \<open>The second test joins the result with the node before it.\<close>

lemma free_list_rebuild:
  assumes F: "free_list b (xs @ p # ys) h" and zs: "linked (hptr h) zs b" "sorted_wrt (\<lambda>x y. x + hsize h x < y) zs" "set zs \<subseteq> set ys"
    and bp: "b < bp" "p < bp" "\<forall>y\<in>set ys. bp < y"
    and h': "\<And>x. x \<noteq> bp \<Longrightarrow> x \<noteq> p \<Longrightarrow> hptr h' x = hptr h x \<and> hsize h' x = hsize h x" "freep h' = Some p"
    and M: "M = [p] \<or> M = [p, bp]" "linked (hptr h') M (hd (zs @ [b]))" "sorted_wrt (\<lambda>x y. x + hsize h' x < y) M"
      "\<forall>x\<in>set M. \<forall>z\<in>set zs. x + hsize h' x < z" "hsize h p \<le> hsize h' p" "0 < hsize h' bp" "hsize h' b = 0"
  shows "free_list b (xs @ M @ zs) h' \<and> units (hsize h') (set (xs @ M @ zs)) = units (hsize h) (set xs \<union> set zs) \<union> units (hsize h') (set M)"
proof -
  have so: "sorted_wrt (\<lambda>x y. x + hsize h x < y) xs" "\<forall>x\<in>set xs. x + hsize h x < p" "\<forall>x\<in>set xs. \<forall>y\<in>set ys. x + hsize h x < y" "\<forall>y\<in>set ys. p + hsize h p < y"
    and lk: "linked (hptr h) xs p" and pos: "\<forall>x\<in>set (tl (xs @ p # ys)). 0 < hsize h x"
    using F by (simp_all add: free_list_def sorted_wrt_append linked_append)
  have hd: "hd (xs @ [p]) = b" using F by (cases xs) (simp_all add: free_list_def)
  have nz: "\<forall>x\<in>set xs. x \<noteq> p \<and> x \<noteq> bp" "\<forall>y\<in>set ys. y \<noteq> p \<and> y \<noteq> bp" using so(2,4) bp(2,3) by fastforce+
  have e: "\<forall>x\<in>set xs \<union> set zs. hptr h' x = hptr h x \<and> hsize h' x = hsize h x" using h'(1) nz zs(3) by (metis UnE subsetD)
  have "linked (hptr h') xs p" "linked (hptr h') zs b" using e lk zs(1) linked_cong [of xs "hptr h" "hptr h'" p] linked_cong [of zs "hptr h" "hptr h'" b] by auto
  then have "linked (hptr h') (xs @ M @ zs) b" using M(1,2) by (auto simp: linked_append)
  moreover have "sorted_wrt (\<lambda>x y. x + hsize h' x < y) xs" by (rule sorted_wrt_mono_rel [OF _ so(1)]) (use e in auto)
  moreover have "sorted_wrt (\<lambda>x y. x + hsize h' x < y) zs" by (rule sorted_wrt_mono_rel [OF _ zs(2)]) (use e in auto)
  moreover have "\<forall>x\<in>set xs. \<forall>y\<in>set M \<union> set zs. x + hsize h' x < y" using so(2,3) e M(1) bp(2) zs(3) by fastforce
  moreover have "\<forall>x\<in>set (tl (xs @ M @ zs)). 0 < hsize h' x" using pos e M(1,5,6) subsetD [OF zs(3)] by (cases xs) auto
  moreover have "hd (xs @ M @ zs) = b" "xs @ M @ zs \<noteq> []" "p \<in> set M" using hd M(1) by (cases xs; auto)+
  ultimately have "free_list b (xs @ M @ zs) h'" using M(3,4,7) h'(2) by (auto simp: free_list_def sorted_wrt_append)
  moreover have "units (hsize h') (set xs) = units (hsize h) (set xs)" "units (hsize h') (set zs) = units (hsize h) (set zs)" using e units_cong by simp_all
  ultimately show ?thesis by auto
qed

lemma free_join_list:
  assumes F: "free_list b (xs @ p # ys) h" and bp: "b < bp" "p < bp" "p + hsize h p \<le> bp" "0 < hsize h bp" "\<forall>y\<in>set ys. bp + hsize h bp \<le> y"
  shows "\<exists>N. free_list b N (free_join bp p h) \<and>
    units (hsize (free_join bp p h)) (set N) = units (hsize h) (set (xs @ p # ys)) \<union> {bp..<bp + hsize h bp} \<and>
    length N \<le> Suc (length (xs @ p # ys)) \<and> (\<exists>x\<in>set N. hsize h bp \<le> hsize (free_join bp p h) x) \<and>
    (\<forall>x. x \<noteq> bp \<longrightarrow> x \<noteq> p \<longrightarrow> hsize (free_join bp p h) x = hsize h x)"
proof -
  have lk: "hptr h p = hd (ys @ [b])" "linked (hptr h) ys b" "sorted_wrt (\<lambda>x y. x + hsize h x < y) ys" "\<forall>y\<in>set ys. p + hsize h p < y" "hsize h b = 0"
    using F by (simp_all add: free_list_def linked_append sorted_wrt_append)
  obtain zs s1 where h1: "(if bp + hsize h bp = hptr h p then set_ptr bp (hptr h (hptr h p)) (set_size bp (hsize h bp + hsize h (hptr h p)) h)
          else set_ptr bp (hptr h p) h) = h\<lparr>hptr := (hptr h)(bp := hd (zs @ [b])), hsize := (hsize h)(bp := s1)\<rparr>"
    and zs: "linked (hptr h) zs b" "sorted_wrt (\<lambda>x y. x + hsize h x < y) zs" "set zs \<subseteq> set ys" "length zs \<le> length ys" "\<forall>z\<in>set zs. bp + s1 < z" "hsize h bp \<le> s1"
    and un: "units (hsize h) (set ys) \<union> {bp..<bp + hsize h bp} = units (hsize h) (set zs) \<union> {bp..<bp + s1}"
    using free_join_upper [OF lk(1-3) bp(1,4,5)] by blast
  define h' where "h' = free_join bp p h"
  define M where "M = (if p + hsize h p = bp then [p] else [p, bp])"
  have h': "h' = (if p + hsize h p = bp
      then h\<lparr>hptr := (hptr h)(bp := hd (zs @ [b]), p := hd (zs @ [b])), hsize := (hsize h)(bp := s1, p := hsize h p + s1), freep := Some p\<rparr>
      else h\<lparr>hptr := (hptr h)(bp := hd (zs @ [b]), p := bp), hsize := (hsize h)(bp := s1), freep := Some p\<rparr>)"
    unfolding h'_def free_join_def Let_def h1 using bp(2) by (simp add: set_ptr_def set_size_def)
  have um: "units (hsize h') (set M) = {p..<p + hsize h p} \<union> {bp..<bp + s1}" using bp(2,3) by (auto simp: M_def h')
  have "free_list b (xs @ M @ zs) h' \<and> units (hsize h') (set (xs @ M @ zs)) = units (hsize h) (set xs \<union> set zs) \<union> units (hsize h') (set M)"
  proof (rule free_list_rebuild [OF F zs(1-3) bp(1,2)])
    show "\<forall>y\<in>set ys. bp < y" using bp(4,5) by fastforce
    show "\<forall>x\<in>set M. \<forall>z\<in>set zs. x + hsize h' x < z" using zs(3,5) lk(4) bp(2) by (auto simp: M_def h' add.assoc [symmetric])
    show "hsize h' b = 0" using lk(5) bp by (auto simp: h')
  qed (use zs(6) bp in \<open>auto simp: h' M_def\<close>)
  moreover have "length (xs @ M @ zs) \<le> Suc (length (xs @ p # ys))" "\<exists>x\<in>set (xs @ M @ zs). hsize h bp \<le> hsize h' x" using zs(4,6) bp(2) by (auto simp: M_def h')
  moreover have "\<forall>x. x \<noteq> bp \<longrightarrow> x \<noteq> p \<longrightarrow> hsize h' x = hsize h x" by (simp add: h')
  ultimately show ?thesis using um un unfolding h'_def [symmetric] by (intro exI [of _ "xs @ M @ zs"]) auto
qed

section \<open>The invariant of the allocator\<close>

text \<open>
  \<open>A\<close> are the headers of the blocks in use and \<open>G\<close> the units that \<open>sbrk\<close> gave to the allocator:
  blocks in use do not overlap each other nor the free blocks, and nothing of \<open>G\<close> is lost.
\<close>

definition uinv :: "nat \<Rightarrow> nat list \<Rightarrow> nat set \<Rightarrow> nat set \<Rightarrow> uheap \<Rightarrow> bool" where
  "uinv b N A G h \<longleftrightarrow> free_list b N h \<and> finite A \<and> (\<forall>a\<in>A. 0 < hsize h a) \<and>
     (\<forall>a\<in>A. \<forall>c\<in>A. a \<noteq> c \<longrightarrow> {a..<a + hsize h a} \<inter> {c..<c + hsize h c} = {}) \<and>
     units (hsize h) A \<inter> units (hsize h) (set N) = {} \<and> units (hsize h) A \<union> units (hsize h) (set N) = G \<and> (\<forall>g\<in>G. b < g)"

lemma uinvD:
  assumes "uinv b N A G h"
  shows "free_list b N h" "finite A" "\<And>a. a \<in> A \<Longrightarrow> 0 < hsize h a"
    "\<And>a c. a \<in> A \<Longrightarrow> c \<in> A \<Longrightarrow> a \<noteq> c \<Longrightarrow> {a..<a + hsize h a} \<inter> {c..<c + hsize h c} = {}"
    "units (hsize h) A \<inter> units (hsize h) (set N) = {}" "units (hsize h) A \<union> units (hsize h) (set N) = G" "\<And>g. g \<in> G \<Longrightarrow> b < g"
  using assms unfolding uinv_def by blast+

lemma node_in_units: "free_list b N h \<Longrightarrow> x \<in> set N \<Longrightarrow> x \<noteq> b \<Longrightarrow> x \<in> units (hsize h) (set N)"
  by (cases N) (auto simp: free_list_def units_def intro!: bexI [of _ x])

lemma block_in_units: "a \<in> A \<Longrightarrow> 0 < sz a \<Longrightarrow> {a..<a + sz a} \<subseteq> units sz A"
  by (auto simp: units_def)

lemma block_not_node:
  assumes I: "uinv b N A G h" and "a \<in> A" shows "b < a" "a \<notin> set N"
proof -
  have a: "a \<in> units (hsize h) A" using uinvD(3) [OF I assms(2)] assms(2) by (auto simp: units_def intro!: bexI [of _ a])
  then show "b < a" using uinvD(6,7) [OF I] by blast
  then show "a \<notin> set N" using a uinvD(5) [OF I] node_in_units [OF uinvD(1) [OF I], of a] by blast
qed

text \<open>Where a block belongs in the list.\<close>

lemma node_before:
  assumes F: "free_list b N h" and "b < bp" "bp \<notin> set N"
  shows "\<exists>xs p ys. N = xs @ p # ys \<and> p < bp \<and> (\<forall>y\<in>set ys. bp < y)"
proof -
  define T where "T = takeWhile (\<lambda>x. x < bp) N"
  obtain N' where N: "N = b # N'" using F by (cases N) (auto simp: free_list_def)
  then have "T \<noteq> []" using assms(2) by (simp add: T_def)
  then have "N = butlast T @ last T # dropWhile (\<lambda>x. x < bp) N" 
    by (metis T_def append.assoc append_Cons append_Nil append_butlast_last_id takeWhile_dropWhile_id)
  moreover have "last T < bp" using \<open>T \<noteq> []\<close> set_takeWhileD [OF last_in_set [OF \<open>T \<noteq> []\<close>, unfolded T_def]] by (simp add: T_def)
  moreover have "bp < y" if "y \<in> set (dropWhile (\<lambda>x. x < bp) N)" for y
  proof -
    have "dropWhile (\<lambda>x. x < bp) N \<noteq> []" by (rule notI) (use that in \<open>simp only: list.set empty_iff\<close>)
    then obtain z zs where z: "dropWhile (\<lambda>x. x < bp) N = z # zs" by (meson neq_Nil_conv)
    have "sorted_wrt (\<lambda>x y. x + hsize h x < y) (dropWhile (\<lambda>x. x < bp) N)"
      using F by (metis free_list_def sorted_wrt_append takeWhile_dropWhile_id)
    then have "z \<le> y" using that z by auto
    moreover have "\<not> z < bp" using z by (metis hd_dropWhile list.distinct(1) list.sel(1))
    moreover have "y \<noteq> bp" using that assms(3) set_dropWhileD by fast
    ultimately show ?thesis by simp
  qed
  ultimately show ?thesis by blast
qed

lemma u_free_ok:
  assumes I: "uinv b N A G h" and bp: "bp \<in> A" and n: "length N < turns"
  shows "\<exists>N' h'. u_free turns bp h = Ret h' \<and> uinv b N' (A - {bp}) G h' \<and> length N' \<le> Suc (length N) \<and>
    (\<exists>x\<in>set N'. hsize h bp \<le> hsize h' x) \<and> (\<forall>a\<in>A - {bp}. hsize h' a = hsize h a)"
proof -
  note F = uinvD(1) [OF I] and dis = uinvD(5) [OF I] and G = uinvD(6,7) [OF I] and pw = uinvD(4) [OF I] and pos = uinvD(3) [OF I bp]
  note bu = block_in_units [of bp A "hsize h", OF bp pos]
  note b = block_not_node [OF I bp]
  obtain xs p ys where N: "N = xs @ p # ys" and p: "p < bp" "\<forall>y\<in>set ys. bp < y" using node_before [OF F b] by blast
  have "bp \<in> units (hsize h) A" using bu pos by auto
  then have "bp \<notin> units (hsize h) (set N)" using dis by blast
  then have lo: "p + hsize h p \<le> bp" using p(1) by (force simp: N units_def)
  have hi: "bp + hsize h bp \<le> y" if y: "y \<in> set ys" for y
  proof -
    have "y \<in> units (hsize h) (set N)" using node_in_units [OF F, of y] y p(2) b(1) by (auto simp: N)
    then have "y \<notin> {bp..<bp + hsize h bp}" using bu dis by blast
    then show ?thesis using p(2) y by fastforce
  qed
  obtain i where i: "i < length N" "freep h = Some (N ! i)" using F by (auto simp: free_list_def in_set_conv_nth)
  have "free_find turns h bp (N ! i) = Some (N ! length xs)"
    by (rule free_find_node [OF F]) (use i n p in \<open>auto simp: N nth_append\<close>)
  then have run: "u_free turns bp h = Ret (free_join bp p h)" using i by (simp add: u_free_def N)
  obtain N' where N': "free_list b N' (free_join bp p h)"
      "units (hsize (free_join bp p h)) (set N') = units (hsize h) (set N) \<union> {bp..<bp + hsize h bp}"
      "length N' \<le> Suc (length N)" "\<exists>x\<in>set N'. hsize h bp \<le> hsize (free_join bp p h) x"
      and keep: "\<forall>x. x \<noteq> bp \<longrightarrow> x \<noteq> p \<longrightarrow> hsize (free_join bp p h) x = hsize h x"
    using free_join_list [OF F [unfolded N] b(1) p(1) lo pos] hi unfolding N by blast
  have "p \<notin> A" using block_not_node(2) [OF I, of p] by (auto simp: N)
  then have same: "\<forall>a\<in>A - {bp}. hsize (free_join bp p h) a = hsize h a" using keep by blast
  have uA: "units (hsize h) A = units (hsize h) (A - {bp}) \<union> {bp..<bp + hsize h bp}" using bp by (auto simp: units_def)
  have dbp: "units (hsize h) (A - {bp}) \<inter> {bp..<bp + hsize h bp} = {}" unfolding units_disjoint using pw bp by blast
  have "uinv b N' (A - {bp}) G (free_join bp p h)" unfolding uinv_def
  proof (intro conjI)
    show "\<forall>a\<in>A - {bp}. \<forall>c\<in>A - {bp}. a \<noteq> c \<longrightarrow> {a..<a + hsize (free_join bp p h) a} \<inter> {c..<c + hsize (free_join bp p h) c} = {}"
      using pw same by (metis DiffD1)
    show "units (hsize (free_join bp p h)) (A - {bp}) \<inter> units (hsize (free_join bp p h)) (set N') = {}"
      using dbp dis unfolding N'(2) units_cong [OF same] uA by blast
    show "units (hsize (free_join bp p h)) (A - {bp}) \<union> units (hsize (free_join bp p h)) (set N') = G"
      using G(1) unfolding N'(2) units_cong [OF same] uA by blast
    show "finite (A - {bp})" using uinvD(2) [OF I] by simp
    show "\<forall>a\<in>A - {bp}. 0 < hsize (free_join bp p h) a" using uinvD(3) [OF I] same by simp
  qed (use N'(1) G(2) in blast)+
  then show ?thesis using run N'(3,4) same by blast
qed

text \<open>Taking a block out of a node of the list.\<close>

lemma uinv_take:
  assumes I: "uinv b N A G h" and F: "free_list b N' h'" and same: "\<forall>a\<in>A. hsize h' a = hsize h a" and q: "0 < hsize h' q"
    and u: "{q..<q + hsize h' q} \<union> units (hsize h') (set N') = units (hsize h) (set N)" "{q..<q + hsize h' q} \<inter> units (hsize h') (set N') = {}"
  shows "uinv b N' (insert q A) G h' \<and> q \<notin> A"
proof -
  note uA = units_cong [OF same]
  have d: "units (hsize h) A \<inter> {q..<q + hsize h' q} = {}" "units (hsize h) A \<inter> units (hsize h') (set N') = {}" using uinvD(5) [OF I] u(1) by blast+
  then have da: "\<forall>a\<in>A. {a..<a + hsize h' a} \<inter> {q..<q + hsize h' q} = {}" unfolding units_disjoint using same by simp
  have "q \<notin> A" using d(1) q uinvD(3) [OF I, of q] by (auto simp: units_disjoint)
  moreover have "uinv b N' (insert q A) G h'" unfolding uinv_def
  proof (intro conjI)
    show "\<forall>a\<in>insert q A. \<forall>c\<in>insert q A. a \<noteq> c \<longrightarrow> {a..<a + hsize h' a} \<inter> {c..<c + hsize h' c} = {}"
      using uinvD(4) [OF I] same da by (metis inf_commute insertE)
    show "units (hsize h') (insert q A) \<inter> units (hsize h') (set N') = {}" using d(2) u(2) uA by auto
    show "units (hsize h') (insert q A) \<union> units (hsize h') (set N') = G" using uinvD(6) [OF I] u(1) uA by auto
  qed (use F uinvD(2,3,7) [OF I] same q in auto)
  ultimately show ?thesis by blast
qed

lemma free_list_split:
  assumes F: "free_list b N h" and i: "Suc i < length N"
  shows "N = take i N @ N ! i # N ! Suc i # drop (Suc (Suc i)) N"
  using i by (metis Cons_nth_drop_Suc Suc_lessD append_take_drop_id)

lemma nodes_disjoint:
  assumes "free_list b N h" "N = xs @ p # zs" shows "{p..<p + hsize h p} \<inter> units (hsize h) (set xs \<union> set zs) = {}"
proof -
  have "\<forall>x\<in>set xs. x + hsize h x < p" "\<forall>z\<in>set zs. p + hsize h p < z" using assms by (simp_all add: free_list_def sorted_wrt_append)
  then have "units (hsize h) (set xs \<union> set zs) \<inter> {p..<p + hsize h p} = {}" unfolding units_disjoint by fastforce
  then show ?thesis by blast
qed

lemma free_list_drop:
  assumes F: "free_list b (xs @ r # p # zs) h"
  shows "free_list b (xs @ r # zs) ((set_ptr r (hptr h p) h)\<lparr>freep := Some r\<rparr>)"
proof -
  let ?f = "(hptr h)(r := hptr h p)"
  have so: "\<forall>x\<in>set xs. x < r" "\<forall>z\<in>set zs. r < z" using F by (fastforce simp: free_list_def sorted_wrt_append)+
  have lk: "linked (hptr h) xs r" "linked (hptr h) zs b" "hptr h p = hd (zs @ [b])" using F by (simp_all add: free_list_def linked_append)
  have "linked ?f xs r" by (rule linked_cong [OF _ lk(1)]) (use so in auto)
  moreover have "linked ?f zs b" by (rule linked_cong [OF _ lk(2)]) (use so in auto)
  ultimately have "linked ?f (xs @ r # zs) b" using lk(3) by (simp add: linked_append)
  moreover have "sorted_wrt (\<lambda>x y. x + hsize h x < y) (xs @ r # zs)" using F by (auto simp: free_list_def sorted_wrt_append)
  moreover have "hd (xs @ r # zs) = b" "hsize h b = 0" "\<forall>x\<in>set (tl (xs @ r # zs)). 0 < hsize h x" using F by (cases xs; simp add: free_list_def)+
  ultimately show ?thesis by (simp add: free_list_def set_ptr_def)
qed

lemma free_list_shrink:
  assumes F: "free_list b N h" and "r \<in> set N" and sz: "\<forall>x\<in>set N. f x \<le> hsize h x \<and> (0 < hsize h x \<longrightarrow> 0 < f x)"
  shows "free_list b N (h\<lparr>hsize := f, freep := Some r\<rparr>)"
proof -
  have "sorted_wrt (\<lambda>x y. x + f x < y) N" by (rule sorted_wrt_mono_rel [of _ "\<lambda>x y. x + hsize h x < y"]) (use F sz in \<open>fastforce simp: free_list_def\<close>)+
  moreover have "b \<in> set N" "set (tl N) \<subseteq> set N" using F by (cases N; auto simp: free_list_def)+
  ultimately show ?thesis using F assms(2) sz by (auto simp: free_list_def)
qed

lemma malloc_take:
  assumes I: "uinv b N A G h" and i: "Suc i < length N" and n: "0 < nunits" "nunits \<le> hsize h (N ! Suc i)"
  shows "\<exists>q h' N'. malloc_turn turns nunits (N ! i, N ! Suc i, h) = Ret (Inr (Some (q + 1), h')) \<and>
    uinv b N' (insert q A) G h' \<and> q \<notin> A \<and> hsize h' q = nunits \<and> (\<forall>a\<in>A. hsize h' a = hsize h a)"
proof -
  define xs r p zs where "xs = take i N" and "r = N ! i" and "p = N ! Suc i" and "zs = drop (Suc (Suc i)) N"
  note F = uinvD(1) [OF I]
  have N: "N = (xs @ [r]) @ p # zs" using free_list_split [OF F i] by (simp add: xs_def r_def p_def zs_def)
  have pA: "p \<notin> A" using block_not_node(2) [OF I, of p] by (auto simp: N)
  note dis = nodes_disjoint [OF F N]
  show ?thesis
  proof (cases "hsize h p = nunits")
    case True
    define h' where "h' = (set_ptr r (hptr h p) h)\<lparr>freep := Some r\<rparr>"
    have F': "free_list b (xs @ r # zs) h'" using free_list_drop F unfolding h'_def N by simp
    have "uinv b (xs @ r # zs) (insert p A) G h' \<and> p \<notin> A"
      by (rule uinv_take [OF I F']) (use dis n True in \<open>auto simp: N h'_def set_ptr_def\<close>)
    moreover have "malloc_turn turns nunits (r, p, h) = Ret (Inr (Some (p + 1), h'))" using True by (simp add: malloc_turn_def h'_def)
    ultimately show ?thesis using True by (auto simp: r_def p_def h'_def set_ptr_def)
  next
    case False
    define q where "q = p + (hsize h p - nunits)"
    define h' where "h' = (set_size q nunits (set_size p (hsize h p - nunits) h))\<lparr>freep := Some r\<rparr>"
    let ?f = "(hsize h)(p := hsize h p - nunits, q := nunits)"
    have h': "h' = h\<lparr>hsize := ?f, freep := Some r\<rparr>" by (simp add: h'_def set_size_def)
    have lt: "nunits < hsize h p" using False n(2) by (simp add: p_def)
    have so: "\<forall>x\<in>set (xs @ [r]). x + hsize h x < p" "\<forall>z\<in>set zs. p + hsize h p < z" using F by (simp_all add: N free_list_def sorted_wrt_append)
    have q: "q \<notin> set N" "p < q" "q + nunits = p + hsize h p" using so lt by (fastforce simp: N q_def)+
    have "q \<in> units (hsize h) (set N)" using q(2,3) n(1) by (auto simp: N)
    then have qA: "q \<notin> A" using uinvD(3,5) [OF I] block_in_units [of q A "hsize h"] by fastforce
    have F': "free_list b N h'" unfolding h' by (rule free_list_shrink [OF F]) (use q(1) lt in \<open>auto simp: N\<close>)
    have same: "\<forall>a\<in>A. hsize h' a = hsize h a" using pA qA by (simp add: h') metis
    have hq: "hsize h' q = nunits" by (simp add: h')
    have iv: "{p..<q} \<union> {q..<q + nunits} = {p..<p + hsize h p}" "{p..<q} \<inter> {q..<q + nunits} = {}" using q(2,3) by auto
    have "\<forall>x\<in>set (xs @ [r]) \<union> set zs. hsize h' x = hsize h x" using q(1) so lt by (auto simp: h' N)
    then have "units (hsize h') (set (xs @ [r]) \<union> set zs) = units (hsize h) (set (xs @ [r]) \<union> set zs)" by (rule units_cong)
    moreover have "set N = insert p (set (xs @ [r]) \<union> set zs)" by (auto simp: N)
    moreover have "hsize h' p = hsize h p - nunits" using q(2) by (simp add: h')
    then have "p + hsize h' p = q" by (simp add: q_def)
    ultimately have uN: "units (hsize h') (set N) = {p..<q} \<union> units (hsize h) (set (xs @ [r]) \<union> set zs)"
      "units (hsize h) (set N) = {p..<p + hsize h p} \<union> units (hsize h) (set (xs @ [r]) \<union> set zs)" by (simp_all only: units_simps(2))
    have "uinv b N (insert q A) G h' \<and> q \<notin> A"
      by (rule uinv_take [OF I F' same]; unfold hq uN) (use n(1) iv dis in blast)+
    moreover have "malloc_turn turns nunits (r, p, h) = Ret (Inr (Some (q + 1), h'))" using False lt q(2) by (simp add: malloc_turn_def Let_def h'_def q_def set_size_def)
    ultimately show ?thesis using same hq unfolding r_def p_def by blast
  qed
qed

section \<open>The search of malloc\<close>

lemma next_node_mod:
  assumes "free_list b N h" shows "hptr h (N ! (i mod length N)) = N ! (Suc i mod length N)"
proof -
  have i: "i mod length N < length N" using node_0 [OF assms] by (intro mod_less_divisor) simp
  then have "Suc (i mod length N) \<noteq> length N \<Longrightarrow> Suc (i mod length N) < length N" by linarith
  then show ?thesis using next_node [OF assms i] node_0 [OF assms] by (auto simp: mod_Suc)
qed

lemma nodes_inj: "free_list b N h \<Longrightarrow> i < length N \<Longrightarrow> j < length N \<Longrightarrow> N ! i = N ! j \<longleftrightarrow> i = j"
  using nodes_less [of b N h i j] nodes_less [of b N h j i] by (cases i j rule: linorder_cases) auto

text \<open>The loop passes over nodes that are too small, until it is back at \<open>freep\<close>.\<close>

lemma malloc_walk:
  assumes F: "free_list b N h" and f: "freep h = Some (N ! f)" "f < length N"
  shows "\<forall>t<m. hsize h (N ! ((i + Suc t) mod length N)) < nunits \<and> (i + Suc t) mod length N \<noteq> f \<Longrightarrow>
    loopP (m + n) (malloc_turn turns nunits) (N ! (i mod length N), N ! (Suc i mod length N), h) =
    loopP n (malloc_turn turns nunits) (N ! ((i + m) mod length N), N ! ((i + Suc m) mod length N), h)"
proof (induction m arbitrary: i)
  case (Suc m)
  have L: "0 < length N" using node_0 [OF F] by simp
  have 0: "hsize h (N ! (Suc i mod length N)) < nunits" "Suc i mod length N \<noteq> f" using Suc.prems [rule_format, of 0] by simp_all
  then have "malloc_turn turns nunits (N ! (i mod length N), N ! (Suc i mod length N), h) = Ret (Inl (N ! (Suc i mod length N), N ! (Suc (Suc i) mod length N), h))"
    using f nodes_inj [OF F, of "Suc i mod length N" f] L next_node_mod [OF F, of "Suc i"] by (simp add: malloc_turn_def)
  moreover have "\<forall>t<m. hsize h (N ! ((Suc i + Suc t) mod length N)) < nunits \<and> (Suc i + Suc t) mod length N \<noteq> f"
    using Suc.prems by (metis Suc_less_eq add_Suc add_Suc_right)
  ultimately show ?case using Suc.IH [of "Suc i"] by simp
qed simp

text \<open>The positions after \<open>f\<close>, around the circle.\<close>

lemma round_trip:
  assumes "f < L" shows "Suc t < L \<Longrightarrow> (f + Suc t) mod L \<noteq> f" "j < L \<Longrightarrow> \<exists>m<L. (f + Suc m) mod L = j"
proof -
  show "(f + Suc t) mod L \<noteq> f" if "Suc t < L" using assms that by (cases "f + Suc t < L") (auto simp: mod_if)
  show "\<exists>m<L. (f + Suc m) mod L = j" if "j < L"
  proof (cases "f < j")
    case True
    then show ?thesis using that by (intro exI [of _ "j - f - 1"]) auto
  next
    case False
    then show ?thesis using that assms by (intro exI [of _ "j + L - f - 1"]) (auto simp: mod_if)
  qed
qed

lemma malloc_fits:
  assumes I: "uinv b N A G h" and f: "freep h = Some p" and x: "x \<in> set N" "nunits \<le> hsize h x" and n: "0 < nunits" "length N \<le> n"
  shows "\<exists>q h' N'. loopP n (malloc_turn turns nunits) (p, hptr h p, h) = Ret (Some (q + 1), h') \<and>
    uinv b N' (insert q A) G h' \<and> q \<notin> A \<and> hsize h' q = nunits \<and> (\<forall>a\<in>A. hsize h' a = hsize h a)"
proof -
  note F = uinvD(1) [OF I]
  obtain f where p: "p = N ! f" "f < length N" using F f by (auto simp: free_list_def in_set_conv_nth)
  define P where "P m \<longleftrightarrow> nunits \<le> hsize h (N ! ((f + Suc m) mod length N))" for m
  have ex: "\<exists>m<length N. P m" using x round_trip(2) [OF p(2)] unfolding P_def in_set_conv_nth by metis
  define m where "m = (LEAST m. P m)"
  have m: "P m" "m < length N" "\<forall>t<m. \<not> P t" using ex LeastI [of P] Least_le [of P] not_less_Least [of _ P] unfolding m_def by (meson order_le_less_trans)+
  define i where "i = (f + m) mod length N"
  have P: "nunits \<le> hsize h (N ! (Suc i mod length N))" using m(1) by (simp add: P_def i_def mod_Suc_eq)
  have "hsize h (N ! 0) = 0" using F node_0 [OF F] by (simp add: free_list_def)
  then have "Suc i \<noteq> length N" using P n(1) by (metis mod_self not_le)
  moreover have "i < length N" unfolding i_def using p(2) by (intro mod_less_divisor) linarith
  ultimately have i: "Suc i < length N" "Suc i mod length N = Suc i" by simp_all
  have "loopP (m + (n - m)) (malloc_turn turns nunits) (N ! (f mod length N), N ! (Suc f mod length N), h) =
      loopP (n - m) (malloc_turn turns nunits) (N ! ((f + m) mod length N), N ! ((f + Suc m) mod length N), h)"
    by (rule malloc_walk [OF F f [unfolded p(1)] p(2)]) (use m round_trip(1) [OF p(2)] in \<open>auto simp: P_def\<close>)
  moreover have "(f + Suc m) mod length N = Suc i" using i(2) by (simp add: i_def mod_Suc_eq)
  ultimately have w: "loopP n (malloc_turn turns nunits) (p, hptr h p, h) = loopP (n - m) (malloc_turn turns nunits) (N ! i, N ! Suc i, h)"
    using m(2) n(2) p next_node_mod [OF F, of f] by (simp add: i_def)
  obtain d where d: "n - m = Suc d" using m(2) n(2) by (metis Suc_diff_Suc less_le_trans)
  have "nunits \<le> hsize h (N ! Suc i)" using P i(2) by simp
  from malloc_take [OF I i(1) n(1) this, of turns] show ?thesis unfolding w d by fastforce
qed

lemma malloc_no_fit:
  assumes F: "free_list b N h" and f: "freep h = Some p" and x: "\<forall>x\<in>set N. hsize h x < nunits" and n: "length N \<le> n"
  shows "\<exists>r. loopP n (malloc_turn turns nunits) (p, hptr h p, h) = loopP (n - (length N - 1)) (malloc_turn turns nunits) (r, p, h)"
proof -
  obtain f where p: "p = N ! f" "f < length N" using F f by (auto simp: free_list_def in_set_conv_nth)
  have "hsize h (N ! (i mod length N)) < nunits" for i using x p(2) by (auto intro!: bspec [OF x] nth_mem mod_less_divisor)
  then have "loopP (length N - 1 + (n - (length N - 1))) (malloc_turn turns nunits) (N ! (f mod length N), N ! (Suc f mod length N), h) =
      loopP (n - (length N - 1)) (malloc_turn turns nunits) (N ! ((f + (length N - 1)) mod length N), N ! ((f + Suc (length N - 1)) mod length N), h)"
    by (intro malloc_walk [OF F f [unfolded p(1)] p(2)]) (use round_trip(1) [OF p(2)] in auto)
  moreover have "f + Suc (length N - 1) = f + length N" using p(2) by linarith
  moreover have "(f + length N) mod length N = f" "f mod length N = f" using p(2) by simp_all
  ultimately show ?thesis using n p next_node_mod [OF F, of f] by auto
qed

section \<open>More memory\<close>

lemma uinv_add:
  assumes I: "uinv b N A G h" and hp: "b < hp" "G \<subseteq> {..<hp}" "0 < nu"
  shows "uinv b N (insert hp A) (G \<union> {hp..<hp + nu}) (set_size hp nu h) \<and> hp \<notin> A \<and> (\<forall>a\<in>A. hsize (set_size hp nu h) a = hsize h a)"
proof -
  have uG: "units (hsize h) A \<subseteq> G" "units (hsize h) (set N) \<subseteq> G" using uinvD(6) [OF I] by blast+
  have N: "hp \<notin> set N" using node_in_units [OF uinvD(1) [OF I], of hp] uG hp by fastforce
  have A: "hp \<notin> A" using block_in_units [of hp A "hsize h"] uinvD(3) [OF I, of hp] uG hp by fastforce
  have same: "\<forall>a\<in>A. hsize (set_size hp nu h) a = hsize h a" "\<forall>a\<in>set N. hsize (set_size hp nu h) a = hsize h a" "hsize (set_size hp nu h) hp = nu"
    using N A by (auto simp: set_size_def)
  have da: "\<forall>a\<in>A. {a..<a + hsize h a} \<inter> {hp..<hp + nu} = {}" unfolding units_disjoint [symmetric] using uG(1) hp(2) by fastforce
  have "uinv b N (insert hp A) (G \<union> {hp..<hp + nu}) (set_size hp nu h)" unfolding uinv_def
  proof (intro conjI)
    have "free_list b N (h\<lparr>hsize := hsize (set_size hp nu h), freep := freep h\<rparr>)"
      using uinvD(1) [OF I] free_list_shrink [OF uinvD(1) [OF I], of _ "hsize (set_size hp nu h)"] same(2) by (auto simp: free_list_def)
    then show "free_list b N (set_size hp nu h)" by (simp add: set_size_def)
    show "\<forall>a\<in>insert hp A. \<forall>c\<in>insert hp A. a \<noteq> c \<longrightarrow> {a..<a + hsize (set_size hp nu h) a} \<inter> {c..<c + hsize (set_size hp nu h) c} = {}"
      using uinvD(4) [OF I] same(1,3) da by (metis inf_commute insertE)
    show "units (hsize (set_size hp nu h)) (insert hp A) \<inter> units (hsize (set_size hp nu h)) (set N) = {}"
      unfolding units_simps(2) units_cong [OF same(1)] units_cong [OF same(2)] same(3) using uinvD(5) [OF I] uG(2) hp(2) by fastforce
    show "units (hsize (set_size hp nu h)) (insert hp A) \<union> units (hsize (set_size hp nu h)) (set N) = G \<union> {hp..<hp + nu}"
      unfolding units_simps(2) units_cong [OF same(1)] units_cong [OF same(2)] same(3) using uinvD(6) [OF I] by blast
  qed (use uinvD(2,3,7) [OF I] same hp in auto)
  then show ?thesis using A same(1) by blast
qed

lemma sbrk_arg_small: "nu * 16 < 2 ^ 31 \<Longrightarrow> sbrk_arg nu = int (16 * nu)"
  unfolding sbrk_arg_def by (simp only: signed_of_nat) (simp add: signed_take_bit_int_eq_self)

text \<open>The allocator before its first call, and after.\<close>

definition heap_ok :: "nat \<Rightarrow> nat set \<Rightarrow> nat set \<Rightarrow> uheap \<Rightarrow> bool" where
  "heap_ok b A G h \<longleftrightarrow> (freep h = None \<and> A = {} \<and> G = {}) \<or> (\<exists>N. uinv b N A G h)"

lemma uinv_length:
  assumes I: "uinv b N A G h" shows "length N \<le> Suc (card G)"
proof -
  note F = uinvD(1) [OF I]
  have "distinct N" unfolding distinct_conv_nth using nodes_inj [OF F] by blast
  then have d: "length N = Suc (card (set (tl N)))" "b \<notin> set (tl N)" using node_0 [OF F] by (cases N; auto simp: distinct_card)+
  have "set (tl N) \<subseteq> G" using node_in_units [OF F] d(2) uinvD(6) [OF I] list.set_sel(2) [of N] node_0 [OF F] by fastforce
  moreover have "finite (units (hsize h) A \<union> units (hsize h) (set N))" using uinvD(2) [OF I] by (simp add: units_def)
  ultimately show ?thesis using d(1) card_mono [of G "set (tl N)"] uinvD(6) [OF I] by simp
qed

lemma malloc_start:
  assumes "heap_ok b A G h"
  shows "\<exists>N f h1. malloc turns b nbytes h = loopP turns (malloc_turn turns ((nbytes + 16 - 1) div 16 + 1)) (f, hptr h1 f, h1) \<and>
    uinv b N A G h1 \<and> freep h1 = Some f \<and> (\<forall>a\<in>A. hsize h1 a = hsize h a)"
proof (cases "freep h")
  case None
  let ?h = "set_size b 0 ((set_ptr b b h)\<lparr>freep := Some b\<rparr>)"
  have e: "A = {}" "G = {}" using assms None by (auto simp: heap_ok_def uinv_def free_list_def)
  have "uinv b [b] A G ?h" by (simp add: uinv_def free_list_def e set_size_def set_ptr_def)
  then show ?thesis using None e by (intro exI [of _ "[b]"] exI [of _ b] exI [of _ ?h]) (simp add: malloc_def Let_def set_size_def)
next
  case (Some f)
  then show ?thesis using assms by (auto simp: heap_ok_def malloc_def Let_def)
qed

text \<open>A request of two gigabytes makes the argument of \<open>sbrk\<close> negative.\<close>

lemma sbrk_arg_wraps: "sbrk_arg ((2 ^ 31 + 16 - 1) div 16 + 1) = - 2147483632"
proof -
  have "sbrk_arg ((2 ^ 31 + 16 - 1) div 16 + 1) = sint (2147483664 :: 32 word)" by (simp add: sbrk_arg_def)
  also have "\<dots> = - 2147483632" by code_simp
  finally show ?thesis .
qed

text \<open>
  What the allocator relies on of \<open>sbrk\<close>: it fails and changes nothing, or returns the old end of
  the memory, which it moves up by the size asked for.
\<close>

locale sbrk_kernel =
  fixes k :: "'e \<Rightarrow> call \<Rightarrow> resp \<times> 'e" and lim :: "'e \<Rightarrow> nat" and ok :: "'e \<Rightarrow> bool"
  assumes sbrk: "ok e \<Longrightarrow> 0 < n \<Longrightarrow> n * 16 < 2 ^ 31 \<Longrightarrow> k e (CSbrk (int (16 * n))) = (r, e') \<Longrightarrow>
      ok e' \<and> (rv r = - 1 \<and> lim e' = lim e \<or> rv r = int (16 * lim e) \<and> lim e' = lim e + n)"
begin

lemma morecore_run:
  assumes I: "uinv b N A G h" and e: "ok e" "b < lim e" "G \<subseteq> {..<lim e}" and n: "nunits * 16 < 2 ^ 31" "length N < turns"
  shows "\<exists>r h' e'. runP k (morecore turns nunits h) e = (Inr (r, h'), e') \<and> ok e' \<and>
    (r = None \<and> h' = h \<and> lim e' = lim e \<and> rv (fst (k e (CSbrk (int (16 * max 4096 nunits))))) = - 1 \<or>
     (\<exists>N' G' f. r = Some f \<and> freep h' = Some f \<and> uinv b N' A G' h' \<and> G \<subseteq> G' \<and> G' \<subseteq> {..<lim e'} \<and> lim e \<le> lim e' \<and>
        length N' \<le> Suc (length N) \<and> (\<exists>x\<in>set N'. nunits \<le> hsize h' x) \<and> (\<forall>a\<in>A. hsize h' a = hsize h a)))"
proof -
  define nu where "nu = (if nunits < 4096 then 4096 else nunits)"
  have nu: "0 < nu" "nu * 16 < 2 ^ 31" "nunits \<le> nu" using n(1) by (auto simp: nu_def)
  obtain r e' where r: "k e (CSbrk (int (16 * nu))) = (r, e')" by (cases "k e (CSbrk (int (16 * nu)))")
  show ?thesis
  proof (cases "rv r = - 1")
    case True
    moreover have "max 4096 nunits = nu" by (simp add: nu_def)
    ultimately show ?thesis using sbrk [OF e(1) nu(1,2) r] r by (auto simp: morecore_def nu_def [symmetric] sbrk_arg_small [OF nu(2)] Let_def)
  next
    case False
    then have r': "ok e'" "rv r = int (16 * lim e)" "lim e' = lim e + nu" using sbrk [OF e(1) nu(1,2) r] by auto
    note add = uinv_add [OF I e(2,3) nu(1)]
    obtain N' h' where f: "u_free turns (lim e) (set_size (lim e) nu h) = Ret h'" "uinv b N' (insert (lim e) A - {lim e}) (G \<union> {lim e..<lim e + nu}) h'"
        "length N' \<le> Suc (length N)" "\<exists>x\<in>set N'. hsize (set_size (lim e) nu h) (lim e) \<le> hsize h' x"
        "\<forall>a\<in>insert (lim e) A - {lim e}. hsize h' a = hsize (set_size (lim e) nu h) a"
      using u_free_ok [of b N "insert (lim e) A" _ _ "lim e" turns] add n(2) by blast
    have A: "insert (lim e) A - {lim e} = A" using add by simp
    have fit: "\<exists>x\<in>set N'. nunits \<le> hsize h' x" using f(4) nu(3) by (auto simp: set_size_def intro: order_trans)
    have hp: "nat (rv r) div 16 = lim e" using r'(2) by simp
    have "runP k (morecore turns nunits h) e = (Inr (freep h', h'), e')"
      using False r hp f(1) by (simp add: morecore_def nu_def [symmetric] sbrk_arg_small [OF nu(2)] Let_def)
    moreover obtain p where "freep h' = Some p" using uinvD(1) [OF f(2)] by (auto simp: free_list_def)
    ultimately show ?thesis using r'(1,3) f(2,3,5) fit e(3) add unfolding A by fastforce
  qed
qed

lemma malloc_run:
  assumes H: "heap_ok b A G h" and e: "ok e" "b < lim e" "G \<subseteq> {..<lim e}" and n: "nbytes + 32 \<le> 2 ^ 31" "2 * card G + 4 \<le> turns"
  shows "\<exists>r h' e'. runP k (malloc turns b nbytes h) e = (Inr (r, h'), e') \<and> ok e' \<and> lim e \<le> lim e' \<and> (\<forall>a\<in>A. hsize h' a = hsize h a) \<and>
    (case r of None \<Rightarrow> heap_ok b A G h' \<and> rv (fst (k e (CSbrk (int (16 * max 4096 ((nbytes + 16 - 1) div 16 + 1)))))) = - 1
     | Some p \<Rightarrow> \<exists>q G'. p = q + 1 \<and> q \<notin> A \<and> nbytes \<le> 16 * (hsize h' q - 1) \<and> G \<subseteq> G' \<and> G' \<subseteq> {..<lim e'} \<and> heap_ok b (insert q A) G' h')"
proof -
  define nunits where "nunits = (nbytes + 16 - 1) div 16 + 1"
  have nu: "0 < nunits" "nunits * 16 < 2 ^ 31" "nbytes \<le> 16 * (nunits - 1)" using n(1) by (simp_all add: nunits_def)
  obtain N f h1 where start: "malloc turns b nbytes h = loopP turns (malloc_turn turns nunits) (f, hptr h1 f, h1)"
      and I: "uinv b N A G h1" "freep h1 = Some f" "\<forall>a\<in>A. hsize h1 a = hsize h a"
    using malloc_start [OF H, of turns nbytes] unfolding nunits_def by blast
  note F = uinvD(1) [OF I(1)]
  have len: "length N \<le> turns" "length N < turns" "0 < length N" "Suc (length N) \<le> turns - (length N - 1) - 1" using uinv_length [OF I(1)] n(2) node_0 [OF F] by simp_all
  show ?thesis
  proof (cases "\<exists>x\<in>set N. nunits \<le> hsize h1 x")
    case True
    then obtain x where "x \<in> set N" "nunits \<le> hsize h1 x" by blast
    from malloc_fits [OF I(1,2) this nu(1) len(1), of turns] show ?thesis unfolding start using I(3) e nu(3) by (fastforce simp: heap_ok_def)
  next
    case False
    then have "\<forall>x\<in>set N. hsize h1 x < nunits" by auto
    from malloc_no_fit [OF F I(2) this len(1), of turns] obtain r
      where w0: "malloc turns b nbytes h = loopP (turns - (length N - 1)) (malloc_turn turns nunits) (r, f, h1)" unfolding start by blast
    obtain n' where n': "turns - (length N - 1) = Suc n'" using len(4) by (cases "turns - (length N - 1)") auto
    then have w: "malloc turns b nbytes h = loopP (Suc n') (malloc_turn turns nunits) (r, f, h1)" "Suc (length N) \<le> n'" using w0 len(4) by simp_all
    have f: "hsize h1 f < nunits" using False F I(2) by (auto simp: free_list_def)
    then have turn: "malloc_turn turns nunits (r, f, h1) = bindP (morecore turns nunits h1) (\<lambda>(r, h). case r of None \<Rightarrow> Ret (Inr (None, h)) | Some p \<Rightarrow> Ret (Inl (p, hptr h p, h)))"
      using I(2) by (simp add: malloc_turn_def)
    obtain r2 h2 e2 where m: "runP k (morecore turns nunits h1) e = (Inr (r2, h2), e2)" "ok e2"
      and more: "r2 = None \<and> h2 = h1 \<and> lim e2 = lim e \<and> rv (fst (k e (CSbrk (int (16 * max 4096 nunits))))) = - 1 \<or> (\<exists>N' G' f. r2 = Some f \<and> freep h2 = Some f \<and> uinv b N' A G' h2 \<and> G \<subseteq> G' \<and> G' \<subseteq> {..<lim e2} \<and>
        lim e \<le> lim e2 \<and> length N' \<le> Suc (length N) \<and> (\<exists>x\<in>set N'. nunits \<le> hsize h2 x) \<and> (\<forall>a\<in>A. hsize h2 a = hsize h1 a))"
      using morecore_run [OF I(1) e nu(2) len(2)] by blast
    from more show ?thesis
    proof (elim disjE exE conjE)
      assume c: "r2 = None" "h2 = h1" "lim e2 = lim e" "rv (fst (k e (CSbrk (int (16 * max 4096 nunits))))) = - 1"
      have "runP k (malloc turns b nbytes h) e = (Inr (None, h1), e2)" using m(1) c(1,2) by (simp add: w(1) turn runP_bind)
      moreover have "heap_ok b A G h1" using I(1) by (auto simp: heap_ok_def)
      ultimately show ?thesis using c(3,4) m(2) I(3) unfolding nunits_def [symmetric]
        by (intro exI [of _ None] exI [of _ h1] exI [of _ e2]) (simp only: option.case order_refl)
    next
      fix N' G' f' assume c: "r2 = Some f'" "freep h2 = Some f'" "uinv b N' A G' h2" "G \<subseteq> G'" "G' \<subseteq> {..<lim e2}" "lim e \<le> lim e2"
        "length N' \<le> Suc (length N)" "\<exists>x\<in>set N'. nunits \<le> hsize h2 x" "\<forall>a\<in>A. hsize h2 a = hsize h1 a"
      then obtain x where x: "x \<in> set N'" "nunits \<le> hsize h2 x" by blast
      have "length N' \<le> n'" using c(7) w(2) by simp
      from malloc_fits [OF c(3,2) x nu(1) this, of turns] obtain q h' N''
        where q: "loopP n' (malloc_turn turns nunits) (f', hptr h2 f', h2) = Ret (Some (q + 1), h')" "uinv b N'' (insert q A) G' h'" "q \<notin> A"
          "hsize h' q = nunits" "\<forall>a\<in>A. hsize h' a = hsize h2 a" by blast
      have run: "runP k (malloc turns b nbytes h) e = (Inr (Some (q + 1), h'), e2)" using m(1) c(1) q(1) by (simp add: w(1) turn runP_bind)
      have same: "\<forall>a\<in>A. hsize h' a = hsize h a" using q(5) c(9) I(3) by simp
      have "heap_ok b (insert q A) G' h'" using q(2) by (auto simp: heap_ok_def)
      then have "\<exists>q' G''. q + 1 = q' + 1 \<and> q' \<notin> A \<and> nbytes \<le> 16 * (hsize h' q' - 1) \<and> G \<subseteq> G'' \<and> G'' \<subseteq> {..<lim e2} \<and> heap_ok b (insert q' A) G'' h'"
        using c(4,5) q(3,4) nu(3) by blast
      then show ?thesis using run m(2) c(6) same by (intro exI [of _ "Some (q + 1)"] exI [of _ h'] exI [of _ e2]) (simp only: option.case)
    qed
  qed
qed

end

section \<open>The properties\<close>

text \<open>
  \<open>sbrk\<close> as a process sees it: the process has \<open>brk_size\<close> bytes and can have \<open>brk_max\<close>.  A
  shrinking below zero is ignored, as \<open>uvmdealloc\<close> does; the result is an \<open>int\<close>.
\<close>

record brk =
  brk_size :: nat
  brk_max :: nat

definition brk_kernel :: "brk \<Rightarrow> call \<Rightarrow> resp \<times> brk" where
  "brk_kernel s c = (case c of
     CSbrk n \<Rightarrow>
       let addr = sint (of_nat (brk_size s) :: 32 word) in
       if 0 < n \<and> int (brk_size s) + n > int (brk_max s) then (answer (- 1) [], s)
       else if int (brk_size s) + n < 0 then (answer addr [], s)
       else (answer addr [], s\<lparr>brk_size := nat (int (brk_size s) + n)\<rparr>)
   | _ \<Rightarrow> (answer (- 1) [], s))"

definition brk_aligned :: "brk \<Rightarrow> bool" where
  "brk_aligned s \<longleftrightarrow> brk_size s mod 16 = 0 \<and> brk_size s \<le> brk_max s \<and> brk_max s < 2 ^ 31"

lemma brk_refuses:
  assumes "brk_aligned s" "rv (fst (brk_kernel s (CSbrk (int n)))) = - 1" shows "brk_max s < brk_size s + n"
proof -
  have "sint (of_nat (brk_size s) :: 32 word) = int (brk_size s)"
    using assms(1) by (simp only: signed_of_nat) (simp add: brk_aligned_def signed_take_bit_int_eq_self)
  then show ?thesis using assms(2) by (auto simp: brk_kernel_def answer_def Let_def split: if_splits)
qed

interpretation brk: sbrk_kernel brk_kernel "\<lambda>s. brk_size s div 16" brk_aligned
proof (unfold_locales, goal_cases)
  case (1 e n r e')
  define z where "z = brk_size e div 16"
  have z: "brk_size e = 16 * z" "16 * z < 2 ^ 31" using 1(1) by (auto simp: brk_aligned_def z_def)
  have "sint (of_nat (16 * z) :: 32 word) = int (16 * z)" using z(2) by (simp only: signed_of_nat) (simp add: signed_take_bit_int_eq_self)
  then have k: "brk_kernel e (CSbrk (int (16 * n))) = (if brk_max e < 16 * (z + n) then (answer (- 1) [], e) else (answer (int (16 * z)) [], e\<lparr>brk_size := 16 * (z + n)\<rparr>))"
    using 1(2) by (auto simp: brk_kernel_def Let_def z nat_add_distrib nat_mult_distrib)
  show ?case
  proof (cases "brk_max e < 16 * (z + n)")
    case True
    then show ?thesis using 1(1,4) k by (auto simp: answer_def)
  next
    case False
    then have "r = answer (int (16 * z)) []" "e' = e\<lparr>brk_size := 16 * (z + n)\<rparr>" using 1(4) k by auto
    then show ?thesis using False 1(1) by (simp add: answer_def brk_aligned_def z)
  qed
qed

text \<open>
  C13.  \<open>malloc\<close> returns, however the free list is split: with null only when \<open>sbrk\<close> refuses more memory,
  the heap being as good as before, or with the address after the header of a new block that has
  room for the bytes asked for, overlaps no block in use and lies in memory obtained from \<open>sbrk\<close>.
  Blocks in use keep their sizes and none of the memory is lost; the free list is never
  longer than the units in it, so \<open>2 * card G + 4\<close> turns are enough.
\<close>

theorem malloc_fresh_block:
  assumes "heap_ok b A G h" "brk_aligned e" "b < brk_size e div 16" "G \<subseteq> {..<brk_size e div 16}" "nbytes + 32 \<le> 2 ^ 31" "2 * card G + 4 \<le> turns"
  shows "\<exists>r h' e'. runP brk_kernel (malloc turns b nbytes h) e = (Inr (r, h'), e') \<and> brk_aligned e' \<and> brk_size e div 16 \<le> brk_size e' div 16 \<and>
    (\<forall>a\<in>A. hsize h' a = hsize h a) \<and>
    (case r of None \<Rightarrow> heap_ok b A G h' \<and> brk_max e < brk_size e + 16 * max 4096 ((nbytes + 16 - 1) div 16 + 1)
     | Some p \<Rightarrow> \<exists>q G'. p = q + 1 \<and> q \<notin> A \<and> nbytes \<le> 16 * (hsize h' q - 1) \<and> G \<subseteq> G' \<and> G' \<subseteq> {..<brk_size e' div 16} \<and> heap_ok b (insert q A) G' h')"
proof -
  obtain r h' e' where m: "runP brk_kernel (malloc turns b nbytes h) e = (Inr (r, h'), e')" "brk_aligned e'" "brk_size e div 16 \<le> brk_size e' div 16"
      "\<forall>a\<in>A. hsize h' a = hsize h a"
    and c: "case r of None \<Rightarrow> heap_ok b A G h' \<and> rv (fst (brk_kernel e (CSbrk (int (16 * max 4096 ((nbytes + 16 - 1) div 16 + 1)))))) = - 1
     | Some p \<Rightarrow> \<exists>q G'. p = q + 1 \<and> q \<notin> A \<and> nbytes \<le> 16 * (hsize h' q - 1) \<and> G \<subseteq> G' \<and> G' \<subseteq> {..<brk_size e' div 16} \<and> heap_ok b (insert q A) G' h'"
    using brk.malloc_run [OF assms] by blast
  have "heap_ok b A G h' \<and> brk_max e < brk_size e + 16 * max 4096 ((nbytes + 16 - 1) div 16 + 1)" if "r = None"
    using c brk_refuses [OF assms(2)] unfolding that option.case by blast
  then have "case r of None \<Rightarrow> heap_ok b A G h' \<and> brk_max e < brk_size e + 16 * max 4096 ((nbytes + 16 - 1) div 16 + 1)
     | Some p \<Rightarrow> \<exists>q G'. p = q + 1 \<and> q \<notin> A \<and> nbytes \<le> 16 * (hsize h' q - 1) \<and> G \<subseteq> G' \<and> G' \<subseteq> {..<brk_size e' div 16} \<and> heap_ok b (insert q A) G' h'"
    using c by (cases r) simp_all
  then show ?thesis using m by blast
qed

definition heap0 :: uheap where
  "heap0 = \<lparr>hptr = (\<lambda>_. 0), hsize = (\<lambda>_. 0), freep = None\<rparr>"

theorem malloc_fresh_block_witness:
  "heap_ok 64 {} {} heap0 \<and> (\<exists>r h' e'. runP brk_kernel (malloc 4 64 100 heap0) \<lparr>brk_size = 16384, brk_max = 1048576\<rparr> = (Inr (r, h'), e') \<and> brk_aligned e')"
proof
  show h: "heap_ok 64 {} {} heap0" by (simp add: heap_ok_def heap0_def)
  show "\<exists>r h' e'. runP brk_kernel (malloc 4 64 100 heap0) \<lparr>brk_size = 16384, brk_max = 1048576\<rparr> = (Inr (r, h'), e') \<and> brk_aligned e'"
    using malloc_fresh_block [OF h, of "\<lparr>brk_size = 16384, brk_max = 1048576\<rparr>" 100 4] by (auto simp: brk_aligned_def)
qed

text \<open>
  C25.  \<open>free\<close> of a block in use returns it: the invariant holds without the block, the other blocks keep
  their sizes, no memory is lost, and a \<open>malloc\<close> of at most the size of the block then succeeds
  without asking the kernel for memory.
\<close>

theorem free_returns_block:
  assumes "heap_ok b A G h" "bp \<in> A" "card G + 2 \<le> turns"
  shows "\<exists>h'. u_free turns bp h = Ret h' \<and> heap_ok b (A - {bp}) G h' \<and> (\<forall>a\<in>A - {bp}. hsize h' a = hsize h a) \<and>
    (\<forall>nbytes. (nbytes + 16 - 1) div 16 + 1 \<le> hsize h bp \<longrightarrow> (\<exists>p h''. malloc turns b nbytes h' = Ret (Some p, h'')))"
proof -
  obtain N where I: "uinv b N A G h" using assms(1,2) by (auto simp: heap_ok_def)
  obtain N' h' x where f: "u_free turns bp h = Ret h'" "uinv b N' (A - {bp}) G h'" "x \<in> set N'" "hsize h bp \<le> hsize h' x" "\<forall>a\<in>A - {bp}. hsize h' a = hsize h a"
    using u_free_ok [OF I assms(2), of turns] uinv_length [OF I] assms(3) by fastforce
  obtain p where p: "freep h' = Some p" using uinvD(1) [OF f(2)] by (auto simp: free_list_def)
  have "\<exists>q h''. malloc turns b nbytes h' = Ret (Some (q + 1), h'')" if "(nbytes + 16 - 1) div 16 + 1 \<le> hsize h bp" for nbytes
    using malloc_fits [OF f(2) p f(3), of "(nbytes + 16 - 1) div 16 + 1" turns turns] that f(4) uinv_length [OF f(2)] assms(3) p
    by (fastforce simp: malloc_def Let_def)
  moreover have "heap_ok b (A - {bp}) G h'" using f(2) by (auto simp: heap_ok_def)
  ultimately show ?thesis using f(1,5) by blast
qed

text \<open>A heap with a free block of three units and a block of two units in use.\<close>

definition heap1 :: uheap where
  "heap1 = \<lparr>hptr = (\<lambda>_. 0)(1 := 4, 4 := 1), hsize = (\<lambda>_. 0)(4 := 3, 7 := 2), freep = Some 1\<rparr>"

theorem free_returns_block_witness:
  "heap_ok 1 {7} {4..<9} heap1 \<and> (\<exists>h'. u_free 7 7 heap1 = Ret h' \<and> heap_ok 1 {} {4..<9} h' \<and> (\<exists>p h''. malloc 7 1 16 h' = Ret (Some p, h'')))"
proof
  have "uinv 1 [1, 4] {7} {4..<9} heap1" by (auto simp: uinv_def free_list_def heap1_def)
  then show h: "heap_ok 1 {7} {4..<9} heap1" by (auto simp: heap_ok_def)
  show "\<exists>h'. u_free 7 7 heap1 = Ret h' \<and> heap_ok 1 {} {4..<9} h' \<and> (\<exists>p h''. malloc 7 1 16 h' = Ret (Some p, h''))"
    using free_returns_block [OF h, of 7 7] by (fastforce simp: heap1_def)
qed

end
