(* ===== verification/Spec2Isabelle.thy ===== *)
theory Spec2Isabelle
  imports Boot Terminal Pipes Procs Namei Numerals Shparse Forks Copies Umalloc
begin

text \<open>
  Verification of the xv6 teaching kernel for RISC-V and of its user programs: the C code under
  \<^verbatim>\<open>src/kernel\<close> and \<^verbatim>\<open>src/user\<close>.

  \<^bold>\<open>The program and its parts.\<close>  The kernel serves user processes through system calls.
  A trap from user space enters \<open>usertrap\<close> (\<^verbatim>\<open>trap.c\<close>), which dispatches through the table
  of \<^verbatim>\<open>syscall.c\<close> to \<^verbatim>\<open>sysproc.c\<close> and \<^verbatim>\<open>sysfile.c\<close>, or serves an interrupt of the UART, the
  disk or the timer.  Below the calls there are two stacks.  Processes (\<^verbatim>\<open>proc.c\<close>, \<^verbatim>\<open>exec.c\<close>)
  use page tables (\<^verbatim>\<open>vm.c\<close>), which take their pages from the page allocator (\<^verbatim>\<open>kalloc.c\<close>).
  Open files (\<^verbatim>\<open>file.c\<close>) are pipes (\<^verbatim>\<open>pipe.c\<close>), devices (\<^verbatim>\<open>console.c\<close>, \<^verbatim>\<open>uart.c\<close>) or inodes
  (\<^verbatim>\<open>fs.c\<close>); inodes live in blocks that the log (\<^verbatim>\<open>log.c\<close>) makes atomic, the buffer cache
  (\<^verbatim>\<open>bio.c\<close>) keeps in memory and the driver (\<^verbatim>\<open>virtio_disk.c\<close>) moves to and from the disk.
  Everything is synchronised by spinlocks, sleep-locks and \<open>sleep\<close>/\<open>wakeup\<close>.  User programs see
  only the calls of \<^verbatim>\<open>user.h\<close>.

  \<^bold>\<open>How kernel code is modelled.\<close>  One definition per C function, in the monad of theory
  \<open>Prelude\<close>: a run takes the kernel state and a schedule, the list of the interferences of other
  harts and processes, and ends with \<open>Done\<close>, \<open>Panic\<close> or \<open>Stuck\<close>.  An interference is consumed at
  a context switch and by each turn of a spin loop, so that all a thread can observe of the others
  is a parameter of the theorem.  The state is a record that each component extends:
  \<open>base\<close> (harts and locks), processes, memory, the cache, the log, inodes, devices, files, traps.
  Machine integers keep their width (\<open>32 word\<close>, \<open>64 word\<close>); \<open>int\<close> results are read with
  \<open>sint\<close>.  Physical memory is one function from addresses to bytes: free lists, page tables,
  trapframes and pipes are read from and written to its bytes at the offsets of the C structures.
  On-disk structures are bytes of blocks in the same way.  Properties are stated with \<open>wp\<close>, total
  correctness: the code returns, with neither a panic nor a loop that has not ended.

  \<^bold>\<open>How user programs are modelled.\<close>  Theory \<open>User\<close>: a program is a tree of system calls that
  ends with a value, an exit status or \<open>Hang\<close>, and \<open>runP\<close> runs it on a kernel, a function from
  calls to answers and new states.  \<open>stream_io\<close> is the contract of \<open>read\<close> and \<open>write\<close> that the
  text utilities rely on, with an input cut into reads in any way; \<open>Shrun\<close> has a kernel with one
  descriptor table, and \<open>Forks\<close> one with processes, pipes and a terminal.

  \<^bold>\<open>Theories and sources.\<close>
  \<^item> \<open>Prelude\<close>, \<open>Ring\<close>: the monad and its rules; circular buffers with wrapping counters, proved
    once as bounded queues (locales \<open>ring\<close> and \<open>editable_ring\<close>) and interpreted on the UART, console
    and pipe buffers.
  \<^item> \<open>Spinlock\<close> (\<^verbatim>\<open>spinlock.c\<close>), \<open>Sched\<close> (the scheduling part of \<^verbatim>\<open>proc.c\<close>), \<open>Sleeplock\<close>
    (\<^verbatim>\<open>sleeplock.c\<close>): mutual exclusion over all interleavings of harts, no lost wakeup,
    waiting for a sleep-lock however often it is found taken again, the exact effect of \<open>wakeup\<close> and \<open>kill\<close>.
  \<^item> \<open>Kstring\<close> (\<^verbatim>\<open>string.c\<close>), \<open>Page\<close> (\<^verbatim>\<open>riscv.h\<close>, \<^verbatim>\<open>memlayout.h\<close>), \<open>Kalloc\<close> (\<^verbatim>\<open>kalloc.c\<close>,
    locale \<open>page_allocator\<close>), \<open>Pagetable\<close> and \<open>Vm\<close> (\<^verbatim>\<open>vm.c\<close>): overlapping copies, conservation of
    pages under any sequence of calls, page tables as maps from virtual addresses to entries,
    copies between kernel and user memory.
  \<^item> \<open>Procmem\<close>, \<open>Proc\<close>, \<open>Procs\<close> (the rest of \<^verbatim>\<open>proc.c\<close>): slots, address spaces, \<open>fork\<close>, \<open>exit\<close>,
    \<open>wait\<close>, and what \<open>kill(0)\<close> does to an unused slot.
  \<^item> \<open>Bio\<close> and \<open>Bcache\<close> (\<^verbatim>\<open>bio.c\<close>): the cache as a map from blocks to contents, with the
    least-recently-used list as linked pointers.
  \<^item> \<open>Log\<close>, \<open>Journal\<close>, \<open>Recovery\<close>, \<open>Crash\<close>, \<open>Transact\<close> (\<^verbatim>\<open>log.c\<close>): the order of the disk writes,
    atomicity under a crash after any of them and during recovery, group commit, reservations.
  \<^item> \<open>Fs\<close>, \<open>Inode\<close>, \<open>Itable\<close>, \<open>Dinode\<close>, \<open>Paths\<close>, \<open>Dirs\<close>, \<open>Namei\<close> (\<^verbatim>\<open>fs.c\<close>): files as byte
    sequences, the inode table as a cache of the disk, directories as lists of entries, path
    resolution as a walk through the tree on disk.
  \<^item> \<open>Uart\<close>, \<open>Printf\<close>, \<open>Console\<close>, \<open>Terminal\<close> (\<^verbatim>\<open>uart.c\<close>, \<^verbatim>\<open>printf.c\<close>, \<^verbatim>\<open>console.c\<close>): output in
    order and the line discipline.  The device is a parameter: the answer to a history of register
    accesses.  What the line discipline relies on is \<open>tx_ready n\<close>, that a device which is busy is
    ready again after at most \<open>n\<close> polls of its status register.
  \<^item> \<open>Virtio\<close> (\<^verbatim>\<open>virtio_disk.c\<close>), \<open>File\<close> and \<open>Pipes\<close> (\<^verbatim>\<open>file.c\<close>, \<^verbatim>\<open>pipe.c\<close>), \<open>Exec\<close> (\<^verbatim>\<open>exec.c\<close>,
    \<^verbatim>\<open>syscall.c\<close>), \<open>Sysfile\<close> (\<^verbatim>\<open>sysfile.c\<close>), \<open>Trap\<close> (\<^verbatim>\<open>trap.c\<close>, \<^verbatim>\<open>plic.c\<close>, \<^verbatim>\<open>sysproc.c\<close>), \<open>Boot\<close>
    (\<^verbatim>\<open>start.c\<close>, \<^verbatim>\<open>main.c\<close>): models of the whole files; pipes are proved to be queues.
  \<^item> \<open>User\<close> (\<^verbatim>\<open>ulib.c\<close>), \<open>Uprintf\<close> and \<open>Numerals\<close> (\<^verbatim>\<open>user/printf.c\<close>): printed numbers fit their
    buffers and are read back.
  \<^item> \<open>Grep\<close> (\<^verbatim>\<open>grep.c\<close>): the matcher decides the language of the expression; the matching lines are
    printed however the input is cut.  \<open>Utils\<close>, \<open>Copies\<close>, \<open>Forks\<close>: the small programs, \<open>cat\<close> and
    \<open>wc\<close> on any stream, and \<open>primes\<close>, \<open>xargs\<close> and \<open>pingpong\<close> with their processes.
  \<^item> \<open>Sh\<close>, \<open>Shell\<close>, \<open>Shparse\<close>, \<open>Shrun\<close> (\<^verbatim>\<open>sh.c\<close>): the parser returns on every line with a
    well-formed command, printing and parsing is the identity, and the processes of a pipeline run
    with the right descriptors.
  \<^item> \<open>Umalloc\<close> (\<^verbatim>\<open>umalloc.c\<close>): blocks in use never overlap, no memory is lost, and both operations
    end, on any kernel that keeps the contract of \<open>sbrk\<close> (locale \<open>sbrk_kernel\<close>).

  \<^bold>\<open>Bounds of loops.\<close>  Loops over tables (\<open>NPROC\<close>, \<open>NBUF\<close>, \<open>NINODE\<close>, \<open>NUM\<close>) run once per entry;
  loops over lists threaded through a table have one turn more than the table has entries, enough
  for a list without repetition.  Loops over pages have \<open>VPAGES\<close> turns, all pages below \<open>MAXVA\<close>;
  loops over bytes one turn more than the bytes; \<open>namex\<close> one more than the length of the path, since
  each turn consumes a byte.  Loops that wait (\<open>waitM\<close>) have one turn per remaining interference,
  and each turn that does not end the wait consumes one: when the bound is reached the schedule is
  empty, and \<open>Stuck\<close> means the thread still waits.  The interrupt handler of the disk has
  \<open>2 ^ 16\<close> turns, the number of values of the 16-bit ring index.  The parser of the shell has
  \<open>4 * length line + 4\<close> levels, shown to be enough.  In user programs \<open>turns\<close> bounds the loops that
  the input controls, and the theorems say how many turns are enough.

  \<^bold>\<open>Where the model is coarser than the code.\<close>
  \<^item> These C \<open>int\<close> counters are unbounded integers: \<open>noff\<close> of a hart, \<open>nextpid\<close>, \<open>size\<close>, \<open>outstanding\<close> and
    the block count \<open>n\<close> of the log, the reference counts of inodes and open files.  Each is bounded in a
    running system by something far below \<open>2 ^ 31\<close> (nested locks, log blocks, descriptors of all
    processes), except \<open>nextpid\<close>, which wraps after \<open>2 ^ 31\<close> forks.  The block numbers of the log header are a
    function on indices, not an array of \<open>LOGSIZE\<close> entries; \<open>log_write\<close> checks the index against \<open>LOGSIZE\<close>
    as the code does.
  \<^item> \<open>disk_rw\<close>, which the buffer cache calls, is the contract of \<open>virtio_disk_rw\<close>: one transfer of one
    block.  The driver itself is modelled in \<open>Virtio\<close>; that it keeps the contract depends on the
    device and is not proved.
  \<^item> When \<open>either_copyin\<close> fails in the middle of a chunk, \<open>writei\<close> leaves the cached block as it was; the
    code may have stored a part of the chunk in the buffer, which it does not log.
  \<^item> The steps of \<open>lock_step\<close> are the memory accesses of \<open>acquire\<close> and \<open>release\<close> on the lock word and its
    owner; the two reads of \<open>holding\<close> are one step.
  \<^item> The argument array of \<open>xargs\<close> is a list without the bound \<open>MAXARG\<close>, a byte stored one past the end of
    its buffer has no effect, and its \<open>malloc\<close>, like that of the shell, succeeds.
  \<^item> \<open>world_kernel\<close>, on which \<open>Forks\<close> runs programs, is an idealised kernel: \<open>fork\<close>, \<open>close\<close>, \<open>wait\<close> and \<open>exec\<close>
    succeed, and the child runs first.

  \<^bold>\<open>Not modelled.\<close>
  \<^item> Assembly (\<^verbatim>\<open>entry.S\<close>, \<^verbatim>\<open>swtch.S\<close>, \<^verbatim>\<open>trampoline.S\<close>, \<^verbatim>\<open>kernelvec.S\<close>, \<^verbatim>\<open>initcode.S\<close>, and the stubs
    \<^verbatim>\<open>usys.pl\<close> generates): register-level code.  A context switch is a point where the schedule
    acts; a system call is a constructor of \<open>call\<close>.
  \<^item> The test programs \<^verbatim>\<open>usertests.c\<close>, \<^verbatim>\<open>grind.c\<close>, \<^verbatim>\<open>forktest.c\<close>, \<^verbatim>\<open>stressfs.c\<close>: they exercise the
    running system and have no operations of their own.
  \<^item> \<^verbatim>\<open>mkfs.c\<close> runs on the host, before the system does; the formats it writes are those of \<open>Fs\<close>.
  \<^item> \<^verbatim>\<open>ramdisk.c\<close> is not part of the build.
  \<^item> Weak memory, caches and the TLB: the steps of a hart are sequential, so fences and
    \<open>sfence_vma\<close> order nothing.
  \<^item> Two user programs at once: \<open>Forks\<close> runs a child to its end before the parent goes on, which
    is one of the orders the kernel allows.
\<close>

end
